(* ===== verification/Caudium_Prelude.thy ===== *)
theory Caudium_Prelude
  imports Main "HOL-Library.AList" "HOL-Library.Word"
begin

text \<open>
  Shared vocabulary of the development: bytes and C strings, errors as values, Pike's
  mappings as the C modules use them, and the list facts the components share.

  A byte of the C code is a HOL \<^typ>\<open>char\<close> (exactly the 256 byte values); a
  \<^verbatim>\<open>struct pike_string\<close> is the list of its \<^verbatim>\<open>len\<close> bytes. Pike terminates every string by
  a zero byte that \<^verbatim>\<open>len\<close> does not count, which \<open>byte_at\<close> makes readable.
\<close>

unbundle bit_operations_syntax

named_theorems bytes_simp \<open>evaluation of byte and C-string operations\<close>

section \<open>Bytes and C strings\<close>

abbreviation NUL :: char where "NUL \<equiv> CHR 0x00"
abbreviation LF :: char where "LF \<equiv> CHR 0x0A"
abbreviation CR :: char where "CR \<equiv> CHR 0x0D"
abbreviation SP :: char where "SP \<equiv> CHR 0x20"

abbreviation code_of :: "char \<Rightarrow> nat" where "code_of c \<equiv> of_char c"

text \<open>A byte read through a (signed) \<^verbatim>\<open>char\<close>.\<close>

definition schar :: "char \<Rightarrow> int" where
  "schar c = (if code_of c < 128 then int (code_of c) else int (code_of c) - 256)"

text \<open>What \<^verbatim>\<open>make_shared_string\<close>, \<^verbatim>\<open>strlen\<close> and \<^verbatim>\<open>for (; *i; i++)\<close> see of a string.\<close>

definition cstr :: "string \<Rightarrow> string" where
  "cstr s = takeWhile (\<lambda>c. c \<noteq> NUL) s"

text \<open>Reading byte \<open>i\<close> of a Pike string: its last readable byte is the terminating zero.\<close>

definition byte_at :: "string \<Rightarrow> nat \<Rightarrow> char" where
  "byte_at s i = (if i < length s then s ! i else NUL)"

text \<open>\<open>make_shared_binary_string(s + i, n)\<close>.\<close>

definition substr :: "string \<Rightarrow> nat \<Rightarrow> nat \<Rightarrow> string" where
  "substr s i n = take n (drop i s)"

text \<open>The loop \<^verbatim>\<open>*p |= 32\<close> on capital letters.\<close>

definition lower_byte :: "char \<Rightarrow> char" where
  "lower_byte c =
     (if code_of (CHR ''A'') \<le> code_of c \<and> code_of c \<le> code_of (CHR ''Z'')
      then char_of (code_of c OR 32) else c)"

lemma cstr_Nil [simp]: "cstr [] = []"
  by (simp add: cstr_def)

lemma cstr_Cons [simp]: "cstr (c # s) = (if c = NUL then [] else c # cstr s)"
  by (simp add: cstr_def)

lemma cstr_id: "NUL \<notin> set s \<Longrightarrow> cstr s = s"
  by (simp add: cstr_def takeWhile_eq_all_conv) auto

lemma cstr_append: "NUL \<notin> set s \<Longrightarrow> cstr (s @ t) = s @ cstr t"
  by (induction s) auto

lemma cstr_until_NUL: "cstr (s @ NUL # t) = cstr s"
  by (induction s) auto

lemma cstr_no_NUL: "NUL \<notin> set (cstr s)"
  by (induction s) auto

lemma length_cstr_le: "length (cstr s) \<le> length s"
  by (simp add: cstr_def length_takeWhile_le)

lemma cstr_set: "c \<in> set (cstr s) \<Longrightarrow> c \<in> set s"
  by (auto simp: cstr_def dest: set_takeWhileD)

lemma substr_0 [simp]: "substr s 0 n = take n s"
  by (simp add: substr_def)

lemma length_substr: "length (substr s i n) = min n (length s - i)"
  by (simp add: substr_def)

lemma bit_one_nat [bytes_simp]: "bit (Suc 0) n \<longleftrightarrow> n = 0"
  by (simp add: bit_Suc_0_iff)

declare char_of_def [bytes_simp] cstr_def [bytes_simp] lower_byte_def [bytes_simp]

lemma code_of_less [simp]: "code_of c < 256"
  by (metis of_char_mod_256 mod_less_divisor zero_less_numeral)

section \<open>Errors as values\<close>

text \<open>
  \<^verbatim>\<open>Pike_error\<close> raises a Pike exception with a message; \<open>Out_of_bounds\<close> stands for an access
  outside the object the pointer belongs to, which C leaves undefined.
\<close>

datatype cerror = Pike_error string | Out_of_bounds

type_synonym 'a res = "cerror + 'a"

definition bind_res :: "'a res \<Rightarrow> ('a \<Rightarrow> 'b res) \<Rightarrow> 'b res" where
  "bind_res r f = (case r of Inl e \<Rightarrow> Inl e | Inr a \<Rightarrow> f a)"

lemma bind_res_simps [simp]: "bind_res (Inl e) f = Inl e" "bind_res (Inr a) f = f a"
  by (simp_all add: bind_res_def)

lemma bind_res_Inr: "bind_res r f = Inr b \<longleftrightarrow> (\<exists>a. r = Inr a \<and> f a = Inr b)"
  by (cases r) auto

text \<open>A loop over a list that an error leaves.\<close>

fun fold_res :: "('a \<Rightarrow> 's \<Rightarrow> 's res) \<Rightarrow> 'a list \<Rightarrow> 's \<Rightarrow> 's res" where
  "fold_res f [] s = Inr s"
| "fold_res f (x # xs) s = bind_res (f x s) (fold_res f xs)"

lemma fold_res_append: "fold_res f (xs @ ys) s = bind_res (fold_res f xs s) (fold_res f ys)"
  by (induction xs arbitrary: s) (auto simp: bind_res_def split: sum.splits)

lemma fold_res_returns:
  "(\<And>x s. x \<in> set xs \<Longrightarrow> I s \<Longrightarrow> \<exists>s'. f x s = Inr s' \<and> I s') \<Longrightarrow> I s \<Longrightarrow> \<exists>s'. fold_res f xs s = Inr s' \<and> I s'"
proof (induction xs arbitrary: s)
  case (Cons x xs)
  then obtain s' where "f x s = Inr s'" "I s'" by (meson list.set_intros(1))
  with Cons show ?case by simp
qed simp

lemma fold_res_keeps:
  "(\<And>x s s'. x \<in> set xs \<Longrightarrow> I s \<Longrightarrow> f x s = Inr s' \<Longrightarrow> I s') \<Longrightarrow> I s \<Longrightarrow> fold_res f xs s = Inr s' \<Longrightarrow> I s'"
proof (induction xs arbitrary: s)
  case (Cons x xs)
  then obtain t where "f x s = Inr t" "fold_res f xs t = Inr s'" by (auto simp: bind_res_Inr)
  with Cons show ?case by (meson list.set_intros)
qed simp

text \<open>What each round adds to a measure adds up.\<close>

lemma fold_res_sum:
  fixes \<mu> :: "'s \<Rightarrow> 'n :: comm_monoid_add"
  shows "(\<And>x s s'. x \<in> set xs \<Longrightarrow> f x s = Inr s' \<Longrightarrow> \<mu> s' = \<mu> s + w x) \<Longrightarrow> fold_res f xs s = Inr s' \<Longrightarrow>
    \<mu> s' = \<mu> s + (\<Sum>x \<leftarrow> xs. w x)"
proof (induction xs arbitrary: s)
  case (Cons x xs)
  then obtain t where t: "f x s = Inr t" "fold_res f xs t = Inr s'" by (auto simp: bind_res_Inr)
  have "\<mu> s' = \<mu> t + (\<Sum>x \<leftarrow> xs. w x)" using t(2) Cons.prems(1) by (intro Cons.IH) auto
  then show ?case using Cons.prems(1) [OF _ t(1)] by (simp add: add.assoc)
qed simp

section \<open>Machine integers\<close>

text \<open>The value of a signed \<^verbatim>\<open>int\<close> of 32 bits after an operation that wraps around.\<close>

definition wrap32 :: "int \<Rightarrow> int" where
  "wrap32 i = (i + 2 ^ 31) mod 2 ^ 32 - 2 ^ 31"

lemma wrap32_id [simp]: "- (2 ^ 31) \<le> i \<Longrightarrow> i < 2 ^ 31 \<Longrightarrow> wrap32 i = i"
  by (simp add: wrap32_def)

text \<open>C division truncates.\<close>

definition cdiv :: "int \<Rightarrow> int \<Rightarrow> int" where
  "cdiv a b = (if a < 0 then - ((- a) div b) else a div b)"

definition cmod :: "int \<Rightarrow> int \<Rightarrow> int" where
  "cmod a b = a - b * cdiv a b"

section \<open>Pike values and mappings\<close>

text \<open>The Pike values the modules distinguish by their type tag.\<close>

datatype svalue = SString string | SInt int | SOther nat

text \<open>
  A Pike mapping is its list of key/value pairs in the order \<^verbatim>\<open>MY_MAPPING_LOOP\<close> visits them;
  the order is Pike's hash order, on which no statement depends.
\<close>

type_synonym ('k, 'v) pmap = "('k \<times> 'v) list"

definition mapping_lookup :: "('k, 'v) pmap \<Rightarrow> 'k \<Rightarrow> 'v option" where
  "mapping_lookup m k = map_of m k"

definition mapping_insert :: "('k, 'v) pmap \<Rightarrow> 'k \<Rightarrow> 'v \<Rightarrow> ('k, 'v) pmap" where
  "mapping_insert m k v = AList.update k v m"

definition mapping_ok :: "('k, 'v) pmap \<Rightarrow> bool" where
  "mapping_ok m \<longleftrightarrow> distinct (map fst m)"

lemma mapping_lookup_Nil [simp]: "mapping_lookup [] k = None"
  by (simp add: mapping_lookup_def)

lemma mapping_lookup_insert [simp]:
  "mapping_lookup (mapping_insert m k v) k' = (if k' = k then Some v else mapping_lookup m k')"
  by (simp add: mapping_lookup_def mapping_insert_def update_conv')

lemma mapping_ok_Nil [simp]: "mapping_ok []"
  by (simp add: mapping_ok_def)

lemma mapping_ok_insert [simp]: "mapping_ok m \<Longrightarrow> mapping_ok (mapping_insert m k v)"
  by (simp add: mapping_ok_def mapping_insert_def distinct_update)

subsection \<open>The interface of a keyed store\<close>

text \<open>
  What the modules rely on when they fill a mapping: a lookup sees the last value inserted
  under its key and no other key changes.
\<close>

locale keyed_store =
  fixes lookup :: "'m \<Rightarrow> 'k \<Rightarrow> 'v option"
    and insert :: "'m \<Rightarrow> 'k \<Rightarrow> 'v \<Rightarrow> 'm"
  assumes lookup_insert: "lookup (insert m k v) k' = (if k' = k then Some v else lookup m k')"
begin

lemma lookup_foldl_notin:
  "k \<notin> fst ` set kvs \<Longrightarrow> lookup (foldl (\<lambda>m (k, v). insert m k v) m kvs) k = lookup m k"
  by (induction kvs arbitrary: m) (auto simp: lookup_insert)

lemma lookup_foldl:
  "distinct (map fst kvs) \<Longrightarrow> (k, v) \<in> set kvs \<Longrightarrow>
     lookup (foldl (\<lambda>m (k, v). insert m k v) m kvs) k = Some v"
proof (induction kvs arbitrary: m)
  case Nil
  then show ?case by simp
next
  case (Cons kv kvs)
  show ?case
  proof (cases "kv = (k, v)")
    case True
    with Cons.prems have "k \<notin> fst ` set kvs" by auto
    with True show ?thesis by (simp add: lookup_foldl_notin lookup_insert)
  next
    case False
    with Cons.prems have "(k, v) \<in> set kvs" "distinct (map fst kvs)" by auto
    then show ?thesis by (cases kv) (simp add: Cons.IH)
  qed
qed

end

interpretation pike_store: keyed_store mapping_lookup mapping_insert
  by unfold_locales simp

subsection \<open>The interface of a table of counters\<close>

text \<open>
  Adding to a counter changes that counter and the grand total by the amount and no other counter;
  what a loop of such additions does to a table follows for every way to choose the keys.
\<close>

locale accumulator =
  fixes count :: "'m \<Rightarrow> 'k \<Rightarrow> 'n :: comm_monoid_add"
    and add :: "'m \<Rightarrow> 'k \<Rightarrow> 'n \<Rightarrow> 'm"
    and grand :: "'m \<Rightarrow> 'n"
  assumes count_add: "count (add m k n) k' = count m k' + (if k' = k then n else 0)"
    and grand_add: "grand (add m k n) = grand m + n"
begin

lemma count_foldl:
  "count (foldl (\<lambda>m x. add m (f x) (w x)) m xs) k = count m k + (\<Sum>x \<leftarrow> xs. if f x = k then w x else 0)"
  by (induction xs arbitrary: m) (auto simp: count_add add.assoc)

lemma grand_foldl: "grand (foldl (\<lambda>m x. add m (f x) (w x)) m xs) = grand m + (\<Sum>x \<leftarrow> xs. w x)"
  by (induction xs arbitrary: m) (auto simp: grand_add add.assoc)

end

section \<open>Steps that use something up\<close>

text \<open>A step that is repeated until it is over, with something each step before the end makes less of.\<close>

locale draining =
  fixes step :: "'s \<Rightarrow> 's" and over :: "'s \<Rightarrow> 's \<Rightarrow> bool" and good :: "'s \<Rightarrow> bool" and left :: "'s \<Rightarrow> nat"
  assumes step_drains: "good s \<Longrightarrow> over s (step s) \<or> (good (step s) \<and> left (step s) < left s)"
    and over_before: "good s \<Longrightarrow> good (step s) \<Longrightarrow> over (step s) t \<Longrightarrow> over s t"
begin

lemma drained: "good s \<Longrightarrow> \<exists>n \<le> left s. over s ((step ^^ Suc n) s)"
proof (induction "left s" arbitrary: s rule: less_induct)
  case less
  show ?case
  proof (cases "over s (step s)")
    case True
    then show ?thesis by (intro exI [of _ 0]) simp
  next
    case False
    then have t: "good (step s)" "left (step s) < left s" using step_drains [OF less.prems] by auto
    then obtain n where n: "n \<le> left (step s)" "over (step s) ((step ^^ Suc n) (step s))" using less.hyps by blast
    then have "over s ((step ^^ Suc (Suc n)) s)"
      using over_before [OF less.prems t(1)] by (simp add: funpow_swap1)
    moreover have "Suc n \<le> left s" using n(1) t(2) by simp
    ultimately show ?thesis by blast
  qed
qed

end

section \<open>Shared list facts\<close>

lemma take_Suc_update:
  "i < length xs \<Longrightarrow> take (Suc i) (xs[i := x]) = take i xs @ [x]"
  by (simp add: take_Suc_conv_app_nth)

lemma drop_update_earlier: "i < n \<Longrightarrow> drop n (xs[i := x]) = drop n xs"
  by (rule drop_update_cancel)

lemma takeWhile_stop:
  "(\<And>x. x \<in> set xs \<Longrightarrow> P x) \<Longrightarrow> \<not> P y \<Longrightarrow> takeWhile P (xs @ y # ys) = xs"
  by (induction xs) auto

lemma take_length_takeWhile: "take (length (takeWhile P xs)) xs = takeWhile P xs"
  by (induction xs) auto

lemma length_takeWhile_less:
  "\<exists>x \<in> set xs. \<not> P x \<Longrightarrow> length (takeWhile P xs) < length xs"
  by (induction xs) auto

end
