(* ===== verification/Scratchpad.thy ===== *)
theory Scratchpad
  imports Caudium_Prelude
begin

text \<open>
  The per-thread scratch buffer of \<^verbatim>\<open>src/cmods/_Caudium/scratchpad.c\<close> and \<^verbatim>\<open>scratchpad.h\<close>, which
  every string routine of \<^verbatim>\<open>caudium.c\<close> works in. The state is what \<^verbatim>\<open>pthread_getspecific\<close>
  returns (no pad yet, or a pad) and the flag \<^verbatim>\<open>__scratchpad_initialized\<close>. Beside the
  fields of the C struct a pad records how many bytes its \<^verbatim>\<open>buf\<close> was really allocated with;
  the C code tracks that only through \<^verbatim>\<open>buf_size\<close>, and the safety of the clients is the
  statement that \<^verbatim>\<open>buf_size\<close> never exceeds it.
\<close>

section \<open>State\<close>

definition SPAD_MAX_SIZE :: nat where "SPAD_MAX_SIZE = 1024 * 1024 * 32"
definition SPAD_INIT_SIZE :: nat where "SPAD_INIT_SIZE = 1024 * 32"
definition SPAD_GROWTH_FACTOR :: nat where "SPAD_GROWTH_FACTOR = 1"

record scratchpad =
  buf_alloc :: nat
  buf_size :: nat
  buf_max :: nat
  buf_growth_factor :: nat

record spad_state =
  scratch_key :: "scratchpad option"
  scratchpad_initialized :: bool

definition spad_start :: spad_state where
  "spad_start = \<lparr>scratch_key = None, scratchpad_initialized = False\<rparr>"

text \<open>A \<^verbatim>\<open>size_t\<close> is 64 bits wide; \<^verbatim>\<open>x << k\<close> drops what does not fit.\<close>

definition size_t_shl :: "nat \<Rightarrow> nat \<Rightarrow> nat" where
  "size_t_shl x k = push_bit k x mod 2 ^ 64"

section \<open>Operations\<close>

text \<open>\<open>malloc_ok n\<close> says whether an allocation of \<open>n\<close> bytes succeeds.\<close>

definition scratchpad_allocate ::
  "(nat \<Rightarrow> bool) \<Rightarrow> nat \<Rightarrow> nat \<Rightarrow> nat \<Rightarrow> scratchpad res" where
  "scratchpad_allocate malloc_ok max_size init_size growth_factor =
     (if \<not> malloc_ok 32 then Inl (Pike_error ''Error allocating the scratchpad'')
      else if \<not> malloc_ok init_size
      then Inl (Pike_error ''Error allocating the scratchpad buffer'')
      else Inr \<lparr>buf_alloc = init_size,
                buf_size = (if init_size > max_size then max_size else init_size),
                buf_max = max_size, buf_growth_factor = growth_factor\<rparr>)"

definition scratchpad_init ::
  "(nat \<Rightarrow> bool) \<Rightarrow> nat \<Rightarrow> nat \<Rightarrow> nat \<Rightarrow> spad_state \<Rightarrow> spad_state \<times> unit res" where
  "scratchpad_init malloc_ok max_size init_size growth_factor st =
     (case scratchpad_allocate malloc_ok max_size
             (if init_size < SPAD_INIT_SIZE then SPAD_INIT_SIZE else init_size) growth_factor of
        Inl e \<Rightarrow> (st, Inl e)
      | Inr spad \<Rightarrow> (\<lparr>scratch_key = Some spad, scratchpad_initialized = True\<rparr>, Inr ()))"

text \<open>
  The loop of \<^verbatim>\<open>scratchpad_grow\<close>: the new \<^verbatim>\<open>buf_size\<close> and whether it reached the wanted
  size (\<^verbatim>\<open>return -2\<close> leaves the loop with the size grown so far). A growth factor of 0 never
  ends it.
\<close>

partial_function (option) grow_loop ::
  "nat \<Rightarrow> nat \<Rightarrow> nat \<Rightarrow> nat \<Rightarrow> (nat \<times> bool) option" where
  "grow_loop growth_factor max_size wanted_size sz =
     (if sz < wanted_size
      then if size_t_shl sz growth_factor > max_size then Some (sz, False)
           else grow_loop growth_factor max_size wanted_size (size_t_shl sz growth_factor)
      else Some (sz, True))"

text \<open>
  \<^verbatim>\<open>scratchpad_grow\<close> on the pad in place: the pad it leaves behind, and its return code or the
  error raised when \<^verbatim>\<open>malloc\<close> fails (\<^verbatim>\<open>buf\<close> is freed and NULL by then).
\<close>

definition scratchpad_grow ::
  "(nat \<Rightarrow> bool) \<Rightarrow> scratchpad \<Rightarrow> nat \<Rightarrow> (scratchpad \<times> int res) option" where
  "scratchpad_grow malloc_ok spad wanted_size =
     map_option
       (\<lambda>(sz, reached).
          if \<not> reached then (spad\<lparr>buf_size := sz\<rparr>, Inr (- 2))
          else if \<not> malloc_ok sz
          then (spad\<lparr>buf_size := sz, buf_alloc := 0\<rparr>,
                Inl (Pike_error ''Out of memory growing the scratchpad buffer''))
          else (spad\<lparr>buf_size := sz, buf_alloc := sz\<rparr>, Inr 0))
       (grow_loop (buf_growth_factor spad) (buf_max spad) wanted_size (buf_size spad))"

text \<open>
  \<^verbatim>\<open>scratchpad_get\<close>: the buffer it returns is described by the number of bytes behind it.
\<close>

definition scratchpad_get ::
  "(nat \<Rightarrow> bool) \<Rightarrow> spad_state \<Rightarrow> nat \<Rightarrow> (spad_state \<times> nat res) option" where
  "scratchpad_get malloc_ok st wanted_size =
     (if scratch_key st = None \<or> \<not> scratchpad_initialized st then
        (case scratchpad_init malloc_ok SPAD_MAX_SIZE wanted_size SPAD_GROWTH_FACTOR st of
           (st', Inl e) \<Rightarrow> Some (st', Inl e)
         | (st', Inr _) \<Rightarrow> Some (st', Inr (buf_alloc (the (scratch_key st')))))
      else
        (let spad = the (scratch_key st) in
         if buf_size spad < wanted_size then
           map_option
             (\<lambda>(spad', r).
                (st\<lparr>scratch_key := Some spad'\<rparr>,
                 case r of
                   Inl e \<Rightarrow> Inl e
                 | Inr c \<Rightarrow>
                     if c = - 2
                     then Inl (Pike_error ''Wanted size exceeds the maximum scratchpad size'')
                     else Inr (buf_alloc spad')))
             (scratchpad_grow malloc_ok spad wanted_size)
         else Some (st, Inr (buf_alloc spad))))"

text \<open>\<^verbatim>\<open>scratchpad_done\<close>, also run by the thread's destructor.\<close>

definition scratchpad_done :: "scratchpad option \<Rightarrow> scratchpad option" where
  "scratchpad_done spad =
     map_option (\<lambda>s. if buf_alloc s = 0 then s else s\<lparr>buf_alloc := 0, buf_size := 0, buf_max := 0\<rparr>) spad"

definition scratchpad_destroy :: "spad_state \<Rightarrow> spad_state" where
  "scratchpad_destroy st = st\<lparr>scratch_key := None\<rparr>"

section \<open>The contract of the scratch buffer\<close>

text \<open>
  What a client needs: a request that returns yields a buffer with room for the size it
  asked for, and the state stays usable.
\<close>

locale scratch_buffer =
  fixes get :: "'s \<Rightarrow> nat \<Rightarrow> ('s \<times> nat res) option"
    and usable :: "'s \<Rightarrow> bool"
  assumes get_returns: "usable s \<Longrightarrow> get s n \<noteq> None"
    and get_room: "usable s \<Longrightarrow> get s n = Some (s', Inr cap) \<Longrightarrow> n \<le> cap"
    and get_usable: "usable s \<Longrightarrow> get s n = Some (s', Inr cap) \<Longrightarrow> usable s'"
begin

lemma write_fits:
  "usable s \<Longrightarrow> get s n = Some (s', Inr cap) \<Longrightarrow> k < n \<Longrightarrow> k < cap"
  using get_room by fastforce

text \<open>Two requests in a row, as a caller that calls another string routine makes.\<close>

lemma get_twice:
  "usable s \<Longrightarrow> get s n = Some (s', Inr cap) \<Longrightarrow> get s' m = Some (s'', Inr cap') \<Longrightarrow>
     m \<le> cap' \<and> usable s''"
  using get_room get_usable by blast

end

section \<open>Correctness\<close>

definition pad_ok :: "scratchpad \<Rightarrow> bool" where
  "pad_ok s \<longleftrightarrow> 0 < buf_size s \<and> buf_size s \<le> buf_alloc s \<and> buf_size s \<le> SPAD_MAX_SIZE \<and>
     buf_max s = SPAD_MAX_SIZE \<and> buf_growth_factor s = SPAD_GROWTH_FACTOR"

definition spad_ok :: "spad_state \<Rightarrow> bool" where
  "spad_ok st \<longleftrightarrow> (\<forall>s. scratch_key st = Some s \<longrightarrow> pad_ok s)"

lemma size_t_shl_double: "sz \<le> SPAD_MAX_SIZE \<Longrightarrow> size_t_shl sz SPAD_GROWTH_FACTOR = 2 * sz"
  by (simp add: size_t_shl_def SPAD_MAX_SIZE_def SPAD_GROWTH_FACTOR_def push_bit_eq_mult)

text \<open>The loop ends, never past the maximum, and reaches the wanted size unless it gives up.\<close>

lemma grow_loop_ends:
  assumes "0 < sz" "sz \<le> SPAD_MAX_SIZE"
  shows "\<exists>sz' r. grow_loop SPAD_GROWTH_FACTOR SPAD_MAX_SIZE wanted sz = Some (sz', r) \<and>
           sz \<le> sz' \<and> sz' \<le> SPAD_MAX_SIZE \<and> (r \<longrightarrow> wanted \<le> sz') \<and>
           (\<not> r \<longrightarrow> sz' < wanted \<and> SPAD_MAX_SIZE < 2 * sz')"
  using assms
proof (induction "wanted - sz" arbitrary: sz rule: less_induct)
  case less
  show ?case
  proof (cases "sz < wanted \<and> 2 * sz \<le> SPAD_MAX_SIZE")
    case True
    have "\<exists>sz' r. grow_loop SPAD_GROWTH_FACTOR SPAD_MAX_SIZE wanted (2 * sz) = Some (sz', r) \<and>
           2 * sz \<le> sz' \<and> sz' \<le> SPAD_MAX_SIZE \<and> (r \<longrightarrow> wanted \<le> sz') \<and>
           (\<not> r \<longrightarrow> sz' < wanted \<and> SPAD_MAX_SIZE < 2 * sz')"
      using less True by (intro less.hyps) auto
    with True less.prems show ?thesis
      by (auto simp: grow_loop.simps [of _ _ wanted sz] size_t_shl_double)
  next
    case False
    with less.prems show ?thesis
      by (auto simp: grow_loop.simps [of _ _ wanted sz] size_t_shl_double)
  qed
qed

lemma spad_ok_start: "spad_ok spad_start"
  by (simp add: spad_ok_def spad_start_def)

lemma scratchpad_init_ok:
  assumes "scratchpad_init malloc_ok SPAD_MAX_SIZE n SPAD_GROWTH_FACTOR st = (st', Inr u)"
  shows "n \<le> buf_alloc (the (scratch_key st')) \<and> spad_ok st'"
proof -
  let ?n = "if n < SPAD_INIT_SIZE then SPAD_INIT_SIZE else n"
  from assms obtain spad where
    spad: "scratchpad_allocate malloc_ok SPAD_MAX_SIZE ?n SPAD_GROWTH_FACTOR = Inr spad"
    and st': "st' = \<lparr>scratch_key = Some spad, scratchpad_initialized = True\<rparr>"
    by (simp add: scratchpad_init_def split: sum.splits)
  from spad have "spad = \<lparr>buf_alloc = ?n, buf_size = (if ?n > SPAD_MAX_SIZE then SPAD_MAX_SIZE else ?n),
      buf_max = SPAD_MAX_SIZE, buf_growth_factor = SPAD_GROWTH_FACTOR\<rparr>"
    by (simp only: scratchpad_allocate_def split: if_splits) simp_all
  then have "n \<le> buf_alloc spad \<and> pad_ok spad"
    by (simp add: pad_ok_def SPAD_MAX_SIZE_def SPAD_INIT_SIZE_def)
  with st' show ?thesis by (simp add: spad_ok_def)
qed

lemma scratchpad_get_fresh:
  assumes "scratch_key st = None \<or> \<not> scratchpad_initialized st"
  shows "\<exists>st' r. scratchpad_get malloc_ok st n = Some (st', r) \<and>
           (\<forall>cap. r = Inr cap \<longrightarrow> n \<le> cap \<and> spad_ok st')"
proof -
  obtain st' r where init:
    "scratchpad_init malloc_ok SPAD_MAX_SIZE n SPAD_GROWTH_FACTOR st = (st', r)"
    by fastforce
  show ?thesis
  proof (cases r)
    case (Inl e)
    with assms init show ?thesis by (simp add: scratchpad_get_def)
  next
    case (Inr u)
    with init have "n \<le> buf_alloc (the (scratch_key st')) \<and> spad_ok st'"
      by (intro scratchpad_init_ok) simp
    with Inr assms init show ?thesis by (simp add: scratchpad_get_def)
  qed
qed

lemma scratchpad_get_live:
  assumes ok: "pad_ok s" and st: "scratch_key st = Some s" "scratchpad_initialized st"
  shows "\<exists>st' r. scratchpad_get malloc_ok st n = Some (st', r) \<and>
           (\<forall>cap. r = Inr cap \<longrightarrow> n \<le> cap \<and> spad_ok st')"
proof (cases "buf_size s < n")
  case False
  with ok st show ?thesis
    by (simp add: scratchpad_get_def spad_ok_def pad_ok_def)
next
  case small: True
  from ok have s: "0 < buf_size s" "buf_size s \<le> SPAD_MAX_SIZE"
    "buf_max s = SPAD_MAX_SIZE" "buf_growth_factor s = SPAD_GROWTH_FACTOR"
    by (simp_all add: pad_ok_def)
  from grow_loop_ends [OF s(1,2), of n] obtain sz r where
    loop: "grow_loop SPAD_GROWTH_FACTOR SPAD_MAX_SIZE n (buf_size s) = Some (sz, r)"
    and sz: "buf_size s \<le> sz" "sz \<le> SPAD_MAX_SIZE" "r \<longrightarrow> n \<le> sz"
    by blast
  have grow: "scratchpad_grow malloc_ok s n =
      Some (if \<not> r then (s\<lparr>buf_size := sz\<rparr>, Inr (- 2))
            else if \<not> malloc_ok sz then (s\<lparr>buf_size := sz, buf_alloc := 0\<rparr>,
                 Inl (Pike_error ''Out of memory growing the scratchpad buffer''))
            else (s\<lparr>buf_size := sz, buf_alloc := sz\<rparr>, Inr 0))"
    by (simp add: scratchpad_grow_def s loop)
  have get: "scratchpad_get malloc_ok st n =
      (let (spad', c) = the (scratchpad_grow malloc_ok s n) in
       Some (st\<lparr>scratch_key := Some spad'\<rparr>,
         case c of Inl e \<Rightarrow> Inl e
         | Inr c \<Rightarrow> if c = - 2
             then Inl (Pike_error ''Wanted size exceeds the maximum scratchpad size'')
             else Inr (buf_alloc spad')))"
    using small st by (simp add: scratchpad_get_def grow)
  show ?thesis
  proof (cases "r \<and> malloc_ok sz")
    case True
    with sz s have "n \<le> sz" "pad_ok (s\<lparr>buf_size := sz, buf_alloc := sz\<rparr>)"
      by (simp_all add: pad_ok_def)
    with True show ?thesis by (simp add: get grow spad_ok_def)
  next
    case False
    then show ?thesis by (auto simp: get grow)
  qed
qed

lemma scratchpad_get_total:
  assumes "spad_ok st"
  obtains st' r where "scratchpad_get malloc_ok st n = Some (st', r)"
    "\<And>cap. r = Inr cap \<Longrightarrow> n \<le> cap \<and> spad_ok st'"
proof (cases "scratch_key st = None \<or> \<not> scratchpad_initialized st")
  case True
  then show ?thesis
    using that scratchpad_get_fresh [OF True, of malloc_ok n] by blast
next
  case False
  then obtain s where "scratch_key st = Some s" "scratchpad_initialized st" by auto
  with assms show ?thesis
    using that scratchpad_get_live [of s st malloc_ok n] by (auto simp: spad_ok_def)
qed

interpretation spad: scratch_buffer "scratchpad_get malloc_ok" spad_ok for malloc_ok
proof unfold_locales
  fix st n
  assume ok: "spad_ok st"
  show "scratchpad_get malloc_ok st n \<noteq> None"
    by (rule scratchpad_get_total [OF ok, of malloc_ok n]) simp
  fix st' cap
  assume get: "scratchpad_get malloc_ok st n = Some (st', Inr cap)"
  show "n \<le> cap" "spad_ok st'"
    by (rule scratchpad_get_total [OF ok, of malloc_ok n], simp add: get)+
qed

lemma scratchpad_init_error:
  "scratchpad_init malloc_ok m n g st = (st', Inl e) \<Longrightarrow> e \<noteq> Out_of_bounds"
  by (auto simp: scratchpad_init_def scratchpad_allocate_def split: sum.splits if_splits)

lemma scratchpad_grow_error:
  "scratchpad_grow malloc_ok s n = Some (s', Inl e) \<Longrightarrow> e \<noteq> Out_of_bounds"
  by (auto simp: scratchpad_grow_def split: if_splits)

lemma spad_error:
  assumes "scratchpad_get malloc_ok st n = Some (st', Inl e)"
  shows "e \<noteq> Out_of_bounds"
proof (cases "scratch_key st = None \<or> \<not> scratchpad_initialized st")
  case True
  with assms show ?thesis
    by (auto simp: scratchpad_get_def dest: scratchpad_init_error split: prod.splits sum.splits)
next
  case False
  with assms obtain s' r where
    "scratchpad_grow malloc_ok (the (scratch_key st)) n = Some (s', r)"
    "(case r of Inl e \<Rightarrow> Inl e
      | Inr c \<Rightarrow> if c = - 2 then Inl (Pike_error ''Wanted size exceeds the maximum scratchpad size'')
                 else Inr (buf_alloc s')) = Inl e"
    by (auto simp: scratchpad_get_def Let_def split: if_splits)
  then show ?thesis
    by (auto dest: scratchpad_grow_error split: sum.splits if_splits)
qed

section \<open>Properties\<close>

text \<open>A pad that has room for requests of \<open>n\<close> bytes, or a thread without one that can get it, has room for all of them.\<close>

definition pad_has_room :: "(nat \<Rightarrow> bool) \<Rightarrow> spad_state \<Rightarrow> nat \<Rightarrow> bool" where
  "pad_has_room malloc_ok st n \<longleftrightarrow>
     (if scratch_key st = None \<or> \<not> scratchpad_initialized st
      then n \<le> SPAD_INIT_SIZE \<and> malloc_ok 32 \<and> malloc_ok SPAD_INIT_SIZE
      else n \<le> buf_size (the (scratch_key st)))"

lemma pad_has_room_get:
  assumes "spad_ok st" "pad_has_room malloc_ok st m" "n \<le> m"
  shows "\<exists>st' cap. scratchpad_get malloc_ok st n = Some (st', Inr cap) \<and> m \<le> cap \<and> pad_has_room malloc_ok st' m"
proof (cases "scratch_key st = None \<or> \<not> scratchpad_initialized st")
  case True
  then have m: "m \<le> SPAD_INIT_SIZE" "malloc_ok 32" "malloc_ok SPAD_INIT_SIZE" using assms(2) by (auto simp: pad_has_room_def)
  have "(if n < SPAD_INIT_SIZE then SPAD_INIT_SIZE else n) = SPAD_INIT_SIZE" using m(1) assms(3) by simp
  moreover have "\<not> SPAD_INIT_SIZE > SPAD_MAX_SIZE" by (simp add: SPAD_INIT_SIZE_def SPAD_MAX_SIZE_def)
  ultimately show ?thesis using True m by (auto simp: scratchpad_get_def scratchpad_init_def scratchpad_allocate_def pad_has_room_def)
next
  case False
  then have "pad_ok (the (scratch_key st))" using assms(1) by (auto simp: spad_ok_def)
  then show ?thesis using assms(2,3) False by (auto simp: pad_has_room_def scratchpad_get_def Let_def pad_ok_def)
qed

text \<open>
  C26. \<^verbatim>\<open>scratchpad_get\<close> always returns, and when it does not raise, the buffer it hands out
  has room for the size asked for and the pad stays sound (its \<^verbatim>\<open>buf_size\<close> never claims more
  than was allocated), whatever \<^verbatim>\<open>malloc\<close> does.
\<close>

theorem scratchpad_get_room:
  assumes "spad_ok st"
  shows "\<exists>st' r. scratchpad_get malloc_ok st n = Some (st', r) \<and>
           (\<forall>cap. r = Inr cap \<longrightarrow> n \<le> cap \<and> spad_ok st')"
  by (rule scratchpad_get_total [OF assms, of malloc_ok n]) blast

theorem scratchpad_get_room_witness:
  "\<exists>st' r. scratchpad_get (\<lambda>_. True) spad_start 100 = Some (st', r) \<and>
           (\<forall>cap. r = Inr cap \<longrightarrow> 100 \<le> cap \<and> spad_ok st')"
  by (rule scratchpad_get_room [OF spad_ok_start])

text \<open>
  A request beyond the maximum raises an error, but the loop has already doubled
  \<^verbatim>\<open>buf_size\<close> and the buffer was not reallocated: every later request between the real
  allocation and half the maximum is answered with a buffer that is too small for it.
\<close>

lemma scratchpad_overgrown_unsound:
  assumes ok: "pad_ok s" and st: "scratch_key st = Some s" "scratchpad_initialized st"
    and big: "SPAD_MAX_SIZE < n" and m: "buf_alloc s < m" "2 * m \<le> SPAD_MAX_SIZE"
  shows "\<exists>st'. scratchpad_get malloc_ok st n =
             Some (st', Inl (Pike_error ''Wanted size exceeds the maximum scratchpad size'')) \<and>
           scratchpad_get malloc_ok st' m = Some (st', Inr (buf_alloc s)) \<and> buf_alloc s < m"
proof -
  from ok have s: "0 < buf_size s" "buf_size s \<le> SPAD_MAX_SIZE"
    "buf_max s = SPAD_MAX_SIZE" "buf_growth_factor s = SPAD_GROWTH_FACTOR"
    by (simp_all add: pad_ok_def)
  from grow_loop_ends [OF s(1,2), of n] big obtain sz where
    loop: "grow_loop SPAD_GROWTH_FACTOR SPAD_MAX_SIZE n (buf_size s) = Some (sz, False)"
    and sz: "SPAD_MAX_SIZE < 2 * sz"
    by fastforce
  have grow: "scratchpad_grow malloc_ok s n = Some (s\<lparr>buf_size := sz\<rparr>, Inr (- 2))"
    by (simp add: scratchpad_grow_def s loop)
  have "buf_size s < n" using s big by simp
  moreover have "\<not> sz < m" using sz m by simp
  ultimately show ?thesis
    using st m by (simp add: scratchpad_get_def grow)
qed

lemma scratchpad_overgrown_unsound_witness:
  "\<exists>st'. scratchpad_get (\<lambda>_. True)
       \<lparr>scratch_key = Some \<lparr>buf_alloc = 32768, buf_size = 32768, buf_max = SPAD_MAX_SIZE,
          buf_growth_factor = SPAD_GROWTH_FACTOR\<rparr>, scratchpad_initialized = True\<rparr> 40000000 =
         Some (st', Inl (Pike_error ''Wanted size exceeds the maximum scratchpad size'')) \<and>
     scratchpad_get (\<lambda>_. True) st' 1000000 = Some (st', Inr 32768) \<and> (32768::nat) < 1000000"
  using scratchpad_overgrown_unsound [of "\<lparr>buf_alloc = 32768, buf_size = 32768,
      buf_max = SPAD_MAX_SIZE, buf_growth_factor = SPAD_GROWTH_FACTOR\<rparr>"
      "\<lparr>scratch_key = Some \<lparr>buf_alloc = 32768, buf_size = 32768, buf_max = SPAD_MAX_SIZE,
          buf_growth_factor = SPAD_GROWTH_FACTOR\<rparr>, scratchpad_initialized = True\<rparr>"
      40000000 1000000 "\<lambda>_. True"]
  by (simp add: pad_ok_def SPAD_MAX_SIZE_def)

end
