(* ===== verification/Url_Codec.thy ===== *)
theory Url_Codec
  imports Scratchpad
begin

text \<open>
  Percent encoding and decoding: the encoders and decoders of
  \<^verbatim>\<open>src/cmods/_Caudium/caudium.c\<close> (\<^verbatim>\<open>char_decode_url\<close>, \<^verbatim>\<open>url_decode\<close>, \<^verbatim>\<open>do_encode_stuff\<close> with
  its four character classes and the Pike functions on top of them) and the third copy of the
  decoder, \<^verbatim>\<open>http_decode_string\<close> of \<^verbatim>\<open>src/cmods/UltraLog/ultrautil.c\<close>. The decoders work in
  place: they read at \<open>ptr\<close> and write at \<open>i\<close> in one buffer. They are modelled so, on a list
  that is updated, and proved equal to the pure \<open>pct_decode\<close>.
\<close>

section \<open>Hexadecimal digits\<close>

text \<open>\<^verbatim>\<open>((c < 'A') ? (c & 15) : ((c + 9) & 15))\<close>\<close>

definition hex_nibble :: "char \<Rightarrow> nat" where
  "hex_nibble c = (if code_of c < code_of (CHR ''A'') then code_of c AND 15
                   else (code_of c + 9) AND 15)"

text \<open>\<^verbatim>\<open>(hi << 4) | lo\<close>\<close>

definition hex_byte :: "char \<Rightarrow> char \<Rightarrow> char" where
  "hex_byte a b = char_of (push_bit 4 (hex_nibble a) OR hex_nibble b)"

definition hex_chars :: string where "hex_chars = ''0123456789ABCDEF''"

section \<open>Decoders\<close>

text \<open>
  \<^verbatim>\<open>char_decode_url(str, len)\<close>: the loop on the buffer \<open>str\<close>, with the read position \<open>ptr\<close>, the
  write position \<open>i\<close> and the count \<open>nlen\<close>. The result is the buffer and the position of the
  query string, if a question mark ended the file name.
\<close>

function char_decode_url_loop ::
  "string \<Rightarrow> nat \<Rightarrow> nat \<Rightarrow> nat \<Rightarrow> nat \<Rightarrow> string \<times> nat option" where
  "char_decode_url_loop str stop ptr i nlen =
     (if ptr < stop then
        if str ! ptr = CHR ''%'' then
          char_decode_url_loop
            (str[i := (if ptr + 2 < stop then hex_byte (str ! (ptr + 1)) (str ! (ptr + 2)) else NUL)])
            stop (ptr + 3) (i + 1) (nlen + 1)
        else if str ! ptr = CHR ''?'' then (str[i := NUL], Some (ptr + 1))
        else char_decode_url_loop (str[i := str ! ptr]) stop (ptr + 1) (i + 1) (nlen + 1)
      else (str[nlen := NUL], None))"
  by pat_completeness auto
termination
  by (relation "measure (\<lambda>(str, stop, ptr, i, nlen). stop - ptr)") auto

declare char_decode_url_loop.simps [simp del]

definition char_decode_url :: "string \<Rightarrow> nat \<Rightarrow> string \<times> nat option" where
  "char_decode_url str len = char_decode_url_loop str len 0 0 0"

text \<open>
  \<^verbatim>\<open>url_decode(str, len, exist, simple)\<close>: the copy of the input sits in the scratch buffer
  \<open>mystr\<close>, after a zero byte if \<open>exist\<close> is set; \<open>simple\<close> selects what happens to a plus sign and
  to a percent sign without two following characters.
\<close>

function url_decode_loop ::
  "int \<Rightarrow> string \<Rightarrow> nat \<Rightarrow> nat \<Rightarrow> nat \<Rightarrow> nat \<Rightarrow> string \<times> nat" where
  "url_decode_loop simple mystr stop ptr i nlen =
     (if ptr < stop then
        if mystr ! ptr = CHR ''%'' then
          if ptr + 2 < stop then
            url_decode_loop simple
              (mystr[i := hex_byte (mystr ! (ptr + 1)) (mystr ! (ptr + 2))])
              stop (ptr + 3) (i + 1) (nlen + 1)
          else if simple \<ge> 1 then
            url_decode_loop simple (mystr[i := mystr ! ptr]) stop (ptr + 1) (i + 1) (nlen + 1)
          else url_decode_loop simple (mystr[i := NUL]) stop (ptr + 3) (i + 1) (nlen + 1)
        else if mystr ! ptr = CHR ''+'' then
          if simple = 1 then
            url_decode_loop simple (mystr[i := mystr ! ptr]) stop (ptr + 1) (i + 1) (nlen + 1)
          else url_decode_loop simple (mystr[i := SP]) stop (ptr + 1) (i + 1) (nlen + 1)
        else url_decode_loop simple (mystr[i := mystr ! ptr]) stop (ptr + 1) (i + 1) (nlen + 1)
      else (mystr, nlen))"
  by pat_completeness auto
termination
  by (relation "measure (\<lambda>(simple, mystr, stop, ptr, i, nlen). stop - ptr)") auto

declare url_decode_loop.simps [simp del]

text \<open>The scratch buffer it asks for, and the result; \<open>None\<close> is the NULL it returns.\<close>

definition url_decode_room :: "nat \<Rightarrow> nat" where
  "url_decode_room len = len + 2"

definition url_decode :: "string option \<Rightarrow> int \<Rightarrow> bool \<Rightarrow> int \<Rightarrow> string option" where
  "url_decode str len exist simple =
     (if len < 0 then None
      else case str of None \<Rightarrow> None
      | Some s \<Rightarrow>
          (let e = (if exist then 1 else 0);
               copied = take (nat len) s;
               mystr = (if exist then [NUL] else []) @ copied @ [NUL];
               (mystr', nlen) = url_decode_loop simple mystr (e + nat len) e e 0
           in Some (take (nlen + e) mystr')))"

text \<open>
  \<^verbatim>\<open>http_decode_string(foo, len)\<close> of UltraLog: it first looks for a percent sign, then decodes in
  place; \<open>foo\<close> has room for the terminating zero.
\<close>

function http_decode_loop :: "string \<Rightarrow> nat \<Rightarrow> nat \<Rightarrow> nat \<Rightarrow> nat \<Rightarrow> string \<times> nat" where
  "http_decode_loop foo stop bar proc nlen =
     (if bar < stop then
        if foo ! bar = CHR ''%'' then
          http_decode_loop
            (foo[proc := (if bar + 2 < stop then hex_byte (foo ! (bar + 1)) (foo ! (bar + 2)) else NUL)])
            stop (bar + 3) (proc + 1) (nlen + 1)
        else http_decode_loop (foo[proc := foo ! bar]) stop (bar + 1) (proc + 1) (nlen + 1)
      else (foo[proc := NUL], nlen))"
  by pat_completeness auto
termination
  by (relation "measure (\<lambda>(foo, stop, bar, proc, nlen). stop - bar)") auto

declare http_decode_loop.simps [simp del]

definition http_decode_string :: "string \<Rightarrow> nat \<Rightarrow> string" where
  "http_decode_string foo len =
     (if CHR ''%'' \<notin> set (take len foo) then take len foo
      else (let (foo', nlen) = http_decode_loop foo len 0 0 0 in take nlen foo'))"

section \<open>Encoders\<close>

definition is_safe :: "char \<Rightarrow> bool" where
  "is_safe c \<longleftrightarrow>
     (schar (CHR ''0'') \<le> schar c \<and> schar c \<le> schar (CHR ''9'')) \<or> (schar (CHR ''A'') \<le> schar c \<and> schar c \<le> schar (CHR ''Z'')) \<or>
     (schar (CHR ''a'') \<le> schar c \<and> schar c \<le> schar (CHR ''z''))"

definition is_http_safe :: "char \<Rightarrow> bool" where
  "is_http_safe c \<longleftrightarrow>
     c \<notin> {NUL, SP, CHR 0x09, LF, CR, CHR ''%'', CHR 0x27, CHR 0x22, CHR ''<'', CHR ''>'', CHR ''@''}"

definition is_cookie_safe :: "char \<Rightarrow> bool" where
  "is_cookie_safe c \<longleftrightarrow> c \<notin> {CHR ''='', CHR '','', CHR '';'', CHR ''%'', CHR '':''}"

definition is_url_safe :: "char \<Rightarrow> bool" where
  "is_url_safe c \<longleftrightarrow>
     (schar (CHR ''0'') \<le> schar c \<and> schar c \<le> schar (CHR ''9'')) \<or> (schar (CHR ''A'') \<le> schar c \<and> schar c \<le> schar (CHR ''Z'')) \<or>
     (schar (CHR ''a'') \<le> schar c \<and> schar c \<le> schar (CHR ''z'')) \<or>
     c \<in> {CHR ''&'', CHR ''?'', CHR ''='', CHR ''/'', CHR '':'', CHR '';'', CHR ''$'', CHR '','',
          CHR ''.'', CHR ''+'', CHR ''@''}"

text \<open>\<^verbatim>\<open>for (i = in->str; *i; i++) if (!fun(*i)) unsafe++;\<close>\<close>

fun count_unsafe :: "(char \<Rightarrow> bool) \<Rightarrow> string \<Rightarrow> nat" where
  "count_unsafe safe [] = 0"
| "count_unsafe safe (c # cs) =
     (if c = NUL then 0 else (if safe c then 0 else 1) + count_unsafe safe cs)"

text \<open>The second loop: the bytes it stores into \<open>out\<close>.\<close>

fun encode_loop :: "(char \<Rightarrow> bool) \<Rightarrow> string \<Rightarrow> string" where
  "encode_loop safe [] = []"
| "encode_loop safe (c # cs) =
     (if c = NUL then []
      else if \<not> safe c then
        CHR ''%'' # hex_chars ! drop_bit 4 (code_of c) # hex_chars ! (code_of c AND 15)
          # encode_loop safe cs
      else c # encode_loop safe cs)"

text \<open>The size asked from the scratch pad, and all the bytes written into it.\<close>

definition encode_out_len :: "(char \<Rightarrow> bool) \<Rightarrow> string \<Rightarrow> int" where
  "encode_out_len safe s = (int (length s) - 1) + 2 * int (count_unsafe safe s) + 1"

definition encode_out :: "(char \<Rightarrow> bool) \<Rightarrow> string \<Rightarrow> string" where
  "encode_out safe s = encode_loop safe s @ [NUL]"

section \<open>On the scratch pad\<close>

text \<open>
  \<^verbatim>\<open>url_decode\<close> and \<^verbatim>\<open>do_encode_stuff\<close> with the \<^verbatim>\<open>scratchpad_get\<close> call they begin with: the
  state of the pad is passed on, an error it raises is raised, and storing more bytes than the
  pad has is \<open>Out_of_bounds\<close>. \<open>None\<close> would mean that \<^verbatim>\<open>scratchpad_get\<close> does not return.
\<close>

definition url_decode_spad ::
  "(nat \<Rightarrow> bool) \<Rightarrow> spad_state \<Rightarrow> string option \<Rightarrow> int \<Rightarrow> bool \<Rightarrow> int \<Rightarrow>
     (spad_state \<times> string option res) option" where
  "url_decode_spad malloc_ok st str len exist simple =
     (if len < 0 \<or> str = None then Some (st, Inr None)
      else case scratchpad_get malloc_ok st (url_decode_room (nat len)) of
        None \<Rightarrow> None
      | Some (st', Inl e) \<Rightarrow> Some (st', Inl e)
      | Some (st', Inr cap) \<Rightarrow>
          Some (st', if cap < (if exist then 1 else 0) + nat len + 1 then Inl Out_of_bounds
                     else Inr (url_decode str len exist simple)))"

definition do_encode_stuff ::
  "(nat \<Rightarrow> bool) \<Rightarrow> spad_state \<Rightarrow> string \<Rightarrow> (char \<Rightarrow> bool) \<Rightarrow>
     (spad_state \<times> string option res) option" where
  "do_encode_stuff malloc_ok st s safe =
     (if count_unsafe safe s = 0 then Some (st, Inr None)
      else case scratchpad_get malloc_ok st (nat (encode_out_len safe s)) of
        None \<Rightarrow> None
      | Some (st', Inl e) \<Rightarrow> Some (st', Inl e)
      | Some (st', Inr cap) \<Rightarrow>
          Some (st', if cap < length (encode_out safe s) then Inl Out_of_bounds
                     else Inr (Some (cstr (encode_out safe s)))))"

section \<open>The Pike functions\<close>

text \<open>Each encoder leaves its argument on the stack when there is nothing to encode.\<close>

definition encoded_string :: "string \<Rightarrow> (spad_state \<times> string option res) option \<Rightarrow> (spad_state \<times> string res) option" where
  "encoded_string src r =
     map_option (\<lambda>(st, ret). (st, bind_res ret (\<lambda>ret. Inr (case ret of None \<Rightarrow> src | Some t \<Rightarrow> t)))) r"

definition f_http_encode :: "(nat \<Rightarrow> bool) \<Rightarrow> spad_state \<Rightarrow> string \<Rightarrow> (spad_state \<times> string res) option" where
  "f_http_encode malloc_ok st src = encoded_string src (do_encode_stuff malloc_ok st src is_safe)"

definition f_http_encode_string :: "(nat \<Rightarrow> bool) \<Rightarrow> spad_state \<Rightarrow> string \<Rightarrow> (spad_state \<times> string res) option" where
  "f_http_encode_string malloc_ok st src = encoded_string src (do_encode_stuff malloc_ok st src is_http_safe)"

definition f_http_encode_cookie :: "(nat \<Rightarrow> bool) \<Rightarrow> spad_state \<Rightarrow> string \<Rightarrow> (spad_state \<times> string res) option" where
  "f_http_encode_cookie malloc_ok st src = encoded_string src (do_encode_stuff malloc_ok st src is_cookie_safe)"

definition f_http_encode_url :: "(nat \<Rightarrow> bool) \<Rightarrow> spad_state \<Rightarrow> string \<Rightarrow> (spad_state \<times> string res) option" where
  "f_http_encode_url malloc_ok st src = encoded_string src (do_encode_stuff malloc_ok st src is_url_safe)"

text \<open>The decoders raise an error when \<^verbatim>\<open>url_decode\<close> returns NULL.\<close>

definition decoded_string :: "string \<Rightarrow> (spad_state \<times> string option res) option \<Rightarrow> (spad_state \<times> string res) option" where
  "decoded_string msg r =
     map_option (\<lambda>(st, ret). (st, bind_res ret (\<lambda>ret. case ret of None \<Rightarrow> Inl (Pike_error msg) | Some t \<Rightarrow> Inr t))) r"

definition f_http_decode :: "(nat \<Rightarrow> bool) \<Rightarrow> spad_state \<Rightarrow> string \<Rightarrow> (spad_state \<times> string res) option" where
  "f_http_decode malloc_ok st src =
     decoded_string ''_Caudium.http_decode(): Out of memory in url_decode().''
       (url_decode_spad malloc_ok st (Some src) (int (length src)) False 1)"

definition f_http_decode_url :: "(nat \<Rightarrow> bool) \<Rightarrow> spad_state \<Rightarrow> string \<Rightarrow> (spad_state \<times> string res) option" where
  "f_http_decode_url malloc_ok st src =
     decoded_string ''Out of memory.'' (url_decode_spad malloc_ok st (Some src) (int (length src)) False 2)"

section \<open>The reference decoder\<close>

text \<open>
  \<open>psp\<close>: a plus sign stands for a space; \<open>lit\<close>: a percent sign without two characters after it
  stands for itself (otherwise it and what follows become one zero byte).
\<close>

fun pct_decode :: "bool \<Rightarrow> bool \<Rightarrow> string \<Rightarrow> string" where
  "pct_decode psp lit [] = []"
| "pct_decode psp lit (c # cs) =
     (if c = CHR ''%'' then
        (case cs of
           a # b # r \<Rightarrow> hex_byte a b # pct_decode psp lit r
         | _ \<Rightarrow> if lit then c # pct_decode psp lit cs else [NUL])
      else if c = CHR ''+'' \<and> psp then SP # pct_decode psp lit cs
      else c # pct_decode psp lit cs)"

declare pct_decode.simps(2) [simp del]

lemma pct_decode_escape [simp]:
  "pct_decode psp lit (CHR ''%'' # a # b # r) = hex_byte a b # pct_decode psp lit r"
  by (simp add: pct_decode.simps(2))

lemma pct_decode_short:
  "length cs < 2 \<Longrightarrow>
     pct_decode psp lit (CHR ''%'' # cs) = (if lit then CHR ''%'' # pct_decode psp lit cs else [NUL])"
  by (subst pct_decode.simps(2), cases cs) (auto split: list.splits)

lemma pct_decode_plain [simp]:
  "c \<noteq> CHR ''%'' \<Longrightarrow>
     pct_decode psp lit (c # cs) =
       (if c = CHR ''+'' \<and> psp then SP else c) # pct_decode psp lit cs"
  by (simp add: pct_decode.simps(2))

lemma pct_induct [case_names Nil escape short plain]:
  assumes "P []" "\<And>a b r. P r \<Longrightarrow> P (CHR ''%'' # a # b # r)"
    and "\<And>cs. length cs < 2 \<Longrightarrow> P cs \<Longrightarrow> P (CHR ''%'' # cs)"
    and "\<And>c cs. c \<noteq> CHR ''%'' \<Longrightarrow> P cs \<Longrightarrow> P (c # cs)"
  shows "P s"
proof (induction s rule: length_induct)
  case (1 s)
  show ?case
  proof (cases s)
    case (Cons c cs)
    then have cs: "P cs" using 1 by simp
    show ?thesis
    proof (cases "c = CHR ''%'' \<and> 2 \<le> length cs")
      case True
      then obtain a b r where "cs = a # b # r" by (cases cs; cases "tl cs") auto
      with 1 Cons True show ?thesis by (auto intro: assms(2))
    next
      case False
      with Cons cs show ?thesis
        by (cases "c = CHR ''%''") (auto intro: assms(3,4))
    qed
  qed (simp add: assms(1))
qed

lemma length_pct_decode: "length (pct_decode psp lit s) \<le> length s"
  by (induction s rule: pct_induct) (auto simp: pct_decode_short)

subsection \<open>The window of the input still to be read\<close>

abbreviation window :: "string \<Rightarrow> nat \<Rightarrow> nat \<Rightarrow> string" where
  "window buf ptr stop \<equiv> drop ptr (take stop buf)"

lemma window_done: "stop \<le> ptr \<Longrightarrow> window buf ptr stop = []"
  by simp

lemma window_Cons:
  "ptr < stop \<Longrightarrow> stop \<le> length buf \<Longrightarrow> window buf ptr stop = buf ! ptr # window buf (ptr + 1) stop"
  by (subst Cons_nth_drop_Suc [symmetric]) auto

lemma window_three:
  assumes "ptr + 2 < stop" "stop \<le> length buf"
  shows "window buf ptr stop =
    buf ! ptr # buf ! (ptr + 1) # buf ! (ptr + 2) # window buf (ptr + 3) stop"
  using assms window_Cons [of ptr stop buf] window_Cons [of "ptr + 1" stop buf]
    window_Cons [of "ptr + 2" stop buf]
  by (simp add: numeral_3_eq_3)

lemma window_update:
  "i \<le> ptr \<Longrightarrow> 0 < k \<Longrightarrow> window (buf[i := x]) (ptr + k) stop = window buf (ptr + k) stop"
  by (simp add: take_update_swap drop_update_cancel)

text \<open>One round writes one byte in front of what it has read; the later rounds extend it.\<close>

lemma window_update_Suc:
  "i \<le> ptr \<Longrightarrow> window (buf[i := x]) (Suc ptr) stop = window buf (Suc ptr) stop"
  using window_update [of i ptr 1] by simp

lemmas round_simps = take_Suc_update window_update window_update_Suc

section \<open>The in-place decoders compute the reference decoder\<close>

lemma url_decode_loop_correct:
  assumes "i \<le> ptr" "stop \<le> length buf"
    and "url_decode_loop simple buf stop ptr i nlen = (buf', nlen')"
  defines "d \<equiv> pct_decode (simple \<noteq> 1) (simple \<ge> 1) (window buf ptr stop)"
  shows "nlen' = nlen + length d \<and> take (i + length d) buf' = take i buf @ d"
  using assms(1-3) unfolding d_def
proof (induction simple buf stop ptr i nlen rule: url_decode_loop.induct)
  case (1 simple buf stop ptr i nlen)
  show ?case
  proof (cases "ptr < stop")
    case False
    with "1.prems" show ?thesis by (auto simp: url_decode_loop.simps [of simple buf])
  next
    case lt: True
    have i: "i < length buf" and w: "window buf ptr stop = buf ! ptr # window buf (ptr + 1) stop"
      using lt "1.prems" window_Cons by auto
    note eqn = "1.prems"(3) [unfolded url_decode_loop.simps [of simple buf] if_P [OF lt]]
    consider (esc) "buf ! ptr = CHR ''%''" "ptr + 2 < stop"
      | (lit) "buf ! ptr = CHR ''%''" "\<not> ptr + 2 < stop" "simple \<ge> 1"
      | (cut) "buf ! ptr = CHR ''%''" "\<not> ptr + 2 < stop" "\<not> simple \<ge> 1"
      | (keep) "buf ! ptr = CHR ''+''" "simple = 1"
      | (space) "buf ! ptr = CHR ''+''" "simple \<noteq> 1"
      | (other) "buf ! ptr \<noteq> CHR ''%''" "buf ! ptr \<noteq> CHR ''+''"
      by blast
    then show ?thesis
    proof cases
      case esc
      with "1.IH"(1) [OF lt esc] "1.prems"(1,2) eqn i show ?thesis
        by (simp add: window_three round_simps)
    next
      case lit
      have "length (window buf (ptr + 1) stop) < 2" using lit "1.prems" by simp
      with "1.IH"(2) [OF lt lit] "1.prems"(1,2) eqn lit i show ?thesis
        by (simp add: w round_simps pct_decode_short)
    next
      case cut
      have "length (window buf (ptr + 1) stop) < 2" using cut "1.prems" by simp
      moreover have "window buf (ptr + 3) stop = []" using cut by simp
      ultimately show ?thesis
        using "1.IH"(3) [OF lt cut] "1.prems"(1,2) eqn cut i
        by (simp add: w round_simps pct_decode_short)
    next
      case keep
      with "1.IH"(4) [OF lt _ keep] "1.prems"(1,2) eqn i show ?thesis
        by (simp add: w round_simps)
    next
      case space
      with "1.IH"(5) [OF lt _ space] "1.prems"(1,2) eqn i show ?thesis
        by (simp add: w round_simps)
    next
      case other
      with "1.IH"(6) [OF lt other] "1.prems"(1,2) eqn i show ?thesis
        by (simp add: w round_simps)
    qed
  qed
qed

text \<open>The Pike-level result of \<^verbatim>\<open>url_decode\<close>.\<close>

lemma url_decode_eq:
  assumes "len \<le> length s"
  shows "url_decode (Some s) (int len) exist simple =
    Some ((if exist then [NUL] else []) @ pct_decode (simple \<noteq> 1) (simple \<ge> 1) (take len s))"
proof -
  let ?e = "if exist then 1 else 0 :: nat"
  let ?buf = "(if exist then [NUL] else []) @ take len s @ [NUL]"
  obtain buf' nlen where loop: "url_decode_loop simple ?buf (?e + len) ?e ?e 0 = (buf', nlen)"
    by fastforce
  have w: "window ?buf ?e (?e + len) = take len s"
    using assms by (simp add: take_Cons split: nat.splits)
  have "take ?e ?buf = (if exist then [NUL] else [])" by simp
  with url_decode_loop_correct [OF _ _ loop] assms w
  have "take (nlen + ?e) buf' = (if exist then [NUL] else []) @
      pct_decode (simple \<noteq> 1) (simple \<ge> 1) (take len s)"
    by (simp add: add.commute split: if_splits)
  then show ?thesis
    using loop by (simp add: url_decode_def Let_def)
qed

lemma http_decode_loop_correct:
  assumes "proc \<le> bar" "stop < length buf"
    and "http_decode_loop buf stop bar proc nlen = (buf', nlen')"
  defines "d \<equiv> pct_decode False False (window buf bar stop)"
  shows "nlen' = nlen + length d \<and> take (proc + length d) buf' = take proc buf @ d"
  using assms(1-3) unfolding d_def
proof (induction buf stop bar proc nlen rule: http_decode_loop.induct)
  case (1 buf stop bar proc nlen)
  show ?case
  proof (cases "bar < stop")
    case False
    with "1.prems" show ?thesis by (auto simp: http_decode_loop.simps [of buf])
  next
    case lt: True
    have i: "proc < length buf" and w: "window buf bar stop = buf ! bar # window buf (bar + 1) stop"
      using lt "1.prems" window_Cons by auto
    note eqn = "1.prems"(3) [unfolded http_decode_loop.simps [of buf] if_P [OF lt]]
    consider (esc) "buf ! bar = CHR ''%''" "bar + 2 < stop"
      | (cut) "buf ! bar = CHR ''%''" "\<not> bar + 2 < stop" | (other) "buf ! bar \<noteq> CHR ''%''"
      by blast
    then show ?thesis
    proof cases
      case esc
      with "1.IH"(1) [OF lt esc(1)] "1.prems"(1,2) eqn i show ?thesis
        by (simp add: window_three round_simps)
    next
      case cut
      have "length (window buf (bar + 1) stop) < 2" using cut "1.prems" by simp
      moreover have "window buf (bar + 3) stop = []" using cut by simp
      ultimately show ?thesis
        using "1.IH"(1) [OF lt cut(1)] "1.prems"(1,2) eqn cut i
        by (simp add: w round_simps pct_decode_short)
    next
      case other
      with "1.IH"(2) [OF lt other] "1.prems"(1,2) eqn i show ?thesis
        by (simp add: w round_simps)
    qed
  qed
qed

lemma pct_decode_no_percent: "CHR ''%'' \<notin> set s \<Longrightarrow> pct_decode False lit s = s"
  by (induction s) auto

text \<open>
  The reference for \<^verbatim>\<open>char_decode_url\<close>: the decoded file name, and the rest after the first
  question mark that is not part of an escape.
\<close>

fun url_split :: "string \<Rightarrow> string \<times> string option" where
  "url_split [] = ([], None)"
| "url_split (c # cs) =
     (if c = CHR ''%'' then
        (case cs of
           a # b # r \<Rightarrow> (let (name, q) = url_split r in (hex_byte a b # name, q))
         | _ \<Rightarrow> ([NUL], None))
      else if c = CHR ''?'' then ([], Some cs)
      else (let (name, q) = url_split cs in (c # name, q)))"

declare url_split.simps(2) [simp del]

lemma url_split_escape [simp]:
  "url_split (CHR ''%'' # a # b # r) = (hex_byte a b # fst (url_split r), snd (url_split r))"
  by (simp add: url_split.simps(2) Let_def split: prod.splits)

lemma url_split_short: "length cs < 2 \<Longrightarrow> url_split (CHR ''%'' # cs) = ([NUL], None)"
  by (subst url_split.simps(2), cases cs) (auto split: list.splits)

lemma url_split_query [simp]: "url_split (CHR ''?'' # cs) = ([], Some cs)"
  by (simp add: url_split.simps(2))

lemma url_split_plain [simp]:
  "c \<noteq> CHR ''%'' \<Longrightarrow> c \<noteq> CHR ''?'' \<Longrightarrow>
     url_split (c # cs) = (c # fst (url_split cs), snd (url_split cs))"
  by (simp add: url_split.simps(2) Let_def split: prod.splits)

lemma url_split_no_query: "CHR ''?'' \<notin> set s \<Longrightarrow> url_split s = (pct_decode False False s, None)"
  by (induction s rule: pct_induct) (auto simp: url_split_short pct_decode_short)

lemma window_update_same: "i < ptr \<Longrightarrow> window (buf[i := x]) ptr stop = window buf ptr stop"
  by (simp add: take_update_swap drop_update_cancel)

lemma char_decode_url_loop_correct:
  assumes "i \<le> ptr" "i \<le> stop" "stop < length buf"
    and "char_decode_url_loop buf stop ptr i nlen = (buf', q)" "nlen = i"
  defines "u \<equiv> url_split (window buf ptr stop)"
  shows "take (i + length (fst u) + 1) buf' = take i buf @ fst u @ [NUL] \<and>
         map_option (\<lambda>p. window buf' p stop) q = snd u \<and>
         length buf' = length buf \<and> (\<forall>p. q = Some p \<longrightarrow> p \<le> stop)"
  using assms(1-5) unfolding u_def
proof (induction buf stop ptr i nlen rule: char_decode_url_loop.induct)
  case (1 buf stop ptr i nlen)
  show ?case
  proof (cases "ptr < stop")
    case False
    with "1.prems" show ?thesis
      by (auto simp: char_decode_url_loop.simps [of buf] take_Suc_update)
  next
    case lt: True
    have i: "i < length buf" "Suc i \<le> stop"
      and w: "window buf ptr stop = buf ! ptr # window buf (ptr + 1) stop"
      using lt "1.prems" window_Cons by auto
    note eqn = "1.prems"(4) [unfolded char_decode_url_loop.simps [of buf] if_P [OF lt]]
    consider (esc) "buf ! ptr = CHR ''%''" "ptr + 2 < stop"
      | (cut) "buf ! ptr = CHR ''%''" "\<not> ptr + 2 < stop" | (query) "buf ! ptr = CHR ''?''"
      | (other) "buf ! ptr \<noteq> CHR ''%''" "buf ! ptr \<noteq> CHR ''?''"
      by blast
    then show ?thesis
    proof cases
      case esc
      with "1.IH"(1) [OF lt esc(1)] "1.prems"(1-3,5) eqn i show ?thesis
        by (simp add: window_three round_simps)
    next
      case cut
      have "length (window buf (ptr + 1) stop) < 2" using cut "1.prems" by simp
      moreover have "window buf (ptr + 3) stop = []" using cut by simp
      ultimately show ?thesis
        using "1.IH"(1) [OF lt cut(1)] "1.prems"(1-3,5) eqn cut i
        by (simp add: w round_simps url_split_short)
    next
      case query
      with eqn i w lt "1.prems"(1,3) show ?thesis
        by (auto simp: take_Suc_update window_update_Suc)
    next
      case other
      with "1.IH"(2) [OF lt other] "1.prems"(1-3,5) eqn i show ?thesis
        by (simp add: w round_simps)
    qed
  qed
qed

lemma http_decode_string_eq:
  assumes "len < length foo"
  shows "http_decode_string foo len = pct_decode False False (take len foo)"
proof (cases "CHR ''%'' \<in> set (take len foo)")
  case True
  obtain buf' nlen where loop: "http_decode_loop foo len 0 0 0 = (buf', nlen)"
    by fastforce
  from http_decode_loop_correct [OF _ assms loop] True loop show ?thesis
    by (simp add: http_decode_string_def)
qed (simp add: http_decode_string_def pct_decode_no_percent)

lemma char_decode_url_eq:
  assumes "len < length str" "char_decode_url str len = (str', q)"
  shows "cstr str' = cstr (fst (url_split (take len str)))"
    and "map_option (\<lambda>p. window str' p len) q = snd (url_split (take len str))"
    and "length str' = length str"
    and "\<forall>p. q = Some p \<longrightarrow> p \<le> len"
proof -
  let ?u = "url_split (take len str)"
  from assms(2) have loop: "char_decode_url_loop str len 0 0 0 = (str', q)"
    by (simp add: char_decode_url_def)
  from char_decode_url_loop_correct [OF _ _ assms(1) loop]
  have str': "take (length (fst ?u) + 1) str' = fst ?u @ [NUL]"
    and "map_option (\<lambda>p. window str' p len) q = snd ?u" "length str' = length str"
    "\<forall>p. q = Some p \<longrightarrow> p \<le> len"
    by auto
  then show "map_option (\<lambda>p. window str' p len) q = snd ?u" "length str' = length str"
    "\<forall>p. q = Some p \<longrightarrow> p \<le> len"
    by auto
  have "str' = fst ?u @ NUL # drop (length (fst ?u) + 1) str'"
    by (metis append.assoc append_Cons append_Nil append_take_drop_id str')
  then show "cstr str' = cstr (fst ?u)"
    by (metis cstr_until_NUL)
qed

section \<open>Encoding and decoding are inverse\<close>

lemma count_unsafe_cstr: "count_unsafe safe s = length (filter (\<lambda>c. \<not> safe c) (cstr s))"
  by (induction s) auto

lemma encode_loop_cstr: "encode_loop safe (cstr s) = encode_loop safe s"
  by (induction s) auto

lemma encode_loop_all_safe: "count_unsafe safe s = 0 \<Longrightarrow> encode_loop safe s = cstr s"
  by (induction s) (auto split: if_splits)

lemma length_encode_loop:
  "length (encode_loop safe s) = length (cstr s) + 2 * count_unsafe safe s"
  by (induction s) auto

lemma hex_chars_set: "n < 16 \<Longrightarrow> hex_chars ! n \<in> set hex_chars"
  by (rule nth_mem) (simp add: hex_chars_def)

lemma code_of_nibbles: "drop_bit 4 (code_of c) < 16" "code_of c AND 15 < 16"
proof -
  show "drop_bit 4 (code_of c) < 16"
    using code_of_less [of c] by (simp add: drop_bit_eq_div less_mult_imp_div_less)
  have "code_of c AND 15 = take_bit 4 (code_of c)"
    by (simp add: take_bit_eq_mask mask_eq_exp_minus_1)
  then show "code_of c AND 15 < 16"
    by (simp add: take_bit_eq_mod)
qed

lemma hex_nibble_char: "n < 16 \<Longrightarrow> hex_nibble (hex_chars ! n) = n"
proof -
  have "\<forall>n \<in> set [0..<16]. hex_nibble (hex_chars ! n) = n" by code_simp
  then show "n < 16 \<Longrightarrow> hex_nibble (hex_chars ! n) = n" by simp
qed

lemma nibbles_join: "push_bit 4 (drop_bit 4 n) OR (n AND 15) = (n :: nat)"
proof -
  have "n AND 15 = take_bit 4 n"
    by (simp add: take_bit_eq_mask mask_eq_exp_minus_1)
  then show ?thesis
    by (auto intro!: bit_eqI simp: bit_simps)
qed

lemma hex_byte_digits:
  "hex_byte (hex_chars ! drop_bit 4 (code_of c)) (hex_chars ! (code_of c AND 15)) = c"
  by (simp only: hex_byte_def hex_nibble_char code_of_nibbles nibbles_join char_of_char)

text \<open>
  A character class that does not contain the percent sign makes the encoder invertible; one
  that does not contain the plus sign either, also for decoders that read it as a space.
\<close>

locale safe_charset =
  fixes safe :: "char \<Rightarrow> bool"
  assumes percent_unsafe: "\<not> safe (CHR ''%'')"
begin

lemma safe_bytes: "safe c \<Longrightarrow> c \<noteq> CHR ''%''" "safe c \<Longrightarrow> \<not> safe d \<Longrightarrow> c \<noteq> d"
  using percent_unsafe by auto

lemma decode_encode:
  "NUL \<notin> set s \<Longrightarrow> pct_decode False lit (encode_loop safe s) = s"
  by (induction s) (auto simp: hex_byte_digits safe_bytes)

lemma split_encode:
  "NUL \<notin> set s \<Longrightarrow> \<not> safe (CHR ''?'') \<Longrightarrow> url_split (encode_loop safe s) = (s, None)"
  by (induction s) (auto simp: hex_byte_digits safe_bytes)

lemma encode_unchanged: "count_unsafe safe s = 0 \<Longrightarrow> NUL \<notin> set s \<Longrightarrow> encode_loop safe s = s"
  by (simp add: encode_loop_all_safe cstr_id)

lemma plus_encode:
  "NUL \<notin> set s \<Longrightarrow> pct_decode True lit (encode_loop safe s) =
     (if safe (CHR ''+'') then map (\<lambda>c. if c = CHR ''+'' then SP else c) s else s)"
  by (induction s) (auto simp: hex_byte_digits safe_bytes)

end

locale form_charset = safe_charset +
  assumes plus_unsafe: "\<not> safe (CHR ''+'')"
begin

lemma form_decode_encode:
  "NUL \<notin> set s \<Longrightarrow> pct_decode psp lit (encode_loop safe s) = s"
  using decode_encode plus_encode plus_unsafe by (cases psp) auto

end

interpretation plain_set: form_charset is_safe
  by unfold_locales (simp_all add: is_safe_def schar_def)

interpretation http_set: safe_charset is_http_safe
  by unfold_locales (simp add: is_http_safe_def)

interpretation cookie_set: safe_charset is_cookie_safe
  by unfold_locales (simp add: is_cookie_safe_def)

interpretation url_set: safe_charset is_url_safe
  by unfold_locales (simp add: is_url_safe_def schar_def)

section \<open>The encoders as functions of their input\<close>

lemma hex_chars_no_NUL: "NUL \<notin> set hex_chars"
  by (simp add: hex_chars_def)

lemma encode_loop_set:
  "set (encode_loop safe s) \<subseteq> {c. safe c} \<union> {CHR ''%''} \<union> set hex_chars"
  by (induction s) (auto simp: hex_chars_set code_of_nibbles)

lemma encode_loop_no_NUL: "NUL \<notin> set (encode_loop safe s)"
  by (induction s) (auto dest: arg_cong [where f = "\<lambda>c. c \<in> set hex_chars"]
    simp: hex_chars_set code_of_nibbles hex_chars_no_NUL)

lemma cstr_encode_out: "cstr (encode_out safe s) = encode_loop safe s"
  by (simp add: encode_out_def cstr_append encode_loop_no_NUL)

text \<open>
  \<^verbatim>\<open>url_decode\<close> on the scratch pad always returns, never stores outside the buffer it was
  given, and unless the pad raises an error its result is that of the decoder.
\<close>

lemma url_decode_spad_safe:
  assumes "spad_ok st" "0 \<le> len"
  shows "\<exists>st' r. url_decode_spad malloc_ok st (Some s) len exist simple = Some (st', r) \<and>
           r \<noteq> Inl Out_of_bounds \<and>
           (\<forall>d. r = Inr d \<longrightarrow> d = url_decode (Some s) len exist simple \<and> spad_ok st')"
proof -
  from spad.get_returns [OF assms(1)] obtain st' r where
    get: "scratchpad_get malloc_ok st (url_decode_room (nat len)) = Some (st', r)"
    by fastforce
  show ?thesis
  proof (cases r)
    case (Inl e)
    with get assms(2) spad_error [OF get [unfolded Inl]] show ?thesis
      by (simp add: url_decode_spad_def)
  next
    case (Inr cap)
    have "url_decode_room (nat len) \<le> cap" "spad_ok st'"
      using spad.get_room [OF assms(1)] spad.get_usable [OF assms(1)] get Inr by auto
    with get Inr assms(2) show ?thesis
      by (simp add: url_decode_spad_def url_decode_room_def)
  qed
qed

text \<open>What \<^verbatim>\<open>do_encode_stuff\<close> returns, it returns encoded; it does return when the pad has room for the zero byte too.\<close>

lemma encode_out_len_eq:
  "NUL \<notin> set s \<Longrightarrow> encode_out_len safe s = int (length (encode_loop safe s))"
  by (simp add: encode_out_len_def length_encode_loop cstr_id)

lemma encode_unsafe_le: "NUL \<notin> set s \<Longrightarrow> length (encode_loop safe s) \<le> 3 * length s"
  by (induction s) auto

lemma do_encode_stuff_result:
  assumes "NUL \<notin> set s" "spad_ok st"
  shows "\<exists>st' r. encoded_string s (do_encode_stuff malloc_ok st s safe) = Some (st', r) \<and>
    (\<forall>t. r = Inr t \<longrightarrow> t = encode_loop safe s \<and> spad_ok st') \<and>
    (pad_has_room malloc_ok st (3 * length s + 1) \<longrightarrow> (\<exists>t. r = Inr t))"
proof (cases "count_unsafe safe s = 0")
  case True
  then show ?thesis using assms by (simp add: encoded_string_def do_encode_stuff_def encode_loop_all_safe cstr_id)
next
  case False
  define n where "n = length (encode_loop safe s)"
  have len: "nat (encode_out_len safe s) = n" "length (encode_out safe s) = n + 1" "cstr (encode_out safe s) = encode_loop safe s"
    using assms(1) by (simp_all add: encode_out_len_eq cstr_encode_out n_def) (simp add: encode_out_def)
  obtain st' r where g: "scratchpad_get malloc_ok st n = Some (st', r)" using spad.get_returns [OF assms(2)] by fastforce
  have "n \<le> 3 * length s" using encode_unsafe_le [OF assms(1)] by (simp add: n_def)
  then have room: "\<exists>cap. r = Inr cap \<and> n + 1 \<le> cap" if "pad_has_room malloc_ok st (3 * length s + 1)"
    using pad_has_room_get [OF assms(2) that, of n] g by auto
  show ?thesis
  proof (cases r)
    case (Inl e)
    then show ?thesis using False g len room by (auto simp: encoded_string_def do_encode_stuff_def)
  next
    case (Inr cap)
    then have "spad_ok st'" using spad.get_usable [OF assms(2)] g by simp
    then show ?thesis using False g len room Inr by (auto simp: encoded_string_def do_encode_stuff_def)
  qed
qed

lemma decoded_result:
  assumes "spad_ok st"
  shows "\<exists>st' r. decoded_string msg (url_decode_spad malloc_ok st (Some s) (int (length s)) False simple) = Some (st', r) \<and> r \<noteq> Inl Out_of_bounds \<and>
    (\<forall>u. r = Inr u \<longrightarrow> u = pct_decode (simple \<noteq> 1) (simple \<ge> 1) s)"
proof -
  obtain st' r where r: "url_decode_spad malloc_ok st (Some s) (int (length s)) False simple = Some (st', r)" "r \<noteq> Inl Out_of_bounds"
    "\<forall>d. r = Inr d \<longrightarrow> d = url_decode (Some s) (int (length s)) False simple"
    using url_decode_spad_safe [OF assms, of "int (length s)" malloc_ok s False simple] by auto
  then show ?thesis using url_decode_eq [of "length s" s False simple] by (cases r) (auto simp: decoded_string_def)
qed

text \<open>
  \<open>dec\<close> makes \<open>u\<close> of what \<open>enc\<close> makes of \<open>s\<close>, on every usable pad and whichever allocations fail, if both return a string; \<open>enc\<close> returns one if the pad has
  room for three bytes for each byte of \<open>s\<close> and one more.
\<close>

definition decodes_to ::
  "((nat \<Rightarrow> bool) \<Rightarrow> spad_state \<Rightarrow> string \<Rightarrow> (spad_state \<times> string res) option) \<Rightarrow>
   ((nat \<Rightarrow> bool) \<Rightarrow> spad_state \<Rightarrow> string \<Rightarrow> (spad_state \<times> string res) option) \<Rightarrow> string \<Rightarrow> string \<Rightarrow> bool" where
  "decodes_to enc dec s u \<longleftrightarrow>
     (\<forall>malloc_ok st. spad_ok st \<longrightarrow>
       (\<exists>st1 r. enc malloc_ok st s = Some (st1, r) \<and>
         (pad_has_room malloc_ok st (3 * length s + 1) \<longrightarrow> (\<exists>t. r = Inr t)) \<and>
         (\<forall>t. r = Inr t \<longrightarrow> spad_ok st1 \<and>
           (\<forall>malloc_ok'. \<exists>st2 r'. dec malloc_ok' st1 t = Some (st2, r') \<and> r' \<noteq> Inl Out_of_bounds \<and> (\<forall>v. r' = Inr v \<longrightarrow> v = u)))))"

lemma decodes_toI:
  assumes "\<And>malloc_ok st. enc malloc_ok st s = encoded_string s (do_encode_stuff malloc_ok st s safe)" "NUL \<notin> set s"
    and "\<And>malloc_ok st t. dec malloc_ok st t = decoded_string msg (url_decode_spad malloc_ok st (Some t) (int (length t)) False simple)"
    and "pct_decode (simple \<noteq> 1) (simple \<ge> 1) (encode_loop safe s) = u"
  shows "decodes_to enc dec s u"
  unfolding decodes_to_def
proof (intro allI impI)
  fix malloc_ok st
  assume st: "spad_ok st"
  obtain st1 r where r: "encoded_string s (do_encode_stuff malloc_ok st s safe) = Some (st1, r)"
    "\<forall>t. r = Inr t \<longrightarrow> t = encode_loop safe s \<and> spad_ok st1" "pad_has_room malloc_ok st (3 * length s + 1) \<longrightarrow> (\<exists>t. r = Inr t)"
    using do_encode_stuff_result [OF assms(2) st] by blast
  have "\<exists>st2 r'. dec m st1 t = Some (st2, r') \<and> r' \<noteq> Inl Out_of_bounds \<and> (\<forall>v. r' = Inr v \<longrightarrow> v = u)" if "r = Inr t" for t m
    using decoded_result [of st1 msg m t simple] r(2) that assms(4) by (simp add: assms(3))
  then show "\<exists>st1 r. enc malloc_ok st s = Some (st1, r) \<and>
         (pad_has_room malloc_ok st (3 * length s + 1) \<longrightarrow> (\<exists>t. r = Inr t)) \<and>
         (\<forall>t. r = Inr t \<longrightarrow> spad_ok st1 \<and>
           (\<forall>malloc_ok'. \<exists>st2 r'. dec malloc_ok' st1 t = Some (st2, r') \<and> r' \<noteq> Inl Out_of_bounds \<and> (\<forall>v. r' = Inr v \<longrightarrow> v = u)))"
    using r by (auto simp: assms(1))
qed

section \<open>Properties\<close>

text \<open>
  C11. The three in-place decoders compute the reference decoder on the bytes they are
  given: \<^verbatim>\<open>url_decode\<close> (for every \<^verbatim>\<open>exist\<close> and \<^verbatim>\<open>simple\<close>), \<^verbatim>\<open>http_decode_string\<close> of UltraLog, and
  \<^verbatim>\<open>char_decode_url\<close>, which also finds the query string behind the first question mark that
  does not belong to an escape.
\<close>

theorem decoders_refine_reference:
  assumes "len < length s"
  shows "url_decode (Some s) (int len) exist simple =
           Some ((if exist then [NUL] else []) @ pct_decode (simple \<noteq> 1) (simple \<ge> 1) (take len s)) \<and>
         http_decode_string s len = pct_decode False False (take len s) \<and>
         (let (s', q) = char_decode_url s len in
            cstr s' = cstr (fst (url_split (take len s))) \<and>
            map_option (\<lambda>p. substr s' p (len - p)) q = snd (url_split (take len s)))"
proof -
  obtain s' q where dec: "char_decode_url s len = (s', q)" by fastforce
  have "map_option (\<lambda>p. substr s' p (len - p)) q = map_option (\<lambda>p. window s' p len) q"
    by (simp add: substr_def drop_take)
  with char_decode_url_eq [OF assms dec] dec assms show ?thesis
    by (simp add: url_decode_eq http_decode_string_eq)
qed

theorem decoders_refine_reference_witness:
  "url_decode (Some ''%3d+?x'') 5 False 2 = Some ''= ?'' \<and>
   http_decode_string ''%3d+?x'' 5 = ''=+?'' \<and>
   (let (s', q) = char_decode_url ''%3d+?x'' 5 in
      cstr s' = ''=+'' \<and> map_option (\<lambda>p. substr s' p (5 - p)) q = Some [])"
proof -
  have "hex_byte (CHR ''3'') (CHR ''d'') = CHR ''=''"
    by code_simp
  then have "pct_decode True True ''%3d+?'' = ''= ?''" "pct_decode False False ''%3d+?'' = ''=+?''"
    "url_split ''%3d+?'' = (''=+'', Some [])"
    by simp_all
  then show ?thesis
    using decoders_refine_reference [of 5 "''%3d+?x''" False 2] by simp
qed

text \<open>
  C13. \<^verbatim>\<open>http_decode\<close> inverts every encoder on strings without zero bytes, and
  \<^verbatim>\<open>http_decode_url\<close> inverts the one that encodes the plus sign for it; of what \<^verbatim>\<open>http_encode_url\<close> leaves, it reads a plus as a space. This holds on every
  usable scratch pad and whichever allocations fail, for the strings both calls return. The encoder does return one when the pad
  has room for three bytes for each of the string and one more; otherwise the pad may refuse, or the encoder store
  its last byte behind the pad. The decoder never stores outside the pad.
\<close>

theorem http_encode_roundtrip:
  assumes "NUL \<notin> set s"
  shows "decodes_to f_http_encode f_http_decode s s \<and>
         decodes_to f_http_encode_string f_http_decode s s \<and>
         decodes_to f_http_encode_cookie f_http_decode s s \<and>
         decodes_to f_http_encode_url f_http_decode s s \<and>
         decodes_to f_http_encode f_http_decode_url s s \<and>
         decodes_to f_http_encode_url f_http_decode_url s (map (\<lambda>c. if c = CHR ''+'' then SP else c) s)"
proof (intro conjI)
  show "decodes_to f_http_encode f_http_decode s s"
    by (rule decodes_toI [where safe = is_safe and simple = 1], rule f_http_encode_def, rule assms, rule f_http_decode_def) (simp add: plain_set.decode_encode assms)
  show "decodes_to f_http_encode_string f_http_decode s s"
    by (rule decodes_toI [where safe = is_http_safe and simple = 1], rule f_http_encode_string_def, rule assms, rule f_http_decode_def) (simp add: http_set.decode_encode assms)
  show "decodes_to f_http_encode_cookie f_http_decode s s"
    by (rule decodes_toI [where safe = is_cookie_safe and simple = 1], rule f_http_encode_cookie_def, rule assms, rule f_http_decode_def) (simp add: cookie_set.decode_encode assms)
  show "decodes_to f_http_encode_url f_http_decode s s"
    by (rule decodes_toI [where safe = is_url_safe and simple = 1], rule f_http_encode_url_def, rule assms, rule f_http_decode_def) (simp add: url_set.decode_encode assms)
  show "decodes_to f_http_encode f_http_decode_url s s"
    by (rule decodes_toI [where safe = is_safe and simple = 2], rule f_http_encode_def, rule assms, rule f_http_decode_url_def) (simp add: plain_set.form_decode_encode assms)
  show "decodes_to f_http_encode_url f_http_decode_url s (map (\<lambda>c. if c = CHR ''+'' then SP else c) s)"
    by (rule decodes_toI [where safe = is_url_safe and simple = 2], rule f_http_encode_url_def, rule assms, rule f_http_decode_url_def) (simp add: url_set.plus_encode assms is_url_safe_def)
qed

theorem http_encode_roundtrip_witness:
  "\<exists>st1 t. f_http_encode_url (\<lambda>_. True) spad_start ''a+b c%'' = Some (st1, Inr t) \<and>
     (\<exists>st2 r. f_http_decode_url (\<lambda>_. True) st1 t = Some (st2, r) \<and> (\<forall>v. r = Inr v \<longrightarrow> v = ''a b c%''))"
proof -
  have "decodes_to f_http_encode_url f_http_decode_url ''a+b c%'' ''a b c%''"
    using http_encode_roundtrip [of "''a+b c%''"] by simp
  moreover have "pad_has_room (\<lambda>_. True) spad_start (3 * length ''a+b c%'' + 1)"
    by (simp add: pad_has_room_def spad_start_def SPAD_INIT_SIZE_def)
  ultimately show ?thesis using spad_ok_start unfolding decodes_to_def by blast
qed

text \<open>
  What an encoder returns consists of safe bytes, percent signs and upper-case hexadecimal digits only, so that no byte
  the context gives a meaning survives: no blank, quote or angle bracket in \<^verbatim>\<open>http_encode_string\<close>,
  no separator in a cookie, and nothing but letters and digits in \<^verbatim>\<open>http_encode\<close>.
\<close>

lemma encoded_bytes:
  assumes "encoded_string s (do_encode_stuff malloc_ok st s safe) = Some (st', Inr t)" "NUL \<notin> set s" "spad_ok st" "set hex_chars \<subseteq> {c. safe c}"
  shows "set t \<subseteq> {c. safe c} \<union> {CHR ''%''}"
  using do_encode_stuff_result [OF assms(2,3), of malloc_ok safe] assms(1,4) encode_loop_set [of safe s] by auto

lemma http_encode_alphabet:
  assumes "NUL \<notin> set s" "spad_ok st"
  shows "(f_http_encode m st s = Some (st', Inr t) \<longrightarrow> set t \<subseteq> {c. is_safe c} \<union> {CHR ''%''}) \<and>
         (f_http_encode_string m st s = Some (st', Inr t) \<longrightarrow>
            set t \<inter> {NUL, SP, CHR 0x09, LF, CR, CHR 0x27, CHR 0x22, CHR ''<'', CHR ''>'', CHR ''@''} = {}) \<and>
         (f_http_encode_cookie m st s = Some (st', Inr t) \<longrightarrow> set t \<inter> {CHR ''='', CHR '','', CHR '';'', CHR '':''} = {}) \<and>
         (f_http_encode_url m st s = Some (st', Inr t) \<longrightarrow> set t \<subseteq> {c. is_url_safe c} \<union> {CHR ''%''})"
proof -
  have hex: "set hex_chars \<subseteq> {c. is_safe c}" "set hex_chars \<subseteq> {c. is_http_safe c}"
    "set hex_chars \<subseteq> {c. is_cookie_safe c}" "set hex_chars \<subseteq> {c. is_url_safe c}"
    by (simp_all add: hex_chars_def is_safe_def is_http_safe_def is_cookie_safe_def
        is_url_safe_def schar_def)
  have d: "{c. is_http_safe c} \<inter> {NUL, SP, CHR 0x09, LF, CR, CHR 0x27, CHR 0x22, CHR ''<'', CHR ''>'', CHR ''@''} = {}"
    "{c. is_cookie_safe c} \<inter> {CHR ''='', CHR '','', CHR '';'', CHR '':''} = {}"
    by (auto simp: is_http_safe_def is_cookie_safe_def)
  note e = encoded_bytes [OF _ assms, of m _ st' t]
  have 1: "set t \<subseteq> {c. is_safe c} \<union> {CHR ''%''}" if "f_http_encode m st s = Some (st', Inr t)"
    using e [OF _ hex(1)] that by (simp add: f_http_encode_def)
  have 2: "set t \<subseteq> {c. is_http_safe c} \<union> {CHR ''%''}" if "f_http_encode_string m st s = Some (st', Inr t)"
    using e [OF _ hex(2)] that by (simp add: f_http_encode_string_def)
  have 3: "set t \<subseteq> {c. is_cookie_safe c} \<union> {CHR ''%''}" if "f_http_encode_cookie m st s = Some (st', Inr t)"
    using e [OF _ hex(3)] that by (simp add: f_http_encode_cookie_def)
  have 4: "set t \<subseteq> {c. is_url_safe c} \<union> {CHR ''%''}" if "f_http_encode_url m st s = Some (st', Inr t)"
    using e [OF _ hex(4)] that by (simp add: f_http_encode_url_def)
  have apart: "A \<inter> C = {}" if "A \<subseteq> B \<union> {CHR ''%''}" "B \<inter> C = {}" "CHR ''%'' \<notin> C" for A B C :: "char set"
    using that by blast
  show ?thesis using 1 apart [OF 2 d(1)] apart [OF 3 d(2)] 4 by simp
qed

lemma http_encode_alphabet_witness:
  "\<exists>st' t. f_http_encode_cookie (\<lambda>_. True) spad_start ''k=v; w'' = Some (st', Inr t) \<and>
   set t \<inter> {CHR ''='', CHR '','', CHR '';'', CHR '':''} = {}"
proof -
  have n: "NUL \<notin> set ''k=v; w''" by simp
  have "pad_has_room (\<lambda>_. True) spad_start (3 * length ''k=v; w'' + 1)"
    by (simp add: pad_has_room_def spad_start_def SPAD_INIT_SIZE_def)
  then obtain st' t where t: "f_http_encode_cookie (\<lambda>_. True) spad_start ''k=v; w'' = Some (st', Inr t)"
    using do_encode_stuff_result [OF n spad_ok_start, of "\<lambda>_. True" is_cookie_safe] by (auto simp: f_http_encode_cookie_def)
  then have "set t \<inter> {CHR ''='', CHR '','', CHR '';'', CHR '':''} = {}"
    using http_encode_alphabet [OF n spad_ok_start, of "\<lambda>_. True" st' t] by simp
  with t show ?thesis by (intro exI conjI)
qed

lemma url_decode_spad_safe_witness:
  "\<exists>st' r. url_decode_spad (\<lambda>_. True) spad_start (Some ''a+b'') 3 False 1 = Some (st', r) \<and>
     r \<noteq> Inl Out_of_bounds \<and> (\<forall>d. r = Inr d \<longrightarrow> d = Some ''a+b'')"
  using url_decode_spad_safe [OF spad_ok_start, of 3 "\<lambda>_. True" "''a+b''" False 1]
    url_decode_eq [of 3 "''a+b''" False 1] by fastforce

text \<open>
  The encoder asks the scratch pad for one byte less than it writes: on a thread's first
  request for a string whose encoding needs more than the pad's initial 32 KB, the terminating
  zero is stored behind the end of the buffer.
\<close>

lemma encode_out_overrun:
  assumes "NUL \<notin> set s" "count_unsafe safe s \<noteq> 0" "int SPAD_INIT_SIZE \<le> encode_out_len safe s"
  shows "\<exists>st'. do_encode_stuff (\<lambda>_. True) spad_start s safe = Some (st', Inl Out_of_bounds)"
proof -
  let ?n = "nat (encode_out_len safe s)"
  have len: "length (encode_out safe s) = ?n + 1"
    using assms by (simp add: encode_out_def encode_out_len_def length_encode_loop cstr_id)
  have "\<exists>st'. scratchpad_get (\<lambda>_. True) spad_start ?n = Some (st', Inr ?n)"
    using assms(3)
    by (simp add: scratchpad_get_def spad_start_def scratchpad_init_def scratchpad_allocate_def
        nat_less_iff)
  with len assms(2) show ?thesis
    by (auto simp: do_encode_stuff_def)
qed

lemma encode_out_overrun_witness:
  "\<exists>st'. do_encode_stuff (\<lambda>_. True) spad_start (replicate 40000 SP) is_safe =
      Some (st', Inl Out_of_bounds)"
proof -
  have uns: "count_unsafe is_safe (replicate n SP) = n" for n
    by (induction n) (simp_all add: is_safe_def schar_def)
  have "int SPAD_INIT_SIZE \<le> encode_out_len is_safe (replicate 40000 SP)"
    unfolding encode_out_len_def uns length_replicate by (simp add: SPAD_INIT_SIZE_def)
  moreover have "count_unsafe is_safe (replicate 40000 SP) \<noteq> 0"
    unfolding uns by simp
  moreover have "NUL \<notin> set (replicate 40000 SP)" by (simp add: in_set_replicate)
  ultimately show ?thesis by (intro encode_out_overrun)
qed

end
