(* ===== verification/Request_Buffer.thy ===== *)
theory Request_Buffer
  imports Url_Codec
begin

text \<open>
  The incremental HTTP request parser, class \<^verbatim>\<open>ParseHTTP\<close> of
  \<^verbatim>\<open>src/cmods/_Caudium/caudium.c\<close>: \<^verbatim>\<open>create\<close>, \<^verbatim>\<open>append\<close> and the storage callbacks. The
  object keeps the raw bytes received so far in one buffer of fixed size; once a blank line has
  arrived, \<^verbatim>\<open>append\<close> parses the request line and the headers in place and fills the two
  mappings given to \<^verbatim>\<open>create\<close>. A pointer \<^verbatim>\<open>in\<close> into the buffer is modelled by the suffix of
  the buffer that starts at it.
\<close>

section \<open>The object's storage\<close>

definition BUFSIZE :: nat where "BUFSIZE = 16535"
definition BUFSIZE_MIN :: int where "BUFSIZE_MIN = 100"
definition BUFSIZE_MAX :: int where "BUFSIZE_MAX = 1024 * 1024"

type_synonym headers = "(string, svalue) pmap"

record buffer =
  bf_pos :: nat
  bf_free :: nat
  bf_headers :: "headers option"
  bf_other :: "headers option"
  bf_data :: "string option"

definition alloc_buf_struct :: "buffer \<Rightarrow> buffer" where
  "alloc_buf_struct b = b\<lparr>bf_headers := None, bf_other := None, bf_data := None, bf_free := BUFSIZE\<rparr>"

definition free_buf_struct :: "buffer \<Rightarrow> buffer" where
  "free_buf_struct b = b\<lparr>bf_headers := None, bf_other := None, bf_data := None\<rparr>"

text \<open>
  \<open>malloc n\<close> is the block of \<open>n\<close> bytes with whatever they hold, or \<open>None\<close>. The third argument
  of \<^verbatim>\<open>create\<close> is optional; \<open>Create_other\<close> is a call with any other number of arguments. The mappings and the
  size, an \<^verbatim>\<open>unsigned\<close>, are stored in the object before the size is checked.
\<close>

datatype create_args = Create2 headers headers | Create3 headers headers int | Create_other

definition allot_buffer :: "(nat \<Rightarrow> string option) \<Rightarrow> buffer \<Rightarrow> buffer \<times> unit res" where
  "allot_buffer malloc b =
     (if bf_free b = 0 then (b\<lparr>bf_pos := 0\<rparr>, Inr ())
      else (case malloc (bf_free b) of
          None \<Rightarrow> (b, Inl (Pike_error ''Cannot allocate the request buffer. Out of memory.''))
        | Some d \<Rightarrow> (b\<lparr>bf_data := Some d, bf_pos := 0\<rparr>, Inr ())))"

definition f_buf_create :: "(nat \<Rightarrow> string option) \<Rightarrow> create_args \<Rightarrow> buffer \<Rightarrow> buffer \<times> unit res" where
  "f_buf_create malloc args b =
     (if bf_data b \<noteq> None then (b, Inl (Pike_error ''Create already called!''))
      else
        (case args of
           Create_other \<Rightarrow> (b, Inl (Pike_error ''Wrong number of arguments to create. Expected 2 or 3.''))
         | Create3 other headers n \<Rightarrow>
             let b = b\<lparr>bf_other := Some other, bf_headers := Some headers, bf_free := nat (n mod 2 ^ 32)\<rparr>
             in if int (bf_free b) < BUFSIZE_MIN \<or> int (bf_free b) > BUFSIZE_MAX
                then (b, Inl (Pike_error ''Specified buffer size not within the <100,1048576>.''))
                else allot_buffer malloc b
         | Create2 other headers \<Rightarrow>
             allot_buffer malloc (b\<lparr>bf_other := Some other, bf_headers := Some headers\<rparr>)))"

section \<open>Scanning\<close>

text \<open>The search for two line feeds with nothing but carriage returns between them.\<close>

function scan_blank_line :: "string \<Rightarrow> nat \<Rightarrow> nat \<Rightarrow> nat \<Rightarrow> nat \<times> nat" where
  "scan_blank_line data ep pp slash_n =
     (if pp < ep \<and> slash_n < 2 then
        scan_blank_line data ep (pp + 1)
          (if data ! pp = LF then slash_n + 1 else if data ! pp \<noteq> CR then 0 else slash_n)
      else (pp, slash_n))"
  by pat_completeness auto
termination
  by (relation "measure (\<lambda>(data, ep, pp, slash_n). ep - pp)") auto

declare scan_blank_line.simps [simp del]

text \<open>The loops "find method" and "find file"; \<open>None\<close> is the early return with code 400.\<close>

function find_space :: "string \<Rightarrow> nat \<Rightarrow> nat \<Rightarrow> nat option" where
  "find_space inp l i =
     (if i < l then
        if inp ! i = SP then Some i
        else if inp ! i = LF then None
        else find_space inp l (i + 1)
      else Some i)"
  by pat_completeness auto
termination
  by (relation "measure (\<lambda>(inp, l, i). l - i)") auto

declare find_space.simps [simp del]

text \<open>The loop "find protocol".\<close>

function find_newline :: "string \<Rightarrow> nat \<Rightarrow> nat \<Rightarrow> nat option" where
  "find_newline inp l i =
     (if i < l then
        if inp ! i = LF then Some i
        else if inp ! i = SP then None
        else find_newline inp l (i + 1)
      else Some i)"
  by pat_completeness auto
termination
  by (relation "measure (\<lambda>(inp, l, i). l - i)") auto

declare find_newline.simps [simp del]

text \<open>\<^verbatim>\<open>while(in[os]==' ') os++\<close> and the search for the end of the line.\<close>

function skip_spaces :: "string \<Rightarrow> nat \<Rightarrow> nat" where
  "skip_spaces inp os = (if byte_at inp os = SP then skip_spaces inp (os + 1) else os)"
  by pat_completeness auto
termination
  by (relation "measure (\<lambda>(inp, os). length inp - os)") (auto simp: byte_at_def split: if_splits)

declare skip_spaces.simps [simp del]

function find_eol :: "string \<Rightarrow> nat \<Rightarrow> nat \<Rightarrow> nat" where
  "find_eol inp l j =
     (if j < l \<and> inp ! j \<noteq> LF \<and> inp ! j \<noteq> CR then find_eol inp l (j + 1) else j)"
  by pat_completeness auto
termination
  by (relation "measure (\<lambda>(inp, l, j). l - j)") auto

declare find_eol.simps [simp del]

lemma skip_spaces_ge: "os \<le> skip_spaces inp os"
proof (induction inp os rule: skip_spaces.induct)
  case (1 inp os)
  then show ?case by (auto simp: skip_spaces.simps [of inp os])
qed

lemma find_eol_ge: "j \<le> find_eol inp l j"
proof (induction inp l j rule: find_eol.induct)
  case (1 inp l j)
  then show ?case by (auto simp: find_eol.simps [of inp l j])
qed

lemma next_line_gt:
  "i < l \<Longrightarrow> l - Suc (find_eol inp l (skip_spaces inp (Suc i))) < l - i"
  "i < l \<Longrightarrow> l - Suc (Suc (find_eol inp l (skip_spaces inp (Suc i)))) < l - i"
  using le_trans [OF skip_spaces_ge [of "Suc i" inp] find_eol_ge [of _ inp l]] by linarith+

section \<open>Headers\<close>

text \<open>
  A repeated header is joined to its earlier value with a comma. \<open>merge_bytes\<close> are all the bytes
  the two \<^verbatim>\<open>MEMCPY\<close> calls and the assignment store into the new string, \<open>merge_len\<close> is the
  length it was created with.
\<close>

definition merge_len :: "string \<Rightarrow> nat \<Rightarrow> nat \<Rightarrow> nat" where
  "merge_len old os j = (j - os + 1) + length old"

definition merge_bytes :: "string \<Rightarrow> string \<Rightarrow> nat \<Rightarrow> nat \<Rightarrow> string" where
  "merge_bytes inp old os j = old @ '','' @ substr inp os (j - os + 1)"

definition header_value :: "string \<Rightarrow> svalue option \<Rightarrow> nat \<Rightarrow> nat \<Rightarrow> svalue" where
  "header_value inp tmp os j =
     (case tmp of
        Some (SString old) \<Rightarrow> SString (take (merge_len old os j) (merge_bytes inp old os j))
      | _ \<Rightarrow> SString (substr inp os (j - os)))"

function header_loop ::
  "string \<Rightarrow> nat \<Rightarrow> nat \<Rightarrow> nat \<Rightarrow> headers \<Rightarrow> string \<times> headers" where
  "header_loop inp l i os hds =
     (if i < l then
        if code_of (CHR ''A'') \<le> code_of (inp ! i) \<and> code_of (inp ! i) \<le> code_of (CHR ''Z'')
        then header_loop (inp[i := char_of (code_of (inp ! i) OR 32)]) l (i + 1) os hds
        else if inp ! i = CHR '':'' then
          (let skey = substr inp os (i - os);
               os' = skip_spaces inp (i + 1);
               j = find_eol inp l os';
               sval = header_value inp (mapping_lookup hds skey) os' j;
               j' = (if byte_at inp (j + 1) = LF then j + 1 else j)
           in header_loop inp l (j' + 1) (j' + 1) (mapping_insert hds skey sval))
        else header_loop inp l (i + 1) os hds
      else (inp, hds))"
  by pat_completeness auto
termination
  by (relation "measure (\<lambda>(inp, l, i, os, hds). l - i)") (auto simp: Let_def next_line_gt)

declare header_loop.simps [simp del]

section \<open>The request line and append\<close>

text \<open>
  What \<^verbatim>\<open>append\<close> does once the blank line has arrived: \<open>l\<close> is the length of the head (up to and
  including the blank line), \<open>pos\<close> the number of bytes received. The results are the buffer, the
  two mappings and the return code.
\<close>

definition parse_protocol ::
  "string \<Rightarrow> nat \<Rightarrow> nat \<Rightarrow> headers \<Rightarrow> headers \<Rightarrow> string \<times> headers \<times> headers \<times> int" where
  "parse_protocol data p l hds ot =
     (case find_newline (drop p data) l 0 of
        None \<Rightarrow> (data, hds, ot, 400)
      | Some i0 \<Rightarrow>
          (let i = (if data ! (p + i0 - 1) \<noteq> CR then i0 + 1 else i0);
               ot' = mapping_insert ot ''protocol'' (SString (substr data p (i - 1)));
               p' = p + i; l' = l - i;
               (p'', l'') = (if byte_at data p' = LF then (p' + 1, l' - 1) else (p', l'));
               (inp, hds') = header_loop (drop p'' data) l'' 0 0 hds
           in (take p'' data @ inp, hds', ot', 1)))"

definition parse_file ::
  "string \<Rightarrow> nat \<Rightarrow> nat \<Rightarrow> headers \<Rightarrow> headers \<Rightarrow> string \<times> headers \<times> headers \<times> int" where
  "parse_file data p l hds ot =
     (case find_space (drop p data) l 0 of
        None \<Rightarrow> (data, hds, ot, 400)
      | Some i \<Rightarrow>
          (let ot1 = mapping_insert ot ''raw_url'' (SString (substr data p i));
               (inp, query) = char_decode_url (drop p data) i;
               ot2 = mapping_insert ot1 ''file'' (SString (cstr inp));
               ot3 = (case query of
                        None \<Rightarrow> ot2
                      | Some q \<Rightarrow> mapping_insert ot2 ''query'' (SString (substr inp q (i - q))))
           in parse_protocol (take p data @ inp) (p + (i + 1)) (l - (i + 1)) hds ot3))"

definition parse_request ::
  "string \<Rightarrow> nat \<Rightarrow> nat \<Rightarrow> headers \<Rightarrow> headers \<Rightarrow> string \<times> headers \<times> headers \<times> int" where
  "parse_request data pos l hds ot =
     (let ot1 = mapping_insert ot ''data'' (SString (substr data l (pos - l))) in
      case find_space data l 0 of
        None \<Rightarrow> (data, hds, ot1, 400)
      | Some i \<Rightarrow>
          parse_file data (i + 1) (l - (i + 1)) hds
            (mapping_insert ot1 ''method'' (SString (take i data))))"

text \<open>\<^verbatim>\<open>MEMCPY(BUF->pos, str->str, str->len)\<close> and the terminating zero.\<close>

definition store_input :: "string \<Rightarrow> nat \<Rightarrow> string \<Rightarrow> string" where
  "store_input data pos s = (take pos data @ s @ drop (pos + length s) data)[pos + length s := NUL]"

definition f_buf_append :: "string \<Rightarrow> buffer \<Rightarrow> buffer \<times> int res" where
  "f_buf_append s b =
     (if length s \<ge> bf_free b then (b, Inr 413)
      else case (bf_data b, bf_headers b, bf_other b) of
        (Some data, Some hds, Some ot) \<Rightarrow>
          (let pos = bf_pos b;
               copied = take pos data @ s @ drop (pos + length s) data;
               (pp, slash_n) = scan_blank_line copied (pos + length s) (pos - 3) 0;
               data' = store_input data pos s;
               b' = b\<lparr>bf_free := bf_free b - length s, bf_pos := pos + length s, bf_data := Some data'\<rparr>
           in if slash_n \<noteq> 2 then (b', Inr 0)
              else (let (data'', hds', ot', code) = parse_request data' (pos + length s) pp hds ot
                    in (b'\<lparr>bf_data := Some data'', bf_headers := Some hds', bf_other := Some ot'\<rparr>,
                        Inr code)))
      | _ \<Rightarrow> (b, Inl Out_of_bounds))"

section \<open>The search for the blank line as a function of the bytes\<close>

definition lf_step :: "nat \<Rightarrow> char \<Rightarrow> nat" where
  "lf_step n c = (if c = LF then n + 1 else if c \<noteq> CR then 0 else n)"

text \<open>How many bytes are read, and the count of line feeds at the end; 2 means found.\<close>

fun blank_line :: "nat \<Rightarrow> string \<Rightarrow> nat \<times> nat" where
  "blank_line n [] = (0, n)"
| "blank_line n (c # cs) =
     (if n < 2 then (let (k, m) = blank_line (lf_step n c) cs in (k + 1, m)) else (0, n))"

lemma blank_line_stop: "\<not> n < 2 \<Longrightarrow> blank_line n xs = (0, n)"
  by (cases xs) simp_all

lemma scan_blank_line_eq:
  assumes "ep \<le> length d"
  shows "scan_blank_line d ep pp n =
    (let (k, m) = blank_line n (window d pp ep) in (pp + k, m))"
  using assms
proof (induction d ep pp n rule: scan_blank_line.induct)
  case (1 d ep pp n)
  show ?case
  proof (cases "pp < ep \<and> n < 2")
    case True
    with 1 show ?thesis
      by (simp add: scan_blank_line.simps [of d ep pp n] window_Cons lf_step_def [symmetric]
          split: prod.splits)
  next
    case False
    then show ?thesis
      by (auto simp: scan_blank_line.simps [of d ep pp n] blank_line_stop)
  qed
qed

lemma blank_line_le: "n \<le> 2 \<Longrightarrow> snd (blank_line n xs) \<le> 2 \<and> fst (blank_line n xs) \<le> length xs"
  by (induction n xs rule: blank_line.induct) (auto simp: lf_step_def split: prod.splits)

lemma blank_line_append:
  "blank_line n (xs @ ys) =
     (let (k, m) = blank_line n xs in
      if m < 2 then (let (k', m') = blank_line m ys in (length xs + k', m')) else (k, m))"
  by (induction n xs rule: blank_line.induct)
    (auto simp: blank_line_stop split: prod.splits)

lemma blank_line_length: "blank_line n xs = (k, m) \<Longrightarrow> m < 2 \<Longrightarrow> k = length xs"
  by (induction n xs arbitrary: k m rule: blank_line.induct) (auto split: prod.splits if_splits)

text \<open>
  Restarting three bytes back finds what the whole scan finds, unless those three bytes are
  all carriage returns.
\<close>

lemma blank_line_restart:
  assumes "blank_line 0 (xs @ [a, b, c]) = (k, m)" "m < 2" "[a, b, c] \<noteq> [CR, CR, CR]"
  shows "blank_line 0 [a, b, c] = (3, m)"
proof -
  obtain k1 m1 where xs: "blank_line 0 xs = (k1, m1)" by fastforce
  with assms have m1: "m1 < 2" "blank_line m1 [a, b, c] = (3, m)"
    by (auto simp: blank_line_append dest: blank_line_length split: prod.splits if_splits)
  then have "m1 = 0 \<or> m1 = 1" by auto
  with m1 assms(2,3) show ?thesis
    by (auto simp: lf_step_def Let_def split: if_splits)
qed

fun triple_cr :: "string \<Rightarrow> bool" where
  "triple_cr (a # b # c # xs) \<longleftrightarrow> a = CR \<and> b = CR \<and> c = CR \<or> triple_cr (b # c # xs)"
| "triple_cr _ \<longleftrightarrow> False"

lemma triple_cr_at: "triple_cr (xs @ CR # CR # CR # ys)"
proof (induction xs)
  case (Cons a xs)
  then show ?case by (cases xs; cases "tl xs") auto
qed simp

section \<open>Feeding in chunks\<close>

fun feed_all :: "(string \<Rightarrow> 's \<Rightarrow> 's \<times> int res) \<Rightarrow> string list \<Rightarrow> 's \<Rightarrow> 's \<times> int res" where
  "feed_all feed [] s = (s, Inr 0)"
| "feed_all feed (c # cs) s =
     (case feed c s of (s', r) \<Rightarrow> if r = Inr 0 then feed_all feed cs s' else (s', r))"

text \<open>
  An incremental consumer: input that is not yet complete can be delivered in pieces.
  \<open>calm s x\<close> says of the input received so far followed by \<open>x\<close> that it may be cut anywhere.
\<close>

locale incremental =
  fixes feed :: "string \<Rightarrow> 's \<Rightarrow> 's \<times> int res"
    and ok :: "'s \<Rightarrow> bool"
    and calm :: "'s \<Rightarrow> string \<Rightarrow> bool"
  assumes feed_ok: "ok s \<Longrightarrow> ok (fst (feed a s))"
    and feed_prefix: "ok s \<Longrightarrow> snd (feed (a @ b) s) = Inr 0 \<Longrightarrow> snd (feed a s) = Inr 0"
    and feed_calm: "ok s \<Longrightarrow> feed a s = (s', Inr 0) \<Longrightarrow> calm s (a @ b) \<Longrightarrow> calm s' b"
    and calm_prefix: "calm s (a @ b) \<Longrightarrow> calm s a"
    and feed_split: "ok s \<Longrightarrow> calm s (a @ b) \<Longrightarrow> feed a s = (s', Inr 0) \<Longrightarrow>
      snd (feed b s') = snd (feed (a @ b) s) \<and>
      (snd (feed b s') \<noteq> Inr 413 \<longrightarrow> feed b s' = feed (a @ b) s)"
begin

lemma feed_all_split:
  "ok s \<Longrightarrow> calm s (concat cs @ c) \<Longrightarrow> snd (feed (concat cs) s) = Inr 0 \<Longrightarrow>
     snd (feed_all feed (cs @ [c]) s) = snd (feed (concat cs @ c) s) \<and>
     (snd (feed (concat cs @ c) s) \<noteq> Inr 413 \<longrightarrow>
        feed_all feed (cs @ [c]) s = feed (concat cs @ c) s)"
proof (induction cs arbitrary: s)
  case Nil
  then show ?case by (auto split: prod.splits)
next
  case (Cons d cs)
  from Cons.prems have calm: "calm s (d @ concat cs @ c)" and zero: "snd (feed (d @ concat cs) s) = Inr 0"
    by simp_all
  obtain s' where d: "feed d s = (s', Inr 0)"
    using feed_prefix [OF Cons.prems(1) zero] by (metis prod.collapse)
  have calm': "calm s' (concat cs @ c)" using feed_calm [OF Cons.prems(1) d] calm by simp
  have ok': "ok s'" using feed_ok [OF Cons.prems(1), of d] d by simp
  have "calm s (d @ concat cs)" using calm_prefix [of s "d @ concat cs" c] calm by simp
  from feed_split [OF Cons.prems(1) this d, THEN conjunct1] zero
  have zero': "snd (feed (concat cs) s') = Inr 0" by (rule trans)
  note rest = feed_split [OF Cons.prems(1) calm d]
  have eq: "feed_all feed ((d # cs) @ [c]) s = feed_all feed (cs @ [c]) s'"
    by (simp add: d)
  from Cons.IH [OF ok' calm' zero'] rest show ?case
    unfolding eq concat.simps append_assoc by metis
qed

end

section \<open>The invariant of the object\<close>

definition buf_ok :: "buffer \<Rightarrow> bool" where
  "buf_ok b \<longleftrightarrow>
     (case (bf_data b, bf_headers b, bf_other b) of
        (Some d, Some hds, Some ot) \<Rightarrow> bf_pos b + bf_free b = length d \<and> 1 \<le> bf_free b
      | _ \<Rightarrow> False)"

definition received :: "buffer \<Rightarrow> string" where
  "received b = take (bf_pos b) (the (bf_data b))"

definition calm_input :: "buffer \<Rightarrow> string \<Rightarrow> bool" where
  "calm_input b x \<longleftrightarrow> \<not> triple_cr (received b @ x)"

lemma buf_okE:
  assumes "buf_ok b"
  obtains d hds ot where "bf_data b = Some d" "bf_headers b = Some hds" "bf_other b = Some ot"
    "bf_pos b + bf_free b = length d" "1 \<le> bf_free b"
  using assms by (auto simp: buf_ok_def split: option.splits)

lemma length_char_decode_url_loop:
  "length (fst (char_decode_url_loop str stop ptr i nlen)) = length str"
proof (induction str stop ptr i nlen rule: char_decode_url_loop.induct)
  case (1 str stop ptr i nlen)
  then show ?case by (simp add: char_decode_url_loop.simps [of str stop ptr i nlen])
qed

lemma length_header_loop:
  "header_loop inp l i os hds = (inp', hds') \<Longrightarrow> length inp' = length inp"
proof (induction inp l i os hds arbitrary: inp' hds' rule: header_loop.induct)
  case (1 inp l i os hds)
  note eqn = "1.prems" [unfolded header_loop.simps [of inp l i os hds] Let_def]
  show ?case
    using eqn "1.IH" by (auto split: if_splits)
qed

lemma length_parse_protocol:
  "parse_protocol d p l hds ot = (d', r) \<Longrightarrow> length d' = length d"
  by (auto simp: parse_protocol_def Let_def dest!: length_header_loop
      split: option.splits prod.splits if_splits)

lemma length_char_decode_url: "char_decode_url str n = (str', q) \<Longrightarrow> length str' = length str"
  using length_char_decode_url_loop [of str n 0 0 0] by (simp add: char_decode_url_def)

lemma length_parse_file: "parse_file d p l hds ot = (d', r) \<Longrightarrow> length d' = length d"
  by (auto simp: parse_file_def Let_def dest!: length_parse_protocol length_char_decode_url
      split: option.splits prod.splits)

lemma length_parse_request: "parse_request d pos l hds ot = (d', r) \<Longrightarrow> length d' = length d"
  by (auto simp: parse_request_def Let_def dest!: length_parse_file split: option.splits)

lemma parse_request_code:
  "parse_request d pos l hds ot = (d', hds', ot', code) \<Longrightarrow> code = 1 \<or> code = 400"
  by (auto simp: parse_request_def parse_file_def parse_protocol_def Let_def
      split: option.splits prod.splits)

lemma store_input_eq:
  assumes "pos + length s < length d"
  shows "store_input d pos s = take pos d @ s @ NUL # drop (pos + length s + 1) d"
proof -
  have "drop (pos + length s) d = d ! (pos + length s) # drop (pos + length s + 1) d"
    using assms by (simp add: Cons_nth_drop_Suc)
  with assms show ?thesis by (simp add: store_input_def list_update_append)
qed

text \<open>\<^verbatim>\<open>append\<close> in terms of the bytes received, for an object in order.\<close>

lemma f_buf_append_eq:
  assumes "bf_data b = Some d" "bf_headers b = Some hds" "bf_other b = Some ot"
    and "bf_pos b + bf_free b = length d" "length s < bf_free b"
    and "blank_line 0 (drop (bf_pos b - 3) (take (bf_pos b) d @ s)) = (k, m)"
  defines "n \<equiv> bf_pos b + length s"
  defines "d' \<equiv> store_input d (bf_pos b) s"
  defines "b' \<equiv> b\<lparr>bf_free := bf_free b - length s, bf_pos := n, bf_data := Some d'\<rparr>"
  shows "f_buf_append s b =
    (if m \<noteq> 2 then (b', Inr 0)
     else (let (d'', hds', ot', code) = parse_request d' n (bf_pos b - 3 + k) hds ot
           in (b'\<lparr>bf_data := Some d'', bf_headers := Some hds', bf_other := Some ot'\<rparr>, Inr code)))"
proof -
  let ?c = "take (bf_pos b) d @ s @ drop (bf_pos b + length s) d"
  have "scan_blank_line ?c n (bf_pos b - 3) 0 = (bf_pos b - 3 + k, m)"
    using assms by (simp add: scan_blank_line_eq n_def)
  with assms(1-5) show ?thesis
    by (simp add: f_buf_append_def n_def d'_def b'_def Let_def)
qed

lemma f_buf_append_full: "bf_free b \<le> length s \<Longrightarrow> f_buf_append s b = (b, Inr 413)"
  by (simp add: f_buf_append_def)

lemma f_buf_append_invariant:
  assumes ok: "buf_ok b" and res: "f_buf_append s b = (b', r)"
  shows "buf_ok b' \<and> bf_pos b' + bf_free b' = bf_pos b + bf_free b \<and>
    (if bf_free b \<le> length s then b' = b \<and> r = Inr 413
     else r \<in> {Inr 0, Inr 1, Inr 400} \<and> bf_pos b' = bf_pos b + length s)"
proof (cases "bf_free b \<le> length s")
  case True
  with ok res show ?thesis by (auto simp: f_buf_append_full)
next
  case False
  from ok obtain d hds ot where b: "bf_data b = Some d" "bf_headers b = Some hds"
    "bf_other b = Some ot" "bf_pos b + bf_free b = length d" "1 \<le> bf_free b"
    by (rule buf_okE)
  obtain k m where scan: "blank_line 0 (drop (bf_pos b - 3) (take (bf_pos b) d @ s)) = (k, m)"
    by fastforce
  obtain d'' hds' ot' code where
    p: "parse_request (store_input d (bf_pos b) s) (bf_pos b + length s) (bf_pos b - 3 + k) hds ot
      = (d'', hds', ot', code)"
    by (metis prod_cases4)
  have "length (store_input d (bf_pos b) s) = length d"
    using False b by (simp add: store_input_eq)
  with length_parse_request [OF p] parse_request_code [OF p] False b res p show ?thesis
    using f_buf_append_eq [OF b(1-4) _ scan]
    by (auto simp: buf_ok_def split: if_splits)
qed

section \<open>Input may arrive in pieces\<close>

text \<open>The part of the buffer \<^verbatim>\<open>append\<close> scans, and when it answers 0.\<close>

lemma append_zero_iff:
  assumes "bf_data b = Some d" "bf_headers b = Some hds" "bf_other b = Some ot"
    "bf_pos b + bf_free b = length d"
  shows "snd (f_buf_append s b) = Inr 0 \<longleftrightarrow> length s < bf_free b \<and>
    snd (blank_line 0 (drop (bf_pos b - 3) (take (bf_pos b) d @ s))) \<noteq> 2"
proof -
  obtain k m where scan: "blank_line 0 (drop (bf_pos b - 3) (take (bf_pos b) d @ s)) = (k, m)"
    by fastforce
  obtain d'' hds' ot' code where
    p: "parse_request (store_input d (bf_pos b) s) (bf_pos b + length s) (bf_pos b - 3 + k) hds ot
      = (d'', hds', ot', code)"
    by (metis prod_cases4)
  show ?thesis
    using f_buf_append_eq [OF assms _ scan] parse_request_code [OF p] scan p f_buf_append_full [of b s]
    by (cases "length s < bf_free b") auto
qed

lemma blank_line_prefix: "snd (blank_line 0 (xs @ ys)) \<noteq> 2 \<Longrightarrow> snd (blank_line 0 xs) \<noteq> 2"
  using blank_line_le [of 0 xs] by (auto simp: blank_line_append split: prod.splits if_splits)

lemma append_zero_prefix:
  assumes "buf_ok b" "snd (f_buf_append (x @ y) b) = Inr 0"
  shows "snd (f_buf_append x b) = Inr 0"
proof -
  from assms(1) obtain d hds ot where b: "bf_data b = Some d" "bf_headers b = Some hds"
    "bf_other b = Some ot" "bf_pos b + bf_free b = length d" "1 \<le> bf_free b"
    by (rule buf_okE)
  let ?w = "\<lambda>s. drop (bf_pos b - 3) (take (bf_pos b) d @ s)"
  note zero = append_zero_iff [OF b(1-4)]
  have "?w (x @ y) = ?w x @ y" using b by simp
  with zero [of "x @ y"] assms(2) have "length x < bf_free b" "snd (blank_line 0 (?w x @ y)) \<noteq> 2"
    by (simp_all only:) simp_all
  with blank_line_prefix [of "?w x" y] show ?thesis unfolding zero by blast
qed

lemma append_zero_state:
  assumes "bf_data b = Some d" "bf_headers b = Some hds" "bf_other b = Some ot"
    "bf_pos b + bf_free b = length d" "f_buf_append s b = (b', Inr 0)"
  shows "b' = b\<lparr>bf_free := bf_free b - length s, bf_pos := bf_pos b + length s,
    bf_data := Some (store_input d (bf_pos b) s)\<rparr>"
    and "take (bf_pos b + length s) (store_input d (bf_pos b) s) = take (bf_pos b) d @ s"
    and "length s < bf_free b"
proof -
  obtain k m where scan: "blank_line 0 (drop (bf_pos b - 3) (take (bf_pos b) d @ s)) = (k, m)"
    by fastforce
  have z: "length s < bf_free b" "m \<noteq> 2"
    using append_zero_iff [OF assms(1-4), of s] assms(5) scan by auto
  with f_buf_append_eq [OF assms(1-4) z(1) scan] assms(5)
  show "b' = b\<lparr>bf_free := bf_free b - length s, bf_pos := bf_pos b + length s,
    bf_data := Some (store_input d (bf_pos b) s)\<rparr>"
    by simp
  show "take (bf_pos b + length s) (store_input d (bf_pos b) s) = take (bf_pos b) d @ s"
    using z assms(4) by (simp add: store_input_eq)
  show "length s < bf_free b" by (rule z)
qed

lemma store_input_twice:
  "pos + length x + length y < length d \<Longrightarrow>
     store_input (store_input d pos x) (pos + length x) y = store_input d pos (x @ y)"
  by (simp add: store_input_eq ac_simps)

lemma length_3_cases: "length xs = 3 \<Longrightarrow> \<exists>a b c. xs = [a, b, c]"
  by (auto simp: numeral_3_eq_3 length_Suc_conv)

lemma blank_line_drop3:
  assumes "blank_line 0 xs = (k, m)" "m < 2" "\<not> triple_cr xs" "3 \<le> length xs"
  shows "blank_line 0 (drop (length xs - 3) xs) = (3, m)"
proof -
  let ?t = "drop (length xs - 3) xs"
  from assms(4) have "length ?t = 3" by simp
  then obtain c1 c2 c3 where t: "?t = [c1, c2, c3]"
    using length_3_cases by blast
  then have xs: "xs = take (length xs - 3) xs @ [c1, c2, c3]"
    by (metis append_take_drop_id)
  moreover have "[c1, c2, c3] \<noteq> [CR, CR, CR]"
    using assms(3) triple_cr_at [of "take (length xs - 3) xs" "[]"] xs by auto
  ultimately show ?thesis
    using blank_line_restart [of "take (length xs - 3) xs" c1 c2 c3 k m] assms(1,2) t by simp
qed

lemma triple_cr_suffix: "triple_cr ys \<Longrightarrow> triple_cr (xs @ ys)"
proof (induction xs)
  case (Cons a xs)
  then show ?case by (cases "xs @ ys"; cases "tl (xs @ ys)") auto
qed simp

lemma triple_cr_prefix: "triple_cr xs \<Longrightarrow> triple_cr (xs @ ys)"
  by (induction xs rule: triple_cr.induct) auto

lemma triple_cr_drop: "triple_cr (drop n xs) \<Longrightarrow> triple_cr xs"
  using triple_cr_suffix [of "drop n xs" "take n xs"] by simp

text \<open>Where the second of two scans ends, compared with one scan over everything.\<close>

lemma blank_line_resume:
  assumes "blank_line 0 xs = (k, m)" "m < 2" "\<not> triple_cr xs"
    and "blank_line 0 (xs @ y) = (k', m')"
  shows "\<exists>k''. blank_line 0 (drop (length xs - 3) xs @ y) = (k'', m') \<and> length xs - 3 + k'' = k'"
proof (cases "3 \<le> length xs")
  case True
  from blank_line_drop3 [OF assms(1-3) True] assms show ?thesis
    by (auto simp: blank_line_append split: prod.splits)
qed (use assms in simp)

lemma append_split:
  assumes ok: "buf_ok b" and calm: "calm_input b (x @ y)" and fst: "f_buf_append x b = (b1, Inr 0)"
  shows "snd (f_buf_append y b1) = snd (f_buf_append (x @ y) b) \<and>
    (snd (f_buf_append y b1) \<noteq> Inr 413 \<longrightarrow> f_buf_append y b1 = f_buf_append (x @ y) b)"
proof -
  from ok obtain d hds ot where b: "bf_data b = Some d" "bf_headers b = Some hds"
    "bf_other b = Some ot" "bf_pos b + bf_free b = length d" "1 \<le> bf_free b"
    by (rule buf_okE)
  note st = append_zero_state [OF b(1-4) fst]
  show ?thesis
  proof (cases "bf_free b \<le> length (x @ y)")
    case True
    with st show ?thesis by (simp add: f_buf_append_full)
  next
    case fits: False
    let ?T = "take (bf_pos b) d @ x"
    let ?xs = "drop (bf_pos b - 3) ?T"
    let ?pos = "bf_pos b + length x"
    let ?d1 = "store_input d (bf_pos b) x"
    have T: "length ?T = ?pos" using b by simp
    obtain k m where scan: "blank_line 0 ?xs = (k, m)" by fastforce
    obtain k' m' where scan': "blank_line 0 (?xs @ y) = (k', m')" by fastforce
    have "m < 2"
      using append_zero_iff [OF b(1-4), of x] fst scan blank_line_le [of 0 ?xs] by simp
    moreover have "\<not> triple_cr ?xs"
      using calm triple_cr_drop triple_cr_prefix b(1)
      by (metis append.assoc calm_input_def option.sel received_def)
    ultimately obtain k'' where k'': "blank_line 0 (drop (length ?xs - 3) ?xs @ y) = (k'', m')"
      "length ?xs - 3 + k'' = k'"
      using blank_line_resume [OF scan _ _ scan'] by blast
    have len: "length ?xs = ?pos - (bf_pos b - 3)" by (simp only: length_drop T)
    have "drop (length ?xs - 3) ?xs = drop (?pos - 3) ?T" unfolding len drop_drop by (rule arg_cong [where f = "\<lambda>n. drop n ?T"]) arith
    moreover have "take ?pos ?d1 @ y = ?T @ y" using st(2) by simp
    moreover have "drop (?pos - 3) (?T @ y) = drop (?pos - 3) ?T @ y" using T by simp
    ultimately have scan1: "blank_line 0 (drop (?pos - 3) (take ?pos ?d1 @ y)) = (k'', m')"
      using k''(1) by simp
    have pp: "?pos - 3 + k'' = bf_pos b - 3 + k'" using k''(2) len by arith
    have xy: "drop (bf_pos b - 3) (take (bf_pos b) d @ x @ y) = ?xs @ y" using b by simp
    have d1: "length ?d1 = length d" "store_input ?d1 ?pos y = store_input d (bf_pos b) (x @ y)"
      using fits b store_input_twice [of "bf_pos b" x y d] by (simp_all add: store_input_eq)
    have "f_buf_append y b1 = f_buf_append (x @ y) b"
      using f_buf_append_eq [of b1 ?d1 hds ot y k'' m'] f_buf_append_eq [OF b(1-4) _ scan' [folded xy]]
        scan1 fits b d1 pp st(1)
      by (simp add: add.assoc)
    then show ?thesis by simp
  qed
qed

lemma append_calm:
  assumes ok: "buf_ok b" and fst: "f_buf_append x b = (b1, Inr 0)" and calm: "calm_input b (x @ y)"
  shows "calm_input b1 y"
proof -
  from ok obtain d hds ot where b: "bf_data b = Some d" "bf_headers b = Some hds"
    "bf_other b = Some ot" "bf_pos b + bf_free b = length d" "1 \<le> bf_free b"
    by (rule buf_okE)
  from append_zero_state [OF b(1-4) fst] calm b(1) show ?thesis
    by (simp add: calm_input_def received_def)
qed

interpretation parse_http: incremental f_buf_append buf_ok calm_input
proof unfold_locales
  fix b b1 x y
  assume ok: "buf_ok b"
  show "buf_ok (fst (f_buf_append x b))"
    using f_buf_append_invariant [OF ok, of x] by (metis prod.collapse)
  show "snd (f_buf_append x b) = Inr 0" if "snd (f_buf_append (x @ y) b) = Inr 0"
    using ok that by (rule append_zero_prefix)
  assume fst: "f_buf_append x b = (b1, Inr 0)"
  show "calm_input b1 y" if "calm_input b (x @ y)"
    using ok fst that by (rule append_calm)
next
  fix b x y
  show "calm_input b (x @ y) \<Longrightarrow> calm_input b x"
    using triple_cr_prefix [of "received b @ x" y] by (auto simp: calm_input_def)
next
  fix b b1 x y
  assume "buf_ok b" "calm_input b (x @ y)" "f_buf_append x b = (b1, Inr 0)"
  then show "snd (f_buf_append y b1) = snd (f_buf_append (x @ y) b) \<and>
    (snd (f_buf_append y b1) \<noteq> Inr 413 \<longrightarrow> f_buf_append y b1 = f_buf_append (x @ y) b)"
    by (rule append_split)
qed

section \<open>Well-formed requests\<close>

definition header_line :: "string \<times> string \<Rightarrow> string" where
  "header_line nv = fst nv @ '': '' @ snd nv @ [CR, LF]"

definition request_head :: "string \<Rightarrow> string \<Rightarrow> string \<Rightarrow> (string \<times> string) list \<Rightarrow> string" where
  "request_head m url prot hs =
     m @ [SP] @ url @ [SP] @ prot @ [CR, LF] @ concat (map header_line hs) @ [CR, LF]"

definition wf_header :: "string \<times> string \<Rightarrow> bool" where
  "wf_header nv \<longleftrightarrow> set (fst nv) \<inter> {CR, LF, CHR '':''} = {} \<and> set (snd nv) \<inter> {CR, LF} = {} \<and>
     (snd nv = [] \<or> hd (snd nv) \<noteq> SP)"

definition wf_request :: "string \<Rightarrow> string \<Rightarrow> string \<Rightarrow> (string \<times> string) list \<Rightarrow> bool" where
  "wf_request m url prot hs \<longleftrightarrow> set m \<inter> {SP, LF} = {} \<and> set url \<inter> {SP, LF} = {} \<and>
     set prot \<inter> {SP, LF} = {} \<and> (\<forall>nv \<in> set hs. wf_header nv)"

text \<open>What a header contributes: its name in lower case, joined to an earlier value.\<close>

definition add_header :: "headers \<Rightarrow> string \<times> string \<Rightarrow> headers" where
  "add_header hds nv =
     (let name = map lower_byte (fst nv) in
      mapping_insert hds name
        (case mapping_lookup hds name of
           Some (SString old) \<Rightarrow> SString (old @ '','' @ snd nv)
         | _ \<Rightarrow> SString (snd nv)))"

subsection \<open>The loops on the text they are meant for\<close>

lemma find_space_word:
  "set w \<inter> {SP, LF} = {} \<Longrightarrow> length pre + length w < l \<Longrightarrow>
     find_space (pre @ w @ SP # r) l (length pre) = Some (length pre + length w)"
proof (induction w arbitrary: pre)
  case Nil
  then show ?case by (simp add: find_space.simps nth_append)
next
  case (Cons c w)
  then show ?case
    using Cons.IH [of "pre @ [c]"] by (subst find_space.simps) (auto simp: nth_append)
qed

lemma find_newline_word:
  "set w \<inter> {SP, LF} = {} \<Longrightarrow> length pre + length w < l \<Longrightarrow>
     find_newline (pre @ w @ LF # r) l (length pre) = Some (length pre + length w)"
proof (induction w arbitrary: pre)
  case Nil
  then show ?case by (simp add: find_newline.simps nth_append)
next
  case (Cons c w)
  then show ?case
    using Cons.IH [of "pre @ [c]"] by (subst find_newline.simps) (auto simp: nth_append)
qed

lemma find_eol_word:
  "set w \<inter> {CR, LF} = {} \<Longrightarrow> length pre + length w \<le> l \<Longrightarrow>
     find_eol (pre @ w @ CR # r) l (length pre) = length pre + length w"
proof (induction w arbitrary: pre)
  case Nil
  then show ?case by (simp add: find_eol.simps nth_append)
next
  case (Cons c w)
  then show ?case
    using Cons.IH [of "pre @ [c]"] by (subst find_eol.simps) (auto simp: nth_append)
qed

lemma skip_one_space:
  "c \<noteq> SP \<Longrightarrow> skip_spaces (pre @ SP # c # r) (length pre) = length pre + 1"
  by (simp add: skip_spaces.simps [of _ "length pre"] skip_spaces.simps [of _ "Suc (length pre)"]
      byte_at_def nth_append)

lemma header_value_eq:
  "os \<le> j \<Longrightarrow> header_value inp tmp os j =
     (case tmp of Some (SString old) \<Rightarrow> SString (old @ '','' @ substr inp os (j - os))
      | _ \<Rightarrow> SString (substr inp os (j - os)))"
  by (auto simp: header_value_def merge_len_def merge_bytes_def substr_def Suc_diff_le
      split: option.splits svalue.splits)

lemma header_loop_name:
  "CHR '':'' \<notin> set name \<Longrightarrow> length pre + length name \<le> l \<Longrightarrow>
     header_loop (pre @ name @ r) l (length pre) os hds =
     header_loop (pre @ map lower_byte name @ r) l (length pre + length name) os hds"
proof (induction name arbitrary: pre)
  case (Cons c name)
  have "header_loop (pre @ (c # name) @ r) l (length pre) os hds =
      header_loop ((pre @ [lower_byte c]) @ name @ r) l (length (pre @ [lower_byte c])) os hds"
    using Cons.prems by (subst header_loop.simps) (auto simp: nth_append lower_byte_def)
  also have "\<dots> = header_loop ((pre @ [lower_byte c]) @ map lower_byte name @ r) l
      (length (pre @ [lower_byte c]) + length name) os hds"
    using Cons.prems by (intro Cons.IH) auto
  finally show ?case by simp
qed simp

lemma header_loop_line:
  assumes "wf_header nv" "length pre + length (header_line nv) \<le> l"
  shows "\<exists>line'. length line' = length (header_line nv) \<and>
    header_loop (pre @ header_line nv @ r) l (length pre) (length pre) hds =
    header_loop (pre @ line' @ r) l (length (pre @ line')) (length (pre @ line')) (add_header hds nv)"
proof -
  obtain n v where nv: "nv = (n, v)" by fastforce
  let ?n = "map lower_byte n"
  let ?line = "?n @ '': '' @ v @ [CR, LF]"
  let ?inp = "pre @ ?line @ r"
  let ?i = "length pre + length n"
  from assms nv have wf: "CHR '':'' \<notin> set n" "set v \<inter> {CR, LF} = {}" "v = [] \<or> hd v \<noteq> SP"
    and l: "?i + length v + 4 \<le> l"
    by (auto simp: wf_header_def header_line_def)
  obtain c t where ct: "v @ [CR, LF] @ r = c # t" "c \<noteq> SP"
    using wf(3) by (cases v) auto
  have "skip_spaces ((pre @ ?n @ '':'') @ SP # c # t) (length (pre @ ?n @ '':'')) =
      length (pre @ ?n @ '':'') + 1"
    by (rule skip_one_space [OF ct(2)])
  then have skip: "skip_spaces ?inp (?i + 1) = ?i + 2"
    using ct(1) by simp
  have "find_eol ((pre @ ?n @ '': '') @ v @ CR # LF # r) l (length (pre @ ?n @ '': '')) =
      length (pre @ ?n @ '': '') + length v"
    using l by (intro find_eol_word [OF wf(2)]) simp
  then have eol: "find_eol ?inp l (?i + 2) = ?i + 2 + length v" by simp
  have key: "substr ?inp (length pre) (length n) = ?n" by (simp add: substr_def)
  have val: "substr ?inp (Suc (Suc ?i)) (length v) = v" by (simp add: substr_def)
  have diff: "Suc (Suc (?i + length v)) - Suc (Suc ?i) = length v" by simp
  have hv: "header_value ?inp tmp (Suc (Suc ?i)) (Suc (Suc (?i + length v))) =
      (case tmp of Some (SString old) \<Rightarrow> SString (old @ '','' @ v) | _ \<Rightarrow> SString v)" for tmp
    by (subst header_value_eq, simp, unfold diff val, rule refl)
  have ah: "add_header hds nv = mapping_insert hds ?n (case mapping_lookup hds ?n of
      Some (SString old) \<Rightarrow> SString (old @ '','' @ v) | _ \<Rightarrow> SString v)"
    by (unfold add_header_def nv Let_def fst_conv snd_conv, rule refl)
  have lf: "byte_at ?inp (?i + 2 + length v + 1) = LF" by (simp add: byte_at_def nth_append)
  have "header_loop (pre @ header_line nv @ r) l (length pre) (length pre) hds =
      header_loop ?inp l ?i (length pre) hds"
    using header_loop_name [OF wf(1), of pre l "'': '' @ v @ [CR, LF] @ r"] l nv
    by (simp add: header_line_def)
  also have "\<dots> = header_loop ?inp l (?i + length v + 4) (?i + length v + 4) (add_header hds nv)"
    using l by (subst header_loop.simps)
      (simp add: nth_append Let_def skip [simplified] eol [simplified] lf [simplified]
        key [simplified] hv [simplified] ah numeral_Bit0)
  finally show ?thesis
    by (intro exI [of _ ?line]) (simp add: nv header_line_def numeral_Bit0 add.assoc)
qed

lemma header_loop_lines:
  "\<forall>nv \<in> set hs. wf_header nv \<Longrightarrow> length pre + length (concat (map header_line hs)) + 2 = l \<Longrightarrow>
     snd (header_loop (pre @ concat (map header_line hs) @ [CR, LF] @ r) l (length pre) (length pre) hds) =
     foldl add_header hds hs"
proof (induction hs arbitrary: pre hds)
  case Nil
  then show ?case
    using header_loop_name [of "[CR, LF]" pre l r "length pre" hds]
    by (simp add: header_loop.simps [of _ l l] header_loop.simps [of _ "Suc (Suc (length pre))" "Suc (Suc (length pre))"] lower_byte_def)
next
  case (Cons nv hs)
  let ?rest = "concat (map header_line hs) @ [CR, LF] @ r"
  have "wf_header nv" "length pre + length (header_line nv) \<le> l" using Cons.prems by auto
  from header_loop_line [OF this, of ?rest hds] obtain line' where
    len: "length line' = length (header_line nv)" and
    step: "header_loop (pre @ header_line nv @ ?rest) l (length pre) (length pre) hds =
      header_loop (pre @ line' @ ?rest) l (length (pre @ line')) (length (pre @ line')) (add_header hds nv)"
    by blast
  have "snd (header_loop ((pre @ line') @ ?rest) l (length (pre @ line')) (length (pre @ line'))
      (add_header hds nv)) = foldl add_header (add_header hds nv) hs"
    using Cons.prems len by (intro Cons.IH) auto
  with step show ?case by simp
qed

lemma parse_protocol_head:
  assumes "set prot \<inter> {SP, LF} = {}" "\<forall>nv \<in> set hs. wf_header nv"
    and "l = length prot + 2 + length (concat (map header_line hs)) + 2"
    and "d = A @ prot @ [CR, LF] @ concat (map header_line hs) @ [CR, LF] @ r"
  shows "\<exists>d'. parse_protocol d (length A) l hds ot =
    (d', foldl add_header hds hs, mapping_insert ot ''protocol'' (SString prot), 1)"
proof -
  let ?lines = "concat (map header_line hs)"
  have "find_newline ((prot @ [CR]) @ LF # (?lines @ [CR, LF] @ r)) l 0 = Some (length (prot @ [CR]))"
    using find_newline_word [of "prot @ [CR]" "[]" l] assms(1,3) by auto
  then have nl: "find_newline (drop (length A) d) l 0 = Some (length prot + 1)"
    using assms(4) by simp
  have cr: "d ! (length A + length prot) = CR" and lf: "byte_at d (length A + length prot + 1) = LF"
    and prot: "substr d (length A) (length prot) = prot"
    using assms(4) by (simp_all add: nth_append byte_at_def substr_def)
  have rest: "drop (length A + length prot + 2) d = ?lines @ [CR, LF] @ r"
    using assms(4) by simp
  obtain inp hds' where loop: "header_loop (?lines @ [CR, LF] @ r) (length ?lines + 2) 0 0 hds = (inp, hds')"
    by fastforce
  with header_loop_lines [OF assms(2), of "[]" "length ?lines + 2" r hds]
  have "hds' = foldl add_header hds hs" by simp
  moreover have "l - Suc (length prot) - 1 = length ?lines + 2"
    using assms(3) by simp
  ultimately show ?thesis
    unfolding parse_protocol_def nl option.case
    using loop cr lf prot rest by (simp add: Let_def)
qed

subsection \<open>The request line\<close>

text \<open>\<^verbatim>\<open>char_decode_url\<close> leaves what lies behind the string alone.\<close>

lemma char_decode_url_loop_drop:
  "i \<le> ptr \<Longrightarrow> i \<le> stop \<Longrightarrow> nlen = i \<Longrightarrow>
     drop (Suc stop) (fst (char_decode_url_loop buf stop ptr i nlen)) = drop (Suc stop) buf"
proof (induction buf stop ptr i nlen rule: char_decode_url_loop.induct)
  case (1 buf stop ptr i nlen)
  then show ?case
    by (subst char_decode_url_loop.simps) (simp add: drop_update_cancel)
qed

lemma char_decode_url_drop:
  "char_decode_url str n = (str', q) \<Longrightarrow> drop (Suc n) str' = drop (Suc n) str"
  using char_decode_url_loop_drop [of 0 0 n 0 str] by (simp add: char_decode_url_def)

definition file_keys :: "string \<Rightarrow> headers \<Rightarrow> headers" where
  "file_keys url ot =
     (let ot2 = mapping_insert (mapping_insert ot ''raw_url'' (SString url)) ''file''
                  (SString (cstr (fst (url_split url)))) in
      case snd (url_split url) of None \<Rightarrow> ot2 | Some q \<Rightarrow> mapping_insert ot2 ''query'' (SString q))"

lemma parse_file_head:
  assumes "set url \<inter> {SP, LF} = {}" "length url < l" "d = A @ url @ SP # r"
  shows "\<exists>B. length B = length A + length url + 1 \<and>
    parse_file d (length A) l hds ot =
    parse_protocol (B @ r) (length B) (l - (length url + 1)) hds (file_keys url ot)"
proof -
  have sp: "find_space (url @ SP # r) l 0 = Some (length url)"
    using find_space_word [of url "[]" l r] assms by simp
  obtain inp q where dec: "char_decode_url (url @ SP # r) (length url) = (inp, q)" by fastforce
  from char_decode_url_eq [OF _ dec]
  have name: "cstr inp = cstr (fst (url_split url))"
    and query: "map_option (\<lambda>p. substr inp p (length url - p)) q = snd (url_split url)"
    by (simp_all add: substr_def drop_take)
  define B where "B = A @ take (length url + 1) inp"
  have "length inp = length url + 1 + length r"
    using length_char_decode_url [OF dec] by simp
  then have B: "length B = length A + length url + 1" "A @ inp = B @ r"
    using char_decode_url_drop [OF dec] append_take_drop_id [of "length url + 1" inp]
    by (simp_all add: B_def)
  have keys: "(case q of None \<Rightarrow> ot2 | Some p \<Rightarrow> mapping_insert ot2 ''query'' (SString (substr inp p (length url - p))))
      = (case snd (url_split url) of None \<Rightarrow> ot2 | Some q \<Rightarrow> mapping_insert ot2 ''query'' (SString q))" for ot2
    by (cases q) (simp_all add: query [symmetric])
  have parts: "substr d (length A) (length url) = url" "take (length A) d = A"
    "drop (length A) d = url @ SP # r"
    using assms(3) by (simp_all add: substr_def)
  have "parse_file d (length A) l hds ot =
      parse_protocol (B @ r) (length B) (l - (length url + 1)) hds (file_keys url ot)"
    unfolding parse_file_def parts sp option.case dec Let_def prod.case name keys B
    by (simp add: file_keys_def Let_def)
  with B(1) show ?thesis by blast
qed

subsection \<open>The scan on a request head\<close>

lemma blank_line_word:
  "LF \<notin> set w \<Longrightarrow> blank_line 0 w = (length w, 0)"
  by (induction w) (auto simp: lf_step_def)

lemma blank_line_line:
  assumes "n < 2" "LF \<notin> set w" "w = c # w'" "c \<noteq> CR"
  shows "blank_line n (w @ [LF]) = (length w + 1, 1)"
  using assms blank_line_word [of w'] by (auto simp: blank_line_append lf_step_def Let_def)

lemma blank_line_header:
  assumes "n < 2" "wf_header nv"
  shows "blank_line n (header_line nv) = (length (header_line nv), 1)"
proof -
  let ?w = "fst nv @ '': '' @ snd nv @ [CR]"
  obtain c w' where "?w = c # w'" "c \<noteq> CR"
    using assms by (cases "fst nv") (auto simp: wf_header_def)
  moreover have "LF \<notin> set ?w" using assms(2) by (auto simp: wf_header_def)
  moreover have "header_line nv = ?w @ [LF]" by (simp add: header_line_def)
  ultimately show ?thesis
    using blank_line_line [OF assms(1), of ?w c w'] by (simp only: length_append) simp
qed

lemma blank_line_headers:
  "\<forall>nv \<in> set hs. wf_header nv \<Longrightarrow> blank_line 1 (concat (map header_line hs) @ [CR, LF] @ r) =
     (length (concat (map header_line hs)) + 2, 2)"
proof (induction hs)
  case Nil
  then show ?case by (simp add: lf_step_def blank_line_stop)
next
  case (Cons nv hs)
  then show ?case
    using blank_line_append [of 1 "header_line nv"] blank_line_header [of 1 nv] by simp
qed

lemma blank_line_head:
  assumes "wf_request m url prot hs"
  shows "blank_line 0 (request_head m url prot hs @ r) = (length (request_head m url prot hs), 2)"
proof -
  define w where "w = m @ [SP] @ url @ [SP] @ prot @ [CR]"
  let ?lines = "concat (map header_line hs)"
  have "LF \<notin> set w" using assms by (auto simp: wf_request_def w_def)
  then have "blank_line 0 (w @ [LF]) = (length w + 1, 1)"
    by (simp add: blank_line_append blank_line_word lf_step_def)
  moreover have "request_head m url prot hs = (w @ [LF]) @ ?lines @ [CR, LF]"
    by (simp add: request_head_def w_def)
  moreover have "blank_line 1 (?lines @ [CR, LF] @ r) = (length ?lines + 2, 2)"
    using assms by (intro blank_line_headers) (simp add: wf_request_def)
  ultimately show ?thesis
    using blank_line_append [of 0 "w @ [LF]" "?lines @ [CR, LF] @ r"] by simp
qed

lemma parse_request_head:
  assumes wf: "wf_request m url prot hs" and l: "l = length (request_head m url prot hs)"
    and d: "d = request_head m url prot hs @ body @ NUL # junk"
  shows "\<exists>d'. parse_request d (l + length body) l hds ot =
    (d', foldl add_header hds hs,
     mapping_insert (file_keys url
       (mapping_insert (mapping_insert ot ''data'' (SString body)) ''method'' (SString m)))
       ''protocol'' (SString prot), 1)"
proof -
  let ?lines = "concat (map header_line hs)" and ?r = "body @ NUL # junk"
  let ?ot = "mapping_insert (mapping_insert ot ''data'' (SString body)) ''method'' (SString m)"
  from wf have wf: "set m \<inter> {SP, LF} = {}" "set url \<inter> {SP, LF} = {}" "set prot \<inter> {SP, LF} = {}"
    "\<forall>nv \<in> set hs. wf_header nv"
    by (auto simp: wf_request_def)
  let ?prot = "prot @ [CR, LF] @ ?lines @ [CR, LF] @ ?r"
  have d': "d = (m @ [SP]) @ url @ SP # ?prot" by (simp add: d request_head_def)
  have l': "l = length m + length url + length prot + length ?lines + 6"
    by (simp add: l request_head_def)
  have data: "substr d l (length body) = body" by (simp add: d l substr_def)
  have sp: "find_space d l 0 = Some (length m)"
    using find_space_word [OF wf(1), of "[]" l "url @ SP # ?prot"] d' l' by simp
  have m: "take (length m) d = m" by (simp add: d')
  from parse_file_head [OF wf(2) _ d', of "l - (length m + 1)" hds ?ot] l' obtain B where
    B: "length B = length m + length url + 2"
    "parse_file d (length m + 1) (l - (length m + 1)) hds ?ot =
       parse_protocol (B @ ?prot) (length B) (l - (length m + 1) - (length url + 1)) hds (file_keys url ?ot)"
    by auto
  moreover have "l - (length m + 1) - (length url + 1) = length prot + 2 + length ?lines + 2"
    using l' by simp
  ultimately show ?thesis
    using parse_protocol_head [OF wf(3,4) _ refl, of "l - (length m + 1) - (length url + 1)" B ?r hds "file_keys url ?ot"]
    by (auto simp: parse_request_def sp data m)
qed

lemma f_buf_append_request:
  assumes wf: "wf_request m url prot hs" and "buf_ok b" "bf_pos b = 0"
    and fits: "length (request_head m url prot hs @ body) < bf_free b"
  shows "\<exists>b'. f_buf_append (request_head m url prot hs @ body) b = (b', Inr 1) \<and>
    bf_headers b' = map_option (\<lambda>hds. foldl add_header hds hs) (bf_headers b) \<and>
    bf_other b' = map_option (\<lambda>ot. mapping_insert (file_keys url
       (mapping_insert (mapping_insert ot ''data'' (SString body)) ''method'' (SString m)))
       ''protocol'' (SString prot)) (bf_other b)"
proof -
  let ?text = "request_head m url prot hs @ body"
  from assms(2) obtain d hds ot where b: "bf_data b = Some d" "bf_headers b = Some hds"
    "bf_other b = Some ot" "bf_pos b + bf_free b = length d" "1 \<le> bf_free b"
    by (rule buf_okE)
  have scan: "blank_line 0 (drop (bf_pos b - 3) (take (bf_pos b) d @ ?text)) =
      (length (request_head m url prot hs), 2)"
    using blank_line_head [OF wf] assms(3) by simp
  have "store_input d 0 ?text = request_head m url prot hs @ body @ NUL # drop (length ?text + 1) d"
    using fits b(4) assms(3) by (simp add: store_input_eq)
  from parse_request_head [OF wf refl this, of hds ot] obtain d' where
    "parse_request (store_input d 0 ?text) (length (request_head m url prot hs) + length body)
       (length (request_head m url prot hs)) hds ot =
     (d', foldl add_header hds hs, mapping_insert (file_keys url
       (mapping_insert (mapping_insert ot ''data'' (SString body)) ''method'' (SString m)))
       ''protocol'' (SString prot), 1)"
    by blast
  with f_buf_append_eq [OF b(1-4) fits scan] b assms(3) show ?thesis by simp
qed

section \<open>Properties\<close>

text \<open>What \<^verbatim>\<open>create\<close> leaves.\<close>

lemma f_buf_create_result:
  assumes "\<And>n d. malloc n = Some d \<Longrightarrow> length d = n" "bf_data b0 = None" "f_buf_create malloc args b0 = (b1, r)"
  shows "bf_free b1 = (case args of Create3 _ _ n \<Rightarrow> nat (n mod 2 ^ 32) | _ \<Rightarrow> bf_free b0) \<and>
    (if r = Inr () then
       (case args of Create3 _ _ _ \<Rightarrow> BUFSIZE_MIN \<le> int (bf_free b1) \<and> int (bf_free b1) \<le> BUFSIZE_MAX | _ \<Rightarrow> True) \<and>
       (if bf_free b1 = 0 then \<forall>x. f_buf_append x b1 = (b1, Inr 413) else buf_ok b1 \<and> bf_pos b1 = 0)
     else bf_data b1 = None)"
proof -
  have allot: "bf_free t = bf_free u \<and>
      (if q = Inr () then if bf_free t = 0 then \<forall>x. f_buf_append x t = (t, Inr 413) else buf_ok t \<and> bf_pos t = 0
       else bf_data t = None)"
    if "allot_buffer malloc u = (t, q)" "bf_data u = None" "bf_other u = Some ot" "bf_headers u = Some hds" for u t q ot hds
    using that assms(1) by (auto simp: allot_buffer_def buf_ok_def f_buf_append_full split: if_splits option.splits)
  show ?thesis
  proof (cases args)
    case (Create2 ot hds)
    then show ?thesis using allot [of "b0\<lparr>bf_other := Some ot, bf_headers := Some hds\<rparr>" b1 r ot hds] assms(2,3)
      by (simp add: f_buf_create_def)
  next
    case (Create3 ot hds n)
    let ?u = "b0\<lparr>bf_other := Some ot, bf_headers := Some hds, bf_free := nat (n mod 2 ^ 32)\<rparr>"
    show ?thesis
    proof (cases "int (bf_free ?u) < BUFSIZE_MIN \<or> int (bf_free ?u) > BUFSIZE_MAX")
      case True
      then show ?thesis using assms(2,3) Create3 by (auto simp: f_buf_create_def)
    next
      case False
      then have "allot_buffer malloc ?u = (b1, r)" using assms(2,3) Create3 by (simp add: f_buf_create_def)
      from allot [OF this] False show ?thesis using assms(2) Create3 by auto
    qed
  next
    case Create_other
    then show ?thesis using assms(2,3) by (auto simp: f_buf_create_def)
  qed
qed

text \<open>
  C7. A well-formed request that arrives in one piece is taken apart exactly: \<^verbatim>\<open>append\<close> answers
  1, \<^verbatim>\<open>other\<close> holds the method, the raw URL, the decoded file name and the query string (as the
  reference decoder splits them), the protocol and the data behind the blank line, and the
  headers are in the mapping under their lower-case names, repeated ones joined by commas.
\<close>

theorem parse_http_request:
  assumes "wf_request m url prot hs" "buf_ok b" "bf_pos b = 0"
    and "length (request_head m url prot hs @ body) < bf_free b"
  shows "\<exists>b' ot. f_buf_append (request_head m url prot hs @ body) b = (b', Inr 1) \<and>
    bf_headers b' = map_option (\<lambda>hds. foldl add_header hds hs) (bf_headers b) \<and>
    bf_other b' = Some ot \<and>
    mapping_lookup ot ''method'' = Some (SString m) \<and>
    mapping_lookup ot ''raw_url'' = Some (SString url) \<and>
    mapping_lookup ot ''file'' = Some (SString (cstr (fst (url_split url)))) \<and>
    mapping_lookup ot ''protocol'' = Some (SString prot) \<and>
    mapping_lookup ot ''data'' = Some (SString body) \<and>
    (\<forall>q. snd (url_split url) = Some q \<longrightarrow> mapping_lookup ot ''query'' = Some (SString q))"
proof -
  from assms(2) obtain ot where "bf_other b = Some ot" by (rule buf_okE)
  with f_buf_append_request [OF assms] show ?thesis
    by (auto simp: file_keys_def Let_def split: option.splits)
qed

definition example_buffer :: buffer where
  "example_buffer = \<lparr>bf_pos = 0, bf_free = 100, bf_headers = Some [], bf_other = Some [],
     bf_data = Some (replicate 100 (CHR ''~''))\<rparr>"

lemma example_buffer_ok: "buf_ok example_buffer"
  by (simp add: buf_ok_def example_buffer_def)

theorem parse_http_request_witness:
  "\<exists>b' ot. f_buf_append (request_head ''GET'' ''/a?b'' ''HTTP/1.0'' [(''X'', ''1''), (''x'', ''2'')] @ ''body'')
       example_buffer = (b', Inr 1) \<and>
     bf_headers b' = Some [(''x'', SString ''1,2'')] \<and> bf_other b' = Some ot \<and>
     mapping_lookup ot ''file'' = Some (SString ''/a'') \<and>
     mapping_lookup ot ''query'' = Some (SString ''b'') \<and>
     mapping_lookup ot ''data'' = Some (SString ''body'')"
proof -
  have "wf_request ''GET'' ''/a?b'' ''HTTP/1.0'' [(''X'', ''1''), (''x'', ''2'')]"
    by (simp add: wf_request_def wf_header_def)
  moreover have "length (request_head ''GET'' ''/a?b'' ''HTTP/1.0'' [(''X'', ''1''), (''x'', ''2'')] @ ''body'')
      < bf_free example_buffer" "bf_pos example_buffer = 0" "bf_headers example_buffer = Some []"
    by (simp_all add: request_head_def header_line_def example_buffer_def)
  moreover have "foldl add_header [] [(''X'', ''1''), (''x'', ''2'')] = [(''x'', SString ''1,2'')]"
    by code_simp
  ultimately show ?thesis
    using parse_http_request [OF _ example_buffer_ok, of "''GET''" "''/a?b''" "''HTTP/1.0''"
        "[(''X'', ''1''), (''x'', ''2'')]" "''body''"] by simp blast
qed

text \<open>
  C8. It does not matter how the network cuts the input: as long as it never contains three
  carriage returns in a row, delivering it in any number of pieces, the last of which completes
  the head, gives the same return code and (unless the request is refused as too large) the
  same object as delivering it in one piece.
\<close>

theorem parse_http_chunks:
  assumes "buf_ok b" "calm_input b (concat cs @ c)" "snd (f_buf_append (concat cs) b) = Inr 0"
  shows "snd (feed_all f_buf_append (cs @ [c]) b) = snd (f_buf_append (concat cs @ c) b) \<and>
    (snd (f_buf_append (concat cs @ c) b) \<noteq> Inr 413 \<longrightarrow>
       feed_all f_buf_append (cs @ [c]) b = f_buf_append (concat cs @ c) b)"
  using assms by (rule parse_http.feed_all_split)

theorem parse_http_chunks_witness:
  "feed_all f_buf_append [''GE'', ''T / X'' @ [CR, LF, CR], [LF]] example_buffer =
     f_buf_append (''GET / X'' @ [CR, LF, CR, LF]) example_buffer"
proof -
  have "calm_input example_buffer (''GET / X'' @ [CR, LF, CR, LF])"
    by (simp add: calm_input_def received_def example_buffer_def)
  moreover have "snd (f_buf_append (''GET / X'' @ [CR, LF, CR]) example_buffer) = Inr 0"
    by (subst append_zero_iff) (auto simp: example_buffer_def lf_step_def Let_def)
  moreover have "snd (f_buf_append (''GET / X'' @ [CR, LF, CR, LF]) example_buffer) \<noteq> Inr 413"
    by code_simp
  ultimately show ?thesis
    using parse_http_chunks [OF example_buffer_ok, of "[''GE'', ''T / X'' @ [CR, LF, CR]]" "[LF]"]
    by simp
qed

text \<open>
  C23. \<^verbatim>\<open>create\<close>, called with two or three arguments for an object without a buffer, establishes and every \<^verbatim>\<open>append\<close> keeps
  the object's invariant: bytes used and bytes free add up to the size of the buffer and one byte is always
  left for the terminating zero. The size is the third argument, which must lie within the bounds, or what the object
  has, also from a call that was refused; with none at all the object has no buffer and answers 413 to
  everything. A refused call leaves the object without a buffer. The answer of \<^verbatim>\<open>append\<close> is 413 exactly when the input
  does not fit, and then nothing changes; otherwise it is 0, 1 or 400 and exactly the input has been consumed.
\<close>

theorem parse_http_invariant:
  assumes "\<And>n d. malloc n = Some d \<Longrightarrow> length d = n" "bf_data b0 = None"
    and "f_buf_create malloc args b0 = (b1, r1)"
    and "buf_ok b" "f_buf_append s b = (b', r)"
  shows "bf_free b1 = (case args of Create3 _ _ n \<Rightarrow> nat (n mod 2 ^ 32) | _ \<Rightarrow> bf_free b0) \<and>
    (if r1 = Inr () then
       (case args of Create3 _ _ _ \<Rightarrow> BUFSIZE_MIN \<le> int (bf_free b1) \<and> int (bf_free b1) \<le> BUFSIZE_MAX | _ \<Rightarrow> True) \<and>
       (if bf_free b1 = 0 then \<forall>x. f_buf_append x b1 = (b1, Inr 413) else buf_ok b1 \<and> bf_pos b1 = 0)
     else bf_data b1 = None) \<and>
    buf_ok b' \<and> bf_pos b' + bf_free b' = bf_pos b + bf_free b \<and>
    (if bf_free b \<le> length s then b' = b \<and> r = Inr 413
     else r \<in> {Inr 0, Inr 1, Inr 400} \<and> bf_pos b' = bf_pos b + length s)"
proof -
  have "bf_free b1 = (case args of Create3 _ _ n \<Rightarrow> nat (n mod 2 ^ 32) | _ \<Rightarrow> bf_free b0)"
    and "if r1 = Inr () then
       (case args of Create3 _ _ _ \<Rightarrow> BUFSIZE_MIN \<le> int (bf_free b1) \<and> int (bf_free b1) \<le> BUFSIZE_MAX | _ \<Rightarrow> True) \<and>
       (if bf_free b1 = 0 then \<forall>x. f_buf_append x b1 = (b1, Inr 413) else buf_ok b1 \<and> bf_pos b1 = 0)
     else bf_data b1 = None"
    using f_buf_create_result [OF assms(1-3)] by blast+
  with f_buf_append_invariant [OF assms(4,5)] show ?thesis by blast
qed

theorem parse_http_invariant_witness:
  "buf_ok \<lparr>bf_pos = 0, bf_free = 100, bf_headers = Some [], bf_other = Some [],
      bf_data = Some (replicate 100 NUL)\<rparr> \<and>
   buf_ok (fst (f_buf_append ''GET'' example_buffer))"
proof -
  let ?b0 = "\<lparr>bf_pos = 0, bf_free = 0, bf_headers = None, bf_other = None, bf_data = None\<rparr>"
  let ?b1 = "\<lparr>bf_pos = 0, bf_free = 100, bf_headers = Some [], bf_other = Some [],
      bf_data = Some (replicate 100 NUL)\<rparr>"
  have "f_buf_create (\<lambda>n. Some (replicate n NUL)) (Create3 [] [] 100) ?b0 = (?b1, Inr ())"
    by (simp add: f_buf_create_def allot_buffer_def BUFSIZE_MIN_def BUFSIZE_MAX_def)
  from parse_http_invariant [OF _ _ this example_buffer_ok, of "''GET''"] show ?thesis
    by (cases "f_buf_append ''GET'' example_buffer") auto
qed

text \<open>
  A size that was refused stays in the object: the next call with two arguments makes a buffer
  of that size, below the minimum, instead of the default one.
\<close>

lemma refused_size_kept:
  assumes "bf_data b0 = None" "0 < n" "n < BUFSIZE_MIN" "f_buf_create malloc (Create3 ot hds n) b0 = (b1, r1)"
    and "malloc (nat n) = Some d"
  shows "\<exists>e. r1 = Inl (Pike_error e) \<and>
    f_buf_create malloc (Create2 ot hds) b1 = (b1\<lparr>bf_data := Some d, bf_pos := 0\<rparr>, Inr ()) \<and> int (bf_free b1) = n"
proof -
  have n: "n mod 2 ^ 32 = n" "nat n \<noteq> 0" using assms(2,3) by (simp_all add: BUFSIZE_MIN_def)
  have b1: "b1 = b0\<lparr>bf_other := Some ot, bf_headers := Some hds, bf_free := nat n\<rparr>" "\<exists>e. r1 = Inl (Pike_error e)"
    using assms(1-4) n by (auto simp: f_buf_create_def Let_def)
  then show ?thesis using assms(1,2,5) n(2) by (simp add: f_buf_create_def allot_buffer_def)
qed

lemma refused_size_kept_witness:
  "bf_free (fst (f_buf_create (\<lambda>n. Some (replicate n NUL)) (Create3 [] [] 3)
     \<lparr>bf_pos = 0, bf_free = 16535, bf_headers = None, bf_other = None, bf_data = None\<rparr>)) = 3"
  using refused_size_kept [of "\<lparr>bf_pos = 0, bf_free = 16535, bf_headers = None, bf_other = None, bf_data = None\<rparr>" 3
      "\<lambda>n. Some (replicate n NUL)" "[]" "[]"]
  by (simp add: BUFSIZE_MIN_def f_buf_create_def)

text \<open>
  When a header is repeated, the joined value is right, but the copy is one byte longer
  than the string created for it: the byte behind the value (the carriage return of the line)
  overwrites the string's terminating zero.
\<close>

lemma merged_header_overrun:
  assumes "os \<le> j" "j < length inp"
  shows "header_value inp (Some (SString old)) os j = SString (old @ '','' @ substr inp os (j - os)) \<and>
    length (merge_bytes inp old os j) = merge_len old os j + 1 \<and>
    merge_bytes inp old os j ! merge_len old os j = inp ! j"
  using assms
  by (auto simp: header_value_eq merge_bytes_def merge_len_def length_substr nth_append substr_def
      Suc_diff_le)

lemma merged_header_overrun_witness:
  "header_value (''b'' @ [CR, LF]) (Some (SString ''a'')) 0 1 = SString ''a,b'' \<and>
   merge_bytes (''b'' @ [CR, LF]) ''a'' 0 1 ! 3 = CR"
  using merged_header_overrun [of 0 1 "''b'' @ [CR, LF]" "''a''"] by (simp add: merge_len_def numeral_3_eq_3 substr_def)

end
