(* ===== verification/Header_Table.thy ===== *)
theory Header_Table
  imports Request_Buffer
begin

text \<open>
  The stand-alone header parser of \<^verbatim>\<open>src/cmods/_Caudium/caudium.c\<close>: \<^verbatim>\<open>lowercase\<close>,
  \<^verbatim>\<open>get_next_header\<close> and the Pike function \<^verbatim>\<open>parse_headers\<close>. The pair \<open>(heads, len)\<close> of the C
  code always describes a suffix of the Pike string that holds the headers, which is the list
  \<open>heads\<close> of the model; \<open>len\<close> is its length and the byte behind it is the terminating zero.
\<close>

section \<open>Operations\<close>

definition lowercase :: "string \<Rightarrow> nat \<Rightarrow> string" where
  "lowercase str len = map lower_byte (take len str)"

text \<open>\<^verbatim>\<open>for(count2 = data; count2 < len; count2++) if(heads[count2] == '\r') break;\<close>\<close>

function find_cr :: "string \<Rightarrow> nat \<Rightarrow> nat" where
  "find_cr heads count2 =
     (if count2 < length heads \<and> heads ! count2 \<noteq> CR then find_cr heads (count2 + 1) else count2)"
  by pat_completeness auto
termination
  by (relation "measure (\<lambda>(heads, count2). length heads - count2)") auto

declare find_cr.simps [simp del]

lemma find_cr_ge: "i \<le> find_cr heads i"
proof (induction heads i rule: find_cr.induct)
  case (1 heads i)
  then show ?case by (auto simp: find_cr.simps [of heads i])
qed

text \<open>The loop of \<^verbatim>\<open>get_next_header\<close>: the number of bytes it has used up, and the mapping.\<close>

function next_header_loop :: "string \<Rightarrow> nat \<Rightarrow> headers \<Rightarrow> nat \<times> headers" where
  "next_header_loop heads count headermap =
     (if count < length heads then
        if heads ! count = CHR '':'' then
          (let count2 = find_cr heads (count + 1);
               data = skip_spaces heads (count + 1);
               skey = lowercase heads count;
               sval = SString (substr heads data (count2 - data))
           in next_header_loop heads (count2 + 1) (mapping_insert headermap skey sval))
        else if heads ! count = LF then (count + 1, headermap)
        else next_header_loop heads (count + 1) headermap
      else (count, headermap))"
  by pat_completeness auto
termination
proof (relation "measure (\<lambda>(heads, count, headermap). length heads - count)")
  fix heads :: string and count x
  show "count < length heads \<Longrightarrow> heads ! count = CHR '':'' \<Longrightarrow> x = find_cr heads (count + 1) \<Longrightarrow>
    ((heads, x + 1, m'), heads, count, m) \<in> measure (\<lambda>(heads, count, headermap). length heads - count)"
    for m m' :: headers
    using find_cr_ge [of "count + 1" heads] by auto
qed auto

declare next_header_loop.simps [simp del]

definition get_next_header :: "string \<Rightarrow> headers \<Rightarrow> nat \<times> headers" where
  "get_next_header heads headermap = next_header_loop heads 0 headermap"

text \<open>Every call uses up at least one byte, so \<^verbatim>\<open>parse_headers\<close> ends.\<close>

lemma next_header_loop_ge: "count \<le> fst (next_header_loop heads count m)"
proof (induction heads count m rule: next_header_loop.induct)
  case (1 heads count m)
  show ?case
  proof (cases "count < length heads \<and> heads ! count = CHR '':''")
    case True
    let ?c2 = "find_cr heads (count + 1)"
    have "?c2 + 1 \<le> fst (next_header_loop heads (?c2 + 1) m')" if "m' = mapping_insert m
      (lowercase heads count) (SString (substr heads (skip_spaces heads (count + 1))
        (?c2 - skip_spaces heads (count + 1))))" for m'
      using "1.IH"(1) [OF _ _ refl refl refl refl] True that by simp
    moreover have "count \<le> ?c2 + 1" using find_cr_ge [of "count + 1" heads] by simp
    ultimately show ?thesis
      using True by (subst next_header_loop.simps) (auto simp: Let_def intro: order.trans)
  next
    case False
    with "1.IH"(2) show ?thesis
      by (subst next_header_loop.simps) (auto dest: Suc_leD)
  qed
qed

lemma get_next_header_progress: "heads \<noteq> [] \<Longrightarrow> 0 < fst (get_next_header heads m)"
  unfolding get_next_header_def
  by (subst next_header_loop.simps)
    (auto simp: Let_def Suc_le_eq intro: less_le_trans [OF _ next_header_loop_ge])

lemma next_header_consumes:
  "heads \<noteq> [] \<Longrightarrow> (parsed, m') = get_next_header heads m \<Longrightarrow> 0 < parsed \<and> 0 < length heads"
  using get_next_header_progress [of heads m] by (metis fst_conv length_greater_0_conv)

function parse_headers_loop :: "string \<Rightarrow> headers \<Rightarrow> headers" where
  "parse_headers_loop heads headermap =
     (if heads = [] then headermap
      else (let (parsed, headermap') = get_next_header heads headermap
            in parse_headers_loop (drop parsed heads) headermap'))"
  by pat_completeness auto
termination
  by (relation "measure (\<lambda>(heads, headermap). length heads)")
    (auto simp: next_header_consumes)

declare parse_headers_loop.simps [simp del]

definition f_parse_headers :: "string \<Rightarrow> headers" where
  "f_parse_headers headers = parse_headers_loop headers []"

section \<open>The loops on well-formed text\<close>

lemma find_cr_word:
  "CR \<notin> set w \<Longrightarrow> find_cr (pre @ w @ CR # r) (length pre) = length pre + length w"
proof (induction w arbitrary: pre)
  case Nil
  then show ?case by (simp add: find_cr.simps nth_append)
next
  case (Cons c w)
  then show ?case
    using Cons.IH [of "pre @ [c]"] by (subst find_cr.simps) (auto simp: nth_append)
qed

lemma find_cr_none: "CR \<notin> set w \<Longrightarrow> find_cr (pre @ w) (length pre) = length pre + length w"
proof (induction w arbitrary: pre)
  case Nil
  then show ?case by (simp add: find_cr.simps)
next
  case (Cons c w)
  then show ?case
    using Cons.IH [of "pre @ [c]"] by (subst find_cr.simps) (auto simp: nth_append)
qed

lemma next_header_loop_name:
  "set w \<inter> {CHR '':'', LF} = {} \<Longrightarrow>
     next_header_loop (pre @ w @ r) (length pre) m = next_header_loop (pre @ w @ r) (length pre + length w) m"
proof (induction w arbitrary: pre)
  case (Cons c w)
  then show ?case
    using Cons.IH [of "pre @ [c]"] by (subst next_header_loop.simps) (auto simp: nth_append)
qed simp

lemma skip_spaces_stop: "byte_at inp i \<noteq> SP \<Longrightarrow> skip_spaces inp i = i"
  by (simp add: skip_spaces.simps)

definition insert_header :: "headers \<Rightarrow> string \<times> string \<Rightarrow> headers" where
  "insert_header m nv = mapping_insert m (map lower_byte (fst nv)) (SString (snd nv))"

lemma get_next_header_line:
  assumes "wf_header nv"
  shows "get_next_header (header_line nv @ r) m = (length (header_line nv), insert_header m nv)"
proof -
  obtain n v where nv: "nv = (n, v)" by fastforce
  let ?heads = "n @ '':'' @ [SP] @ v @ CR # LF # r"
  from assms nv have wf: "set n \<inter> {CHR '':'', LF} = {}" "CR \<notin> set v" "v = [] \<or> hd v \<noteq> SP"
    by (auto simp: wf_header_def)
  obtain c t where ct: "v @ CR # LF # r = c # t" "c \<noteq> SP"
    using wf(3) by (cases v) auto
  have skip: "skip_spaces ?heads (length n + 1) = length n + 2"
    using skip_one_space [OF ct(2), of "n @ '':''" t] ct(1) by simp
  have cr: "find_cr ?heads (length n + 1) = length n + length v + 2"
    using find_cr_word [of "SP # v" "n @ '':''" "LF # r"] wf(2) by simp
  have key: "lowercase ?heads (length n) = map lower_byte n" by (simp add: lowercase_def)
  have val: "substr ?heads (length n + 2) (length v) = v" by (simp add: substr_def)
  have colon: "?heads ! length n = CHR '':''" and lf: "?heads ! (length n + length v + 3) = LF"
    by (simp_all add: nth_append)
  have "next_header_loop ?heads 0 m = next_header_loop ?heads (length n) m"
    using next_header_loop_name [OF wf(1), of "[]"] by simp
  also have "\<dots> = next_header_loop ?heads (length n + length v + 3) (insert_header m nv)"
    by (subst next_header_loop.simps)
      (simp add: colon [simplified] skip [simplified] cr [simplified] key [simplified]
        val [simplified] Let_def insert_header_def nv numeral_3_eq_3)
  also have "\<dots> = (length n + length v + 4, insert_header m nv)"
    by (subst next_header_loop.simps) (simp add: lf [simplified])
  finally show ?thesis
    by (simp add: get_next_header_def header_line_def nv)
qed

lemma parse_headers_loop_lines:
  "\<forall>nv \<in> set hs. wf_header nv \<Longrightarrow>
     parse_headers_loop (concat (map header_line hs)) m = foldl insert_header m hs"
proof (induction hs arbitrary: m)
  case Nil
  then show ?case by (simp add: parse_headers_loop.simps)
next
  case (Cons nv hs)
  have "header_line nv \<noteq> []" by (simp add: header_line_def)
  with Cons show ?case
    by (subst parse_headers_loop.simps) (simp add: get_next_header_line)
qed

section \<open>Properties\<close>

text \<open>
  C25. A block of header lines is parsed into its mapping: every name, in lower case, is bound to
  its value, and a name that occurs once keeps it (unlike \<^verbatim>\<open>ParseHTTP\<close>, a later line with the same
  name replaces the earlier one).
\<close>

theorem parse_headers_lines:
  assumes "\<forall>nv \<in> set hs. wf_header nv"
  shows "f_parse_headers (concat (map header_line hs)) = foldl insert_header [] hs \<and>
    (distinct (map (\<lambda>nv. map lower_byte (fst nv)) hs) \<longrightarrow>
      (\<forall>nv \<in> set hs. mapping_lookup (f_parse_headers (concat (map header_line hs)))
         (map lower_byte (fst nv)) = Some (SString (snd nv))))"
proof -
  let ?f = "\<lambda>nv. (map lower_byte (fst nv), SString (snd nv))"
  have parse: "f_parse_headers (concat (map header_line hs)) = foldl insert_header [] hs"
    using assms by (simp add: f_parse_headers_def parse_headers_loop_lines)
  moreover have "foldl insert_header m hs = foldl (\<lambda>m (k, v). mapping_insert m k v) m (map ?f hs)" for m
    by (induction hs arbitrary: m) (simp_all add: insert_header_def)
  ultimately show ?thesis
    using pike_store.lookup_foldl [of "map ?f hs"] by (auto simp: comp_def)
qed

theorem parse_headers_lines_witness:
  "f_parse_headers (''Host: a'' @ [CR, LF] @ ''X: b'' @ [CR, LF]) =
     [(''host'', SString ''a''), (''x'', SString ''b'')]"
proof -
  have "foldl insert_header [] [(''Host'', ''a''), (''X'', ''b'')] =
      [(''host'', SString ''a''), (''x'', SString ''b'')]"
    by code_simp
  then show ?thesis
    using parse_headers_lines [of "[(''Host'', ''a''), (''X'', ''b'')]"]
    by (simp add: wf_header_def header_line_def)
qed

text \<open>
  Header lines that end in a bare line feed are not separated: the search for the end of a
  value looks for a carriage return only, so the first header takes all the rest of the text.
\<close>

lemma parse_headers_bare_lf:
  assumes "set n \<inter> {CHR '':'', LF} = {}" "CR \<notin> set v" "v \<noteq> []" "hd v \<noteq> SP"
  shows "f_parse_headers (n @ '':'' @ v) = [(map lower_byte n, SString v)]"
proof -
  let ?heads = "n @ '':'' @ v"
  have cr: "find_cr ?heads (length n + 1) = length n + length v + 1"
    using find_cr_none [OF assms(2), of "n @ '':''"] by simp
  have skip: "skip_spaces ?heads (length n + 1) = length n + 1"
    using assms(3,4) by (intro skip_spaces_stop) (simp add: byte_at_def nth_append hd_conv_nth)
  have key: "lowercase ?heads (length n) = map lower_byte n" by (simp add: lowercase_def)
  have val: "substr ?heads (length n + 1) (length v) = v" by (simp add: substr_def)
  have "next_header_loop ?heads 0 [] = next_header_loop ?heads (length n) []"
    using next_header_loop_name [OF assms(1), of "[]"] by simp
  also have "\<dots> = next_header_loop ?heads (length n + length v + 2)
      (mapping_insert [] (map lower_byte n) (SString v))"
    by (subst next_header_loop.simps)
      (simp add: nth_append skip [simplified] cr [simplified] key [simplified] val [simplified] Let_def)
  also have "\<dots> = (length n + length v + 2, mapping_insert [] (map lower_byte n) (SString v))"
    by (subst next_header_loop.simps) simp
  finally show ?thesis
    by (simp add: f_parse_headers_def get_next_header_def parse_headers_loop.simps mapping_insert_def)
qed

lemma parse_headers_bare_lf_witness:
  "f_parse_headers (''A'' @ '':'' @ ''b'' @ [LF] @ ''C:d'' @ [LF]) =
     [(''a'', SString (''b'' @ [LF] @ ''C:d'' @ [LF]))]"
proof -
  have "map lower_byte ''A'' = ''a''" by code_simp
  then show ?thesis
    using parse_headers_bare_lf [of "''A''" "''b'' @ [LF] @ ''C:d'' @ [LF]"] by simp
qed

end
