(* ===== verification/Query_String.thy ===== *)
theory Query_String
  imports Url_Codec
begin

text \<open>
  The query-string parser \<^verbatim>\<open>f_parse_query_string\<close> of \<^verbatim>\<open>src/cmods/_Caudium/caudium.c\<close>: one
  loop over the string with the pointers \<^verbatim>\<open>ptr\<close>, \<^verbatim>\<open>name\<close> and \<^verbatim>\<open>equal\<close>, modelled as positions;
  it fills a mapping with the variables that have a value and a multiset with the names of
  those that have none (a Pike multiset holds an index at most once).
\<close>

section \<open>Operations\<close>

type_synonym variables = "(string, svalue) pmap"

text \<open>The backwards search for the start of a name, from the byte before \<^verbatim>\<open>ptr\<close>.\<close>

fun back_up :: "string \<Rightarrow> nat \<Rightarrow> nat" where
  "back_up s 0 = 0"
| "back_up s (Suc k) = (if s ! k = CHR ''&'' \<or> s ! k = CHR '';'' then Suc k else back_up s k)"

text \<open>
  The value stored for a variable: a string it already has is kept and the new value is added
  behind a zero byte (the \<^verbatim>\<open>exist\<close> argument of \<^verbatim>\<open>url_decode\<close>).
\<close>

definition variable_value :: "string \<Rightarrow> nat \<Rightarrow> nat \<Rightarrow> svalue option \<Rightarrow> svalue res" where
  "variable_value s equal valulen exist =
     (case exist of
        Some (SString old) \<Rightarrow>
          (case url_decode (Some (drop equal s)) (int valulen) True 0 of
             None \<Rightarrow> Inl (Pike_error ''_Caudium.parse_query_string(): Out of memory in url_decode().'')
           | Some tmp \<Rightarrow> Inr (SString (old @ tmp)))
      | _ \<Rightarrow>
          (case url_decode (Some (drop equal s)) (int valulen) False 0 of
             None \<Rightarrow> Inl (Pike_error ''Out of memory.'')
           | Some v \<Rightarrow> Inr (SString v)))"

text \<open>The end of a variable: its name is \<open>namelen\<close> bytes at \<open>name\<close>, its value follows \<open>equal\<close>.\<close>

definition end_of_variable ::
  "string \<Rightarrow> nat \<Rightarrow> nat \<Rightarrow> nat \<Rightarrow> nat \<Rightarrow> variables \<Rightarrow> string set \<Rightarrow> (variables \<times> string set) res" where
  "end_of_variable s name namelen equal valulen variables emptyvars =
     (case url_decode (Some (drop name s)) (int namelen) False 0 of
        None \<Rightarrow> Inl (Pike_error ''Out of memory.'')
      | Some skey \<Rightarrow>
          if valulen = 0 then Inr (variables, insert (substr s name namelen) emptyvars)
          else
            (case variable_value s equal valulen (mapping_lookup variables skey) of
               Inl e \<Rightarrow> Inl e
             | Inr sval \<Rightarrow> Inr (mapping_insert variables skey sval, emptyvars)))"

function pqs_loop ::
  "string \<Rightarrow> nat \<Rightarrow> nat \<Rightarrow> nat option \<Rightarrow> variables \<Rightarrow> string set \<Rightarrow> (variables \<times> string set) res" where
  "pqs_loop s ptr name equal variables emptyvars =
     (if ptr \<le> length s then
        (let c = byte_at s ptr in
         if c = CHR ''='' then
           pqs_loop s (ptr + 1) name (if equal = None then Some ptr else equal) variables emptyvars
         else if c = NUL \<and> ptr \<noteq> length s then pqs_loop s (ptr + 1) name equal variables emptyvars
         else if c = NUL \<or> c = CHR '';'' \<or> c = CHR ''&'' then
           if byte_at s name = NUL \<or> byte_at s name = CHR ''&''
           then pqs_loop s (ptr + 2) name equal variables emptyvars
           else if equal = None \<and> ptr = 0 then pqs_loop s (ptr + 2) name equal variables emptyvars
           else
             (case (case equal of
                      None \<Rightarrow> end_of_variable s (back_up s ptr) (ptr - back_up s ptr) 0 0 variables emptyvars
                    | Some e \<Rightarrow> end_of_variable s name (e - name) (e + 1) (ptr - (e + 1)) variables emptyvars) of
                Inl err \<Rightarrow> Inl err
              | Inr (variables', emptyvars') \<Rightarrow>
                  pqs_loop s (ptr + 1) (ptr + 1) None variables' emptyvars')
         else pqs_loop s (ptr + 1) name equal variables emptyvars)
      else Inr (variables, emptyvars))"
  by pat_completeness auto
termination
  by (relation "measure (\<lambda>(s, ptr, name, equal, variables, emptyvars). Suc (length s) - ptr)") auto

declare pqs_loop.simps [simp del]

definition f_parse_query_string ::
  "string \<Rightarrow> variables \<Rightarrow> string set \<Rightarrow> (variables \<times> string set) res" where
  "f_parse_query_string query variables emptyvars = pqs_loop query 0 0 None variables emptyvars"

section \<open>The reference: one field after the other\<close>

text \<open>A field is what stands between two separators; the first equals sign ends its name.\<close>

definition add_field :: "variables \<times> string set \<Rightarrow> string \<Rightarrow> variables \<times> string set" where
  "add_field st f =
     (case st of (vars, emp) \<Rightarrow>
        let n = takeWhile (\<lambda>c. c \<noteq> CHR ''='') f; v = drop (length n + 1) f in
        if v = [] then (vars, insert n emp)
        else (let key = pct_decode True False n; val = pct_decode True False v in
              (mapping_insert vars key
                 (case mapping_lookup vars key of
                    Some (SString old) \<Rightarrow> SString (old @ [NUL] @ val)
                  | _ \<Rightarrow> SString val), emp)))"

definition wf_field :: "string \<Rightarrow> bool" where
  "wf_field f \<longleftrightarrow> f \<noteq> [] \<and> set f \<inter> {NUL, CHR ''&'', CHR '';''} = {}"

text \<open>A query: the first field, then every further one behind its separator.\<close>

definition query_text :: "string \<Rightarrow> (char \<times> string) list \<Rightarrow> string" where
  "query_text f fs = f @ concat (map (\<lambda>(sep, g). sep # g) fs)"

section \<open>The loop on one field\<close>

text \<open>The bytes of a field only set \<^verbatim>\<open>equal\<close>.\<close>

definition find_equal :: "nat \<Rightarrow> string \<Rightarrow> nat option \<Rightarrow> nat option" where
  "find_equal base f equal =
     (case equal of
        Some e \<Rightarrow> Some e
      | None \<Rightarrow> if CHR ''='' \<in> set f then Some (base + length (takeWhile (\<lambda>c. c \<noteq> CHR ''='') f)) else None)"

lemma pqs_loop_field:
  "set f \<inter> {NUL, CHR ''&'', CHR '';''} = {} \<Longrightarrow>
     pqs_loop (pre @ f @ r) (length pre) name equal vars emp =
     pqs_loop (pre @ f @ r) (length pre + length f) name (find_equal (length pre) f equal) vars emp"
proof (induction f arbitrary: pre equal)
  case Nil
  then show ?case by (cases equal) (auto simp: find_equal_def)
next
  case (Cons c f)
  let ?s = "pre @ (c # f) @ r"
  let ?equal = "if c = CHR ''='' \<and> equal = None then Some (length pre) else equal"
  have "pqs_loop ?s (length pre) name equal vars emp =
      pqs_loop ?s (length (pre @ [c])) name ?equal vars emp"
    using Cons.prems by (subst pqs_loop.simps) (auto simp: byte_at_def nth_append Let_def)
  also have "\<dots> = pqs_loop ?s (length (pre @ [c]) + length f) name
      (find_equal (length (pre @ [c])) f ?equal) vars emp"
    using Cons.IH [of "pre @ [c]" ?equal] Cons.prems by simp
  also have "find_equal (length (pre @ [c])) f ?equal = find_equal (length pre) (c # f) equal"
    by (cases equal) (auto simp: find_equal_def)
  finally show ?case by simp
qed

lemma back_up_field:
  "set f \<inter> {CHR ''&'', CHR '';''} = {} \<Longrightarrow> pre = [] \<or> last pre \<in> {CHR ''&'', CHR '';''} \<Longrightarrow>
     back_up (pre @ f @ r) (length pre + length f) = length pre"
proof (induction f arbitrary: r rule: rev_induct)
  case Nil
  then show ?case
    by (cases pre rule: rev_cases) (auto simp: nth_append)
next
  case (snoc c f)
  from snoc.IH [of "c # r"] snoc.prems show ?case
    by (auto simp: nth_append)
qed

lemma url_decode_part: "n \<le> length s - i \<Longrightarrow>
    url_decode (Some (drop i s)) (int n) exist 0 =
    Some ((if exist then [NUL] else []) @ pct_decode True False (substr s i n))"
  by (simp add: url_decode_eq substr_def)

lemma end_of_variable_eq:
  assumes "n \<le> length s - name" "v \<le> length s - equal"
  shows "end_of_variable s name n equal v vars emp =
    (if v = 0 then Inr (vars, insert (substr s name n) emp)
     else (let key = pct_decode True False (substr s name n);
               val = pct_decode True False (substr s equal v) in
       Inr (mapping_insert vars key
         (case mapping_lookup vars key of
            Some (SString old) \<Rightarrow> SString (old @ [NUL] @ val)
          | _ \<Rightarrow> SString val), emp)))"
  using assms
  by (auto simp: end_of_variable_def variable_value_def url_decode_part Let_def
      split: option.splits svalue.splits)

text \<open>What the end of a field does with it.\<close>

lemma pqs_loop_field_end:
  assumes f: "wf_field f" and pre: "pre = [] \<or> last pre \<in> {CHR ''&'', CHR '';''}"
    and r: "r = [] \<or> hd r \<in> {CHR ''&'', CHR '';''}"
  defines "k \<equiv> length pre + length f"
  shows "pqs_loop (pre @ f @ r) (length pre) (length pre) None vars emp =
    (let (vars', emp') = add_field (vars, emp) f in pqs_loop (pre @ f @ r) (k + 1) (k + 1) None vars' emp')"
proof -
  let ?s = "pre @ f @ r"
  let ?n = "takeWhile (\<lambda>c. c \<noteq> CHR ''='') f"
  let ?v = "drop (length ?n + 1) f"
  have set: "set f \<inter> {NUL, CHR ''&'', CHR '';''} = {}" and ne: "f \<noteq> []"
    using f by (auto simp: wf_field_def)
  have sep: "byte_at ?s k = NUL \<and> k = length ?s \<or> byte_at ?s k = CHR ''&'' \<or> byte_at ?s k = CHR '';''"
    using r by (cases r) (auto simp: k_def byte_at_def nth_append)
  have first: "byte_at ?s (length pre) \<noteq> NUL" "byte_at ?s (length pre) \<noteq> CHR ''&''"
    using set ne by (cases f; auto simp: byte_at_def nth_append)+
  have k: "0 < k" "k \<le> length ?s" using ne by (auto simp: k_def)
  have name: "substr ?s (length pre) (length ?n) = ?n"
    using length_takeWhile_le [of _ f] by (simp add: substr_def take_length_takeWhile)
  have backup: "back_up ?s k = length pre"
    using set pre unfolding k_def by (intro back_up_field) auto
  have "(case find_equal (length pre) f None of
      None \<Rightarrow> end_of_variable ?s (back_up ?s k) (k - back_up ?s k) 0 0 vars emp
    | Some e \<Rightarrow> end_of_variable ?s (length pre) (e - length pre) (e + 1) (k - (e + 1)) vars emp) =
    Inr (add_field (vars, emp) f)"
  proof (cases "CHR ''='' \<in> set f")
    case False
    then have n: "?n = f" by (auto simp: takeWhile_eq_all_conv)
    have "substr ?s (length pre) (length f) = f" "k - length pre = length f"
      by (simp_all add: substr_def k_def)
    moreover have "add_field (vars, emp) f = (vars, insert f emp)"
      unfolding add_field_def Let_def prod.case n by simp
    ultimately show ?thesis
      using False by (simp add: find_equal_def backup end_of_variable_eq)
  next
    case True
    then have n: "length ?n < length f"
      by (intro length_takeWhile_less) auto
    have val: "substr ?s (length pre + length ?n + 1) (length f - (length ?n + 1)) = ?v"
      using n by (simp add: substr_def)
    have "k - (length pre + length ?n + 1) = length f - (length ?n + 1)" by (simp add: k_def)
    with True n show ?thesis
      by (simp add: find_equal_def end_of_variable_eq name val [simplified] add_field_def Let_def)
  qed
  moreover have "pqs_loop ?s (length pre) (length pre) None vars emp =
      pqs_loop ?s k (length pre) (find_equal (length pre) f None) vars emp"
    using pqs_loop_field [OF set] by (simp add: k_def)
  ultimately show ?thesis
    using sep first k
    by (subst (asm) pqs_loop.simps) (auto simp: Let_def split: prod.splits)
qed

text \<open>All fields of a query, in front of its end or of one more separator.\<close>

lemma pqs_loop_query:
  assumes "wf_field f" "\<forall>(sep, g) \<in> set fs. wf_field g \<and> sep \<in> {CHR ''&'', CHR '';''}"
    and "pre = [] \<or> last pre \<in> {CHR ''&'', CHR '';''}" "r = [] \<or> hd r \<in> {CHR ''&'', CHR '';''}"
  defines "k fs' \<equiv> length pre + length (query_text f fs') + 1"
  shows "pqs_loop (pre @ query_text f fs @ r) (length pre) (length pre) None vars emp =
    (let (vars', emp') = foldl add_field (vars, emp) (f # map snd fs) in
     pqs_loop (pre @ query_text f fs @ r) (k fs) (k fs) None vars' emp')"
  using assms(1-4) unfolding k_def
proof (induction fs arbitrary: f pre vars emp)
  case Nil
  then show ?case using pqs_loop_field_end [of f pre r vars emp] by (simp add: query_text_def)
next
  case (Cons sg fs)
  obtain sep g where sg: "sg = (sep, g)" by fastforce
  obtain vars' emp' where add: "add_field (vars, emp) f = (vars', emp')" by fastforce
  let ?s = "pre @ query_text f (sg # fs) @ r"
  have s: "?s = pre @ f @ (sep # query_text g fs @ r)" "?s = (pre @ f @ [sep]) @ query_text g fs @ r"
    by (simp_all add: query_text_def sg)
  have "pqs_loop ?s (length pre) (length pre) None vars emp =
      pqs_loop ?s (length (pre @ f @ [sep])) (length (pre @ f @ [sep])) None vars' emp'"
    unfolding s(1)
    using pqs_loop_field_end [of f pre "sep # query_text g fs @ r" vars emp] Cons.prems sg add
    by simp
  also have "\<dots> = (let (vars'', emp'') = foldl add_field (vars', emp') (g # map snd fs) in
     pqs_loop ?s (length (pre @ f @ [sep]) + length (query_text g fs) + 1)
       (length (pre @ f @ [sep]) + length (query_text g fs) + 1) None vars'' emp'')"
    unfolding s(2) using Cons.prems sg by (intro Cons.IH) auto
  finally show ?case
    by (simp add: add sg query_text_def add.assoc)
qed

text \<open>Once \<^verbatim>\<open>name\<close> points to an ampersand it stays there and every separator is ignored.\<close>

lemma pqs_loop_stuck:
  "byte_at s name = CHR ''&'' \<Longrightarrow> pqs_loop s ptr name equal vars emp = Inr (vars, emp)"
proof (induction s ptr name equal vars emp rule: pqs_loop.induct)
  case (1 s ptr name equal vars emp)
  then show ?case
    by (subst pqs_loop.simps) (auto simp: Let_def)
qed

section \<open>Properties\<close>

text \<open>
  C24. A query of non-empty fields separated by ampersands or semicolons is read field by
  field: \<open>name=value\<close> decodes both and stores the value, joining repeated ones with a zero byte;
  a field without a value puts its name, undecoded, into the multiset.
\<close>

theorem parse_query_string_fields:
  assumes "wf_field f" "\<forall>(sep, g) \<in> set fs. wf_field g \<and> sep \<in> {CHR ''&'', CHR '';''}"
  shows "f_parse_query_string (query_text f fs) vars emp =
    Inr (foldl add_field (vars, emp) (f # map snd fs))"
  using pqs_loop_query [OF assms, of "[]" "[]" vars emp]
  by (simp add: f_parse_query_string_def pqs_loop.simps [of _ "Suc (length (query_text f fs))"] split: prod.splits)

theorem parse_query_string_fields_witness:
  "f_parse_query_string ''a=1&b;a=%32+'' [] {} = Inr ([(''a'', SString (''1'' @ [NUL] @ ''2 ''))], {''b''})"
proof -
  have "foldl add_field ([], {}) [''a=1'', ''b'', ''a=%32+''] = ([(''a'', SString (''1'' @ [NUL] @ ''2 ''))], {''b''})"
    by code_simp
  then show ?thesis
    using parse_query_string_fields [of "''a=1''" "[(CHR ''&'', ''b''), (CHR '';'', ''a=%32+'')]" "[]" "{}"]
    by (simp add: wf_field_def query_text_def)
qed

text \<open>
  Two ampersands in a row end the parsing for good: \<^verbatim>\<open>name\<close> is left on the second one, every
  later separator is skipped, and all the variables that follow are lost.
\<close>

lemma parse_query_string_double_ampersand:
  assumes "wf_field f" "\<forall>(sep, g) \<in> set fs. wf_field g \<and> sep \<in> {CHR ''&'', CHR '';''}"
  shows "f_parse_query_string (query_text f fs @ ''&&'' @ rest) vars emp =
    f_parse_query_string (query_text f fs) vars emp"
proof -
  let ?s = "query_text f fs @ ''&&'' @ rest"
  have "byte_at ?s (length (query_text f fs) + 1) = CHR ''&''"
    by (simp add: byte_at_def nth_append)
  then show ?thesis
    using pqs_loop_query [OF assms, of "[]" "''&&'' @ rest" vars emp]
      pqs_loop_query [OF assms, of "[]" "[]" vars emp]
    by (simp add: f_parse_query_string_def pqs_loop_stuck
        pqs_loop.simps [of _ "Suc (length (query_text f fs))"] split: prod.splits)
qed

lemma parse_query_string_double_ampersand_witness:
  "f_parse_query_string ''a=1&&b=2'' [] {} = Inr ([(''a'', SString ''1'')], {})"
proof -
  have "f_parse_query_string ''a=1'' [] {} = Inr ([(''a'', SString ''1'')], {})" by code_simp
  then show ?thesis
    using parse_query_string_double_ampersand [of "''a=1''" "[]" "''b=2''" "[]" "{}"]
    by (simp add: wf_field_def query_text_def)
qed

end
