(* ===== verification/Url_Parts.thy ===== *)
theory Url_Parts
  imports Caudium_Prelude
begin

text \<open>
  Four small parsers of \<^verbatim>\<open>src/cmods/_Caudium/caudium.c\<close>: the prestates at the front of a path,
  the address and the port in what Pike's \<^verbatim>\<open>query_address\<close> returns, and the extension of a file
  name. The variants without \<^verbatim>\<open>strndupa\<close> are modelled.
\<close>

section \<open>Prestates\<close>

text \<open>\<^verbatim>\<open>while (tmp && *tmp)\<close>: the position of the slash behind a closing parenthesis.\<close>

function find_prestate_end :: "string \<Rightarrow> nat \<Rightarrow> int" where
  "find_prestate_end url tmp =
     (if byte_at url tmp = NUL then - 1
      else if byte_at url tmp = CHR ''/'' \<and> byte_at url (tmp - 1) = CHR '')'' then int tmp
      else find_prestate_end url (tmp + 1))"
  by pat_completeness auto
termination
  by (relation "measure (\<lambda>(url, tmp). length url - tmp)") (auto simp: byte_at_def split: if_splits)

declare find_prestate_end.simps [simp del]

text \<open>
  \<^verbatim>\<open>!MEMCMP(p, "internal", len)\<close>: the literal has eight bytes and its terminating zero, and
  \<^verbatim>\<open>p\<close> never holds a zero byte at the ninth.
\<close>

definition memcmp_internal :: "string \<Rightarrow> bool" where
  "memcmp_internal piece \<longleftrightarrow> piece = take (length piece) (''internal'' @ [NUL])"

text \<open>
  The loop over \<^verbatim>\<open>url->str[2..prestate_end]\<close>; \<open>done_first\<close> is 0 before the first prestate, -1
  after "internal", 1 after any other. The results are the two multisets.
\<close>

function prestates_loop ::
  "string \<Rightarrow> nat \<Rightarrow> nat \<Rightarrow> nat \<Rightarrow> int \<Rightarrow> string set \<Rightarrow> string set \<Rightarrow> string set \<times> string set" where
  "prestates_loop url prestate_end i last_start done_first prestate internal =
     (if i \<le> prestate_end then
        if byte_at url i = CHR '','' \<or> byte_at url i = CHR '')'' then
          (let piece = substr url last_start (i - last_start) in
           if done_first = 0 then
             if memcmp_internal piece
             then prestates_loop url prestate_end (i + 1) (i + 1) (- 1) (insert ''internal'' prestate) internal
             else prestates_loop url prestate_end (i + 1) (i + 1) 1 (insert piece prestate) internal
           else if done_first = - 1
           then prestates_loop url prestate_end (i + 1) (i + 1) done_first prestate (insert piece internal)
           else prestates_loop url prestate_end (i + 1) (i + 1) done_first (insert piece prestate) internal)
        else prestates_loop url prestate_end (i + 1) last_start done_first prestate internal
      else (prestate, internal))"
  by pat_completeness auto
termination
  by (relation "measure (\<lambda>(url, pe, i, ls, df, p, n). Suc pe - i)") auto

declare prestates_loop.simps [simp del]

definition f_parse_prestates ::
  "string \<Rightarrow> string set \<Rightarrow> string set \<Rightarrow> string \<times> string set \<times> string set" where
  "f_parse_prestates url prestate internal =
     (if length url < 5 \<or> url ! 1 \<noteq> CHR ''('' then (url, prestate, internal)
      else (let prestate_end = find_prestate_end url 3 in
            if prestate_end < 0 then (url, prestate, internal)
            else (let (p, n) = prestates_loop url (nat prestate_end) 2 2 0 prestate internal
                  in (cstr (drop (nat prestate_end) url), p, n))))"

section \<open>Address and port\<close>

text \<open>\<^verbatim>\<open>!(c & 0xDF)\<close>\<close>

definition is_gap :: "char \<Rightarrow> bool" where
  "is_gap c \<longleftrightarrow> code_of c AND 0xDF = 0"

definition f_get_address :: "string \<Rightarrow> string" where
  "f_get_address src =
     (let n = length src;
          i = (if n < 7 then - 1
               else if is_gap (src ! (n - 6)) then int (n - 6)
               else if is_gap (src ! (n - 5)) then int (n - 5)
               else if is_gap (src ! (n - 4)) then int (n - 4)
               else if is_gap (src ! (n - 3)) then int (n - 3)
               else if is_gap (src ! (n - 2)) then int (n - 2)
               else - 1)
      in if i < 0 then ''unknown'' else take (nat i) src)"

text \<open>
  \<^verbatim>\<open>for(i = src->len-1; i >=0; i--)\<close> stopping at the byte \<open>c\<close>: the position behind it. The
  argument is \<open>i + 1\<close>.
\<close>

fun find_last :: "char \<Rightarrow> string \<Rightarrow> nat \<Rightarrow> nat option" where
  "find_last c s 0 = None"
| "find_last c s (Suc i) = (if s ! i = c then Some (Suc i) else find_last c s i)"

definition f_get_port :: "string \<Rightarrow> string" where
  "f_get_port src =
     (if length src < 7 then ''0''
      else (case find_last SP src (length src) of
              Some i \<Rightarrow> substr src i (length src - i)
            | None \<Rightarrow> ''0''))"

section \<open>Extension\<close>

definition f_extension :: "string \<Rightarrow> string" where
  "f_extension src =
     (case find_last (CHR ''.'') src (length src) of
        Some i \<Rightarrow>
          (let len = length src - i;
               len' = (if src ! (length src - 1) \<in> {CHR ''#'', CHR ''~''} then len - 1 else len)
           in substr src i len')
      | None \<Rightarrow> [])"

section \<open>Lemmas\<close>

lemma find_last_none: "c \<notin> set (take n s) \<Longrightarrow> n \<le> length s \<Longrightarrow> find_last c s n = None"
  by (induction n) (auto simp: take_Suc_conv_app_nth)

lemma find_last_split:
  "c \<notin> set t \<Longrightarrow> find_last c (s @ c # t @ r) (length s + 1 + length t) = Some (length s + 1)"
proof (induction t arbitrary: r rule: rev_induct)
  case Nil
  then show ?case by simp
next
  case (snoc x t)
  have "(s @ c # t @ [x] @ r) ! (length s + 1 + length t) = x"
    by (simp add: nth_append)
  with snoc.IH [of "[x] @ r"] snoc.prems show ?case by auto
qed

lemma is_gap_iff: "is_gap c \<longleftrightarrow> c = SP \<or> c = NUL"
proof
  assume gap: "is_gap c"
  have "\<not> bit (code_of c) i" if "bit (0xDF :: nat) i" for i
    using gap that unfolding is_gap_def by (metis bit_0_eq bit_and_iff bot_apply bot_bool_def)
  then have "\<not> bit (code_of c) 0" "\<not> bit (code_of c) 1" "\<not> bit (code_of c) 2" "\<not> bit (code_of c) 3"
    "\<not> bit (code_of c) 4" "\<not> bit (code_of c) 6" "\<not> bit (code_of c) 7"
    by (simp_all add: bit_iff_odd [of "223 :: nat"])
  then have "char_of (code_of c) = SP \<or> char_of (code_of c) = NUL"
    unfolding char_of_def by simp
  then show "c = SP \<or> c = NUL" by simp
next
  show "c = SP \<or> c = NUL \<Longrightarrow> is_gap c" by (auto simp: is_gap_def)
qed

text \<open>The address and the port, however many digits (one to five) the port has.\<close>

lemma f_get_address_split:
  assumes "set ip \<inter> {SP, NUL} = {}" "set port \<inter> {SP, NUL} = {}"
    and "1 \<le> length port" "length port \<le> 5" "7 \<le> length (ip @ [SP] @ port)"
  shows "f_get_address (ip @ [SP] @ port) = ip"
proof -
  let ?s = "ip @ SP # port"
  have ip: "\<not> is_gap (?s ! k)" if "k < length ip" for k
  proof -
    have "ip ! k \<notin> {SP, NUL}" using that assms(1) nth_mem [of k ip] by blast
    with that show ?thesis by (simp add: nth_append is_gap_iff)
  qed
  have gap: "is_gap (?s ! length ip)" by (simp add: is_gap_iff)
  have "ip \<noteq> []" using assms(4,5) by auto
  then have "1 \<le> length ip" by (cases ip) simp_all
  consider "length port = 1" | "length port = 2" | "length port = 3" | "length port = 4" | "length port = 5"
    using assms(3,4) by linarith
  then show ?thesis
    using assms(5) \<open>1 \<le> length ip\<close> \<open>ip \<noteq> []\<close> ip gap by cases (simp_all add: f_get_address_def Let_def)
qed

lemma f_get_port_split:
  assumes "SP \<notin> set port" "7 \<le> length (ip @ [SP] @ port)"
  shows "f_get_port (ip @ [SP] @ port) = port"
  using assms find_last_split [OF assms(1), of ip "[]"] by (simp add: f_get_port_def substr_def)

section \<open>The prestate loop on a list of prestates\<close>

text \<open>What one prestate does to the two multisets; the flag is \<open>done_first\<close>.\<close>

definition add_prestate :: "int \<times> string set \<times> string set \<Rightarrow> string \<Rightarrow> int \<times> string set \<times> string set" where
  "add_prestate st piece =
     (case st of (df, p, n) \<Rightarrow>
        if df = 0 then if memcmp_internal piece then (- 1, insert ''internal'' p, n) else (1, insert piece p, n)
        else if df = - 1 then (df, p, insert piece n) else (df, insert piece p, n))"

definition wf_piece :: "string \<Rightarrow> bool" where
  "wf_piece q \<longleftrightarrow> set q \<inter> {CHR '','', CHR '')'', NUL} = {}"

text \<open>The pieces, every one with the byte that ends it.\<close>

definition pieces_text :: "(string \<times> char) list \<Rightarrow> string" where
  "pieces_text qs = concat (map (\<lambda>(q, c). q @ [c]) qs)"

lemma prestates_loop_piece:
  "wf_piece q \<Longrightarrow> length pre + length q \<le> Suc pe \<Longrightarrow>
     prestates_loop (pre @ q @ r) pe (length pre) ls df p n =
     prestates_loop (pre @ q @ r) pe (length pre + length q) ls df p n"
proof (induction q arbitrary: pre)
  case (Cons c q)
  then show ?case
    using Cons.IH [of "pre @ [c]"]
    by (subst prestates_loop.simps) (auto simp: wf_piece_def byte_at_def nth_append)
qed simp

lemma prestates_loop_pieces:
  assumes "\<forall>(q, c) \<in> set qs. wf_piece q \<and> c \<in> {CHR '','', CHR '')''}"
    and "length pre + length (pieces_text qs) \<le> Suc pe"
  shows "prestates_loop (pre @ pieces_text qs @ r) pe (length pre) (length pre) df p n =
    (let (df', p', n') = foldl add_prestate (df, p, n) (map fst qs) in
     prestates_loop (pre @ pieces_text qs @ r) pe (length pre + length (pieces_text qs))
       (length pre + length (pieces_text qs)) df' p' n')"
  using assms
proof (induction qs arbitrary: pre df p n)
  case Nil
  then show ?case by (simp add: pieces_text_def)
next
  case (Cons qc qs)
  obtain q c where qc: "qc = (q, c)" by fastforce
  let ?s = "pre @ pieces_text (qc # qs) @ r"
  have s: "?s = pre @ q @ ([c] @ pieces_text qs @ r)" "?s = (pre @ q @ [c]) @ pieces_text qs @ r"
    by (simp_all add: pieces_text_def qc)
  have q: "wf_piece q" "c \<in> {CHR '','', CHR '')''}" and len: "length pre + length q + 1 + length (pieces_text qs) \<le> Suc pe"
    using Cons.prems qc by (auto simp: pieces_text_def)
  obtain df' p' n' where add: "add_prestate (df, p, n) q = (df', p', n')"
    by (metis prod_cases3)
  have at: "byte_at ?s (length pre + length q) = c" and piece: "substr ?s (length pre) (length q) = q"
    unfolding s(1) by (simp_all add: byte_at_def nth_append substr_def)
  have "prestates_loop ?s pe (length pre) (length pre) df p n =
      prestates_loop ?s pe (length pre + length q) (length pre) df p n"
    unfolding s(1) using q(1) len by (intro prestates_loop_piece) auto
  also have "\<dots> = prestates_loop ?s pe (length (pre @ q @ [c])) (length (pre @ q @ [c])) df' p' n'"
    using q(2) len add
    by (subst prestates_loop.simps) (auto simp: at piece add_prestate_def Let_def split: if_splits)
  also have "\<dots> = (let (df'', p'', n'') = foldl add_prestate (df', p', n') (map fst qs) in
     prestates_loop ?s pe (length (pre @ q @ [c]) + length (pieces_text qs))
       (length (pre @ q @ [c]) + length (pieces_text qs)) df'' p'' n'')"
    unfolding s(2) using Cons.prems qc len by (intro Cons.IH) auto
  finally show ?case by (simp add: add qc pieces_text_def add.assoc)
qed

lemma find_prestate_end_skip:
  "t \<le> t' \<Longrightarrow> (\<And>k. t \<le> k \<Longrightarrow> k < t' \<Longrightarrow> byte_at url k \<noteq> NUL \<and> byte_at url (k - 1) \<noteq> CHR '')'') \<Longrightarrow>
     find_prestate_end url t = find_prestate_end url t'"
proof (induction "t' - t" arbitrary: t)
  case (Suc d)
  then have "find_prestate_end url t = find_prestate_end url (t + 1)"
    by (subst find_prestate_end.simps) (simp add: Suc.prems(2) [of t])
  also have "\<dots> = find_prestate_end url t'"
    using Suc by (intro Suc.hyps) auto
  finally show ?case .
qed simp

lemma find_prestate_end_at:
  assumes "set A \<inter> {NUL, CHR '')''} = {}" "2 \<le> length A"
  shows "find_prestate_end (A @ '')/'' @ rest) 3 = int (length A + 1)"
proof -
  let ?url = "A @ '')/'' @ rest"
  have A: "A ! k \<noteq> NUL \<and> A ! k \<noteq> CHR '')''" if "k < length A" for k
    using assms(1) nth_mem [OF that] by blast
  have "find_prestate_end ?url 3 = find_prestate_end ?url (length A + 1)"
    using assms(2) A by (intro find_prestate_end_skip) (auto simp: byte_at_def nth_append)
  also have "\<dots> = int (length A + 1)"
    by (subst find_prestate_end.simps) (simp add: byte_at_def nth_append)
  finally show ?thesis .
qed

lemma prestates_loop_done: "pe < i \<Longrightarrow> prestates_loop url pe i ls df p n = (p, n)"
  by (subst prestates_loop.simps) simp

definition prestate_url :: "string list \<Rightarrow> string \<Rightarrow> string \<Rightarrow> string" where
  "prestate_url qs q rest =
     ''/('' @ concat (map (\<lambda>q. q @ '','') qs) @ q @ '')/'' @ rest"

lemma foldl_add_prestate:
  "foldl add_prestate (- 1, p, n) qs = (- 1, p, set qs \<union> n)"
  "foldl add_prestate (1, p, n) qs = (1, set qs \<union> p, n)"
  by (induction qs arbitrary: p n) (auto simp: add_prestate_def)

lemma f_parse_prestates_url:
  assumes wf: "\<forall>x \<in> set (qs @ [q]). wf_piece x" and rest: "NUL \<notin> set rest"
    and len: "5 \<le> length (prestate_url qs q rest)"
  shows "f_parse_prestates (prestate_url qs q rest) p n =
    (''/'' @ rest, snd (foldl add_prestate (0, p, n) (qs @ [q])))"
proof -
  let ?qs = "map (\<lambda>q. (q, CHR '','')) qs @ [(q, CHR '')'')]"
  let ?A = "''/('' @ concat (map (\<lambda>q. q @ '','') qs) @ q"
  let ?url = "prestate_url qs q rest"
  have url: "?url = ?A @ '')/'' @ rest" "?url = ''/('' @ pieces_text ?qs @ ''/'' @ rest"
    by (simp_all add: prestate_url_def pieces_text_def comp_def)
  have A: "set ?A \<inter> {NUL, CHR '')''} = {}" using wf by (auto simp: wf_piece_def)
  have pe: "length ?A + 1 = 2 + length (pieces_text ?qs)"
    by (simp add: pieces_text_def comp_def)
  obtain df p' n' where fold: "foldl add_prestate (0, p, n) (qs @ [q]) = (df, p', n')"
    by (metis prod_cases3)
  have fstqs: "map fst ?qs = qs @ [q]" by (simp add: comp_def)
  have slash: "byte_at ?url (length ?A + 1) = CHR ''/''" by (simp add: url(1) byte_at_def nth_append)
  have "prestates_loop ?url (length ?A + 1) 2 2 0 p n =
      prestates_loop ?url (length ?A + 1) (length ?A + 1) (length ?A + 1) df p' n'"
    using prestates_loop_pieces [of ?qs "''/(''" "length ?A + 1" "''/'' @ rest" 0 p n]
    unfolding url(2) pe fstqs fold using wf by (auto simp: numeral_2_eq_2)
  also have "\<dots> = (p', n')"
    using slash by (subst prestates_loop.simps) (simp add: prestates_loop_done)
  finally have loop: "prestates_loop ?url (length ?A + 1) 2 2 0 p n = (p', n')" .
  have drop: "drop (length ?A + 1) ?url = ''/'' @ rest" by (simp add: url(1))
  have "?url ! 1 = CHR ''(''" by (simp add: url(1))
  moreover have "nat (int (length ?A + 1)) = length ?A + 1" by (rule nat_int)
  ultimately show ?thesis
    using len find_prestate_end_at [OF A, of rest] loop drop rest fold
    unfolding f_parse_prestates_def url(1) [symmetric] by (simp add: Let_def cstr_id)
qed

section \<open>Properties\<close>

text \<open>
  A path with prestates in front, \<open>/(p1,...,pn)/rest\<close>, is returned without them. If the first
  prestate is "internal" it alone is added to the prestates and all the others go to the internal
  ones; otherwise all are added to the prestates.
\<close>

lemma parse_prestates_url:
  assumes "\<forall>x \<in> set (q # qs). wf_piece x" "NUL \<notin> set rest"
    and "5 \<le> length (prestate_url (butlast (q # qs)) (last (q # qs)) rest)"
  shows "f_parse_prestates (prestate_url (butlast (q # qs)) (last (q # qs)) rest) p n =
    (''/'' @ rest,
     if memcmp_internal q then (insert ''internal'' p, set qs \<union> n) else (insert q (set qs \<union> p), n))"
proof -
  have "\<forall>x \<in> set (butlast (q # qs) @ [last (q # qs)]). wf_piece x"
    using assms(1) by (simp only: append_butlast_last_id list.distinct not_False_eq_True)
  from f_parse_prestates_url [OF this assms(2,3), of p n]
  have "f_parse_prestates (prestate_url (butlast (q # qs)) (last (q # qs)) rest) p n =
      (''/'' @ rest, snd (foldl add_prestate (0, p, n) (q # qs)))"
    by (simp only: append_butlast_last_id list.distinct not_False_eq_True)
  then show ?thesis
    by (simp add: add_prestate_def [of "(0, p, n)"] foldl_add_prestate del: butlast.simps last.simps)
qed

lemma parse_prestates_url_witness:
  "f_parse_prestates ''/(a,b)/x'' {} {} = (''/x'', {''a'', ''b''}, {}) \<and>
   f_parse_prestates ''/(internal,b)/x'' {} {} = (''/x'', {''internal''}, {''b''})"
  using parse_prestates_url [of "''a''" "[''b'']" "''x''" "{}" "{}"]
    parse_prestates_url [of "''internal''" "[''b'']" "''x''" "{}" "{}"]
  by (simp add: wf_piece_def prestate_url_def memcmp_internal_def)

text \<open>
  The comparison with "internal" runs over the length of the prestate only, so that every
  prefix of "internal", the empty one included, is taken for it: \<open>/(int,p)/\<close> sets the prestate
  "internal" and the internal prestate \<open>p\<close>.
\<close>

lemma parse_prestates_prefix:
  assumes "k \<le> 8" "wf_piece q" "NUL \<notin> set rest"
  shows "f_parse_prestates (prestate_url [take k ''internal''] q rest) p n =
    (''/'' @ rest, insert ''internal'' p, insert q n)"
proof -
  have "wf_piece (take k ''internal'')"
    by (auto simp: wf_piece_def dest: in_set_takeD)
  moreover have "take k (''internal'' @ [NUL]) = take k ''internal''"
    using assms(1) by (subst take_append) simp
  moreover have "length (take k ''internal'') = k" using assms(1) by (simp add: min_def)
  ultimately have "wf_piece (take k ''internal'')" "memcmp_internal (take k ''internal'')"
    by (simp_all only: memcmp_internal_def)
  moreover have "5 \<le> length (prestate_url [take k ''internal''] q rest)"
    by (simp add: prestate_url_def)
  ultimately show ?thesis
    using f_parse_prestates_url [of "[take k ''internal'']" q rest p n] assms(2,3)
    by (simp add: add_prestate_def)
qed

lemma parse_prestates_prefix_witness:
  "f_parse_prestates ''/(in,b)/x'' {} {} = (''/x'', {''internal''}, {''b''})"
  using parse_prestates_prefix [of 2 "''b''" "''x''" "{}" "{}"]
  by (simp add: wf_piece_def prestate_url_def)

text \<open>
  From what \<^verbatim>\<open>query_address\<close> returns, an address, a blank and a port of one to five digits,
  \<^verbatim>\<open>get_address\<close> returns the address and \<^verbatim>\<open>get_port\<close> the port.
\<close>

lemma get_address_port:
  assumes "set ip \<inter> {SP, NUL} = {}" "set port \<inter> {SP, NUL} = {}"
    and "1 \<le> length port" "length port \<le> 5" "7 \<le> length (ip @ [SP] @ port)"
  shows "f_get_address (ip @ [SP] @ port) = ip \<and> f_get_port (ip @ [SP] @ port) = port"
  using f_get_address_split [OF assms] f_get_port_split [of port ip] assms(2,5) by blast

lemma get_address_port_witness:
  "f_get_address ''127.0.0.1 80'' = ''127.0.0.1'' \<and> f_get_port ''127.0.0.1 80'' = ''80''"
  using get_address_port [of "''127.0.0.1''" "''80''"] by simp

text \<open>
  The extension is what follows the last dot, without one trailing hash or tilde of a backup
  file; a name without a dot has none.
\<close>

lemma extension_of_file:
  assumes "CHR ''.'' \<notin> set e"
  shows "f_extension e = [] \<and>
    f_extension (name @ ''.'' @ e) =
      (if e \<noteq> [] \<and> last e \<in> {CHR ''#'', CHR ''~''} then butlast e else e)"
proof -
  have none: "f_extension e = []"
    using find_last_none [of "CHR ''.''" "length e" e] assms by (simp add: f_extension_def)
  have split: "find_last (CHR ''.'') (name @ CHR ''.'' # e) (Suc (length name + length e)) = Some (Suc (length name))"
    using find_last_split [OF assms, of name "[]"] by simp
  have "(name @ CHR ''.'' # e) ! (length name + length e) = last (CHR ''.'' # e)"
    by (simp add: last_conv_nth nth_append)
  with none split show ?thesis
    by (simp add: f_extension_def substr_def butlast_conv_take Let_def)
qed

lemma extension_of_file_witness:
  "f_extension ''a.b.c~'' = ''c'' \<and> f_extension ''README'' = []"
  using extension_of_file [of "''c~''" "''a.b''"] extension_of_file [of "''README''"] by simp

end
