(* ===== verification/Entity_Parser.thy ===== *)
theory Entity_Parser
  imports Caudium_Prelude
begin

text \<open>
  The entity parser \<^verbatim>\<open>ent_parser\<close> of \<^verbatim>\<open>src/cmods/_Caudium/entparse.c\<close> with its callback and the
  Pike function \<^verbatim>\<open>parse_entities\<close> of \<^verbatim>\<open>caudium.c\<close>. The loop is a step function on the local
  variables of \<^verbatim>\<open>ent_parser\<close>. The three arrays of 256 bytes that collect an entity are the lists
  of the bytes stored in them so far (the rest of each is zero); their lengths are the C
  variables \<^verbatim>\<open>entnamelen\<close>, \<^verbatim>\<open>entpartslen\<close> and \<^verbatim>\<open>entlen\<close>. Storing behind the end of one of them
  or of the result buffer, and reading behind the terminating zero of the input, is
  \<open>Out_of_bounds\<close>.
\<close>

section \<open>Data\<close>

datatype ent_errcode = ENT_ERR_OK | ENT_ERR_OOM | ENT_ERR_BUFTOOLONG | ENT_ERR_INVPARM
  | ENT_ERR_OPENENTITY | ENT_ERR_ENTNAMELONG | ENT_ERR_INVALIDNAME | ENT_ERR_RETBUFTOOLONG

text \<open>The high bit is set for critical errors.\<close>

fun ent_code :: "ent_errcode \<Rightarrow> nat" where
  "ent_code ENT_ERR_OK = 0"
| "ent_code ENT_ERR_OOM = 0x80000001"
| "ent_code ENT_ERR_BUFTOOLONG = 0x80000002"
| "ent_code ENT_ERR_INVPARM = 3"
| "ent_code ENT_ERR_OPENENTITY = 4"
| "ent_code ENT_ERR_ENTNAMELONG = 5"
| "ent_code ENT_ERR_INVALIDNAME = 6"
| "ent_code ENT_ERR_RETBUFTOOLONG = 0x80000007"

definition ENT_MAX_ENTSIZE :: nat where "ENT_MAX_ENTSIZE = 255"
definition ENT_MAX_RETBUFSIZE :: nat where "ENT_MAX_RETBUFSIZE = 128 * 1024"

record ent_result =
  er_buf :: "string option"
  er_errcode :: ent_errcode

text \<open>The locals of \<^verbatim>\<open>ent_parser\<close>; \<open>es_out\<close> is \<^verbatim>\<open>retval->buf[0..curlen)\<close>, \<open>es_buflen\<close> its size.\<close>

record ent_state =
  es_tmp :: "nat option"
  es_curpos :: nat
  es_in_entity :: bool
  es_entname :: string
  es_entparts :: string
  es_entfullname :: string
  es_out :: string
  es_buflen :: nat
  es_errcode :: ent_errcode

text \<open>One round of the loop: go on, \<^verbatim>\<open>return retval\<close> from inside, or raise.\<close>

datatype ent_outcome = Next ent_state | Return ent_state | Raise cerror

text \<open>
  A callback gets \<^verbatim>\<open>entname\<close> and \<^verbatim>\<open>entparts\<close>; it raises, leaves \<^verbatim>\<open>res->buf\<close> at NULL, or returns
  the replacement.
\<close>

type_synonym entcallback = "string \<Rightarrow> string \<Rightarrow> string option res"

section \<open>The parser\<close>

definition ent_append_data ::
  "(nat \<Rightarrow> bool) \<Rightarrow> string \<Rightarrow> string option \<Rightarrow> nat \<Rightarrow> ent_state \<Rightarrow> ent_outcome" where
  "ent_append_data malloc_ok buf cbuf clen st =
     (let curlen = length (es_out st);
          tmplen = curlen + clen + 2;
          grow = curlen + tmplen \<ge> es_buflen st;
          buflen = (if grow then es_buflen st + push_bit 1 tmplen else es_buflen st)
      in if grow \<and> buflen \<ge> ENT_MAX_RETBUFSIZE
         then Return (st\<lparr>es_buflen := buflen, es_errcode := ENT_ERR_RETBUFTOOLONG\<rparr>)
         else if grow \<and> \<not> malloc_ok buflen
         then Return (st\<lparr>es_buflen := buflen, es_errcode := ENT_ERR_OOM\<rparr>)
         else if cbuf = None \<and> clen = 0 \<and> length buf < the (es_tmp st) then Raise Out_of_bounds
         else
           (let (out, tmp) =
              (case cbuf of
                 Some r \<Rightarrow> (es_out st @ take clen r, es_tmp st)
               | None \<Rightarrow>
                   if clen = 0
                   then (es_out st @ [byte_at buf (the (es_tmp st))], Some (the (es_tmp st) + 1))
                   else (es_out st @ ''&'' @ take clen (es_entfullname st) @ '';'', es_tmp st))
            in if buflen < length out then Raise Out_of_bounds
               else Next (st\<lparr>es_out := out, es_tmp := tmp, es_buflen := buflen,
                             es_curpos := es_curpos st + 1\<rparr>)))"

text \<open>Storing into the arrays.\<close>

definition ent_array_ok :: "ent_state \<Rightarrow> bool" where
  "ent_array_ok st \<longleftrightarrow> length (es_entname st) \<le> ENT_MAX_ENTSIZE + 1 \<and>
     length (es_entparts st) \<le> ENT_MAX_ENTSIZE + 1 \<and> length (es_entfullname st) \<le> ENT_MAX_ENTSIZE + 1"

definition ent_stored :: "ent_state \<Rightarrow> ent_outcome" where
  "ent_stored st = (if ent_array_ok st then Next st else Raise Out_of_bounds)"

definition ent_dot :: "string \<Rightarrow> nat \<Rightarrow> ent_state \<Rightarrow> ent_outcome" where
  "ent_dot buf tmp st =
     (if es_entname st = [] then Next (st\<lparr>es_tmp := None, es_errcode := ENT_ERR_INVALIDNAME\<rparr>)
      else if es_entparts st \<noteq> [] then
        ent_stored (st\<lparr>es_entfullname := es_entfullname st @ [byte_at buf tmp],
          es_entparts := es_entparts st @ [NUL], es_tmp := Some (tmp + 1),
          es_curpos := es_curpos st + 1\<rparr>)
      else
        ent_stored (st\<lparr>es_entfullname := es_entfullname st @ [byte_at buf tmp, byte_at buf (tmp + 1)],
          es_entparts := [byte_at buf (tmp + 1)], es_tmp := Some (tmp + 2),
          es_curpos := es_curpos st + 2\<rparr>))"

definition ent_char :: "string \<Rightarrow> nat \<Rightarrow> ent_state \<Rightarrow> ent_outcome" where
  "ent_char buf tmp st =
     (if length (es_entfullname st) \<ge> ENT_MAX_ENTSIZE
      then Next (st\<lparr>es_errcode := ENT_ERR_ENTNAMELONG, es_tmp := None\<rparr>)
      else
        (let c = byte_at buf tmp;
             st1 = st\<lparr>es_entfullname := es_entfullname st @ [c], es_tmp := Some (tmp + 1),
                      es_curpos := es_curpos st + 1\<rparr>
         in if es_entparts st = [] then ent_stored (st1\<lparr>es_entname := es_entname st @ [c]\<rparr>)
            else ent_stored (st1\<lparr>es_entparts := es_entparts st @ [c]\<rparr>)))"

definition ent_step ::
  "(nat \<Rightarrow> bool) \<Rightarrow> string \<Rightarrow> entcallback option \<Rightarrow> ent_state \<Rightarrow> ent_outcome" where
  "ent_step malloc_ok buf cback st =
     (let tmp = the (es_tmp st); c = byte_at buf tmp in
      if length buf < tmp then Raise Out_of_bounds
      else if c = CHR ''&'' then
        if byte_at buf (tmp + 1) = CHR ''&''
        then ent_append_data malloc_ok buf None 0
               (st\<lparr>es_tmp := Some (tmp + 1), es_curpos := es_curpos st + 1\<rparr>)
        else if cback = None then ent_append_data malloc_ok buf None 0 st
        else Next (st\<lparr>es_entname := [], es_entparts := [], es_entfullname := [],
               es_in_entity := True, es_tmp := Some (tmp + 1), es_curpos := es_curpos st + 1\<rparr>)
      else if cback = None \<or> \<not> es_in_entity st then ent_append_data malloc_ok buf None 0 st
      else if c = CHR '';'' then
        (let st1 = st\<lparr>es_tmp := Some (tmp + 1), es_in_entity := False\<rparr> in
         case the cback (es_entname st) (es_entparts st) of
           Inl e \<Rightarrow> Raise e
         | Inr None \<Rightarrow> ent_append_data malloc_ok buf None (length (es_entfullname st)) st1
         | Inr (Some r) \<Rightarrow> ent_append_data malloc_ok buf (Some r) (length r) st1)
      else if c = CHR ''.'' then ent_dot buf tmp st
      else ent_char buf tmp st)"

text \<open>Every round that goes on moves \<^verbatim>\<open>curpos\<close> or ends the loop by setting \<^verbatim>\<open>tmp\<close> to NULL.\<close>

lemma ent_append_progress:
  "ent_append_data malloc_ok buf cbuf clen st = Next st' \<Longrightarrow> es_curpos st' = es_curpos st + 1"
  by (auto simp: ent_append_data_def Let_def split: if_splits option.splits prod.splits)

lemma ent_step_progress:
  "ent_step malloc_ok buf cback st = Next st' \<Longrightarrow> es_tmp st' = None \<or> es_curpos st < es_curpos st'"
  by (auto simp: ent_step_def ent_dot_def ent_char_def ent_stored_def Let_def
      dest!: ent_append_progress split: if_splits sum.splits option.splits)

function ent_loop ::
  "(nat \<Rightarrow> bool) \<Rightarrow> string \<Rightarrow> entcallback option \<Rightarrow> ent_state \<Rightarrow> ent_outcome" where
  "ent_loop malloc_ok buf cback st =
     (if es_tmp st \<noteq> None \<and> es_curpos st < length buf then
        (case ent_step malloc_ok buf cback st of
           Next st' \<Rightarrow> ent_loop malloc_ok buf cback st'
         | r \<Rightarrow> r)
      else Next st)"
  by pat_completeness auto
termination
  by (relation "measure (\<lambda>(malloc_ok, buf, cback, st).
        if es_tmp st = None then 0 else Suc (length buf - es_curpos st))")
    (auto dest: ent_step_progress)

declare ent_loop.simps [simp del]

definition ULONG_MAX :: nat where "ULONG_MAX = 2 ^ 64 - 1"

definition ent_parser ::
  "(nat \<Rightarrow> bool) \<Rightarrow> string option \<Rightarrow> entcallback option \<Rightarrow> ent_result option res" where
  "ent_parser malloc_ok input cback =
     (if \<not> malloc_ok 24 then Inr None
      else case input of
        None \<Rightarrow> Inr (Some \<lparr>er_buf = None, er_errcode = ENT_ERR_INVPARM\<rparr>)
      | Some buf \<Rightarrow>
          (let buflen = length buf; size = (buflen + buflen div 3) mod 2 ^ 64 in
           if buflen \<ge> ULONG_MAX \<or> size > ULONG_MAX
           then Inr (Some \<lparr>er_buf = None, er_errcode = ENT_ERR_BUFTOOLONG\<rparr>)
           else if \<not> malloc_ok size
           then Inr (Some \<lparr>er_buf = None, er_errcode = ENT_ERR_OOM\<rparr>)
           else
             (case ent_loop malloc_ok buf cback
                     \<lparr>es_tmp = Some 0, es_curpos = 0, es_in_entity = False, es_entname = [],
                      es_entparts = [], es_entfullname = [], es_out = [], es_buflen = size,
                      es_errcode = ENT_ERR_OK\<rparr> of
                Raise e \<Rightarrow> Inl e
              | Return st \<Rightarrow> Inr (Some \<lparr>er_buf = (if es_errcode st = ENT_ERR_OOM then None else Some (es_out st)),
                  er_errcode = es_errcode st\<rparr>)
              | Next st \<Rightarrow> Inr (Some \<lparr>er_buf = Some (es_out st),
                  er_errcode = (if es_errcode st = ENT_ERR_OK \<and> es_in_entity st
                                then ENT_ERR_OPENENTITY else es_errcode st)\<rparr>))))"

section \<open>The callback and the Pike function\<close>

text \<open>
  A scope of the mapping given to \<^verbatim>\<open>parse_entities\<close>: not an object, an object without a \<^verbatim>\<open>get\<close>
  function, or one with the function; what the Pike function returns is a string, the
  integer 0, or something else.
\<close>

datatype get_result = Get_string string | Get_zero | Get_other
datatype scope = Not_object | No_get | Get "string \<Rightarrow> get_result"

definition entity_callback :: "(string, scope) pmap \<Rightarrow> entcallback" where
  "entity_callback userdata entname params =
     (case mapping_lookup userdata (cstr entname) of
        None \<Rightarrow> Inr None
      | Some Not_object \<Rightarrow> Inl (Pike_error ''_Caudium.parse_entities(): expected object.'')
      | Some No_get \<Rightarrow> Inl (Pike_error ''_Caudium.parse_entities(): no get() method present in scope.'')
      | Some (Get f) \<Rightarrow>
          (case f (cstr params) of
             Get_string s \<Rightarrow> Inr (Some s)
           | Get_zero \<Rightarrow> Inr None
           | Get_other \<Rightarrow> Inl (Pike_error ''_Caudium.parse_entities(): get() method returned non-string result'')))"

definition f_parse_entities ::
  "(nat \<Rightarrow> bool) \<Rightarrow> string \<Rightarrow> (string, scope) pmap \<Rightarrow> string res" where
  "f_parse_entities malloc_ok input scopemap =
     (case ent_parser malloc_ok (Some input) (Some (entity_callback scopemap)) of
        Inl e \<Rightarrow> Inl e
      | Inr None \<Rightarrow> Inl (Pike_error ''Out of memory in the entity parser'')
      | Inr (Some eres) \<Rightarrow>
          (case er_errcode eres of
             ENT_ERR_OOM \<Rightarrow> Inl (Pike_error ''_Caudium.parse_entities(): out of memory.'')
           | ENT_ERR_INVPARM \<Rightarrow> Inl (Pike_error ''_Caudium.parse_entities(): invalid parameter.'')
           | ENT_ERR_BUFTOOLONG \<Rightarrow> Inl (Pike_error ''_Caudium.parse_entities(): buffer too long.'')
           | ENT_ERR_RETBUFTOOLONG \<Rightarrow>
               Inl (Pike_error ''_Caudium.parse_entities(): entity too long after replacement.'')
           | ENT_ERR_INVALIDNAME \<Rightarrow> Inl (Pike_error ''_Caudium.parse_entities(): invalid entity name.'')
           | e \<Rightarrow>
               if ent_code e AND 0x80000000 \<noteq> 0
               then Inl (Pike_error ''_Caudium.parse_entities(): unhandled error code'')
               else Inr (the (er_buf eres))))"

section \<open>The result buffer\<close>

text \<open>
  Appending never stores behind the result buffer, and it keeps the buffer at least as large as
  what it holds; it raises only when it would read behind the end of the input.
\<close>

lemma ent_append_in_bounds:
  assumes "length (es_out st) \<le> es_buflen st" "\<forall>r. cbuf = Some r \<longrightarrow> clen = length r"
  shows "(\<forall>e. ent_append_data malloc_ok buf cbuf clen st = Raise e \<longrightarrow>
            cbuf = None \<and> clen = 0 \<and> length buf < the (es_tmp st)) \<and>
    (\<forall>st'. ent_append_data malloc_ok buf cbuf clen st = Next st' \<longrightarrow>
            length (es_out st') \<le> es_buflen st')"
  using assms
  by (cases cbuf) (auto simp: ent_append_data_def Let_def push_bit_eq_mult split: if_splits)

text \<open>
  The buffer is enlarged by twice what is needed, which is refused from 128 KB on; as long as
  the result has at most 32766 bytes that never happens.
\<close>

lemma ent_append_next:
  assumes "length (es_out st) \<le> es_buflen st" "length (es_out st) + clen \<le> 32766"
    and "\<forall>r. cbuf = Some r \<longrightarrow> clen = length r"
    and "cbuf = None \<Longrightarrow> clen = 0 \<Longrightarrow> the (es_tmp st) \<le> length buf"
  shows "\<exists>st'. ent_append_data (\<lambda>_. True) buf cbuf clen st = Next st'"
  using assms
  by (cases cbuf)
    (auto simp: ent_append_data_def Let_def push_bit_eq_mult ENT_MAX_RETBUFSIZE_def)

section \<open>The loop on well-formed templates\<close>

text \<open>The state between two rounds, when no error has occurred and \<^verbatim>\<open>tmp\<close> is \<^verbatim>\<open>buf + curpos\<close>.\<close>

abbreviation ent_st ::
  "nat \<Rightarrow> bool \<Rightarrow> string \<Rightarrow> string \<Rightarrow> string \<Rightarrow> string \<Rightarrow> nat \<Rightarrow> ent_state" where
  "ent_st p inn n ps f out bl \<equiv>
     \<lparr>es_tmp = Some p, es_curpos = p, es_in_entity = inn, es_entname = n, es_entparts = ps,
      es_entfullname = f, es_out = out, es_buflen = bl, es_errcode = ENT_ERR_OK\<rparr>"

lemma ent_loop_next:
  "p < length buf \<Longrightarrow> ent_step m buf cb (ent_st p inn n ps f out bl) = Next st' \<Longrightarrow>
     ent_loop m buf cb (ent_st p inn n ps f out bl) = ent_loop m buf cb st'"
  by (subst ent_loop.simps) simp

text \<open>Copying one byte, from the state the byte is at.\<close>

lemma ent_copy_byte:
  assumes "length out \<le> bl" "length out \<le> 32766" "p \<le> length buf"
  shows "\<exists>bl'. length (out @ [byte_at buf p]) \<le> bl' \<and>
    ent_append_data (\<lambda>_. True) buf None 0 \<lparr>es_tmp = Some p, es_curpos = q, es_in_entity = inn,
      es_entname = n, es_entparts = ps, es_entfullname = f, es_out = out, es_buflen = bl,
      es_errcode = ENT_ERR_OK\<rparr> =
    Next \<lparr>es_tmp = Some (p + 1), es_curpos = q + 1, es_in_entity = inn, es_entname = n,
      es_entparts = ps, es_entfullname = f, es_out = out @ [byte_at buf p], es_buflen = bl',
      es_errcode = ENT_ERR_OK\<rparr>"
  using assms
  by (auto simp: ent_append_data_def Let_def push_bit_eq_mult ENT_MAX_RETBUFSIZE_def)

lemma ent_loop_text:
  assumes "CHR ''&'' \<notin> set w" "length out \<le> bl" "length (out @ w) \<le> 32766"
  shows "\<exists>bl'. length (out @ w) \<le> bl' \<and>
    ent_loop (\<lambda>_. True) (pre @ w @ r) cb (ent_st (length pre) False n ps f out bl) =
    ent_loop (\<lambda>_. True) (pre @ w @ r) cb (ent_st (length pre + length w) False n ps f (out @ w) bl')"
  using assms
proof (induction w arbitrary: pre out bl)
  case Nil
  then show ?case by auto
next
  case (Cons c w)
  let ?buf = "pre @ (c # w) @ r"
  have c: "byte_at ?buf (length pre) = c" by (simp add: byte_at_def nth_append)
  have "length out \<le> bl" "length out \<le> 32766" "length pre \<le> length ?buf" using Cons.prems by auto
  from ent_copy_byte [OF this, of "length pre" False n ps f] c obtain bl' where
    bl': "length (out @ [c]) \<le> bl'"
    "ent_append_data (\<lambda>_. True) ?buf None 0 (ent_st (length pre) False n ps f out bl) =
       Next (ent_st (length pre + 1) False n ps f (out @ [c]) bl')"
    by auto
  have "ent_step (\<lambda>_. True) ?buf cb (ent_st (length pre) False n ps f out bl) =
      ent_append_data (\<lambda>_. True) ?buf None 0 (ent_st (length pre) False n ps f out bl)"
    using Cons.prems by (auto simp: ent_step_def c [simplified] Let_def)
  with bl'(2) have "ent_loop (\<lambda>_. True) ?buf cb (ent_st (length pre) False n ps f out bl) =
      ent_loop (\<lambda>_. True) ((pre @ [c]) @ w @ r) cb (ent_st (length (pre @ [c])) False n ps f (out @ [c]) bl')"
    using ent_loop_next [of "length pre" ?buf "\<lambda>_. True" cb False n ps f out bl] by simp
  moreover have "\<exists>bl''. length ((out @ [c]) @ w) \<le> bl'' \<and>
      ent_loop (\<lambda>_. True) ((pre @ [c]) @ w @ r) cb (ent_st (length (pre @ [c])) False n ps f (out @ [c]) bl') =
      ent_loop (\<lambda>_. True) ((pre @ [c]) @ w @ r) cb
        (ent_st (length (pre @ [c]) + length w) False n ps f ((out @ [c]) @ w) bl'')"
    using Cons.prems bl'(1) by (intro Cons.IH) auto
  ultimately show ?case by auto
qed

text \<open>Bytes of a name or part, which only fill the arrays.\<close>

definition ent_plain :: "string \<Rightarrow> bool" where
  "ent_plain w \<longleftrightarrow> set w \<inter> {CHR ''&'', CHR '';'', CHR ''.''} = {}"

lemma ent_loop_chars:
  assumes "ent_plain w" "length f + length w \<le> 255" "length n \<le> length f" "length ps \<le> length f"
  shows "ent_loop m (pre @ w @ r) (Some cb) (ent_st (length pre) True n ps f out bl) =
    ent_loop m (pre @ w @ r) (Some cb) (ent_st (length pre + length w) True
      (if ps = [] then n @ w else n) (if ps = [] then [] else ps @ w) (f @ w) out bl)"
  using assms
proof (induction w arbitrary: pre n ps f)
  case (Cons c w)
  let ?buf = "pre @ (c # w) @ r"
  let ?n = "if ps = [] then n @ [c] else n" and ?ps = "if ps = [] then [] else ps @ [c]"
  have c: "byte_at ?buf (length pre) = c" by (simp add: byte_at_def nth_append)
  have "ent_step m ?buf (Some cb) (ent_st (length pre) True n ps f out bl) =
      Next (ent_st (length pre + 1) True ?n ?ps (f @ [c]) out bl)"
    using Cons.prems by (auto simp: ent_step_def ent_char_def ent_stored_def ent_array_ok_def
        c [simplified] Let_def ENT_MAX_ENTSIZE_def ent_plain_def)
  then have "ent_loop m ?buf (Some cb) (ent_st (length pre) True n ps f out bl) =
      ent_loop m ((pre @ [c]) @ w @ r) (Some cb) (ent_st (length (pre @ [c])) True ?n ?ps (f @ [c]) out bl)"
    using ent_loop_next [of "length pre" ?buf m "Some cb" True n ps f out bl] by simp
  also have "\<dots> = ent_loop m ((pre @ [c]) @ w @ r) (Some cb) (ent_st (length (pre @ [c]) + length w) True
      (if ?ps = [] then ?n @ w else ?n) (if ?ps = [] then [] else ?ps @ w) ((f @ [c]) @ w) out bl)"
    using Cons.prems by (intro Cons.IH) (auto simp: ent_plain_def)
  finally show ?case by (simp split: if_splits)
qed simp

text \<open>The dots: the first one also takes the byte behind it, later ones store a zero.\<close>

lemma ent_loop_first_dot:
  assumes "n \<noteq> []" "length f \<le> 254" "length n \<le> length f"
  shows "ent_loop m (pre @ CHR ''.'' # c # r) (Some cb) (ent_st (length pre) True n [] f out bl) =
    ent_loop m (pre @ CHR ''.'' # c # r) (Some cb) (ent_st (length pre + 2) True n [c] (f @ [CHR ''.'', c]) out bl)"
proof -
  let ?buf = "pre @ CHR ''.'' # c # r"
  have b: "byte_at ?buf (length pre) = CHR ''.''" "byte_at ?buf (Suc (length pre)) = c"
    by (simp_all add: byte_at_def nth_append)
  have "ent_step m ?buf (Some cb) (ent_st (length pre) True n [] f out bl) =
      Next (ent_st (length pre + 2) True n [c] (f @ [CHR ''.'', c]) out bl)"
    using assms by (simp add: ent_step_def ent_dot_def ent_stored_def ent_array_ok_def b Let_def
        ENT_MAX_ENTSIZE_def)
  from ent_loop_next [OF _ this] show ?thesis by simp
qed

lemma ent_loop_next_dot:
  assumes "n \<noteq> []" "ps \<noteq> []" "length f \<le> 255" "length ps \<le> 255" "length n \<le> length f"
  shows "ent_loop m (pre @ CHR ''.'' # r) (Some cb) (ent_st (length pre) True n ps f out bl) =
    ent_loop m (pre @ CHR ''.'' # r) (Some cb) (ent_st (length pre + 1) True n (ps @ [NUL]) (f @ ''.'') out bl)"
proof -
  let ?buf = "pre @ CHR ''.'' # r"
  have b: "byte_at ?buf (length pre) = CHR ''.''" by (simp add: byte_at_def nth_append)
  have "ent_step m ?buf (Some cb) (ent_st (length pre) True n ps f out bl) =
      Next (ent_st (length pre + 1) True n (ps @ [NUL]) (f @ ''.'') out bl)"
    using assms by (simp add: ent_step_def ent_dot_def ent_stored_def ent_array_ok_def b Let_def
        ENT_MAX_ENTSIZE_def)
  from ent_loop_next [OF _ this] show ?thesis by simp
qed

lemma ent_loop_parts:
  assumes "\<forall>q \<in> set qs. ent_plain q" "n \<noteq> []" "ps \<noteq> []" "length n \<le> length f"
    and "length ps \<le> length f" "length f + length (concat (map ((#) (CHR ''.'')) qs)) \<le> 255"
  shows "ent_loop m (pre @ concat (map ((#) (CHR ''.'')) qs) @ r) (Some cb)
      (ent_st (length pre) True n ps f out bl) =
    ent_loop m (pre @ concat (map ((#) (CHR ''.'')) qs) @ r) (Some cb)
      (ent_st (length pre + length (concat (map ((#) (CHR ''.'')) qs))) True n
        (ps @ concat (map ((#) NUL) qs)) (f @ concat (map ((#) (CHR ''.'')) qs)) out bl)"
  using assms
proof (induction qs arbitrary: pre ps f)
  case (Cons q qs)
  let ?qs = "concat (map ((#) (CHR ''.'')) qs)"
  let ?buf = "pre @ CHR ''.'' # q @ ?qs @ r"
  have buf: "?buf = (pre @ ''.'') @ q @ (?qs @ r)" "?buf = (pre @ ''.'' @ q) @ ?qs @ r" by simp_all
  have "ent_loop m ?buf (Some cb) (ent_st (length pre) True n ps f out bl) =
      ent_loop m ?buf (Some cb) (ent_st (length (pre @ ''.'')) True n (ps @ [NUL]) (f @ ''.'') out bl)"
    using Cons.prems by (subst ent_loop_next_dot) auto
  also have "\<dots> = ent_loop m ?buf (Some cb)
      (ent_st (length (pre @ ''.'' @ q)) True n (ps @ [NUL] @ q) (f @ ''.'' @ q) out bl)"
    unfolding buf(1) using Cons.prems by (subst ent_loop_chars) auto
  also have "\<dots> = ent_loop m ?buf (Some cb)
      (ent_st (length (pre @ ''.'' @ q) + length ?qs) True n ((ps @ [NUL] @ q) @ concat (map ((#) NUL) qs))
        ((f @ ''.'' @ q) @ ?qs) out bl)"
    unfolding buf(2) using Cons.prems by (intro Cons.IH) auto
  finally show ?case by (simp add: add.assoc)
qed simp

section \<open>Templates\<close>

text \<open>An entity with its name and parts; \<open>part_bytes\<close> is what the callback gets of the parts.\<close>

datatype segment = Text string | Ampersand | Entity string "string list"

definition entity_text :: "string \<Rightarrow> string list \<Rightarrow> string" where
  "entity_text n ps = n @ concat (map ((#) (CHR ''.'')) ps)"

fun part_bytes :: "string list \<Rightarrow> string" where
  "part_bytes [] = []"
| "part_bytes (p # ps) = p @ concat (map ((#) NUL) ps)"

fun segment_text :: "segment \<Rightarrow> string" where
  "segment_text (Text w) = w"
| "segment_text Ampersand = ''&&''"
| "segment_text (Entity n ps) = ''&'' @ entity_text n ps @ '';''"

fun segment_out :: "(string \<Rightarrow> string \<Rightarrow> string option) \<Rightarrow> segment \<Rightarrow> string" where
  "segment_out f (Text w) = w"
| "segment_out f Ampersand = ''&''"
| "segment_out f (Entity n ps) =
     (case f n (part_bytes ps) of Some r \<Rightarrow> r | None \<Rightarrow> ''&'' @ entity_text n ps @ '';'')"

fun wf_segment :: "segment \<Rightarrow> bool" where
  "wf_segment (Text w) \<longleftrightarrow> CHR ''&'' \<notin> set w"
| "wf_segment Ampersand \<longleftrightarrow> True"
| "wf_segment (Entity n ps) \<longleftrightarrow> n \<noteq> [] \<and> ent_plain n \<and> (\<forall>p \<in> set ps. ent_plain p) \<and>
     (ps \<noteq> [] \<longrightarrow> hd ps \<noteq> []) \<and> length (entity_text n ps) \<le> 255"

text \<open>The name and the parts are collected.\<close>

lemma ent_loop_entity:
  assumes "wf_segment (Entity n ps)"
  shows "ent_loop m (pre @ entity_text n ps @ r) (Some cb) (ent_st (length pre) True [] [] [] out bl) =
    ent_loop m (pre @ entity_text n ps @ r) (Some cb)
      (ent_st (length pre + length (entity_text n ps)) True n (part_bytes ps) (entity_text n ps) out bl)"
proof (cases ps)
  case Nil
  with assms show ?thesis by (simp add: entity_text_def ent_loop_chars)
next
  case (Cons q qs)
  with assms obtain c q' where q: "q = c # q'" by (cases q) auto
  let ?qs = "concat (map ((#) (CHR ''.'')) qs)"
  let ?buf = "pre @ n @ CHR ''.'' # c # q' @ ?qs @ r"
  have wf: "n \<noteq> []" "ent_plain n" "ent_plain q'" "\<forall>q \<in> set qs. ent_plain q"
    "length n + length q' + length ?qs + 2 \<le> 255"
    using assms Cons q by (auto simp: ent_plain_def entity_text_def)
  have buf: "?buf = (pre @ n) @ CHR ''.'' # c # (q' @ ?qs @ r)"
    "?buf = (pre @ n @ [CHR ''.'', c]) @ q' @ (?qs @ r)"
    "?buf = (pre @ n @ [CHR ''.'', c] @ q') @ ?qs @ r" by simp_all
  have "ent_loop m ?buf (Some cb) (ent_st (length pre) True [] [] [] out bl) =
      ent_loop m ?buf (Some cb) (ent_st (length (pre @ n)) True n [] n out bl)"
    using wf by (subst ent_loop_chars) auto
  also have "\<dots> = ent_loop m ?buf (Some cb)
      (ent_st (length (pre @ n @ [CHR ''.'', c])) True n [c] (n @ [CHR ''.'', c]) out bl)"
    unfolding buf(1) using wf by (subst ent_loop_first_dot) auto
  also have "\<dots> = ent_loop m ?buf (Some cb)
      (ent_st (length (pre @ n @ [CHR ''.'', c] @ q')) True n (c # q') (n @ [CHR ''.'', c] @ q') out bl)"
    unfolding buf(2) using wf by (subst ent_loop_chars) (auto simp: add.assoc)
  also have "\<dots> = ent_loop m ?buf (Some cb)
      (ent_st (length (pre @ n @ [CHR ''.'', c] @ q') + length ?qs) True n
        ((c # q') @ concat (map ((#) NUL) qs)) ((n @ [CHR ''.'', c] @ q') @ ?qs) out bl)"
    unfolding buf(3) using wf by (intro ent_loop_parts) auto
  finally show ?thesis using Cons q by (simp add: entity_text_def add.assoc)
qed

text \<open>One segment.\<close>

lemma ent_loop_ampersand:
  assumes "length out \<le> bl" "length out \<le> 32766"
  shows "\<exists>bl'. length (out @ ''&'') \<le> bl' \<and>
    ent_loop (\<lambda>_. True) (pre @ ''&&'' @ r) cb (ent_st (length pre) False n ps f out bl) =
    ent_loop (\<lambda>_. True) (pre @ ''&&'' @ r) cb (ent_st (length pre + 2) False n ps f (out @ ''&'') bl')"
proof -
  let ?buf = "pre @ ''&&'' @ r"
  have b: "byte_at ?buf (length pre) = CHR ''&''" "byte_at ?buf (length pre + 1) = CHR ''&''"
    by (simp_all add: byte_at_def nth_append)
  have "length pre + 1 \<le> length ?buf" by simp
  from ent_copy_byte [OF assms this, of "length pre + 1" False n ps f] b(2) obtain bl' where
    bl': "length (out @ ''&'') \<le> bl'"
    "ent_append_data (\<lambda>_. True) ?buf None 0
       ((ent_st (length pre) False n ps f out bl)\<lparr>es_tmp := Some (length pre + 1), es_curpos := length pre + 1\<rparr>) =
     Next (ent_st (length pre + 2) False n ps f (out @ ''&'') bl')"
    by auto
  then have "ent_step (\<lambda>_. True) ?buf cb (ent_st (length pre) False n ps f out bl) =
      Next (ent_st (length pre + 2) False n ps f (out @ ''&'') bl')"
    using b by (simp add: ent_step_def Let_def)
  from ent_loop_next [OF _ this] bl'(1) show ?thesis by auto
qed

lemma ent_append_result:
  assumes "length out \<le> bl" "f \<noteq> []"
    and "length (out @ (case res of Some x \<Rightarrow> x | None \<Rightarrow> ''&'' @ f @ '';'')) \<le> 32766"
  shows "\<exists>bl'. length (out @ (case res of Some x \<Rightarrow> x | None \<Rightarrow> ''&'' @ f @ '';'')) \<le> bl' \<and>
    ent_append_data (\<lambda>_. True) buf res (case res of Some x \<Rightarrow> length x | None \<Rightarrow> length f)
      \<lparr>es_tmp = Some t, es_curpos = q, es_in_entity = False, es_entname = n, es_entparts = ps,
       es_entfullname = f, es_out = out, es_buflen = bl, es_errcode = ENT_ERR_OK\<rparr> =
    Next \<lparr>es_tmp = Some t, es_curpos = q + 1, es_in_entity = False, es_entname = n, es_entparts = ps,
       es_entfullname = f, es_out = out @ (case res of Some x \<Rightarrow> x | None \<Rightarrow> ''&'' @ f @ '';''),
       es_buflen = bl', es_errcode = ENT_ERR_OK\<rparr>"
  using assms
  by (cases res) (auto simp: ent_append_data_def Let_def push_bit_eq_mult ENT_MAX_RETBUFSIZE_def)

lemma ent_loop_segment:
  assumes wf: "wf_segment s" and out: "length out \<le> bl" "length (out @ segment_out g s) \<le> 32766"
  shows "\<exists>n' ps' f' bl'. length (out @ segment_out g s) \<le> bl' \<and>
    ent_loop (\<lambda>_. True) (pre @ segment_text s @ r) (Some (\<lambda>n p. Inr (g n p)))
      (ent_st (length pre) False n ps f out bl) =
    ent_loop (\<lambda>_. True) (pre @ segment_text s @ r) (Some (\<lambda>n p. Inr (g n p)))
      (ent_st (length pre + length (segment_text s)) False n' ps' f' (out @ segment_out g s) bl')"
proof (cases s)
  case (Text w)
  from ent_loop_text [of w out bl pre r "Some (\<lambda>n p. Inr (g n p))" n ps f] assms Text
  show ?thesis by auto
next
  case Ampersand
  from ent_loop_ampersand [of out bl pre r "Some (\<lambda>n p. Inr (g n p))" n ps f] assms Ampersand
  show ?thesis by (auto simp: numeral_2_eq_2)
next
  case (Entity en eps)
  let ?cb = "Some (\<lambda>n p. Inr (g n p))" and ?e = "entity_text en eps"
  let ?buf = "pre @ ''&'' @ ?e @ '';'' @ r"
  have buf: "?buf = (pre @ ''&'') @ ?e @ ('';'' @ r)" by simp
  have e: "?e \<noteq> []" "hd ?e \<noteq> CHR ''&''"
    using wf Entity by (cases en; auto simp: entity_text_def ent_plain_def)+
  have b: "byte_at ?buf (length pre) = CHR ''&''" "byte_at ?buf (length pre + 1) \<noteq> CHR ''&''"
    "byte_at ?buf (length pre + 1 + length ?e) = CHR '';''"
    using e by (simp_all add: byte_at_def nth_append hd_conv_nth)
  have "ent_step (\<lambda>_. True) ?buf ?cb (ent_st (length pre) False n ps f out bl) =
      Next (ent_st (length pre + 1) True [] [] [] out bl)"
    using b by (simp add: ent_step_def Let_def)
  from ent_loop_next [OF _ this]
  have "ent_loop (\<lambda>_. True) ?buf ?cb (ent_st (length pre) False n ps f out bl) =
      ent_loop (\<lambda>_. True) ?buf ?cb (ent_st (length (pre @ ''&'')) True [] [] [] out bl)"
    by simp
  also have "\<dots> = ent_loop (\<lambda>_. True) ?buf ?cb
      (ent_st (length (pre @ ''&'') + length ?e) True en (part_bytes eps) ?e out bl)"
    unfolding buf using wf Entity by (intro ent_loop_entity) simp
  finally have collect: "ent_loop (\<lambda>_. True) ?buf ?cb (ent_st (length pre) False n ps f out bl) =
      ent_loop (\<lambda>_. True) ?buf ?cb
      (ent_st (length pre + 1 + length ?e) True en (part_bytes eps) ?e out bl)" by simp
  obtain bl' where bl': "length (out @ segment_out g s) \<le> bl'"
    "ent_append_data (\<lambda>_. True) ?buf (g en (part_bytes eps))
      (case g en (part_bytes eps) of Some x \<Rightarrow> length x | None \<Rightarrow> length ?e)
      ((ent_st (length pre + 1 + length ?e) True en (part_bytes eps) ?e out bl)
        \<lparr>es_tmp := Some (length pre + 2 + length ?e), es_in_entity := False\<rparr>) =
     Next (ent_st (length pre + 2 + length ?e) False en (part_bytes eps) ?e (out @ segment_out g s) bl')"
    using ent_append_result [OF out(1) e(1), of "g en (part_bytes eps)" ?buf "length pre + 2 + length ?e"
        "length pre + 1 + length ?e" en "part_bytes eps"] out(2) Entity by auto
  have "ent_step (\<lambda>_. True) ?buf ?cb (ent_st (length pre + 1 + length ?e) True en (part_bytes eps) ?e out bl) =
      Next (ent_st (length pre + 2 + length ?e) False en (part_bytes eps) ?e (out @ segment_out g s) bl')"
    unfolding bl'(2) [symmetric] using b(3)
    by (cases "g en (part_bytes eps)") (simp_all add: ent_step_def Let_def)
  from ent_loop_next [OF _ this] collect
  have "ent_loop (\<lambda>_. True) ?buf ?cb (ent_st (length pre) False n ps f out bl) =
    ent_loop (\<lambda>_. True) ?buf ?cb
      (ent_st (length pre + 2 + length ?e) False en (part_bytes eps) ?e (out @ segment_out g s) bl')"
    by simp
  with bl'(1) Entity show ?thesis by (auto simp: numeral_2_eq_2)
qed

lemma ent_loop_end:
  "length buf \<le> p \<Longrightarrow> ent_loop m buf cb (ent_st p inn n ps f out bl) = Next (ent_st p inn n ps f out bl)"
  by (subst ent_loop.simps) simp

lemma ent_loop_segments:
  assumes "\<forall>s \<in> set segs. wf_segment s" "length out \<le> bl"
    and "length (out @ concat (map (segment_out g) segs)) \<le> 32766"
  shows "\<exists>p n' ps' f' bl'. ent_loop (\<lambda>_. True) (pre @ concat (map segment_text segs))
      (Some (\<lambda>n p. Inr (g n p))) (ent_st (length pre) False n ps f out bl) =
    Next (ent_st p False n' ps' f' (out @ concat (map (segment_out g) segs)) bl')"
  using assms
proof (induction segs arbitrary: pre n ps f out bl)
  case Nil
  then show ?case using ent_loop_end [of pre "length pre"] by auto
next
  case (Cons s segs)
  let ?cb = "Some (\<lambda>n p. Inr (g n p))" and ?rest = "concat (map segment_text segs)"
  have "wf_segment s" "length (out @ segment_out g s) \<le> 32766" using Cons.prems by auto
  from ent_loop_segment [OF this(1) Cons.prems(2) this(2), of pre ?rest n ps f] obtain n' ps' f' bl' where
    step: "length (out @ segment_out g s) \<le> bl'"
    "ent_loop (\<lambda>_. True) (pre @ segment_text s @ ?rest) ?cb (ent_st (length pre) False n ps f out bl) =
     ent_loop (\<lambda>_. True) (pre @ segment_text s @ ?rest) ?cb
       (ent_st (length pre + length (segment_text s)) False n' ps' f' (out @ segment_out g s) bl')"
    by blast
  have "\<exists>p n'' ps'' f'' bl''. ent_loop (\<lambda>_. True) ((pre @ segment_text s) @ ?rest) ?cb
      (ent_st (length (pre @ segment_text s)) False n' ps' f' (out @ segment_out g s) bl') =
    Next (ent_st p False n'' ps'' f'' ((out @ segment_out g s) @ concat (map (segment_out g) segs)) bl'')"
    using Cons.prems step(1) by (intro Cons.IH) auto
  with step(2) show ?case by simp
qed

text \<open>The initial state and the result, when the sizes are in range.\<close>

lemma ent_parser_eq:
  assumes "length buf < 2 ^ 62"
  shows "ent_parser (\<lambda>_. True) (Some buf) cb =
    (case ent_loop (\<lambda>_. True) buf cb (ent_st 0 False [] [] [] [] (length buf + length buf div 3)) of
       Raise e \<Rightarrow> Inl e
     | Return st \<Rightarrow> Inr (Some \<lparr>er_buf = (if es_errcode st = ENT_ERR_OOM then None else Some (es_out st)),
         er_errcode = es_errcode st\<rparr>)
     | Next st \<Rightarrow> Inr (Some \<lparr>er_buf = Some (es_out st),
         er_errcode = (if es_errcode st = ENT_ERR_OK \<and> es_in_entity st
                       then ENT_ERR_OPENENTITY else es_errcode st)\<rparr>))"
proof -
  have "(length buf + length buf div 3) mod 2 ^ 64 = length buf + length buf div 3"
    using assms by (intro mod_less) simp
  moreover have "\<not> ULONG_MAX < length buf + length buf div 3" "\<not> ULONG_MAX \<le> length buf"
    using assms by (simp_all add: ULONG_MAX_def)
  ultimately show ?thesis
    by (simp add: ent_parser_def Let_def del: add_mult_distrib)
qed

lemma ent_parser_segments:
  assumes "\<forall>s \<in> set segs. wf_segment s" "length (concat (map (segment_out g) segs)) \<le> 32766"
    and "length (concat (map segment_text segs)) < 2 ^ 62"
  shows "ent_parser (\<lambda>_. True) (Some (concat (map segment_text segs))) (Some (\<lambda>n p. Inr (g n p))) =
    Inr (Some \<lparr>er_buf = Some (concat (map (segment_out g) segs)), er_errcode = ENT_ERR_OK\<rparr>)"
proof -
  let ?buf = "concat (map segment_text segs)"
  from ent_loop_segments [OF assms(1), of "[]" "length ?buf + length ?buf div 3" g "[]" "[]" "[]" "[]"]
    assms(2) obtain p n' ps' f' bl' where
    "ent_loop (\<lambda>_. True) ?buf (Some (\<lambda>n p. Inr (g n p)))
      (ent_st 0 False [] [] [] [] (length ?buf + length ?buf div 3)) =
     Next (ent_st p False n' ps' f' (concat (map (segment_out g) segs)) bl')"
    by auto
  then show ?thesis using ent_parser_eq [OF assms(3)] by simp
qed

section \<open>The limit on plain text\<close>

text \<open>
  Without entities the buffer is enlarged once \<open>2 * curlen + 2\<close> reaches its size. The first
  enlargement happens at half the size and more than doubles it.
\<close>

lemma ent_loop_plain_byte:
  assumes "p < length buf" "byte_at buf p \<noteq> CHR ''&''" "2 * length out + 2 < bl"
  shows "ent_loop m buf cb (ent_st p False n ps f out bl) =
    ent_loop m buf cb (ent_st (p + 1) False n ps f (out @ [byte_at buf p]) bl)"
proof -
  have "ent_step m buf cb (ent_st p False n ps f out bl) =
      Next (ent_st (p + 1) False n ps f (out @ [byte_at buf p]) bl)"
    using assms by (auto simp: ent_step_def ent_append_data_def Let_def)
  from ent_loop_next [OF assms(1) this] show ?thesis .
qed

lemma ent_loop_plain_run:
  assumes "CHR ''&'' \<notin> set w" "2 * (length out + length w) < bl"
  shows "ent_loop m (pre @ w @ r) cb (ent_st (length pre) False n ps f out bl) =
    ent_loop m (pre @ w @ r) cb (ent_st (length pre + length w) False n ps f (out @ w) bl)"
  using assms
proof (induction w arbitrary: pre out)
  case (Cons c w)
  let ?buf = "pre @ (c # w) @ r"
  have c: "byte_at ?buf (length pre) = c" by (simp add: byte_at_def nth_append)
  have "ent_loop m ?buf cb (ent_st (length pre) False n ps f out bl) =
      ent_loop m ((pre @ [c]) @ w @ r) cb (ent_st (length (pre @ [c])) False n ps f (out @ [c]) bl)"
    using ent_loop_plain_byte [of "length pre" ?buf out bl m cb n ps f] Cons.prems c by auto
  also have "\<dots> = ent_loop m ((pre @ [c]) @ w @ r) cb
      (ent_st (length (pre @ [c]) + length w) False n ps f ((out @ [c]) @ w) bl)"
    using Cons.prems by (intro Cons.IH) auto
  finally show ?case by simp
qed simp

lemma ent_loop_plain_grow:
  assumes "p < length buf" "byte_at buf p \<noteq> CHR ''&''" "bl \<le> 2 * length out + 2"
  defines "bl' \<equiv> bl + 2 * (length out + 2)"
  shows "ent_loop (\<lambda>_. True) buf cb (ent_st p False n ps f out bl) =
    (if ENT_MAX_RETBUFSIZE \<le> bl'
     then Return ((ent_st p False n ps f out bl')\<lparr>es_errcode := ENT_ERR_RETBUFTOOLONG\<rparr>)
     else if bl' < length out + 1 then Raise Out_of_bounds
     else ent_loop (\<lambda>_. True) buf cb (ent_st (p + 1) False n ps f (out @ [byte_at buf p]) bl'))"
  using assms
  by (subst ent_loop.simps) (auto simp: ent_step_def ent_append_data_def Let_def push_bit_eq_mult mult.commute [of _ 2])

lemma plain_sizes:
  fixes n :: nat
  assumes "0 < n"
  defines "S \<equiv> n + n div 3"
  defines "k \<equiv> (S - 1) div 2"
  shows "k < n" "2 * k < S" "S \<le> 2 * k + 2"
    "ENT_MAX_RETBUFSIZE \<le> S + 2 * (k + 2) \<longleftrightarrow> 49152 \<le> n" "2 * n < S + 2 * (k + 2)"
proof -
  have q: "3 * (n div 3) \<le> n" "n < 3 * (n div 3) + 3" by simp_all
  have S: "1 \<le> S" using assms(1) by (simp add: S_def)
  have k: "2 * k \<le> S - 1" "S - 1 < 2 * k + 2" unfolding k_def by simp_all
  from S k show 1: "2 * k < S" and 2: "S \<le> 2 * k + 2" by linarith+
  from 1 q show "k < n" unfolding S_def by linarith
  have "n \<le> S" by (simp add: S_def)
  with 2 show "2 * n < S + 2 * (k + 2)" by simp
  show "ENT_MAX_RETBUFSIZE \<le> S + 2 * (k + 2) \<longleftrightarrow> 49152 \<le> n"
  proof
    show "49152 \<le> n \<Longrightarrow> ENT_MAX_RETBUFSIZE \<le> S + 2 * (k + 2)"
      using 2 div_le_mono [of 49152 n 3] unfolding S_def ENT_MAX_RETBUFSIZE_def by simp
    show "ENT_MAX_RETBUFSIZE \<le> S + 2 * (k + 2) \<Longrightarrow> 49152 \<le> n"
      using 1 div_le_mono [of n 49151 3] unfolding S_def ENT_MAX_RETBUFSIZE_def
      by (cases "n \<le> 49151") simp_all
  qed
qed

lemma ent_loop_plain:
  assumes w: "CHR ''&'' \<notin> set w" "w \<noteq> []"
  defines "S \<equiv> length w + length w div 3"
  shows "ent_loop (\<lambda>_. True) w cb (ent_st 0 False [] [] [] [] S) =
    (if length w < 49152
     then Next (ent_st (length w) False [] [] [] w (S + 2 * ((S - 1) div 2 + 2)))
     else Return ((ent_st ((S - 1) div 2) False [] [] [] (take ((S - 1) div 2) w) (S + 2 * ((S - 1) div 2 + 2)))
       \<lparr>es_errcode := ENT_ERR_RETBUFTOOLONG\<rparr>))"
proof -
  define k where "k = (S - 1) div 2"
  have pos: "0 < length w" using w(2) by simp
  then have k: "k < length w" "2 * k < S" "S \<le> 2 * k + 2" "ENT_MAX_RETBUFSIZE \<le> S + 2 * (k + 2) \<longleftrightarrow> 49152 \<le> length w"
    "2 * length w < S + 2 * (k + 2)"
    using plain_sizes [OF pos] by (simp_all only: k_def S_def)
  let ?S' = "S + 2 * (k + 2)"
  have split: "w = take k w @ w ! k # drop (Suc k) w" using k(1) by (simp add: id_take_nth_drop)
  have take: "CHR ''&'' \<notin> set (take k w)" "CHR ''&'' \<notin> set (drop (Suc k) w)"
    using w(1) by (auto dest: in_set_takeD in_set_dropD)
  have wk: "byte_at w k = w ! k" "w ! k \<noteq> CHR ''&''"
    using k(1) w(1) by (simp add: byte_at_def, metis nth_mem)
  have "ent_loop (\<lambda>_. True) w cb (ent_st 0 False [] [] [] [] S) =
      ent_loop (\<lambda>_. True) w cb (ent_st k False [] [] [] (take k w) S)"
    using ent_loop_plain_run [OF take(1), of "[]" S "\<lambda>_. True" "[]" "drop k w" cb "[]" "[]" "[]"] k
    by simp
  also have "\<dots> = (if 49152 \<le> length w
     then Return ((ent_st k False [] [] [] (take k w) ?S')\<lparr>es_errcode := ENT_ERR_RETBUFTOOLONG\<rparr>)
     else ent_loop (\<lambda>_. True) w cb (ent_st (k + 1) False [] [] [] (take k w @ [w ! k]) ?S'))"
    using ent_loop_plain_grow [of k w S "take k w" cb "[]" "[]" "[]"] k wk by simp
  also have "ent_loop (\<lambda>_. True) w cb (ent_st (k + 1) False [] [] [] (take k w @ [w ! k]) ?S') =
      ent_loop (\<lambda>_. True) w cb (ent_st (length w) False [] [] [] w ?S')"
  proof -
    have len: "length (take k w @ [w ! k]) = k + 1" using k(1) by simp
    have "ent_loop (\<lambda>_. True) ((take k w @ [w ! k]) @ drop (Suc k) w @ []) cb
        (ent_st (length (take k w @ [w ! k])) False [] [] [] (take k w @ [w ! k]) ?S') =
      ent_loop (\<lambda>_. True) ((take k w @ [w ! k]) @ drop (Suc k) w @ []) cb
        (ent_st (length (take k w @ [w ! k]) + length (drop (Suc k) w)) False [] [] []
          ((take k w @ [w ! k]) @ drop (Suc k) w) ?S')"
      using k(1,5) by (intro ent_loop_plain_run [OF take(2)]) simp
    moreover have "(take k w @ [w ! k]) @ drop (Suc k) w = w" using split by simp
    moreover have "length (take k w @ [w ! k]) + length (drop (Suc k) w) = length w"
      using len k(1) by simp
    ultimately show ?thesis using len by (simp only: append_Nil2)
  qed
  also have "\<dots> = Next (ent_st (length w) False [] [] [] w ?S')"
    by (rule ent_loop_end) simp
  finally show ?thesis by (simp add: k_def not_less)
qed

section \<open>Entities that do not end, and too many dots\<close>

text \<open>After 255 bytes of a name the next byte sets \<^verbatim>\<open>tmp\<close> to NULL.\<close>

lemma ent_loop_too_long:
  assumes "p < length buf" "byte_at buf p \<notin> {CHR ''&'', CHR '';'', CHR ''.''}" "255 \<le> length f"
  shows "ent_loop m buf (Some cb) (ent_st p True n ps f out bl) =
    Next ((ent_st p True n ps f out bl)\<lparr>es_tmp := None, es_errcode := ENT_ERR_ENTNAMELONG\<rparr>)"
  using assms
  by (subst ent_loop.simps, simp add: ent_step_def ent_char_def ENT_MAX_ENTSIZE_def Let_def)
    (subst ent_loop.simps, simp)

text \<open>An ampersand opens an entity unless another one follows.\<close>

lemma ent_loop_open:
  assumes "r = [] \<or> hd r \<noteq> CHR ''&''"
  shows "ent_loop m (pre @ CHR ''&'' # r) (Some cb) (ent_st (length pre) False n ps f out bl) =
    ent_loop m (pre @ CHR ''&'' # r) (Some cb) (ent_st (length pre + 1) True [] [] [] out bl)"
proof -
  let ?buf = "pre @ CHR ''&'' # r"
  have b: "byte_at ?buf (length pre) = CHR ''&''" "byte_at ?buf (length pre + 1) \<noteq> CHR ''&''"
    using assms by (cases r; simp add: byte_at_def nth_append)+
  have "ent_step m ?buf (Some cb) (ent_st (length pre) False n ps f out bl) =
      Next (ent_st (length pre + 1) True [] [] [] out bl)"
    using b by (simp add: ent_step_def Let_def)
  from ent_loop_next [OF _ this] show ?thesis by simp
qed

lemma ent_loop_unterminated:
  assumes "ent_plain x" "256 \<le> length x \<or> r = []"
  shows "\<exists>st. ent_loop m (pre @ CHR ''&'' # x @ r) (Some cb) (ent_st (length pre) False n ps f out bl) = Next st \<and>
    es_out st = out \<and> es_in_entity st \<and> es_errcode st \<in> {ENT_ERR_OK, ENT_ERR_ENTNAMELONG}"
proof -
  let ?buf = "pre @ CHR ''&'' # x @ r"
  have "x @ r = [] \<or> hd (x @ r) \<noteq> CHR ''&''"
    using assms by (cases x) (auto simp: ent_plain_def)
  then have step: "ent_loop m ?buf (Some cb) (ent_st (length pre) False n ps f out bl) =
      ent_loop m ?buf (Some cb) (ent_st (length pre + 1) True [] [] [] out bl)"
    by (rule ent_loop_open)
  let ?y = "take 255 x"
  have y: "ent_plain ?y" using assms(1) by (auto simp: ent_plain_def dest: in_set_takeD)
  have buf: "?buf = (pre @ ''&'') @ ?y @ (drop 255 x @ r)" by simp
  have run: "ent_loop m ?buf (Some cb) (ent_st (length pre + 1) True [] [] [] out bl) =
      ent_loop m ?buf (Some cb) (ent_st (length pre + 1 + length ?y) True ?y [] ?y out bl)"
    unfolding buf using ent_loop_chars [OF y, of "[]" "[]" "[]" m "pre @ ''&''"] by simp
  show ?thesis
  proof (cases "256 \<le> length x")
    case True
    have at: "byte_at ?buf (length pre + 256) = x ! 255" using True by (simp add: byte_at_def nth_append)
    have mem: "x ! 255 \<in> set x" using True by simp
    have "x ! 255 \<notin> {CHR ''&'', CHR '';'', CHR ''.''}"
      using assms(1) mem unfolding ent_plain_def by blast
    with True at step run show ?thesis
      using ent_loop_too_long [of "length pre + 256" ?buf ?y m cb ?y "[]" out bl]
      by (simp add: add.commute [of 256])
  next
    case False
    with assms(2) step run show ?thesis
      using ent_loop_end [of ?buf "length pre + 1 + length ?y" m "Some cb"] by simp
  qed
qed

text \<open>Dots are stored without looking at the length.\<close>

lemma ent_loop_dots_overflow:
  assumes "ent_plain n" "n \<noteq> []" "length n + k = 253"
  shows "ent_loop m (pre @ n @ ''..'' @ replicate k (CHR ''.'') @ ''..'' @ r) (Some cb)
    (ent_st (length pre) True [] [] [] out bl) = Raise Out_of_bounds"
proof -
  let ?d = "CHR ''.''"
  let ?dots = "replicate k ?d"
  let ?buf = "pre @ n @ ''..'' @ ?dots @ ''..'' @ r"
  have dots: "concat (map ((#) ?d) (replicate j [])) = replicate j ?d" for j by (induction j) simp_all
  have zeros: "concat (map ((#) NUL) (replicate j [])) = replicate j NUL" for j by (induction j) simp_all
  have buf: "?buf = (pre @ n) @ ?d # ?d # (?dots @ ''..'' @ r)"
    "?buf = (pre @ n @ ''..'') @ ?dots @ (''..'' @ r)"
    "?buf = (pre @ n @ ''..'' @ ?dots) @ ?d # (?d # r)"
    by simp_all
  have "ent_loop m ?buf (Some cb) (ent_st (length pre) True [] [] [] out bl) =
      ent_loop m ?buf (Some cb) (ent_st (length (pre @ n)) True n [] n out bl)"
    using ent_loop_chars [OF assms(1), of "[]" "[]" "[]" m pre] assms(3) by simp
  also have "\<dots> = ent_loop m ?buf (Some cb)
      (ent_st (length (pre @ n @ ''..'')) True n ''.'' (n @ ''..'') out bl)"
    unfolding buf(1) using assms by (subst ent_loop_first_dot) auto
  also have "\<dots> = ent_loop m ?buf (Some cb)
      (ent_st (length (pre @ n @ ''..'' @ ?dots)) True n (''.'' @ replicate k NUL) (n @ ''..'' @ ?dots) out bl)"
    unfolding buf(2)
    using ent_loop_parts [of "replicate k []" n "''.''" "n @ ''..''" m "pre @ n @ ''..''" "''..'' @ r" cb out bl] assms
    by (simp add: dots zeros ent_plain_def add.assoc add.commute [of 255])
  also have "\<dots> = ent_loop m ?buf (Some cb)
      (ent_st (length (pre @ n @ ''..'' @ ?dots) + 1) True n ((''.'' @ replicate k NUL) @ [NUL])
        ((n @ ''..'' @ ?dots) @ ''.'') out bl)"
    unfolding buf(3) using assms by (intro ent_loop_next_dot) auto
  also have "\<dots> = Raise Out_of_bounds"
  proof -
    have "byte_at ?buf (length (pre @ n @ ''..'' @ ?dots) + 1) = ?d"
      unfolding buf(3) by (simp add: byte_at_def nth_append)
    moreover have "\<not> length ((n @ ''..'' @ ?dots) @ ''.'' @ ''.'') \<le> ENT_MAX_ENTSIZE + 1"
      using assms(3) by (simp add: ENT_MAX_ENTSIZE_def)
    moreover have "length (pre @ n @ ''..'' @ ?dots) + 1 < length ?buf" by simp
    ultimately show ?thesis
      using assms(2) by (subst ent_loop.simps)
        (simp add: ent_step_def ent_dot_def ent_stored_def ent_array_ok_def Let_def del: append_Cons)
  qed
  finally show ?thesis .
qed

lemma f_parse_entities_eq:
  assumes "length buf < 2 ^ 62"
  shows "f_parse_entities (\<lambda>_. True) buf scopes =
    (case ent_loop (\<lambda>_. True) buf (Some (entity_callback scopes))
        (ent_st 0 False [] [] [] [] (length buf + length buf div 3)) of
       Raise e \<Rightarrow> Inl e
     | Return st \<Rightarrow> (case es_errcode st of
         ENT_ERR_RETBUFTOOLONG \<Rightarrow> Inl (Pike_error ''_Caudium.parse_entities(): entity too long after replacement.'')
       | _ \<Rightarrow> f_parse_entities (\<lambda>_. True) buf scopes)
     | Next st \<Rightarrow>
         if es_errcode st \<in> {ENT_ERR_OK, ENT_ERR_ENTNAMELONG} then Inr (es_out st)
         else f_parse_entities (\<lambda>_. True) buf scopes)"
  unfolding f_parse_entities_def ent_parser_eq [OF assms]
  by (auto split: ent_outcome.splits ent_errcode.splits)

text \<open>The scopes as a function of name and parts, when all of them are objects with a proper \<^verbatim>\<open>get\<close>.\<close>

definition wf_scopes :: "(string, scope) pmap \<Rightarrow> bool" where
  "wf_scopes scopes \<longleftrightarrow> (\<forall>n s. mapping_lookup scopes n = Some s \<longrightarrow> (\<exists>f. s = Get f \<and> (\<forall>x. f x \<noteq> Get_other)))"

definition scope_value :: "(string, scope) pmap \<Rightarrow> string \<Rightarrow> string \<Rightarrow> string option" where
  "scope_value scopes n ps =
     (case mapping_lookup scopes (cstr n) of
        Some (Get f) \<Rightarrow> (case f (cstr ps) of Get_string r \<Rightarrow> Some r | _ \<Rightarrow> None)
      | _ \<Rightarrow> None)"

lemma entity_callback_eq:
  assumes "wf_scopes scopes"
  shows "entity_callback scopes = (\<lambda>n p. Inr (scope_value scopes n p))"
proof (intro ext)
  fix n p
  show "entity_callback scopes n p = Inr (scope_value scopes n p)"
  proof (cases "mapping_lookup scopes (cstr n)")
    case (Some s)
    with assms obtain f where "s = Get f" "f (cstr p) \<noteq> Get_other"
      unfolding wf_scopes_def by blast
    with Some show ?thesis
      by (simp add: entity_callback_def scope_value_def split: get_result.splits)
  qed (simp add: entity_callback_def scope_value_def)
qed

text \<open>
  What \<^verbatim>\<open>parse_entities\<close> makes of a segment. \<^verbatim>\<open>get\<close> is called with the first part behind the scope only, however many there
  are, and with the empty string if there is none.
\<close>

fun expand :: "(string, scope) pmap \<Rightarrow> segment \<Rightarrow> string" where
  "expand scopes (Text w) = w"
| "expand scopes Ampersand = ''&''"
| "expand scopes (Entity n ps) =
     (case mapping_lookup scopes (cstr n) of
        Some (Get get) \<Rightarrow>
          (case get (case ps of [] \<Rightarrow> [] | p # _ \<Rightarrow> cstr p) of
             Get_string r \<Rightarrow> r
           | _ \<Rightarrow> ''&'' @ entity_text n ps @ '';'')
      | _ \<Rightarrow> ''&'' @ entity_text n ps @ '';'')"

lemma cstr_part_bytes: "cstr (part_bytes ps) = (case ps of [] \<Rightarrow> [] | p # _ \<Rightarrow> cstr p)"
  by (cases ps; cases "tl ps") (auto simp: cstr_until_NUL)

lemma segment_out_expand: "segment_out (scope_value scopes) = expand scopes"
proof
  show "segment_out (scope_value scopes) s = expand scopes s" for s
    by (cases s) (auto simp: scope_value_def cstr_part_bytes split: option.split scope.split get_result.split)
qed

section \<open>No access outside memory\<close>

text \<open>
  No ampersand with a semicolon right behind it, and no dot that is more than 255 bytes behind an ampersand unless a
  semicolon that is not itself behind a dot lies between them.
\<close>

definition named_entities :: "string \<Rightarrow> bool" where
  "named_entities buf \<longleftrightarrow> (\<forall>i < length buf. byte_at buf i = CHR ''&'' \<longrightarrow> byte_at buf (i + 1) \<noteq> CHR '';'')"

definition near_dots :: "string \<Rightarrow> bool" where
  "near_dots buf \<longleftrightarrow>
     (\<forall>i < length buf. \<forall>j < length buf. byte_at buf i = CHR ''&'' \<and> byte_at buf j = CHR ''.'' \<and> i + 255 < j \<longrightarrow>
        (\<exists>k. i < k \<and> k < j \<and> byte_at buf k = CHR '';'' \<and> byte_at buf (k - 1) \<noteq> CHR ''.''))"

text \<open>Between two rounds the pointer is where the count of bytes says, and the entity so far is the text behind its ampersand.\<close>

definition open_at :: "string \<Rightarrow> ent_state \<Rightarrow> nat \<Rightarrow> bool" where
  "open_at buf st i \<longleftrightarrow>
     i < es_curpos st \<and> i < length buf \<and> byte_at buf i = CHR ''&'' \<and>
     (\<forall>k. i < k \<and> k < es_curpos st \<and> byte_at buf k = CHR '';'' \<longrightarrow> byte_at buf (k - 1) = CHR ''.'') \<and>
     length (es_entfullname st) + i < es_curpos st \<and>
     (es_entfullname st = [] \<longrightarrow> es_curpos st = i + 1 \<and> byte_at buf (i + 1) \<noteq> CHR ''&'')"

definition ent_ok :: "string \<Rightarrow> ent_state \<Rightarrow> bool" where
  "ent_ok buf st \<longleftrightarrow>
     length (es_out st) \<le> es_buflen st \<and>
     (es_tmp st \<noteq> None \<longrightarrow>
        es_tmp st = Some (es_curpos st) \<and> length (es_entfullname st) \<le> 256 \<and>
        length (es_entname st) \<le> length (es_entfullname st) \<and> length (es_entparts st) \<le> length (es_entfullname st) \<and>
        (es_in_entity st \<longrightarrow> (\<exists>i. open_at buf st i)))"

text \<open>A round goes on in such a state, ends with an error code, or raises what the callback raised.\<close>

definition ent_fine :: "string \<Rightarrow> ent_outcome \<Rightarrow> bool" where
  "ent_fine buf r \<longleftrightarrow> (case r of Next st \<Rightarrow> ent_ok buf st | Return st \<Rightarrow> True | Raise e \<Rightarrow> e \<noteq> Out_of_bounds)"

lemma ent_append_fine:
  assumes "length (es_out st) \<le> es_buflen st" "\<forall>r. cbuf = Some r \<longrightarrow> clen = length r"
    and "cbuf = None \<and> clen = 0 \<Longrightarrow> the (es_tmp st) \<le> length buf"
  shows "ent_append_data malloc_ok buf cbuf clen st = Next st' \<Longrightarrow> length (es_out st') \<le> es_buflen st' \<and>
      es_curpos st' = es_curpos st + 1 \<and> es_in_entity st' = es_in_entity st \<and> es_entfullname st' = es_entfullname st \<and>
      es_entname st' = es_entname st \<and> es_entparts st' = es_entparts st \<and>
      es_tmp st' = (if cbuf = None \<and> clen = 0 then Some (the (es_tmp st) + 1) else es_tmp st)"
    and "ent_append_data malloc_ok buf cbuf clen st \<noteq> Raise e"
  using assms
  by (cases cbuf; auto simp: ent_append_data_def Let_def push_bit_eq_mult split: if_splits)+

lemma open_at_step:
  assumes "open_at buf st i" "es_curpos st' = es_curpos st + d" "es_entfullname st' = es_entfullname st @ x" "length x \<le> d" "0 < d"
    and "\<forall>k. es_curpos st \<le> k \<and> k < es_curpos st + d \<and> byte_at buf k = CHR '';'' \<longrightarrow> byte_at buf (k - 1) = CHR ''.''"
    and "es_entfullname st \<noteq> [] \<or> x \<noteq> []"
  shows "open_at buf st' i"
proof -
  have "byte_at buf (k - 1) = CHR ''.''" if "i < k" "k < es_curpos st + d" "byte_at buf k = CHR '';''" for k
    using that assms(1,6) by (cases "k < es_curpos st") (auto simp: open_at_def)
  then show ?thesis using assms by (auto simp: open_at_def)
qed

lemma ent_append_ok:
  assumes "ent_append_data m buf cbuf clen u = Next st'" "length (es_out u) \<le> es_buflen u" "\<forall>r. cbuf = Some r \<longrightarrow> clen = length r"
    and "the (es_tmp u) \<le> length buf" "es_tmp u = Some (es_curpos u + (if cbuf = None \<and> clen = 0 then 0 else 1))"
    and "length (es_entfullname u) \<le> 256" "length (es_entname u) \<le> length (es_entfullname u)"
    and "length (es_entparts u) \<le> length (es_entfullname u)"
    and "es_in_entity u \<Longrightarrow> \<exists>i. open_at buf u i \<and> es_entfullname u \<noteq> [] \<and> byte_at buf (es_curpos u) \<noteq> CHR '';''"
  shows "ent_ok buf st'"
proof -
  note f = ent_append_fine(1) [OF assms(2,3) assms(4) assms(1)]
  have "\<exists>i. open_at buf st' i" if e: "es_in_entity st'"
  proof -
    have "es_in_entity u" using f e by simp
    then obtain i where i: "open_at buf u i" "es_entfullname u \<noteq> []" "byte_at buf (es_curpos u) \<noteq> CHR '';''" using assms(9) by blast
    have "open_at buf st' i"
      by (rule open_at_step [OF i(1), of st' 1 "[]"]) (use f i in \<open>auto simp: le_less_Suc_eq\<close>)
    then show ?thesis ..
  qed
  then show ?thesis using f assms(5-8) by (auto simp: ent_ok_def split: if_splits)
qed

lemma ent_append_outcome:
  assumes "length (es_out u) \<le> es_buflen u" "\<forall>r. cbuf = Some r \<longrightarrow> clen = length r" "the (es_tmp u) \<le> length buf"
    and "\<And>st'. ent_append_data m buf cbuf clen u = Next st' \<Longrightarrow> ent_ok buf st'"
  shows "ent_fine buf (ent_append_data m buf cbuf clen u)"
  using assms(4) ent_append_fine(2) [OF assms(1,2) assms(3)] by (auto simp: ent_fine_def split: ent_outcome.split)

lemma ent_dot_fine:
  assumes "ent_ok buf st" "es_tmp st = Some p" "p < length buf" "byte_at buf p = CHR ''.''" "es_in_entity st" "near_dots buf"
  shows "ent_fine buf (ent_dot buf p st)"
proof (cases "es_entname st = []")
  case True
  then show ?thesis using assms(1) by (simp add: ent_dot_def ent_fine_def ent_ok_def)
next
  case False
  have st: "length (es_out st) \<le> es_buflen st" "es_curpos st = p"
    "length (es_entname st) \<le> length (es_entfullname st)" "length (es_entparts st) \<le> length (es_entfullname st)"
    using assms(1,2) by (auto simp: ent_ok_def)
  obtain i where i: "open_at buf st i" using assms(1,2,5) by (auto simp: ent_ok_def)
  have "\<not> i + 255 < p"
  proof
    assume "i + 255 < p"
    then obtain k where "i < k" "k < p" "byte_at buf k = CHR '';''" "byte_at buf (k - 1) \<noteq> CHR ''.''"
      using assms(3,4,6) i unfolding near_dots_def open_at_def by blast
    then show False using i st(2) unfolding open_at_def by blast
  qed
  then have full: "length (es_entfullname st) \<le> 254" using i st(2) by (simp add: open_at_def)
  have "ent_ok buf (st\<lparr>es_entfullname := es_entfullname st @ [byte_at buf p],
          es_entparts := es_entparts st @ [NUL], es_tmp := Some (p + 1), es_curpos := es_curpos st + 1\<rparr>)" (is "ent_ok buf ?a")
  proof -
    have "open_at buf ?a i"
      by (rule open_at_step [OF i, of _ 1 "[byte_at buf p]"]) (use assms(4) st(2) in \<open>auto simp: le_less_Suc_eq\<close>)
    then show ?thesis using st full by (auto simp: ent_ok_def)
  qed
  moreover have "ent_ok buf (st\<lparr>es_entfullname := es_entfullname st @ [byte_at buf p, byte_at buf (p + 1)],
          es_entparts := [byte_at buf (p + 1)], es_tmp := Some (p + 2), es_curpos := es_curpos st + 2\<rparr>)" (is "ent_ok buf ?b")
  proof -
    have "byte_at buf (k - 1) = CHR ''.''" if "p \<le> k" "k < p + 2" "byte_at buf k = CHR '';''" for k
      using that assms(4) by (cases "k = p") (auto simp: le_less_Suc_eq)
    then have "open_at buf ?b i"
      by (intro open_at_step [OF i, of _ 2 "[byte_at buf p, byte_at buf (p + 1)]"]) (use st(2) in auto)
    then show ?thesis using st full by (auto simp: ent_ok_def)
  qed
  ultimately show ?thesis using False st full
    by (auto simp: ent_dot_def ent_fine_def ent_stored_def ent_array_ok_def ENT_MAX_ENTSIZE_def)
qed

lemma ent_char_fine:
  assumes "ent_ok buf st" "es_tmp st = Some p" "byte_at buf p \<noteq> CHR '';''" "es_in_entity st"
  shows "ent_fine buf (ent_char buf p st)"
proof -
  have st: "length (es_out st) \<le> es_buflen st" "es_curpos st = p"
    "length (es_entname st) \<le> length (es_entfullname st)" "length (es_entparts st) \<le> length (es_entfullname st)"
    using assms(1,2) by (auto simp: ent_ok_def)
  obtain i where i: "open_at buf st i" using assms(1,2,4) by (auto simp: ent_ok_def)
  have o': "open_at buf st' i" if "es_curpos st' = es_curpos st + 1" "es_entfullname st' = es_entfullname st @ [byte_at buf p]" for st'
    by (rule open_at_step [OF i that]) (use assms(3) st(2) in \<open>auto simp: le_less_Suc_eq\<close>)
  show ?thesis
  proof (cases "ENT_MAX_ENTSIZE \<le> length (es_entfullname st)")
    case True
    then show ?thesis using st by (simp add: ent_char_def ent_fine_def ent_ok_def)
  next
    case False
    then have full: "length (es_entfullname st) < 255" by (simp add: ENT_MAX_ENTSIZE_def)
    have "ent_ok buf (st\<lparr>es_entfullname := es_entfullname st @ [byte_at buf p], es_tmp := Some (p + 1),
          es_curpos := es_curpos st + 1, es_entname := es_entname st @ [byte_at buf p]\<rparr>)"
      "ent_ok buf (st\<lparr>es_entfullname := es_entfullname st @ [byte_at buf p], es_tmp := Some (p + 1),
          es_curpos := es_curpos st + 1, es_entparts := es_entparts st @ [byte_at buf p]\<rparr>)"
      using st full by (auto simp: ent_ok_def intro!: exI [of _ i] o')
    then show ?thesis using False st full
      by (auto simp: ent_char_def ent_fine_def ent_stored_def ent_array_ok_def ENT_MAX_ENTSIZE_def Let_def)
  qed
qed

lemma ent_step_fine:
  assumes "ent_ok buf st" "es_tmp st \<noteq> None" "es_curpos st < length buf" "named_entities buf" "near_dots buf"
    and "\<And>n ps. cb n ps \<noteq> Inl Out_of_bounds"
  shows "ent_fine buf (ent_step m buf (Some cb) st)"
proof -
  define p where "p = es_curpos st"
  have tmp: "es_tmp st = Some p" "p < length buf" using assms(1-3) by (auto simp: ent_ok_def p_def)
  have st: "length (es_out st) \<le> es_buflen st" "length (es_entfullname st) \<le> 256"
    "length (es_entname st) \<le> length (es_entfullname st)" "length (es_entparts st) \<le> length (es_entfullname st)"
    using assms(1,2) by (auto simp: ent_ok_def)
  have ent: "\<exists>i. open_at buf st i" if "es_in_entity st" using that assms(1,2) by (auto simp: ent_ok_def)
  consider (amp2) "byte_at buf p = CHR ''&''" "byte_at buf (p + 1) = CHR ''&''"
    | (amp) "byte_at buf p = CHR ''&''" "byte_at buf (p + 1) \<noteq> CHR ''&''"
    | (plain) "byte_at buf p \<noteq> CHR ''&''" "\<not> es_in_entity st"
    | (semi) "byte_at buf p = CHR '';''" "es_in_entity st"
    | (dot) "byte_at buf p = CHR ''.''" "es_in_entity st"
    | (char) "byte_at buf p \<notin> {CHR ''&'', CHR '';'', CHR ''.''}" "es_in_entity st" by auto
  then show ?thesis
  proof cases
    case amp2
    let ?u = "st\<lparr>es_tmp := Some (p + 1), es_curpos := p + 1\<rparr>"
    have open': "\<exists>i. open_at buf ?u i \<and> es_entfullname ?u \<noteq> []" if e: "es_in_entity ?u"
    proof -
      obtain i where i: "open_at buf st i" using ent e by auto
      have ne: "es_entfullname st \<noteq> []" using i amp2(1) by (auto simp: open_at_def p_def)
      have "open_at buf ?u i"
        by (rule open_at_step [OF i, of _ 1 "[]"]) (use amp2 ne in \<open>auto simp: p_def le_less_Suc_eq\<close>)
      then show ?thesis using ne by auto
    qed
    have "ent_fine buf (ent_append_data m buf None 0 ?u)"
      by (rule ent_append_outcome, use st tmp in simp, simp, use tmp in simp, erule ent_append_ok)
        (use st tmp amp2 open' in auto)
    then show ?thesis using tmp amp2 by (simp add: ent_step_def Let_def p_def)
  next
    case amp
    let ?u = "st\<lparr>es_entname := [], es_entparts := [], es_entfullname := [],
               es_in_entity := True, es_tmp := Some (p + 1), es_curpos := es_curpos st + 1\<rparr>"
    have "open_at buf ?u p" using amp tmp by (auto simp: open_at_def p_def le_less_Suc_eq)
    then have "ent_ok buf ?u" using st by (auto simp: ent_ok_def p_def)
    then show ?thesis using tmp amp by (simp add: ent_step_def Let_def ent_fine_def)
  next
    case plain
    have "ent_fine buf (ent_append_data m buf None 0 st)"
      by (rule ent_append_outcome, use st tmp in simp, simp, use tmp in simp, erule ent_append_ok)
        (use st tmp plain in \<open>auto simp: p_def\<close>)
    then show ?thesis using tmp plain by (simp add: ent_step_def Let_def)
  next
    case semi
    let ?u = "st\<lparr>es_tmp := Some (p + 1), es_in_entity := False\<rparr>"
    obtain i where i: "open_at buf st i" using ent semi by blast
    have ne: "es_entfullname st \<noteq> []"
    proof
      assume "es_entfullname st = []"
      then have "p = i + 1" "byte_at buf i = CHR ''&''" "i < length buf" using i by (auto simp: open_at_def p_def)
      then show False using assms(4) semi(1) by (auto simp: named_entities_def)
    qed
    have go: "ent_fine buf (ent_append_data m buf r (case r of None \<Rightarrow> length (es_entfullname st) | Some x \<Rightarrow> length x) ?u)" for r
      by (rule ent_append_outcome, use st tmp in simp, simp, use tmp in simp, erule ent_append_ok)
        (use st tmp ne in \<open>auto simp: p_def split: option.split\<close>)
    show ?thesis
    proof (cases "cb (es_entname st) (es_entparts st)")
      case (Inl e)
      then show ?thesis using tmp semi assms(6) [of "es_entname st" "es_entparts st"] by (simp add: ent_step_def Let_def ent_fine_def)
    next
      case (Inr r)
      then show ?thesis using tmp semi go [of r] by (cases r) (simp_all add: ent_step_def Let_def)
    qed
  next
    case dot
    then show ?thesis using ent_dot_fine [OF assms(1) tmp dot assms(5)] tmp by (simp add: ent_step_def Let_def)
  next
    case char
    then show ?thesis using ent_char_fine [OF assms(1) tmp(1) _ char(2)] tmp by (simp add: ent_step_def Let_def)
  qed
qed

lemma ent_loop_fine:
  assumes "\<And>n ps. cb n ps \<noteq> Inl Out_of_bounds"
  shows "cback = Some cb \<Longrightarrow> named_entities buf \<Longrightarrow> near_dots buf \<Longrightarrow> ent_ok buf st \<Longrightarrow> ent_fine buf (ent_loop m buf cback st)"
proof (induction m buf cback st rule: ent_loop.induct)
  case (1 m buf cback st)
  show ?case
  proof (cases "es_tmp st \<noteq> None \<and> es_curpos st < length buf")
    case True
    then have f: "ent_fine buf (ent_step m buf cback st)" using ent_step_fine [OF 1(5) _ _ 1(3,4) assms] 1(2) by simp
    then show ?thesis using True 1(1) [OF True] 1(2-4)
      by (subst ent_loop.simps) (cases "ent_step m buf cback st"; simp add: ent_fine_def)
  next
    case False
    then have "ent_loop m buf cback st = Next st" by (subst ent_loop.simps) (rule if_not_P)
    then show ?thesis using 1(5) by (simp add: ent_fine_def)
  qed
qed

lemma entity_callback_fine: "entity_callback scopes n ps \<noteq> Inl Out_of_bounds"
  by (auto simp: entity_callback_def split: option.split scope.split get_result.split)

section \<open>Properties\<close>

text \<open>
  C9. A template of texts, doubled ampersands and entities is expanded segment by segment: text
  is copied, a doubled ampersand becomes one, an entity whose scope is there is replaced by what
  \<^verbatim>\<open>get\<close> returns and any other entity is put out unchanged (results of up to 32766 bytes, an entity of up to 255).
  \<^verbatim>\<open>get\<close> is called with the first part behind the scope, also when the entity has several, although the documentation of
  \<^verbatim>\<open>parse_entities\<close> promises it all of them, up to the semicolon.
\<close>

theorem parse_entities_template:
  assumes "wf_scopes scopes" "\<forall>s \<in> set segs. wf_segment s"
    and "length (concat (map (expand scopes) segs)) \<le> 32766"
    and "length (concat (map segment_text segs)) < 2 ^ 62"
  shows "f_parse_entities (\<lambda>_. True) (concat (map segment_text segs)) scopes = Inr (concat (map (expand scopes) segs))"
  using ent_parser_segments [OF assms(2), of "scope_value scopes"] assms(3,4)
  by (simp add: f_parse_entities_def entity_callback_eq [OF assms(1)] segment_out_expand)

theorem parse_entities_template_witness:
  "f_parse_entities (\<lambda>_. True) ''a &f.x; && &nbsp; &f.y.z;'' [(''f'', Get (\<lambda>p. Get_string (''<'' @ p @ ''>'')))] =
     Inr ''a <x> & &nbsp; <y>''"
proof -
  let ?sc = "[(''f'', Get (\<lambda>p. Get_string (''<'' @ p @ ''>'')))]"
  have "wf_scopes ?sc" by (auto simp: wf_scopes_def mapping_lookup_def split: if_splits)
  then show ?thesis
    using parse_entities_template [of ?sc
        "[Text ''a '', Entity ''f'' [''x''], Text '' '', Ampersand, Text '' '', Entity ''nbsp'' [], Text '' '', Entity ''f'' [''y'', ''z'']]"]
    by (simp add: ent_plain_def entity_text_def mapping_lookup_def)
qed

text \<open>
  C27. The parser reads and stores inside its buffers: for every text, every scopes and whichever allocations fail,
  \<^verbatim>\<open>parse_entities\<close> never stores outside the result buffer or the three arrays of an entity nor reads behind the text, as long as
  no ampersand has a semicolon right behind it and no dot is more than 255 bytes behind an ampersand without a
  semicolon between them that ends the entity (one that is not behind a dot). It ends, with a result or an error.
\<close>

theorem parse_entities_safe:
  assumes "named_entities buf" "near_dots buf"
  shows "f_parse_entities malloc_ok buf scopes \<noteq> Inl Out_of_bounds"
proof -
  have l: "ent_fine buf (ent_loop malloc_ok buf (Some (entity_callback scopes)) (ent_st 0 False [] [] [] [] n))" for n
    by (rule ent_loop_fine [OF entity_callback_fine refl assms]) (simp add: ent_ok_def)
  have "ent_parser malloc_ok (Some buf) (Some (entity_callback scopes)) \<noteq> Inl Out_of_bounds"
    using l [of "(length buf + length buf div 3) mod 2 ^ 64"]
    unfolding ent_parser_def Let_def option.case by (auto simp: ent_fine_def split: ent_outcome.splits)
  then show ?thesis
    unfolding f_parse_entities_def by (auto split: sum.split option.split ent_errcode.split)
qed

theorem parse_entities_safe_witness:
  "f_parse_entities (\<lambda>n. n < 9) ''&a.b; && &'' [(''a'', Get (\<lambda>p. Get_string (''<'' @ p @ ''>'')))] \<noteq> Inl Out_of_bounds"
proof -
  have "named_entities ''&a.b; && &''" "near_dots ''&a.b; && &''"
    by (auto simp: named_entities_def near_dots_def byte_at_def less_Suc_eq)
  then show ?thesis by (rule parse_entities_safe)
qed

text \<open>
  An entity without a name that no scope resolves is taken for a byte to copy, and the byte behind it is copied
  unseen. After two of them the parser reads behind the text.
\<close>

lemma parse_entities_nameless_overread:
  "f_parse_entities (\<lambda>_. True) ''&;a&;a'' [] = Inl Out_of_bounds"
proof -
  have eight: "Suc (Suc (Suc (Suc (Suc (Suc (Suc (Suc 0))))))) = 8" by simp
  have "ent_loop (\<lambda>_. True) ''&;a&;a'' (Some (entity_callback [])) (ent_st 0 False [] [] [] [] 8) = Raise Out_of_bounds"
    by code_simp
  then show ?thesis by (subst f_parse_entities_eq) (simp_all add: eight)
qed

text \<open>
  Text without any ampersand is returned as it is below 48 KB (49152 bytes) and refused from there
  on, with an error about an entity that is too long: the growth of the result buffer asks for
  twice its current contents although the text has room.
\<close>

lemma parse_entities_plain_text:
  assumes "CHR ''&'' \<notin> set w" "w \<noteq> []" "length w < 2 ^ 62"
  shows "f_parse_entities (\<lambda>_. True) w scopes =
    (if length w < 49152 then Inr w
     else Inl (Pike_error ''_Caudium.parse_entities(): entity too long after replacement.''))"
  by (subst f_parse_entities_eq [OF assms(3)]) (simp add: ent_loop_plain [OF assms(1,2)])

lemma parse_entities_plain_text_witness:
  "f_parse_entities (\<lambda>_. True) (replicate 50000 (CHR ''x'')) [] =
     Inl (Pike_error ''_Caudium.parse_entities(): entity too long after replacement.'')"
proof -
  have "CHR ''&'' \<notin> set (replicate 50000 (CHR ''x''))" "replicate 50000 (CHR ''x'') \<noteq> []"
    by (simp_all add: in_set_replicate)
  moreover have "length (replicate 50000 (CHR ''x'')) = 50000" by (rule length_replicate)
  ultimately show ?thesis
    using parse_entities_plain_text [of "replicate 50000 (CHR ''x'')" "[]"] by simp
qed

text \<open>
  An ampersand whose entity does not end loses text without any error: everything from the
  ampersand on is dropped when no semicolon follows, and when 256 bytes follow without a
  semicolon, dot or ampersand, also all the rest of the page, entities included.
\<close>

lemma parse_entities_unterminated:
  assumes "CHR ''&'' \<notin> set w" "length w \<le> 32766" "ent_plain x" "256 \<le> length x \<or> r = []"
    and "length (w @ ''&'' @ x @ r) < 2 ^ 62"
  shows "f_parse_entities (\<lambda>_. True) (w @ ''&'' @ x @ r) scopes = Inr w"
proof -
  let ?buf = "w @ ''&'' @ x @ r" and ?cb = "entity_callback scopes"
  from ent_loop_text [OF assms(1), of "[]" "length ?buf + length ?buf div 3" "[]" "''&'' @ x @ r" "Some ?cb" "[]" "[]" "[]"]
    assms(2) obtain bl where
    "ent_loop (\<lambda>_. True) ?buf (Some ?cb) (ent_st 0 False [] [] [] [] (length ?buf + length ?buf div 3)) =
     ent_loop (\<lambda>_. True) ?buf (Some ?cb) (ent_st (length w) False [] [] [] w bl)"
    by auto
  moreover from ent_loop_unterminated [OF assms(3,4), of "\<lambda>_. True" w ?cb "[]" "[]" "[]" w bl] obtain st where
    "ent_loop (\<lambda>_. True) ?buf (Some ?cb) (ent_st (length w) False [] [] [] w bl) = Next st"
    "es_out st = w" "es_errcode st \<in> {ENT_ERR_OK, ENT_ERR_ENTNAMELONG}"
    by auto
  ultimately show ?thesis by (subst f_parse_entities_eq [OF assms(5)]) simp
qed

lemma parse_entities_unterminated_witness:
  "f_parse_entities (\<lambda>_. True) ''fish & chips'' [] = Inr ''fish ''"
  using parse_entities_unterminated [of "''fish ''" "'' chips''" "[]" "[]"] by (simp add: ent_plain_def)

text \<open>
  The branch for dots does not look at the length of the name: an entity of 257 bytes with
  enough dots (here the name and all the dots behind it) is stored behind the end of the arrays
  on the stack.
\<close>

lemma parse_entities_dots_overflow:
  assumes "ent_plain n" "n \<noteq> []" "length n + k = 253" "length (''&'' @ n @ ''..'' @ replicate k (CHR ''.'') @ ''..'' @ r) < 2 ^ 62"
  shows "f_parse_entities (\<lambda>_. True) (''&'' @ n @ ''..'' @ replicate k (CHR ''.'') @ ''..'' @ r) scopes = Inl Out_of_bounds"
proof -
  let ?x = "n @ ''..'' @ replicate k (CHR ''.'') @ ''..'' @ r"
  let ?m = "\<lambda>_ :: nat. True" and ?bl = "length (''&'' @ ?x) + length (''&'' @ ?x) div 3"
  have "?x = [] \<or> hd ?x \<noteq> CHR ''&''" using assms(1,2) by (cases n) (auto simp: ent_plain_def)
  then have "ent_loop ?m (''&'' @ ?x) (Some (entity_callback scopes)) (ent_st 0 False [] [] [] [] ?bl) = Raise Out_of_bounds"
    using ent_loop_open [of ?x ?m "[]" "entity_callback scopes" "[]" "[]" "[]" "[]" ?bl]
      ent_loop_dots_overflow [OF assms(1-3), of ?m "''&''" r "entity_callback scopes" "[]" ?bl] by simp
  then show ?thesis by (subst f_parse_entities_eq [OF assms(4)]) simp
qed

lemma parse_entities_dots_overflow_witness:
  "f_parse_entities (\<lambda>_. True) (''&'' @ ''a'' @ ''..'' @ replicate 252 (CHR ''.'') @ ''..'' @ '';'') [] = Inl Out_of_bounds"
proof -
  have "length (''&'' @ ''a'' @ ''..'' @ replicate 252 (CHR ''.'') @ ''..'' @ '';'') < 2 ^ 62"
    by (simp only: length_append length_replicate) simp
  then show ?thesis
    using parse_entities_dots_overflow [of "''a''" 252 "'';''" "[]"] by (simp only: ent_plain_def) simp
qed

text \<open>
  Only the first part of an entity's name reaches the scope: the parts are handed over
  separated by zero bytes and \<^verbatim>\<open>get\<close> is called with the text up to the first of them, so that
  \<open>&s.a.b;\<close> means the same as \<open>&s.a;\<close> whenever that has a value.
\<close>

lemma parse_entities_first_part:
  assumes "wf_scopes scopes" "wf_segment (Entity n [p, q])"
    and "scope_value scopes n p = Some r" "length r \<le> 32766"
  shows "f_parse_entities (\<lambda>_. True) (''&'' @ n @ ''.'' @ p @ ''.'' @ q @ '';'') scopes = Inr r \<and>
    f_parse_entities (\<lambda>_. True) (''&'' @ n @ ''.'' @ p @ '';'') scopes = Inr r"
proof -
  have len: "length n + length p + length q \<le> 253" and wf: "wf_segment (Entity n [p])"
    using assms(2) by (simp_all add: entity_text_def)
  have val: "scope_value scopes n (p @ NUL # q) = Some r"
    using assms(3) unfolding scope_value_def cstr_until_NUL .
  have small: "m < 2 ^ 62" if "m \<le> 257" for m :: nat using that by simp
  note tmpl = ent_parser_segments [of "[Entity n [p, q]]" "scope_value scopes"]
    ent_parser_segments [of "[Entity n [p]]" "scope_value scopes"]
  show ?thesis
    using tmpl assms(2-4) wf len val
    by (simp add: f_parse_entities_def entity_callback_eq [OF assms(1)] entity_text_def)
qed

lemma parse_entities_first_part_witness:
  "f_parse_entities (\<lambda>_. True) ''&s.a.b;'' [(''s'', Get Get_string)] = Inr ''a''"
proof -
  have "wf_scopes [(''s'', Get Get_string)]"
    by (auto simp: wf_scopes_def mapping_lookup_def split: if_splits)
  then show ?thesis
    using parse_entities_first_part [of "[(''s'', Get Get_string)]" "''s''" "''a''" "''b''" "''a''"]
    by (simp add: ent_plain_def entity_text_def scope_value_def mapping_lookup_def)
qed

end
