(* ===== verification/Tag_Attributes.thy ===== *)
theory Tag_Attributes
  imports Scratchpad "HOL-Library.Multiset"
begin

text \<open>
  Escaping of mappings and the construction of tag attributes in
  \<^verbatim>\<open>src/cmods/_Caudium/caudium.c\<close>: the entity tables, \<^verbatim>\<open>_encode_pike_string\<close>, \<^verbatim>\<open>encode_mapping\<close> and
  the Pike functions \<^verbatim>\<open>xml_encode_mapping\<close>, \<^verbatim>\<open>html_encode_mapping\<close> and \<^verbatim>\<open>_make_tag_attributes\<close>.
  Pike's \<^verbatim>\<open>replace\<close> is not part of the repository: it is the argument \<open>rep\<close>, and \<open>replaces_bytes\<close>
  states what its documentation promises for the tables used here. Wide strings are not modelled.
\<close>

section \<open>The tables\<close>

definition xml_unsafechars :: "string list" where
  "xml_unsafechars = [''<'', ''>'', ''&'', [CHR 0x22], [CHR 0x27], [CHR 0x5C, CHR ''0'']]"

definition xml_safeentities :: "string list" where
  "xml_safeentities = [''&lt;'', ''&gt;'', ''&amp;'', ''&#34;'', ''&#39;'', ''&#0;'']"

definition html_unsafechars :: "string list" where
  "html_unsafechars = [[CHR 0x22], ''<'', ''>'', ''&'']"

definition html_safeentities :: "string list" where
  "html_safeentities = [''&quot;'', ''&gt;'', ''&lt;'', ''&amp;'']"

definition unsafe_chars :: "int \<Rightarrow> string list" where
  "unsafe_chars encode_type = (if encode_type = 0 then html_unsafechars else xml_unsafechars)"

definition safe_entities :: "int \<Rightarrow> string list" where
  "safe_entities encode_type = (if encode_type = 0 then html_safeentities else xml_safeentities)"

section \<open>Operations\<close>

type_synonym replace_fun = "string \<Rightarrow> string list \<Rightarrow> string list \<Rightarrow> string"

text \<open>The first loop looks for the first byte of every unsafe string.\<close>

definition encode_pike_string :: "replace_fun \<Rightarrow> string \<Rightarrow> string list \<Rightarrow> string list \<Rightarrow> string" where
  "encode_pike_string rep ps unsafe safe =
     (if \<exists>u \<in> set unsafe. hd u \<in> set ps then rep ps unsafe safe else ps)"

type_synonym value_mapping = "(svalue, svalue) pmap"

text \<open>
  \<open>order\<close> puts the pairs of a mapping in the order in which a loop over its hash table meets them. Pairs that are not two
  strings are left out.
\<close>

definition encode_mapping :: "(value_mapping \<Rightarrow> value_mapping) \<Rightarrow> replace_fun \<Rightarrow> value_mapping \<Rightarrow> int \<Rightarrow> value_mapping" where
  "encode_mapping order rep m encode_type =
     foldl (\<lambda>result (k, v).
       case (k, v) of
         (SString ks, SString vs) \<Rightarrow>
           mapping_insert result
             (SString (encode_pike_string rep ks (unsafe_chars encode_type) (safe_entities encode_type)))
             (SString (encode_pike_string rep vs (unsafe_chars encode_type) (safe_entities encode_type)))
       | _ \<Rightarrow> result) [] (order m)"

definition f_xml_encode_mapping :: "(value_mapping \<Rightarrow> value_mapping) \<Rightarrow> replace_fun \<Rightarrow> value_mapping \<Rightarrow> value_mapping" where
  "f_xml_encode_mapping order rep m = encode_mapping order rep m 1"

definition f_html_encode_mapping :: "(value_mapping \<Rightarrow> value_mapping) \<Rightarrow> replace_fun \<Rightarrow> value_mapping \<Rightarrow> value_mapping" where
  "f_html_encode_mapping order rep m = encode_mapping order rep m 0"

text \<open>One attribute: the size asked from the scratch pad and the bytes appended.\<close>

definition attribute_len :: "string \<Rightarrow> string \<Rightarrow> nat" where
  "attribute_len k v = length k + length v + 5"

definition attribute_bytes :: "string \<Rightarrow> string \<Rightarrow> string" where
  "attribute_bytes k v = k @ [CHR ''='', CHR 0x22] @ v @ [CHR 0x22, SP]"

text \<open>In the scratch pad \<^verbatim>\<open>tmp[len] = 0\<close> comes first.\<close>

definition attribute_spad ::
  "(nat \<Rightarrow> bool) \<Rightarrow> spad_state \<Rightarrow> string \<Rightarrow> string \<Rightarrow> (spad_state \<times> string res) option" where
  "attribute_spad malloc_ok st k v =
     (case scratchpad_get malloc_ok st (attribute_len k v) of
        None \<Rightarrow> None
      | Some (st', Inl e) \<Rightarrow> Some (st', Inl e)
      | Some (st', Inr cap) \<Rightarrow>
          Some (st', if cap \<le> attribute_len k v then Inl Out_of_bounds else Inr (attribute_bytes k v)))"

text \<open>The loop over the encoded mapping.\<close>

fun attribute_loop :: "(nat \<Rightarrow> bool) \<Rightarrow> spad_state \<Rightarrow> value_mapping \<Rightarrow> (spad_state \<times> string res) option" where
  "attribute_loop malloc_ok st [] = Some (st, Inr [])"
| "attribute_loop malloc_ok st ((k, v) # ps) =
     (case (k, v) of
        (SString ks, SString vs) \<Rightarrow>
          (case attribute_spad malloc_ok st ks vs of
             None \<Rightarrow> None
           | Some (st', Inl e) \<Rightarrow> Some (st', Inl e)
           | Some (st', Inr x) \<Rightarrow>
               map_option (\<lambda>(st, r). (st, bind_res r (\<lambda>y. Inr (x @ y)))) (attribute_loop malloc_ok st' ps))
      | _ \<Rightarrow> attribute_loop malloc_ok st ps)"

text \<open>
  The mapping the caller passed loses its entry for the slash. \<open>encoding_args\<close> are the arguments behind it, of which there may be one.
\<close>

definition f_make_tag_attributes ::
  "(value_mapping \<Rightarrow> value_mapping) \<Rightarrow> replace_fun \<Rightarrow> (nat \<Rightarrow> bool) \<Rightarrow> spad_state \<Rightarrow> value_mapping \<Rightarrow> int list \<Rightarrow>
     (spad_state \<times> value_mapping \<times> string res) option" where
  "f_make_tag_attributes order rep malloc_ok st m encoding_args =
     (if 1 < length encoding_args then Some (st, m, Inl (Pike_error ''Wrong number of arguments, expected 1 or 2.''))
      else let encoding = (case encoding_args of [] \<Rightarrow> 0 | e # _ \<Rightarrow> e) in
        if encoding < 0 \<or> encoding > 1 then Some (st, m, Inl (Pike_error ''Encoding must be either 0 or 1''))
        else let m' = AList.delete (SString ''/'') m in
          map_option (\<lambda>(st, r). (st, m', r)) (attribute_loop malloc_ok st (order (encode_mapping order rep m' encoding))))"

section \<open>What Pike's replace promises\<close>

text \<open>
  With a list of single bytes (and of longer strings whose first byte does not occur), every byte
  of the string is replaced on its own.
\<close>

definition subst_byte :: "string list \<Rightarrow> string list \<Rightarrow> char \<Rightarrow> string" where
  "subst_byte from to c = (case map_of (zip from to) [c] of Some e \<Rightarrow> e | None \<Rightarrow> [c])"

definition replaces_bytes :: "replace_fun \<Rightarrow> bool" where
  "replaces_bytes rep \<longleftrightarrow>
     (\<forall>s from to. length from = length to \<longrightarrow> distinct from \<longrightarrow>
        (\<forall>f \<in> set from. f \<noteq> [] \<and> (length f = 1 \<or> hd f \<notin> set s)) \<longrightarrow>
        rep s from to = concat (map (subst_byte from to) s))"

text \<open>
  A function that behaves so: at every position the first entry that matches is replaced.
\<close>

function replace_many :: "string \<Rightarrow> string list \<Rightarrow> string list \<Rightarrow> string" where
  "replace_many s from to =
     (case s of
        [] \<Rightarrow> []
      | c # cs \<Rightarrow>
          (case find (\<lambda>(f, e). f \<noteq> [] \<and> take (length f) s = f) (zip from to) of
             Some (f, e) \<Rightarrow> e @ replace_many (drop (length f - 1) cs) from to
           | None \<Rightarrow> c # replace_many cs from to))"
  by pat_completeness auto
termination
  by (relation "measure (\<lambda>(s, from, to). length s)") auto

declare replace_many.simps [simp del]

lemma find_single_byte:
  assumes "\<forall>(f, e) \<in> set tbl. f \<noteq> [] \<and> (length f = 1 \<or> hd f \<noteq> c)"
  shows "find (\<lambda>(f, e). f \<noteq> [] \<and> take (length f) (c # cs) = f) tbl =
    map_option (\<lambda>e. ([c], e)) (map_of tbl [c])"
  using assms
proof (induction tbl)
  case (Cons fe tbl)
  obtain f e where fe: "fe = (f, e)" by fastforce
  with Cons.prems obtain d f' where f: "f = d # f'" "f' = [] \<or> d \<noteq> c" by (cases f) auto
  with Cons fe show ?case by auto
qed simp

lemma replaces_bytes_replace_many: "replaces_bytes replace_many"
  unfolding replaces_bytes_def
proof (intro allI impI)
  fix s :: string and fs ts :: "string list"
  assume len: "length fs = length ts" "distinct fs"
    and single: "\<forall>f \<in> set fs. f \<noteq> [] \<and> (length f = 1 \<or> hd f \<notin> set s)"
  from single show "replace_many s fs ts = concat (map (subst_byte fs ts) s)"
  proof (induction s)
    case Nil
    then show ?case by (simp add: replace_many.simps)
  next
    case (Cons c s)
    have "\<forall>(f, e) \<in> set (zip fs ts). f \<noteq> [] \<and> (length f = 1 \<or> hd f \<noteq> c)"
      using Cons.prems by (auto dest!: set_zip_leftD)
    note first = find_single_byte [OF this, of s]
    have "replace_many s fs ts = concat (map (subst_byte fs ts) s)" using Cons by auto
    with first show ?case
      by (subst replace_many.simps) (simp add: subst_byte_def [of fs ts c] split: option.splits)
  qed
qed

section \<open>The two encodings\<close>

definition xml_entity :: "char \<Rightarrow> string" where
  "xml_entity c =
     (if c = CHR ''<'' then ''&lt;'' else if c = CHR ''>'' then ''&gt;'' else if c = CHR ''&'' then ''&amp;''
      else if c = CHR 0x22 then ''&#34;'' else if c = CHR 0x27 then ''&#39;'' else [c])"

definition html_entity :: "char \<Rightarrow> string" where
  "html_entity c =
     (if c = CHR 0x22 then ''&quot;'' else if c = CHR ''<'' then ''&gt;'' else if c = CHR ''>'' then ''&lt;''
      else if c = CHR ''&'' then ''&amp;'' else [c])"

lemma concat_map_single: "(\<And>c. c \<in> set s \<Longrightarrow> f c = [c]) \<Longrightarrow> concat (map f s) = s"
  by (induction s) auto

lemma encode_xml:
  assumes "replaces_bytes rep" "CHR 0x5C \<notin> set s"
  shows "encode_pike_string rep s (unsafe_chars 1) (safe_entities 1) = concat (map xml_entity s)"
proof (cases "\<exists>u \<in> set xml_unsafechars. hd u \<in> set s")
  case True
  have "rep s xml_unsafechars xml_safeentities = concat (map (subst_byte xml_unsafechars xml_safeentities) s)"
    using assms unfolding replaces_bytes_def
    by (auto simp: xml_unsafechars_def xml_safeentities_def)
  moreover have "subst_byte xml_unsafechars xml_safeentities = xml_entity"
    by (rule ext) (simp add: subst_byte_def xml_unsafechars_def xml_safeentities_def xml_entity_def)
  ultimately show ?thesis
    using True by (simp add: encode_pike_string_def unsafe_chars_def safe_entities_def)
next
  case False
  then have "xml_entity c = [c]" if "c \<in> set s" for c
    using that by (auto simp: xml_unsafechars_def xml_entity_def)
  then have "concat (map xml_entity s) = s" by (rule concat_map_single)
  with False show ?thesis by (simp add: encode_pike_string_def unsafe_chars_def)
qed

lemma encode_html:
  assumes "replaces_bytes rep"
  shows "encode_pike_string rep s (unsafe_chars 0) (safe_entities 0) = concat (map html_entity s)"
proof (cases "\<exists>u \<in> set html_unsafechars. hd u \<in> set s")
  case True
  have "rep s html_unsafechars html_safeentities = concat (map (subst_byte html_unsafechars html_safeentities) s)"
    using assms unfolding replaces_bytes_def
    by (auto simp: html_unsafechars_def html_safeentities_def)
  moreover have "subst_byte html_unsafechars html_safeentities = html_entity"
    by (rule ext) (simp add: subst_byte_def html_unsafechars_def html_safeentities_def html_entity_def)
  ultimately show ?thesis
    using True by (simp add: encode_pike_string_def unsafe_chars_def safe_entities_def)
next
  case False
  then have "html_entity c = [c]" if "c \<in> set s" for c
    using that by (auto simp: html_unsafechars_def html_entity_def)
  then have "concat (map html_entity s) = s" by (rule concat_map_single)
  with False show ?thesis by (simp add: encode_pike_string_def unsafe_chars_def)
qed

text \<open>What a reader of the page makes of the entities: the first that matches.\<close>

function unescape :: "string \<Rightarrow> string" where
  "unescape [] = []"
| "unescape (c # cs) =
     (case find (\<lambda>(d, e). take (length e) (c # cs) = e)
        [(CHR ''<'', ''&lt;''), (CHR ''>'', ''&gt;''), (CHR ''&'', ''&amp;''), (CHR 0x22, ''&quot;''),
         (CHR 0x22, ''&#34;''), (CHR 0x27, ''&#39;'')] of
        Some (d, e) \<Rightarrow> d # unescape (drop (length e - 1) cs)
      | None \<Rightarrow> c # unescape cs)"
  by pat_completeness auto
termination
  by (relation "measure length") auto

declare unescape.simps(2) [simp del]

lemma unescape_simps [simp]:
  "unescape (CHR ''&'' # CHR ''l'' # CHR ''t'' # CHR '';'' # r) = CHR ''<'' # unescape r"
  "unescape (CHR ''&'' # CHR ''g'' # CHR ''t'' # CHR '';'' # r) = CHR ''>'' # unescape r"
  "unescape (CHR ''&'' # CHR ''a'' # CHR ''m'' # CHR ''p'' # CHR '';'' # r) = CHR ''&'' # unescape r"
  "unescape (CHR ''&'' # CHR ''q'' # CHR ''u'' # CHR ''o'' # CHR ''t'' # CHR '';'' # r) = CHR 0x22 # unescape r"
  "unescape (CHR ''&'' # CHR ''#'' # CHR ''3'' # CHR ''4'' # CHR '';'' # r) = CHR 0x22 # unescape r"
  "unescape (CHR ''&'' # CHR ''#'' # CHR ''3'' # CHR ''9'' # CHR '';'' # r) = CHR 0x27 # unescape r"
  "c \<noteq> CHR ''&'' \<Longrightarrow> unescape (c # r) = c # unescape r"
  by (simp_all add: unescape.simps(2))

lemma unescape_xml: "unescape (concat (map xml_entity s)) = s"
  by (induction s) (auto simp: xml_entity_def)

definition swap_brackets :: "char \<Rightarrow> char" where
  "swap_brackets c = (if c = CHR ''<'' then CHR ''>'' else if c = CHR ''>'' then CHR ''<'' else c)"

lemma unescape_html: "unescape (concat (map html_entity s)) = map swap_brackets s"
  by (induction s) (auto simp: html_entity_def swap_brackets_def)

section \<open>Mappings of strings\<close>

definition string_pairs :: "(string \<times> string) list \<Rightarrow> value_mapping" where
  "string_pairs kvs = map (\<lambda>(k, v). (SString k, SString v)) kvs"

lemma foldl_insert_pairs:
  assumes "distinct (map fst kvs)" "fst ` set kvs \<inter> fst ` set m = {}"
  shows "foldl (\<lambda>m (k, v). mapping_insert m k v) m kvs = m @ kvs"
  using assms
proof (induction kvs arbitrary: m)
  case (Cons kv kvs)
  obtain k v where kv: "kv = (k, v)" by fastforce
  have "mapping_insert m k v = m @ [(k, v)]"
    using Cons.prems kv by (induction m) (auto simp: mapping_insert_def)
  with Cons kv show ?case by auto
qed simp

text \<open>An order of the pairs of a mapping of strings is one of the strings.\<close>

definition permutes :: "(value_mapping \<Rightarrow> value_mapping) \<Rightarrow> bool" where
  "permutes order \<longleftrightarrow> (\<forall>m. mset (order m) = mset m)"

lemma mset_map_exists: "mset xs = mset (map f ys) \<Longrightarrow> \<exists>zs. xs = map f zs \<and> mset zs = mset ys"
proof (induction xs arbitrary: ys)
  case (Cons x xs)
  have "x \<in># mset (map f ys)" by (simp only: Cons(2) [symmetric]) simp
  then obtain y where y: "y \<in> set ys" "x = f y" by auto
  have "mset (map f ys) = add_mset (f y) (mset (map f (remove1 y ys)))"
    using y(1) by (simp add: image_mset_add_mset [symmetric] del: image_mset_add_mset)
  then have "mset xs = mset (map f (remove1 y ys))" using Cons(2) y(2) by simp
  then obtain zs where "xs = map f zs" "mset zs = mset (remove1 y ys)" using Cons(1) by blast
  then show ?case using y by (intro exI [of _ "y # zs"]) simp
qed simp

lemma permutes_strings:
  assumes "permutes order"
  obtains kvs' where "order (string_pairs kvs) = string_pairs kvs'" "mset kvs' = mset kvs"
proof -
  have "mset (order (string_pairs kvs)) = mset (map (\<lambda>(k, v). (SString k, SString v)) kvs)"
    using assms by (simp add: permutes_def string_pairs_def)
  from mset_map_exists [OF this] show thesis using that by (auto simp: string_pairs_def)
qed

lemma encode_mapping_strings:
  assumes "distinct (map fst kvs)" "inj_on enc (fst ` set kvs)"
    and "\<And>s. s \<in> fst ` set kvs \<union> snd ` set kvs \<Longrightarrow>
      encode_pike_string rep s (unsafe_chars ty) (safe_entities ty) = enc s"
    and "permutes order"
  obtains kvs' where "encode_mapping order rep (string_pairs kvs) ty = string_pairs (map (\<lambda>(k, v). (enc k, enc v)) kvs')"
    "mset kvs' = mset kvs"
proof -
  obtain kvs' where o: "order (string_pairs kvs) = string_pairs kvs'" "mset kvs' = mset kvs"
    using permutes_strings [OF assms(4)] by blast
  have same: "set kvs' = set kvs" using o(2) by (rule mset_eq_setD)
  let ?kvs = "string_pairs (map (\<lambda>(k, v). (enc k, enc v)) kvs')"
  have "\<And>s. s \<in> fst ` set kvs' \<union> snd ` set kvs' \<Longrightarrow> encode_pike_string rep s (unsafe_chars ty) (safe_entities ty) = enc s"
    using assms(3) by (simp add: same)
  then have "encode_mapping (\<lambda>m. m) rep (string_pairs kvs') ty = foldl (\<lambda>m (k, v). mapping_insert m k v) [] ?kvs"
    unfolding encode_mapping_def string_pairs_def
    by (induction kvs' rule: rev_induct) (auto split: prod.splits)
  then have "encode_mapping order rep (string_pairs kvs) ty = foldl (\<lambda>m (k, v). mapping_insert m k v) [] ?kvs"
    by (simp only: encode_mapping_def o(1))
  moreover have "distinct (map fst ?kvs)"
  proof -
    have "map fst ?kvs = map (\<lambda>k. SString (enc k)) (map fst kvs')"
      by (simp add: string_pairs_def comp_def split_beta)
    moreover have "inj_on (\<lambda>k. SString (enc k)) (set (map fst kvs'))"
      using assms(2) same by (auto simp: inj_on_def)
    moreover have "distinct (map fst kvs')"
    proof -
      have "mset (map fst kvs') = mset (map fst kvs)" by (simp add: o(2))
      then show ?thesis using assms(1) mset_eq_imp_distinct_iff by blast
    qed
    ultimately show ?thesis by (simp only: distinct_map)
  qed
  ultimately show thesis using that [OF _ o(2)] foldl_insert_pairs [of ?kvs "[]"] by simp
qed

lemma delete_slash:
  "AList.delete (SString ''/'') (string_pairs kvs) = string_pairs (filter (\<lambda>(k, v). k \<noteq> ''/'') kvs)"
  by (induction kvs) (auto simp: string_pairs_def)

lemma attribute_spad_result:
  assumes "spad_ok st"
  shows "\<exists>st' r. attribute_spad malloc_ok st k v = Some (st', r) \<and> (\<forall>t. r = Inr t \<longrightarrow> t = attribute_bytes k v \<and> spad_ok st') \<and>
    (pad_has_room malloc_ok st m \<and> attribute_len k v < m \<longrightarrow> (\<exists>t. r = Inr t) \<and> pad_has_room malloc_ok st' m)"
proof -
  obtain st' r where g: "scratchpad_get malloc_ok st (attribute_len k v) = Some (st', r)" using spad.get_returns [OF assms] by fastforce
  have room: "\<exists>cap. r = Inr cap \<and> attribute_len k v < cap \<and> pad_has_room malloc_ok st' m"
    if "pad_has_room malloc_ok st m" "attribute_len k v < m"
    using pad_has_room_get [OF assms that(1), of "attribute_len k v"] that(2) g by auto
  have "spad_ok st'" if "r = Inr cap" for cap using spad.get_usable [OF assms] g that by simp
  then show ?thesis using g room by (cases r) (auto simp: attribute_spad_def)
qed

lemma attribute_loop_result:
  "spad_ok st \<Longrightarrow>
     \<exists>st' r. attribute_loop malloc_ok st (string_pairs kvs) = Some (st', r) \<and>
       (\<forall>t. r = Inr t \<longrightarrow> t = concat (map (\<lambda>(k, v). attribute_bytes k v) kvs)) \<and>
       (pad_has_room malloc_ok st m \<and> (\<forall>(k, v) \<in> set kvs. attribute_len k v < m) \<longrightarrow> (\<exists>t. r = Inr t))"
proof (induction kvs arbitrary: st)
  case Nil
  then show ?case by (simp add: string_pairs_def)
next
  case (Cons kv kvs)
  obtain k v where kv: "kv = (k, v)" by fastforce
  obtain st1 r1 where a: "attribute_spad malloc_ok st k v = Some (st1, r1)" "\<forall>t. r1 = Inr t \<longrightarrow> t = attribute_bytes k v \<and> spad_ok st1"
    "pad_has_room malloc_ok st m \<and> attribute_len k v < m \<longrightarrow> (\<exists>t. r1 = Inr t) \<and> pad_has_room malloc_ok st1 m"
    using attribute_spad_result [OF Cons(2)] by blast
  show ?case
  proof (cases r1)
    case (Inl e)
    then show ?thesis using a kv by (auto simp: string_pairs_def)
  next
    case (Inr t)
    then have t: "t = attribute_bytes k v" "spad_ok st1" using a(2) by simp_all
    obtain st2 r where "attribute_loop malloc_ok st1 (string_pairs kvs) = Some (st2, r)"
      "\<forall>t. r = Inr t \<longrightarrow> t = concat (map (\<lambda>(k, v). attribute_bytes k v) kvs)"
      "pad_has_room malloc_ok st1 m \<and> (\<forall>(k, v) \<in> set kvs. attribute_len k v < m) \<longrightarrow> (\<exists>t. r = Inr t)"
      using Cons(1) [OF t(2)] by blast
    then show ?thesis using a(1,3) Inr t(1) kv by (cases r) (auto simp: string_pairs_def)
  qed
qed

section \<open>Properties\<close>

text \<open>
  C28. The XML escaping can be undone and leaves no markup. For a mapping of strings without
  backslashes, on a usable scratch pad and whichever allocations fail, \<^verbatim>\<open>_make_tag_attributes\<close> returns, if it returns a string,
  \<open>key="value"\<close> once for every pair but the one for the slash, in the order of the encoded mapping, both
  escaped. It does return a string when the pad has room for each attribute and one byte more. The slash is removed from the caller's mapping.
  An escaped string contains no angle bracket and no quote, and unescaping it gives the
  original.
\<close>

theorem make_tag_attributes_xml:
  assumes "replaces_bytes rep" "permutes order" "spad_ok st" "distinct (map fst kvs)"
    and "\<forall>(k, v) \<in> set kvs. CHR 0x5C \<notin> set k \<union> set v"
  shows "(\<exists>st' r kvs'.
      f_make_tag_attributes order rep malloc_ok st (string_pairs kvs) [1] =
        Some (st', string_pairs (filter (\<lambda>(k, v). k \<noteq> ''/'') kvs), r) \<and>
      mset kvs' = mset (filter (\<lambda>(k, v). k \<noteq> ''/'') kvs) \<and>
      (\<forall>t. r = Inr t \<longrightarrow>
         t = concat (map (\<lambda>(k, v). attribute_bytes (concat (map xml_entity k)) (concat (map xml_entity v))) kvs')) \<and>
      (pad_has_room malloc_ok st m \<and>
         (\<forall>(k, v) \<in> set kvs. attribute_len (concat (map xml_entity k)) (concat (map xml_entity v)) < m) \<longrightarrow> (\<exists>t. r = Inr t))) \<and>
    unescape (concat (map xml_entity s)) = s \<and>
    set (concat (map xml_entity s)) \<inter> {CHR ''<'', CHR ''>'', CHR 0x22, CHR 0x27} = {}"
proof -
  let ?enc = "\<lambda>s. concat (map xml_entity s)"
  let ?kvs = "filter (\<lambda>(k, v). k \<noteq> ''/'') kvs"
  have d: "distinct (map fst ?kvs)" using assms(4) by (induction kvs) auto
  have inj: "inj_on ?enc (fst ` set ?kvs)"
    by (rule inj_on_inverseI [where g = unescape]) (rule unescape_xml)
  have e: "encode_pike_string rep s (unsafe_chars 1) (safe_entities 1) = ?enc s" if "s \<in> fst ` set ?kvs \<union> snd ` set ?kvs" for s
    using that assms(5) by (intro encode_xml [OF assms(1)]) auto
  obtain kvs1 where k1: "encode_mapping order rep (string_pairs ?kvs) 1 = string_pairs (map (\<lambda>(k, v). (?enc k, ?enc v)) kvs1)"
    "mset kvs1 = mset ?kvs"
    using encode_mapping_strings [OF d inj e assms(2)] by blast
  obtain kvs2 where k2: "order (string_pairs (map (\<lambda>(k, v). (?enc k, ?enc v)) kvs1)) = string_pairs kvs2"
    "mset kvs2 = mset (map (\<lambda>(k, v). (?enc k, ?enc v)) kvs1)"
    using permutes_strings [OF assms(2)] by blast
  obtain kvs' where k': "kvs2 = map (\<lambda>(k, v). (?enc k, ?enc v)) kvs'" "mset kvs' = mset ?kvs"
    using mset_map_exists [OF k2(2)] k1(2) by auto
  have "set kvs' = set ?kvs" using k'(2) by (rule mset_eq_setD)
  then have small: "\<forall>(k, v) \<in> set kvs2. attribute_len k v < m" if "\<forall>(k, v) \<in> set kvs. attribute_len (?enc k) (?enc v) < m"
    using that by (auto simp: k'(1))
  obtain st' r where r: "attribute_loop malloc_ok st (string_pairs kvs2) = Some (st', r)"
    "\<forall>t. r = Inr t \<longrightarrow> t = concat (map (\<lambda>(k, v). attribute_bytes k v) kvs2)"
    "pad_has_room malloc_ok st m \<and> (\<forall>(k, v) \<in> set kvs2. attribute_len k v < m) \<longrightarrow> (\<exists>t. r = Inr t)"
    using attribute_loop_result [OF assms(3)] by blast
  have "f_make_tag_attributes order rep malloc_ok st (string_pairs kvs) [1] = Some (st', string_pairs ?kvs, r)"
    by (simp add: f_make_tag_attributes_def Let_def delete_slash k1(1) k2(1) r(1))
  moreover have "concat (map (\<lambda>(k, v). attribute_bytes k v) kvs2) = concat (map (\<lambda>(k, v). attribute_bytes (?enc k) (?enc v)) kvs')"
    unfolding k'(1) by (induction kvs') auto
  moreover have "set (?enc s) \<inter> {CHR ''<'', CHR ''>'', CHR 0x22, CHR 0x27} = {}"
    by (auto simp: xml_entity_def split: if_splits)
  moreover have "\<forall>t. r = Inr t \<longrightarrow> t = concat (map (\<lambda>(k, v). attribute_bytes (?enc k) (?enc v)) kvs')"
    using r(2) calculation(2) by simp
  moreover have "pad_has_room malloc_ok st m \<and> (\<forall>(k, v) \<in> set kvs. attribute_len (?enc k) (?enc v) < m) \<longrightarrow> (\<exists>t. r = Inr t)"
    using r(3) small by blast
  ultimately show ?thesis using k'(2) unescape_xml [of s] by (intro conjI exI [of _ st'] exI [of _ r] exI [of _ kvs'])
qed

theorem make_tag_attributes_xml_witness:
  "\<exists>st' t. f_make_tag_attributes (\<lambda>m. m) replace_many (\<lambda>_. True) spad_start (string_pairs [(''a'', ''<b>''), (''/'', ''/'')]) [1] =
      Some (st', string_pairs [(''a'', ''<b>'')], Inr t) \<and> t = ''a='' @ [CHR 0x22] @ ''&lt;b&gt;'' @ [CHR 0x22, SP]"
proof -
  have p: "permutes (\<lambda>m. m)" by (simp add: permutes_def)
  have "pad_has_room (\<lambda>_. True) spad_start 100" by (simp add: pad_has_room_def spad_start_def SPAD_INIT_SIZE_def)
  then obtain st' r kvs' where
    "f_make_tag_attributes (\<lambda>m. m) replace_many (\<lambda>_. True) spad_start (string_pairs [(''a'', ''<b>''), (''/'', ''/'')]) [1] =
      Some (st', string_pairs [(''a'', ''<b>'')], r)" "mset kvs' = {#(''a'', ''<b>'')#}"
    "\<forall>t. r = Inr t \<longrightarrow> t = concat (map (\<lambda>(k, v). attribute_bytes (concat (map xml_entity k)) (concat (map xml_entity v))) kvs')"
    "\<exists>t. r = Inr t"
    using make_tag_attributes_xml [OF replaces_bytes_replace_many p spad_ok_start, of "[(''a'', ''<b>''), (''/'', ''/'')]" "\<lambda>_. True" 100 "[]"]
    by (auto simp: attribute_len_def xml_entity_def)
  moreover from this(2) have "kvs' = [(''a'', ''<b>'')]" by simp
  ultimately show ?thesis by (auto simp: attribute_bytes_def xml_entity_def)
qed

text \<open>
  The HTML table gives the two angle brackets each other's entity: what
  \<^verbatim>\<open>_make_tag_attributes\<close> and \<^verbatim>\<open>html_encode_mapping\<close> escape reads back with every \<open><\<close> and \<open>>\<close>
  exchanged.
\<close>

lemma html_brackets_swapped:
  assumes "replaces_bytes rep" "permutes order"
  shows "unescape (encode_pike_string rep s (unsafe_chars 0) (safe_entities 0)) = map swap_brackets s \<and>
    f_html_encode_mapping order rep (string_pairs [(k, s)]) =
      string_pairs [(concat (map html_entity k), concat (map html_entity s))]"
proof -
  obtain kvs' where "encode_mapping order rep (string_pairs [(k, s)]) 0 =
      string_pairs (map (\<lambda>(k, v). (concat (map html_entity k), concat (map html_entity v))) kvs')" "mset kvs' = mset [(k, s)]"
    using encode_mapping_strings [of "[(k, s)]" "\<lambda>s. concat (map html_entity s)" rep 0 order] encode_html [OF assms(1)] assms(2) by auto
  then show ?thesis using encode_html [OF assms(1)] by (simp add: unescape_html f_html_encode_mapping_def)
qed

lemma html_brackets_swapped_witness:
  "f_html_encode_mapping (\<lambda>m. m) replace_many (string_pairs [(''a'', ''<b>'')]) = string_pairs [(''a'', ''&gt;b&lt;'')] \<and>
   unescape (encode_pike_string replace_many ''<b>'' (unsafe_chars 0) (safe_entities 0)) = ''>b<''"
  using html_brackets_swapped [OF replaces_bytes_replace_many, of "\<lambda>m. m" "''<b>''" "''a''"]
  by (simp add: html_entity_def swap_brackets_def permutes_def)

text \<open>
  The terminating zero of an attribute is stored one byte behind the size asked from the
  scratch pad; on a thread's first request for an attribute of 32 KB or more that is outside
  the buffer.
\<close>

lemma attribute_overrun:
  assumes "SPAD_INIT_SIZE \<le> attribute_len k v"
  shows "\<exists>st'. attribute_spad (\<lambda>_. True) spad_start k v = Some (st', Inl Out_of_bounds)"
  using assms
  by (simp add: attribute_spad_def scratchpad_get_def spad_start_def scratchpad_init_def
      scratchpad_allocate_def)

lemma attribute_overrun_witness:
  "\<exists>st'. attribute_spad (\<lambda>_. True) spad_start ''a'' (replicate 40000 (CHR ''x'')) = Some (st', Inl Out_of_bounds)"
proof -
  have "SPAD_INIT_SIZE \<le> attribute_len ''a'' (replicate 40000 (CHR ''x''))"
    unfolding attribute_len_def length_replicate by (simp add: SPAD_INIT_SIZE_def)
  then show ?thesis by (rule attribute_overrun)
qed

end
