(* ===== verification/Dates.thy ===== *)
theory Dates
  imports Caudium_Prelude
begin

text \<open>
  Dates: \<^verbatim>\<open>http_date\<close> and \<^verbatim>\<open>cern_http_date\<close> of \<^verbatim>\<open>src/cmods/_Caudium/caudium.c\<close> in both variants
  (\<^verbatim>\<open>snprintf\<close> and \<^verbatim>\<open>strftime\<close>), and the functions of \<^verbatim>\<open>datetime.c\<close>, above all \<^verbatim>\<open>is_modified\<close>.
  The C library is modelled as far as it is used: \<^verbatim>\<open>gmtime\<close>, \<^verbatim>\<open>localtime\<close> for a server that is \<open>off\<close>
  seconds east of Greenwich, \<^verbatim>\<open>mktime\<close> for a time zone with or without summer time, which reads
  \<^verbatim>\<open>tm_isdst\<close>, \<^verbatim>\<open>strptime\<close> and \<^verbatim>\<open>strftime\<close> for the conversions in the format strings, in the C locale, with
  a \<^verbatim>\<open>time_t\<close> of 64 bits. The date parser \<^verbatim>\<open>get_date\<close> is an argument; the theory \<open>Getdate\<close> models it.
\<close>

section \<open>The C library's calendar\<close>

record tm =
  tm_sec :: int
  tm_min :: int
  tm_hour :: int
  tm_mday :: int
  tm_mon :: int
  tm_year :: int
  tm_wday :: int
  tm_yday :: int
  tm_isdst :: int
  tm_gmtoff :: int

definition is_leap :: "int \<Rightarrow> bool" where
  "is_leap y \<longleftrightarrow> y mod 4 = 0 \<and> (y mod 100 \<noteq> 0 \<or> y mod 400 = 0)"

definition year_days :: "int \<Rightarrow> int" where
  "year_days y = (if is_leap y then 366 else 365)"

definition month_lengths :: "int \<Rightarrow> int list" where
  "month_lengths y = [31, if is_leap y then 29 else 28, 31, 30, 31, 30, 31, 31, 30, 31, 30, 31]"

text \<open>Days from 1970-01-01 to the first of January of \<open>y\<close>.\<close>

definition days_before_year :: "int \<Rightarrow> int" where
  "days_before_year y = 365 * (y - 1970) + (y - 1969) div 4 - (y - 1901) div 100 + (y - 1601) div 400"

function find_year :: "int \<Rightarrow> int \<Rightarrow> int \<times> int" where
  "find_year d y =
     (if d < 0 then find_year (d + year_days (y - 1)) (y - 1)
      else if d < year_days y then (y, d)
      else find_year (d - year_days y) (y + 1))"
  by pat_completeness auto
termination
  by (relation "measure (\<lambda>(d, y). if d < 0 then nat (- d) + 1000 else nat d)")
    (auto simp: year_days_def split: if_splits)

declare find_year.simps [simp del]

fun find_month :: "int \<Rightarrow> int list \<Rightarrow> int \<Rightarrow> int \<times> int" where
  "find_month d [] m = (m, d)"
| "find_month d (l # ls) m = (if d < l then (m, d) else find_month (d - l) ls (m + 1))"

definition localtime :: "int \<Rightarrow> int \<Rightarrow> tm" where
  "localtime off t =
     (let days = (t + off) div 86400; s = (t + off) mod 86400;
          (y, yd) = find_year days 1970; (m, d) = find_month yd (month_lengths y) 0
      in \<lparr>tm_sec = s mod 60, tm_min = s div 60 mod 60, tm_hour = s div 3600, tm_mday = d + 1, tm_mon = m,
          tm_year = y - 1900, tm_wday = (days + 4) mod 7, tm_yday = yd, tm_isdst = 0, tm_gmtoff = off\<rparr>)"

definition gmtime :: "int \<Rightarrow> tm" where
  "gmtime t = localtime 0 t"

definition mktime :: "int \<Rightarrow> tm \<Rightarrow> int" where
  "mktime off tm =
     86400 * (days_before_year (tm_year tm + 1900) +
       sum_list (take (nat (tm_mon tm)) (month_lengths (tm_year tm + 1900))) + tm_mday tm - 1) +
     3600 * tm_hour tm + 60 * tm_min tm + tm_sec tm - off"

text \<open>
  A time zone: the seconds its standard time is east of Greenwich, the seconds its summer time adds
  (0 for a zone without one) and whether summer time is in force at an instant. \<^verbatim>\<open>mktime\<close> takes the fields
  for summer time when \<^verbatim>\<open>tm_isdst\<close> is positive, for standard time when it is 0, and asks the zone when it
  is negative.
\<close>

record zone_rule =
  zone_off :: int
  zone_save :: int
  in_summer :: "int \<Rightarrow> bool"

definition summer_fields :: "zone_rule \<Rightarrow> tm \<Rightarrow> bool" where
  "summer_fields z tm \<longleftrightarrow> 0 < tm_isdst tm \<or> tm_isdst tm < 0 \<and> in_summer z (mktime (zone_off z) tm)"

definition mktime_in :: "zone_rule \<Rightarrow> tm \<Rightarrow> int" where
  "mktime_in z tm = mktime (zone_off z + (if summer_fields z tm then zone_save z else 0)) tm"

section \<open>Printing and scanning numbers\<close>

definition digit :: "nat \<Rightarrow> char" where
  "digit n = char_of (48 + n mod 10)"

fun show_nat :: "nat \<Rightarrow> string" where
  "show_nat n = (if n < 10 then [digit n] else show_nat (n div 10) @ [digit n])"

declare show_nat.simps [simp del]

text \<open>\<^verbatim>\<open>%d\<close> and \<^verbatim>\<open>%02d\<close>\<close>

definition show_d :: "int \<Rightarrow> string" where
  "show_d i = (if i < 0 then ''-'' @ show_nat (nat (- i)) else show_nat (nat i))"

definition show_02d :: "int \<Rightarrow> string" where
  "show_02d i = (if 0 \<le> i \<and> i < 10 then ''0'' @ show_d i else show_d i)"

definition is_digit :: "char \<Rightarrow> bool" where
  "is_digit c \<longleftrightarrow> 48 \<le> code_of c \<and> code_of c \<le> 57"

definition digit_val :: "char \<Rightarrow> int" where
  "digit_val c = int (code_of c) - 48"

section \<open>strptime\<close>

definition weekday_name :: "string list" where
  "weekday_name = [''sunday'', ''monday'', ''tuesday'', ''wednesday'', ''thursday'', ''friday'', ''saturday'']"

definition month_name :: "string list" where
  "month_name = [''january'', ''february'', ''march'', ''april'', ''may'', ''june'', ''july'', ''august'',
     ''september'', ''october'', ''november'', ''december'']"

text \<open>A name in full or its first three letters, in any case; the index of the first that matches.\<close>

definition match_string :: "string \<Rightarrow> string \<Rightarrow> bool" where
  "match_string p inp \<longleftrightarrow> map lower_byte (take (length p) inp) = p"

fun match_name :: "string list \<Rightarrow> int \<Rightarrow> string \<Rightarrow> (int \<times> string) option" where
  "match_name [] i inp = None"
| "match_name (p # ps) i inp =
     (if match_string p inp then Some (i, drop (length p) inp)
      else if match_string (take 3 p) inp then Some (i, drop 3 inp)
      else match_name ps (i + 1) inp)"

text \<open>A number of at most \<open>n\<close> digits that does not exceed \<open>hi\<close>, behind any blanks.\<close>

fun number_digits :: "nat \<Rightarrow> int \<Rightarrow> int \<Rightarrow> string \<Rightarrow> int \<times> string" where
  "number_digits (Suc n) hi val (c # rp) =
     (if is_digit c \<and> val * 10 \<le> hi then number_digits n hi (val * 10 + digit_val c) rp else (val, c # rp))"
| "number_digits n hi val rp = (val, rp)"

definition get_number :: "int \<Rightarrow> int \<Rightarrow> nat \<Rightarrow> string \<Rightarrow> (int \<times> string) option" where
  "get_number lo hi n inp =
     (case dropWhile (\<lambda>c. c = SP) inp of
        [] \<Rightarrow> None
      | c # rp \<Rightarrow>
          if \<not> is_digit c then None
          else (let (val, rp') = number_digits (n - 1) hi (digit_val c) rp
                in if val < lo \<or> hi < val then None else Some (val, rp')))"

definition is_space :: "char \<Rightarrow> bool" where
  "is_space c \<longleftrightarrow> c \<in> {SP, CHR 0x09, LF, CHR 0x0B, CHR 0x0C, CR}"

definition conversion :: "char \<Rightarrow> string \<Rightarrow> tm \<Rightarrow> (tm \<times> string) option" where
  "conversion d rp ttm =
     (if d = CHR ''a'' \<or> d = CHR ''A'' then
        map_option (\<lambda>(i, r). (ttm\<lparr>tm_wday := i\<rparr>, r)) (match_name weekday_name 0 rp)
      else if d = CHR ''b'' then map_option (\<lambda>(i, r). (ttm\<lparr>tm_mon := i\<rparr>, r)) (match_name month_name 0 rp)
      else if d = CHR ''d'' then map_option (\<lambda>(v, r). (ttm\<lparr>tm_mday := v\<rparr>, r)) (get_number 1 31 2 rp)
      else if d = CHR ''m'' then map_option (\<lambda>(v, r). (ttm\<lparr>tm_mon := v - 1\<rparr>, r)) (get_number 1 12 2 rp)
      else if d = CHR ''Y'' then map_option (\<lambda>(v, r). (ttm\<lparr>tm_year := v - 1900\<rparr>, r)) (get_number 0 9999 4 rp)
      else if d = CHR ''y'' then
        map_option (\<lambda>(v, r). (ttm\<lparr>tm_year := (if v \<ge> 69 then v else v + 100)\<rparr>, r)) (get_number 0 99 2 rp)
      else if d = CHR ''H'' then map_option (\<lambda>(v, r). (ttm\<lparr>tm_hour := v\<rparr>, r)) (get_number 0 23 2 rp)
      else if d = CHR ''M'' then map_option (\<lambda>(v, r). (ttm\<lparr>tm_min := v\<rparr>, r)) (get_number 0 59 2 rp)
      else if d = CHR ''S'' then map_option (\<lambda>(v, r). (ttm\<lparr>tm_sec := v\<rparr>, r)) (get_number 0 61 2 rp)
      else None)"

text \<open>The broken-down time it leaves behind and whether it succeeded.\<close>

fun strptime :: "string \<Rightarrow> string \<Rightarrow> tm \<Rightarrow> tm \<times> bool" where
  "strptime rp [] ttm = (ttm, True)"
| "strptime rp (c # fmt) ttm =
     (if is_space c then strptime (dropWhile is_space rp) fmt ttm
      else if c = CHR ''%'' then
        (case fmt of
           [] \<Rightarrow> (ttm, False)
         | d # fmt' \<Rightarrow>
             (case conversion d rp ttm of
                None \<Rightarrow> (ttm, False)
              | Some (ttm', rp') \<Rightarrow> strptime rp' fmt' ttm'))
      else (case rp of
              [] \<Rightarrow> (ttm, False)
            | x # rp' \<Rightarrow> if x = c then strptime rp' fmt ttm else (ttm, False)))"

section \<open>The dates of responses and of the access log\<close>

definition months :: "string list" where
  "months = [''Jan'', ''Feb'', ''Mar'', ''Apr'', ''May'', ''Jun'', ''Jul'', ''Aug'', ''Sep'', ''Oct'', ''Nov'', ''Dec'']"

definition days :: "string list" where
  "days = [''Sun'', ''Mon'', ''Tue'', ''Wed'', ''Thu'', ''Fri'', ''Sat'']"

text \<open>
  How the configuration finds the distance to Greenwich: \<^verbatim>\<open>STRUCT_TM_TM_GMTOFF\<close>,
  \<^verbatim>\<open>HAVE_SCALAR_TIMEZONE\<close> with the value of \<^verbatim>\<open>timezone\<close>, or the comparison of \<^verbatim>\<open>gmtime\<close> and \<^verbatim>\<open>localtime\<close>.
\<close>

datatype diff_source = Tm_gmtoff | Scalar_timezone int | Compare_times

definition minutes_between :: "tm \<Rightarrow> tm \<Rightarrow> int" where
  "minutes_between t gmt =
     (let dd = tm_yday t - tm_yday gmt;
          hours = (if dd < - 1 then 24 else if 1 < dd then - 24 else dd * 24) + tm_hour t - tm_hour gmt
      in hours * 60 + tm_min t - tm_min gmt)"

text \<open>
  The struct \<^verbatim>\<open>tm\<close> and the minutes \<^verbatim>\<open>diff\<close>, for the \<open>tm\<close> the function filled before. In the last case
  \<^verbatim>\<open>tm\<close>, \<^verbatim>\<open>gmt\<close> and \<^verbatim>\<open>t\<close> are one object (\<^verbatim>\<open>scratchpad_get\<close> returns the buffer's start at every call, and the
  functions without \<^verbatim>\<open>_r\<close> share a static one), so each call overwrites the one before.
\<close>

definition tm_and_diff :: "diff_source \<Rightarrow> int \<Rightarrow> int \<Rightarrow> tm \<Rightarrow> tm \<times> int" where
  "tm_and_diff src off t tm =
     (case src of
        Tm_gmtoff \<Rightarrow> (tm, cdiv (- tm_gmtoff tm) 60)
      | Scalar_timezone tz \<Rightarrow> (tm, cdiv (- tz) 60)
      | Compare_times \<Rightarrow>
          (let pad = gmtime t; pad = localtime off t in (pad, - minutes_between pad pad)))"

text \<open>\<^verbatim>\<open>snprintf(date, sizeof date, ...)\<close> behind its check, for a buffer of \<open>n\<close> bytes.\<close>

definition snprintf_result :: "nat \<Rightarrow> string \<Rightarrow> svalue" where
  "snprintf_result n s = (if length s = n then SInt 0 else SString (take (n - 1) s))"

definition strftime_result :: "nat \<Rightarrow> string \<Rightarrow> svalue" where
  "strftime_result n s = (if length s \<noteq> n - 1 then SInt 0 else SString s)"

definition nth_name :: "string list \<Rightarrow> int \<Rightarrow> string" where
  "nth_name ns i = ns ! nat i"

definition http_date_text :: "tm \<Rightarrow> int \<Rightarrow> int \<Rightarrow> string" where
  "http_date_text tm hour minute =
     nth_name days (tm_wday tm) @ '', '' @ show_02d (tm_mday tm) @ '' '' @ nth_name months (tm_mon tm) @ '' '' @
     show_d (tm_year tm + 1900) @ '' '' @ show_02d hour @ '':'' @ show_02d minute @ '':'' @
     show_02d (tm_sec tm) @ '' GMT''"

text \<open>\<^verbatim>\<open>http_date\<close>: without and with \<^verbatim>\<open>STRFTIME_SUPPORTS_Z\<close>.\<close>

definition f_http_date_snprintf :: "diff_source \<Rightarrow> int \<Rightarrow> int \<Rightarrow> svalue" where
  "f_http_date_snprintf src off t =
     (let (tm, diff) = tm_and_diff src off t (gmtime t);
          diff = (if diff \<le> 0 then - diff else diff);
          hour = tm_hour tm - cdiv diff 60;
          hour = (if hour < 0 then 24 + hour else hour)
      in snprintf_result 30 (http_date_text tm hour (tm_min tm - cmod diff 60)))"

definition f_http_date :: "int \<Rightarrow> svalue" where
  "f_http_date t = (let tm = gmtime t in strftime_result 30 (http_date_text tm (tm_hour tm) (tm_min tm)))"

definition cern_date_text :: "tm \<Rightarrow> string \<Rightarrow> string" where
  "cern_date_text tm zone =
     show_02d (tm_mday tm) @ ''/'' @ nth_name months (tm_mon tm) @ ''/'' @ show_d (tm_year tm + 1900) @ '':'' @
     show_02d (tm_hour tm) @ '':'' @ show_02d (tm_min tm) @ '':'' @ show_02d (tm_sec tm) @ '' '' @ zone"

text \<open>\<^verbatim>\<open>%z\<close> prints \<open>100 * hours + minutes\<close> of the offset in at least four digits.\<close>

definition strftime_z :: "tm \<Rightarrow> string" where
  "strftime_z tm =
     (let diff = cdiv (tm_gmtoff tm) 60; a = \<bar>diff\<bar>
      in (if tm_gmtoff tm < 0 then ''-'' else ''+'') @ show_02d (a div 60) @ show_02d (a mod 60))"

definition f_cern_http_date_snprintf :: "diff_source \<Rightarrow> int \<Rightarrow> int \<Rightarrow> svalue" where
  "f_cern_http_date_snprintf src off t =
     (let (tm, diff) = tm_and_diff src off t (localtime off t);
          (sgn, diff) = (if diff > 0 then (''-'', diff) else (''+'', - diff))
      in snprintf_result 27 (cern_date_text tm (sgn @ show_02d (cdiv diff 60) @ show_02d (cmod diff 60))))"

definition f_cern_http_date :: "int \<Rightarrow> int \<Rightarrow> svalue" where
  "f_cern_http_date off t =
     (let tm = localtime off t in strftime_result 27 (cern_date_text tm (strftime_z tm)))"

section \<open>The functions of datetime.c\<close>

definition is_modified_formats :: "(string \<times> bool) list" where
  "is_modified_formats =
     [(''%a, %d %b %Y %H:%M:%S'', False),
      (''%A, %d %b %y %H:%M:%S'', False),
      (''%a %b %d %H:%M:%S %Y'', False),
      (''%d-%m-%Y %H:%M:%S'', True),
      (''%d-%m-%y %H:%M:%S'', True),
      (''%a, %d %b %y %H:%M:%S'', True),
      (''%a %b %d %H:%M:%S %y'', True),
      (''%d %b %Y %H:%M:%S'', True),
      (''%d %b %Y %H:%M:%S'', True),
      (''%d %b %y %H:%M:%S'', True)]"

text \<open>The loop over the formats; all attempts write to one struct.\<close>

fun try_formats :: "bool \<Rightarrow> string \<Rightarrow> (string \<times> bool) list \<Rightarrow> tm \<Rightarrow> tm option" where
  "try_formats use_weird header [] ttm = None"
| "try_formats use_weird header ((fmt, is_anal) # fs) ttm =
     (if \<not> is_anal \<or> use_weird then
        (let (ttm', ok) = strptime header fmt ttm
         in if ok then Some ttm' else try_formats use_weird header fs ttm')
      else try_formats use_weird header fs ttm)"

definition fix_year :: "tm \<Rightarrow> tm" where
  "fix_year ttm =
     (if tm_year ttm < 100 then
        (if tm_year ttm \<le> 68 then ttm\<lparr>tm_year := tm_year ttm + 2000\<rparr>
         else ttm\<lparr>tm_year := tm_year ttm + 1900\<rparr>)
      else ttm)"

definition compare_tmod :: "int \<Rightarrow> int \<Rightarrow> int" where
  "compare_tmod tmod ret = (if ret < 0 then - 1 else if tmod > ret then 0 else 1)"

text \<open>
  \<^verbatim>\<open>is_modified\<close> with \<^verbatim>\<open>strptime\<close> and without; \<open>ttm\<close> is what the uninitialised struct holds. No format
  sets \<^verbatim>\<open>tm_isdst\<close>, so \<^verbatim>\<open>mktime\<close> reads what \<open>ttm\<close> has there.
\<close>

definition f_is_modified :: "zone_rule \<Rightarrow> tm \<Rightarrow> string \<Rightarrow> int \<Rightarrow> bool \<Rightarrow> int" where
  "f_is_modified z ttm header tmod use_weird =
     (case try_formats use_weird (cstr header) is_modified_formats ttm of
        None \<Rightarrow> - 1
      | Some ttm' \<Rightarrow> compare_tmod tmod (mktime_in z (fix_year ttm')))"

definition f_is_modified_get_date :: "(string \<Rightarrow> int) \<Rightarrow> string \<Rightarrow> int \<Rightarrow> int" where
  "f_is_modified_get_date get_date header tmod = compare_tmod tmod (get_date (cstr header))"

definition f_parse_date :: "(string \<Rightarrow> int) \<Rightarrow> string \<Rightarrow> svalue" where
  "f_parse_date get_date date =
     (let ret = get_date (cstr date)
      in if ret < 0 then SString ''Bad date format. Could not convert.'' else SInt ret)"

text \<open>
  \<^verbatim>\<open>strptime\<close> of the module ignores whether the format matched; \<open>strp\<close> is the C function on all
  formats.
\<close>

definition f_strptime :: "(string \<Rightarrow> string \<Rightarrow> tm \<Rightarrow> tm \<times> bool) \<Rightarrow> zone_rule \<Rightarrow> tm \<Rightarrow> string \<Rightarrow> string \<Rightarrow> int" where
  "f_strptime strp z ttm date format = mktime_in z (fst (strp (cstr date) (cstr format) ttm))"

text \<open>\<^verbatim>\<open>strftime\<close>: the checks of the format's length; \<open>strf\<close> is the C function on a buffer of 1024 bytes.\<close>

definition f_strftime :: "(nat \<Rightarrow> string \<Rightarrow> tm \<Rightarrow> string) \<Rightarrow> int \<Rightarrow> string \<Rightarrow> int \<Rightarrow> string res" where
  "f_strftime strf off format timestamp =
     (if length format > 1023 then Inl (Pike_error ''_Caudium.strftime(): Out of length in arg 1'')
      else if length format = 0 then Inl (Pike_error ''_Caudium.strftime(): Empty string in arg 1'')
      else Inr (cstr (strf 1024 (cstr format) (localtime off timestamp))))"

definition getdate_errors :: "string list" where
  "getdate_errors =
     [''Unknown getdate error code.'',
      ''The DATEMSK environment variable is null or undefined.'',
      ''The template file cannot be opened for reading.'',
      ''Failed to get file status information.'',
      ''The template file is not a regular file.'',
      ''An error is encountered while reading the template file.'',
      ''Memory allocation failed (not enough memory available).'',
      ''There is no line in the file that matches the input.'',
      ''Invalid input specification.'']"

text \<open>
  \<^verbatim>\<open>getdate\<close>: the index check compares with the size of the table in bytes, \<open>ptr\<close> bytes a
  pointer; a larger index that passes it reads behind the table.
\<close>

definition getdate_error :: "nat \<Rightarrow> int \<Rightarrow> (int \<times> string) res" where
  "getdate_error ptr err =
     (if (if err < 0 then err + 2 ^ 32 else err) > int (9 * ptr) - 1 \<or> err < 1 then Inr (err, getdate_errors ! 0)
      else if nat err < length getdate_errors then Inr (err, getdate_errors ! nat err)
      else Inl Out_of_bounds)"

definition f_getdate :: "nat \<Rightarrow> zone_rule \<Rightarrow> (string \<Rightarrow> int \<times> tm option) \<Rightarrow> string \<Rightarrow> (int + int \<times> string) res" where
  "f_getdate ptr z getdate date =
     (let (err, tmptr) = getdate (cstr date)
      in case tmptr of
           None \<Rightarrow> map_sum id Inr (getdate_error ptr err)
         | Some ttm \<Rightarrow>
             if err \<noteq> 0 then map_sum id Inr (getdate_error ptr err)
             else (let ret = mktime_in z ttm
                   in if ret \<ge> 0 then Inr (Inl ret) else Inr (Inr (8, getdate_errors ! 8))))"

section \<open>Calendar arithmetic\<close>

lemma div_plus_one: "0 < k \<Longrightarrow> (a + 1) div k = a div k + (if (a + 1) mod k = 0 then 1 else 0)" for a k :: int
proof -
  assume k: "0 < k"
  define q r where "q = a div k" and "r = a mod k"
  have a: "a = k * q + r" "0 \<le> r" "r < k" using k by (auto simp: q_def r_def)
  show ?thesis
  proof (cases "r + 1 = k")
    case True
    then have "a + 1 = k * (q + 1)" using a by (simp add: algebra_simps)
    then show ?thesis using k by (simp add: q_def)
  next
    case False
    then have r: "r + 1 < k" "0 \<le> r + 1" "a + 1 = k * q + (r + 1)" using a by auto
    have "(a + 1) div k = q" by (rule int_div_pos_eq [OF r(3) r(2) r(1)])
    moreover have "(a + 1) mod k = r + 1" by (rule int_mod_pos_eq [OF r(3) r(2) r(1)])
    ultimately show ?thesis using a(2) by (simp add: q_def)
  qed
qed

lemma days_before_year_Suc: "days_before_year (y + 1) = days_before_year y + year_days y"
proof -
  have "(y - 1968) div 4 = (y - 1969) div 4 + (if y mod 4 = 0 then 1 else 0)"
    using div_plus_one [of 4 "y - 1969"] mod_mult_self1 [of y "- 492" 4] by simp
  moreover have "(y - 1900) div 100 = (y - 1901) div 100 + (if y mod 100 = 0 then 1 else 0)"
    using div_plus_one [of 100 "y - 1901"] mod_mult_self1 [of y "- 19" 100] by simp
  moreover have "(y - 1600) div 400 = (y - 1601) div 400 + (if y mod 400 = 0 then 1 else 0)"
    using div_plus_one [of 400 "y - 1601"] mod_mult_self1 [of y "- 4" 400] by simp
  moreover have "y mod 400 = 0 \<Longrightarrow> y mod 100 = 0" "y mod 100 = 0 \<Longrightarrow> y mod 4 = 0" by presburger+
  moreover have "days_before_year (y + 1) =
      365 * (y - 1970) + 365 + (y - 1968) div 4 - (y - 1900) div 100 + (y - 1600) div 400"
    by (simp add: days_before_year_def)
  ultimately show ?thesis
    unfolding days_before_year_def [of y] year_days_def is_leap_def by (smt (verit))
qed

lemma year_days_pos: "365 \<le> year_days y"
  by (simp add: year_days_def)

lemma days_before_year_mono: "y \<le> z \<Longrightarrow> days_before_year y \<le> days_before_year z"
proof (induction z rule: int_ge_induct)
  case (step z)
  then show ?case using days_before_year_Suc [of z] year_days_pos [of z] by simp
qed simp

lemma find_year_days:
  "find_year d y = (y', d') \<Longrightarrow> days_before_year y' + d' = days_before_year y + d \<and> 0 \<le> d' \<and> d' < year_days y'"
proof (induction d y arbitrary: y' d' rule: find_year.induct)
  case (1 d y)
  consider "d < 0" | "0 \<le> d" "d < year_days y" | "0 \<le> d" "\<not> d < year_days y" by linarith
  then show ?case
  proof cases
    case 1
    then have "find_year (d + year_days (y - 1)) (y - 1) = (y', d')"
      using "1.prems" by (simp add: find_year.simps [of d y])
    from "1.IH"(1) [OF \<open>d < 0\<close> this] show ?thesis using days_before_year_Suc [of "y - 1"] by simp
  next
    case 2
    then show ?thesis using "1.prems" by (auto simp: find_year.simps [of d y])
  next
    case 3
    then have "find_year (d - year_days y) (y + 1) = (y', d')"
      using "1.prems" by (simp add: find_year.simps [of d y])
    from "1.IH"(2) [OF _ _ this] 3 show ?thesis using days_before_year_Suc [of y] by simp
  qed
qed

lemma find_month_days:
  "find_month d ls m = (m', d') \<Longrightarrow> 0 \<le> d \<Longrightarrow> d < sum_list ls \<Longrightarrow>
     \<exists>k < length ls. m' = m + int k \<and> sum_list (take k ls) + d' = d \<and> 0 \<le> d' \<and> d' < ls ! k"
proof (induction d ls m arbitrary: m' d' rule: find_month.induct)
  case (2 d l ls m)
  show ?case
  proof (cases "d < l")
    case True
    then show ?thesis using "2.prems" by (intro exI [of _ 0]) auto
  next
    case False
    with "2.prems" have "find_month (d - l) ls (m + 1) = (m', d')" "0 \<le> d - l" "d - l < sum_list ls" by auto
    from "2.IH" [OF False this] obtain k where "k < length ls" "m' = m + 1 + int k"
      "sum_list (take k ls) + d' = d - l" "0 \<le> d'" "d' < ls ! k" by blast
    then show ?thesis by (intro exI [of _ "Suc k"]) auto
  qed
qed simp

lemma sum_month_lengths: "sum_list (month_lengths y) = year_days y"
  by (simp add: month_lengths_def year_days_def)

lemma month_lengths_le: "k < 12 \<Longrightarrow> month_lengths y ! k \<le> 31"
  by (auto simp: month_lengths_def nth_Cons split: nat.splits)

text \<open>What \<open>localtime\<close> computes: all fields in range and \<open>mktime\<close> inverts it.\<close>

definition tm_ok :: "tm \<Rightarrow> bool" where
  "tm_ok tm \<longleftrightarrow> 0 \<le> tm_sec tm \<and> tm_sec tm < 60 \<and> 0 \<le> tm_min tm \<and> tm_min tm < 60 \<and>
     0 \<le> tm_hour tm \<and> tm_hour tm < 24 \<and> 1 \<le> tm_mday tm \<and> tm_mday tm \<le> 31 \<and>
     0 \<le> tm_mon tm \<and> tm_mon tm < 12 \<and> 0 \<le> tm_wday tm \<and> tm_wday tm < 7"

lemma localtime_days:
  obtains yd m d where "find_year ((t + off) div 86400) 1970 = (tm_year (localtime off t) + 1900, yd)"
    "find_month yd (month_lengths (tm_year (localtime off t) + 1900)) 0 = (m, d)"
    "tm_mon (localtime off t) = m" "tm_mday (localtime off t) = d + 1"
    "tm_hour (localtime off t) = (t + off) mod 86400 div 3600"
    "tm_min (localtime off t) = (t + off) mod 86400 div 60 mod 60"
    "tm_sec (localtime off t) = (t + off) mod 86400 mod 60"
    "tm_wday (localtime off t) = ((t + off) div 86400 + 4) mod 7" "tm_gmtoff (localtime off t) = off"
proof -
  obtain y yd where y: "find_year ((t + off) div 86400) 1970 = (y, yd)" by fastforce
  obtain m d where m: "find_month yd (month_lengths y) 0 = (m, d)" by fastforce
  have lt: "localtime off t =
      \<lparr>tm_sec = (t + off) mod 86400 mod 60, tm_min = (t + off) mod 86400 div 60 mod 60,
        tm_hour = (t + off) mod 86400 div 3600, tm_mday = d + 1, tm_mon = m, tm_year = y - 1900,
        tm_wday = ((t + off) div 86400 + 4) mod 7, tm_yday = yd, tm_isdst = 0, tm_gmtoff = off\<rparr>"
    unfolding localtime_def Let_def y m prod.case by (rule refl)
  have "y - 1900 + 1900 = y" by simp
  with that [of yd m d, unfolded lt tm.simps] y m show ?thesis by simp
qed

lemma localtime_ok: "tm_ok (localtime off t)"
  and mktime_localtime: "mktime off' (localtime off t) = t + off - off'"
  and localtime_year: "days_before_year (tm_year (localtime off t) + 1900) \<le> (t + off) div 86400"
    "(t + off) div 86400 < days_before_year (tm_year (localtime off t) + 1901)"
proof -
  define y where "y = tm_year (localtime off t) + 1900"
  obtain yd m d where f: "find_year ((t + off) div 86400) 1970 = (y, yd)"
    "find_month yd (month_lengths y) 0 = (m, d)"
    and tm: "tm_mon (localtime off t) = m" "tm_mday (localtime off t) = d + 1"
    "tm_hour (localtime off t) = (t + off) mod 86400 div 3600"
    "tm_min (localtime off t) = (t + off) mod 86400 div 60 mod 60"
    "tm_sec (localtime off t) = (t + off) mod 86400 mod 60"
    "tm_wday (localtime off t) = ((t + off) div 86400 + 4) mod 7"
    unfolding y_def by (rule localtime_days)
  have y: "days_before_year y + yd = (t + off) div 86400" "0 \<le> yd" "yd < year_days y"
    using find_year_days [OF f(1)] by (auto simp: days_before_year_def)
  obtain k where k: "k < 12" "m = int k" "sum_list (take k (month_lengths y)) + d = yd" "0 \<le> d"
    "d < month_lengths y ! k"
    using find_month_days [OF f(2)] y by (auto simp: sum_month_lengths) (auto simp: month_lengths_def)
  define s where "s = (t + off) mod 86400"
  have s: "0 \<le> s" "s < 86400" by (auto simp: s_def)
  have "s div 3600 \<le> 86399 div 3600" using s by (intro zdiv_mono1) auto
  moreover have "0 \<le> s div 3600" using s by simp
  ultimately have "0 \<le> s div 3600" "s div 3600 < 24" by auto
  then show "tm_ok (localtime off t)"
    using k month_lengths_le [OF k(1), of y] unfolding tm_ok_def tm s_def [symmetric] by simp
  have "3600 * (s div 3600) + 60 * (s div 60 mod 60) + s mod 60 = s"
  proof -
    have "s div 3600 = s div 60 div 60" using zdiv_zmult2_eq [of 60 s 60] by auto
    then show ?thesis using mult_div_mod_eq [of 60 s] mult_div_mod_eq [of 60 "s div 60"] by linarith
  qed
  then have "86400 * ((t + off) div 86400) + 3600 * (s div 3600) + 60 * (s div 60 mod 60) + s mod 60 = t + off"
    using mult_div_mod_eq [of 86400 "t + off"] unfolding s_def by linarith
  then show "mktime off' (localtime off t) = t + off - off'"
    using k y unfolding mktime_def tm y_def [symmetric] s_def [symmetric] by simp
  show "days_before_year (tm_year (localtime off t) + 1900) \<le> (t + off) div 86400"
    using y by (simp add: y_def [symmetric])
  have e: "tm_year (localtime off t) + 1901 = y + 1" by (simp add: y_def)
  show "(t + off) div 86400 < days_before_year (tm_year (localtime off t) + 1901)"
    unfolding e using y days_before_year_Suc [of y] by linarith
qed

section \<open>Printing and scanning\<close>

lemma code_digit: "code_of (digit n) = 48 + n mod 10"
  by (simp add: digit_def)

lemma digit_props [simp]:
  "is_digit (digit n)" "digit_val (digit n) = int (n mod 10)" "\<not> is_space (digit n)" "digit n \<noteq> SP"
  "digit n \<noteq> NUL" "digit n \<noteq> CHR ''-''"
proof -
  have c: "code_of (digit n) = 48 + n mod 10" by (rule code_digit)
  then show "is_digit (digit n)" "digit_val (digit n) = int (n mod 10)" by (auto simp: is_digit_def digit_val_def)
  have "x = digit n \<Longrightarrow> 48 \<le> code_of x" for x using c by simp
  then show "\<not> is_space (digit n)" "digit n \<noteq> SP" "digit n \<noteq> NUL" "digit n \<noteq> CHR ''-''"
    by (force simp: is_space_def)+
qed

lemma show_02d_digits: "0 \<le> v \<Longrightarrow> v < 100 \<Longrightarrow> show_02d v = [digit (nat v div 10), digit (nat v)]"
  by (auto simp: show_02d_def show_d_def show_nat.simps digit_def bytes_simp)

lemma show_d_four:
  assumes "1000 \<le> v" "v < 10000"
  shows "show_d v = [digit (nat v div 1000), digit (nat v div 100), digit (nat v div 10), digit (nat v)]"
proof -
  have n: "1000 \<le> nat v" "nat v < 10000" using assms by auto
  then have "\<not> nat v < 10" "\<not> nat v div 10 < 10" "\<not> nat v div 10 div 10 < 10" "nat v div 10 div 10 div 10 < 10"
    by auto
  then show ?thesis
    using assms by (simp add: show_d_def show_nat.simps [of "nat v"] show_nat.simps [of "nat v div 10"]
        show_nat.simps [of "nat v div 100"] show_nat.simps [of "nat v div 1000"] div_mult2_eq [symmetric])
qed

lemma get_number_02d:
  assumes "0 \<le> v" "v < 100" "lo \<le> v" "v \<le> hi"
  shows "get_number lo hi 2 (show_02d v @ r) = Some (v, r)"
proof -
  have v: "int (nat v div 10 mod 10) * 10 + int (nat v mod 10) = v"
  proof -
    have "nat v div 10 < 10" using assms by auto
    then have "nat v div 10 mod 10 * 10 + nat v mod 10 = nat v" by simp
    then show ?thesis using assms(1) by linarith
  qed
  moreover have "int (nat v div 10 mod 10) * 10 \<le> hi" using v assms by linarith
  ultimately show ?thesis
    using assms by (simp add: show_02d_digits get_number_def numeral_2_eq_2 Let_def)
qed

lemma get_number_year:
  assumes "1000 \<le> v" "v < 10000"
  shows "get_number 0 9999 4 (show_d v @ r) = Some (v, r)"
proof -
  define n where "n = nat v"
  have n: "1000 \<le> n" "n < 10000" "int n = v" using assms by (auto simp: n_def)
  define a b c d where "a = n div 1000 mod 10" and "b = n div 100 mod 10" and "c = n div 10 mod 10" and "d = n mod 10"
  have s: "a * 1000 + b * 100 + c * 10 + d = n"
  proof -
    have "a = n div 1000" using n by (auto simp: a_def)
    moreover have "n = 10 * (n div 10) + d" "n div 10 = 10 * (n div 100) + c" "n div 100 = 10 * (n div 1000) + b"
      using mult_div_mod_eq [of 10 n] mult_div_mod_eq [of 10 "n div 10"] mult_div_mod_eq [of 10 "n div 100"]
      by (simp_all add: b_def c_def d_def div_mult2_eq [symmetric])
    ultimately show ?thesis by linarith
  qed
  then have v: "((int a * 10 + int b) * 10 + int c) * 10 + int d = v" using n(3) [symmetric] by simp
  have show_v: "show_d v = [digit (n div 1000), digit (n div 100), digit (n div 10), digit n]"
    using show_d_four [OF assms] by (simp add: n_def)
  have "a < 10" "b < 10" "c < 10" "d < 10" by (simp_all add: a_def b_def c_def d_def)
  then have "int a * 10 \<le> 9999" by simp
  moreover have "1000 * int a + 100 * int b + 10 * int c + int d < 10000" using v assms(2) by simp
  then have "(int a * 10 + int b) * 10 \<le> 9999" "((int a * 10 + int b) * 10 + int c) * 10 \<le> 9999"
    by (simp_all add: algebra_simps)
  moreover have dv: "digit_val (digit (n div 1000)) = int a" "digit_val (digit (n div 100)) = int b"
    "digit_val (digit (n div 10)) = int c" "digit_val (digit n) = int d"
    by (simp_all add: a_def b_def c_def d_def)
  ultimately have "number_digits (Suc (Suc (Suc 0))) 9999 (int a)
      (digit (n div 100) # digit (n div 10) # digit n # r) = (v, r)"
    by (simp only: number_digits.simps dv digit_props v simp_thms if_True)
  then have "number_digits (4 - 1) 9999 (int a) (digit (n div 100) # digit (n div 10) # digit n # r) = (v, r)"
    by (simp add: numeral_3_eq_3)
  then show ?thesis
    using assms dv unfolding get_number_def show_v by (simp del: digit_props(2))
qed

lemma less_seven_cases: "0 \<le> i \<Longrightarrow> i < 7 \<Longrightarrow> i = 0 \<or> i = 1 \<or> i = 2 \<or> i = 3 \<or> i = 4 \<or> i = 5 \<or> i = (6::int)"
  by arith

lemma less_twelve_cases:
  "0 \<le> i \<Longrightarrow> i < 12 \<Longrightarrow>
     i = 0 \<or> i = 1 \<or> i = 2 \<or> i = 3 \<or> i = 4 \<or> i = 5 \<or> i = 6 \<or> i = 7 \<or> i = 8 \<or> i = 9 \<or> i = 10 \<or> i = (11::int)"
  by arith

lemma match_weekday:
  "0 \<le> i \<Longrightarrow> i < 7 \<Longrightarrow> match_name weekday_name 0 (nth_name days i @ '','' @ r) = Some (i, '','' @ r)"
  by (drule (1) less_seven_cases, elim disjE)
    (simp_all add: nth_name_def days_def weekday_name_def match_string_def bytes_simp)

lemma match_month:
  "0 \<le> i \<Longrightarrow> i < 12 \<Longrightarrow> match_name month_name 0 (nth_name months i @ '' '' @ r) = Some (i, '' '' @ r)"
  by (drule (1) less_twelve_cases, elim disjE)
    (simp_all add: nth_name_def months_def month_name_def match_string_def bytes_simp)

lemma day_name_ok: "0 \<le> i \<Longrightarrow> i < 7 \<Longrightarrow> length (nth_name days i) = 3 \<and> NUL \<notin> set (nth_name days i)"
  by (drule (1) less_seven_cases, elim disjE) (simp_all add: nth_name_def days_def)

lemma month_name_ok: "0 \<le> i \<Longrightarrow> i < 12 \<Longrightarrow> length (nth_name months i) = 3 \<and> NUL \<notin> set (nth_name months i)"
  by (drule (1) less_twelve_cases, elim disjE) (simp_all add: nth_name_def months_def)

lemma is_space_simps [simp]:
  "is_space SP" "\<not> is_space (CHR '','')" "\<not> is_space (CHR '':'')" "\<not> is_space (CHR ''%'')" "\<not> is_space (CHR ''-'')"
  by (simp_all add: is_space_def)

lemma dropWhile_show_02d: "0 \<le> v \<Longrightarrow> v < 100 \<Longrightarrow> dropWhile is_space (show_02d v @ r) = show_02d v @ r"
  by (simp add: show_02d_digits)

lemma dropWhile_show_d: "1000 \<le> v \<Longrightarrow> v < 10000 \<Longrightarrow> dropWhile is_space (show_d v @ r) = show_d v @ r"
  by (simp add: show_d_four)

lemma dropWhile_month:
  "0 \<le> i \<Longrightarrow> i < 12 \<Longrightarrow> dropWhile is_space (nth_name months i @ r) = nth_name months i @ r"
  by (drule (1) less_twelve_cases, elim disjE) (simp_all add: nth_name_def months_def is_space_def)

lemmas date_tokens = get_number_02d get_number_year match_weekday [simplified] match_month [simplified]
  dropWhile_show_02d dropWhile_show_d dropWhile_month

text \<open>The first format reads what \<open>http_date_text\<close> writes.\<close>

lemma strptime_http_date:
  assumes ok: "tm_ok tm" and y: "- 900 \<le> tm_year tm" "tm_year tm < 8100"
  shows "strptime (http_date_text tm (tm_hour tm) (tm_min tm)) ''%a, %d %b %Y %H:%M:%S'' ttm =
    (ttm\<lparr>tm_wday := tm_wday tm, tm_mday := tm_mday tm, tm_mon := tm_mon tm, tm_year := tm_year tm,
      tm_hour := tm_hour tm, tm_min := tm_min tm, tm_sec := tm_sec tm\<rparr>, True)"
proof -
  have y': "1000 \<le> tm_year tm + 1900" "tm_year tm + 1900 < 10000" using y by auto
  show ?thesis
    using ok y' by (simp add: http_date_text_def conversion_def date_tokens tm_ok_def)
qed

lemma http_date_text_length:
  assumes "tm_ok tm" "- 900 \<le> tm_year tm" "tm_year tm < 8100"
  shows "length (http_date_text tm (tm_hour tm) (tm_min tm)) = 29"
    and "NUL \<notin> set (http_date_text tm (tm_hour tm) (tm_min tm))"
  using assms day_name_ok [of "tm_wday tm"] month_name_ok [of "tm_mon tm"]
  by (auto simp: http_date_text_def tm_ok_def show_02d_digits show_d_four dest: sym)

lemma mktime_in_cong:
  assumes "tm_year a = tm_year b" "tm_mon a = tm_mon b" "tm_mday a = tm_mday b" "tm_hour a = tm_hour b"
    "tm_min a = tm_min b" "tm_sec a = tm_sec b" "tm_isdst a = tm_isdst b"
  shows "mktime_in z a = mktime_in z b"
proof -
  have "mktime off a = mktime off b" for off using assms(1-6) by (simp add: mktime_def)
  then show ?thesis using assms(7) by (simp add: mktime_in_def summer_fields_def)
qed

lemma f_is_modified_http_date:
  assumes "tm_ok tm" "- 900 \<le> tm_year tm" "tm_year tm < 8100"
  shows "f_is_modified z ttm (http_date_text tm (tm_hour tm) (tm_min tm)) tmod use_weird =
    compare_tmod tmod (mktime_in z ((fix_year tm)\<lparr>tm_isdst := tm_isdst ttm\<rparr>))"
proof -
  define ttm' where "ttm' = ttm\<lparr>tm_wday := tm_wday tm, tm_mday := tm_mday tm, tm_mon := tm_mon tm,
    tm_year := tm_year tm, tm_hour := tm_hour tm, tm_min := tm_min tm, tm_sec := tm_sec tm\<rparr>"
  have "mktime_in z (fix_year ttm') = mktime_in z ((fix_year tm)\<lparr>tm_isdst := tm_isdst ttm\<rparr>)"
    by (rule mktime_in_cong) (simp_all add: ttm'_def fix_year_def)
  moreover have "try_formats use_weird (http_date_text tm (tm_hour tm) (tm_min tm)) is_modified_formats ttm = Some ttm'"
    using strptime_http_date [OF assms, of ttm] unfolding is_modified_formats_def ttm'_def
    by (simp only: try_formats.simps Let_def prod.case simp_thms if_True)
  ultimately show ?thesis using http_date_text_length(2) [OF assms] by (simp add: f_is_modified_def cstr_id)
qed

lemma localtime_year_bounds:
  "days_before_year lo * 86400 \<le> t + off \<Longrightarrow> lo - 1900 \<le> tm_year (localtime off t)"
  "t + off < days_before_year hi * 86400 \<Longrightarrow> tm_year (localtime off t) < hi - 1900"
proof -
  assume "days_before_year lo * 86400 \<le> t + off"
  then have "days_before_year lo \<le> (t + off) div 86400"
    using zdiv_mono1 [of "days_before_year lo * 86400" "t + off" 86400] by simp
  then show "lo - 1900 \<le> tm_year (localtime off t)"
    using localtime_year(2) [of t off] days_before_year_mono [of "tm_year (localtime off t) + 1901" lo] by linarith
next
  assume t: "t + off < days_before_year hi * 86400"
  have "(t + off) div 86400 * 86400 \<le> t + off"
    using mult_div_mod_eq [of 86400 "t + off"] pos_mod_sign [of 86400 "t + off"] by linarith
  with t have "(t + off) div 86400 < days_before_year hi" by linarith
  then show "tm_year (localtime off t) < hi - 1900"
    using localtime_year(1) [of off t] days_before_year_mono [of hi "tm_year (localtime off t) + 1900"] by linarith
qed

lemma days_before_years:
  "days_before_year 1000 = - 354285" "days_before_year 1900 = - 25567" "days_before_year 1970 = 0"
  "days_before_year 2000 = 10957" "days_before_year 10000 = 2932897" "days_before_year 3870 = 693961"
  by (simp_all add: days_before_year_def)

lemma f_http_date_eq:
  assumes "- 30610224000 \<le> t" "t < 253402300800"
  shows "f_http_date t = SString (http_date_text (gmtime t) (tm_hour (gmtime t)) (tm_min (gmtime t)))"
    and "- 900 \<le> tm_year (gmtime t) \<and> tm_year (gmtime t) < 8100 \<and> tm_ok (gmtime t)"
proof -
  show y: "- 900 \<le> tm_year (gmtime t) \<and> tm_year (gmtime t) < 8100 \<and> tm_ok (gmtime t)"
    using localtime_year_bounds(1) [of 1000 t 0] localtime_year_bounds(2) [of t 0 10000] assms
    by (simp add: days_before_years gmtime_def localtime_ok)
  then show "f_http_date t = SString (http_date_text (gmtime t) (tm_hour (gmtime t)) (tm_min (gmtime t)))"
    using http_date_text_length(1) [of "gmtime t"] by (simp add: f_http_date_def strftime_result_def Let_def)
qed

text \<open>No format gets past the first hyphen of an RFC 850 date.\<close>

definition rfc850_weekday :: "string list" where
  "rfc850_weekday = [''Sunday'', ''Monday'', ''Tuesday'', ''Wednesday'', ''Thursday'', ''Friday'', ''Saturday'']"

lemma match_rfc850_weekday:
  "i < 7 \<Longrightarrow> match_name weekday_name 0 (rfc850_weekday ! i @ '','' @ r) = Some (int i, '','' @ r)"
proof -
  assume "i < 7"
  then have "i \<in> {0, 1, 2, 3, 4, 5, 6}" by auto
  then show ?thesis
    by (elim insertE emptyE) (simp_all add: rfc850_weekday_def weekday_name_def match_string_def bytes_simp)
qed

lemma match_month_no_letter:
  "match_name month_name 0 (CHR ''-'' # r) = None" "match_name month_name 0 (CHR '','' # r) = None"
  by (simp_all add: month_name_def match_string_def lower_byte_def)

lemma get_number_letter:
  "i < 7 \<Longrightarrow> get_number lo hi n (rfc850_weekday ! i @ r) = None"
proof -
  assume "i < 7"
  then have "i \<in> {0, 1, 2, 3, 4, 5, 6}" by auto
  then show ?thesis
    by (elim insertE emptyE) (simp_all add: rfc850_weekday_def get_number_def is_digit_def)
qed

lemma try_formats_rfc850:
  assumes "i < 7" "1 \<le> d" "d \<le> 31"
  shows "try_formats use_weird (rfc850_weekday ! i @ '', '' @ show_02d d @ CHR ''-'' # r) is_modified_formats ttm = None"
proof -
  have d: "0 \<le> d" "d < 100" using assms by auto
  have h: "\<not> is_space (CHR ''-'')" by simp
  show ?thesis
    using assms match_rfc850_weekday [OF assms(1), simplified] get_number_letter [OF assms(1)] d
    by (simp add: is_modified_formats_def conversion_def get_number_02d dropWhile_show_02d match_month_no_letter)
qed

lemma cdiv_neg: "0 < b \<Longrightarrow> cdiv (- a) b = - cdiv a b"
  by (auto simp: cdiv_def)

text \<open>
  The broken-down local time is the broken-down UTC time of the shifted instant, but for the
  recorded offset.
\<close>

lemma localtime_shift: "localtime off t = (gmtime (t + off))\<lparr>tm_gmtoff := off\<rparr>"
  by (simp add: localtime_def gmtime_def Let_def split: prod.split)

lemma tm_gmtoff_localtime [simp]: "tm_gmtoff (localtime off t) = off"
  by (simp add: localtime_def Let_def split: prod.split)

section \<open>The properties\<close>

text \<open>
  C15. A Last-Modified date sent by \<^verbatim>\<open>http_date\<close> and returned in If-Modified-Since is understood: from
  the year 2000 to 9999 \<^verbatim>\<open>is_modified\<close> compares the modification time with the time that was printed,
  moved by the server's time zone (the broken-down time is UTC and \<^verbatim>\<open>mktime\<close> reads it as local
  time), with or without the weird formats and for every content of the uninitialised struct. Of that
  content only \<^verbatim>\<open>tm_isdst\<close> counts, which no format sets: the time is moved by the summer time as well when
  it is positive, or negative and the zone has summer time at that hour. So in a zone without summer time
  the answer does not depend on the struct.
\<close>

theorem is_modified_http_date:
  assumes "946684800 \<le> t" "t < 253402300800"
  shows "\<exists>s. f_http_date t = SString s \<and> length s = 29 \<and>
    (\<forall>z ttm tmod use_weird.
       let summer = (0 < tm_isdst ttm \<or> tm_isdst ttm < 0 \<and> in_summer z (t - zone_off z));
           ret = t - zone_off z - (if summer then zone_save z else 0)
       in f_is_modified z ttm s tmod use_weird = (if ret < 0 then - 1 else if tmod > ret then 0 else 1))"
proof -
  have y: "100 \<le> tm_year (gmtime t)" using localtime_year_bounds(1) [of 2000 t 0] assms
    by (simp add: days_before_years gmtime_def)
  have e: "f_http_date t = SString (http_date_text (gmtime t) (tm_hour (gmtime t)) (tm_min (gmtime t)))"
    and ok: "- 900 \<le> tm_year (gmtime t) \<and> tm_year (gmtime t) < 8100 \<and> tm_ok (gmtime t)"
    using f_http_date_eq [of t] assms by auto
  have mk: "mktime off ((gmtime t)\<lparr>tm_isdst := d\<rparr>) = t - off" for off d
    using mktime_localtime [of off 0 t] by (simp add: gmtime_def mktime_def)
  have "mktime_in z ((fix_year (gmtime t))\<lparr>tm_isdst := d\<rparr>) =
      t - zone_off z - (if 0 < d \<or> d < 0 \<and> in_summer z (t - zone_off z) then zone_save z else 0)" for z d
    using y by (simp add: fix_year_def mktime_in_def summer_fields_def mk)
  then show ?thesis
    using e ok http_date_text_length(1) [of "gmtime t"] f_is_modified_http_date [of "gmtime t"]
    by (simp add: compare_tmod_def Let_def)
qed

theorem is_modified_http_date_witness:
  "f_http_date 1000000000 = SString ''Sun, 09 Sep 2001 01:46:40 GMT'' \<and>
   (\<exists>s. f_http_date 1000000000 = SString s \<and> length s = 29 \<and>
    (\<forall>z ttm tmod use_weird.
       let summer = (0 < tm_isdst ttm \<or> tm_isdst ttm < 0 \<and> in_summer z (1000000000 - zone_off z));
           ret = 1000000000 - zone_off z - (if summer then zone_save z else 0)
       in f_is_modified z ttm s tmod use_weird = (if ret < 0 then - 1 else if tmod > ret then 0 else 1)))"
proof -
  have "f_http_date 1000000000 = SString ''Sun, 09 Sep 2001 01:46:40 GMT''" by code_simp
  moreover have "(946684800::int) \<le> 1000000000" "(1000000000::int) < 253402300800" by simp_all
  ultimately show ?thesis using is_modified_http_date [of 1000000000] by (intro conjI)
qed

text \<open>
  In a zone with summer time the same request gets different answers for different contents of the
  uninitialised struct: here the page is modified or not by the value that \<^verbatim>\<open>tm_isdst\<close> happens to have.
\<close>

lemma is_modified_uninitialised:
  "f_is_modified \<lparr>zone_off = 3600, zone_save = 3600, in_summer = (\<lambda>_. True)\<rparr> (gmtime 0)
     ''Sun, 09 Sep 2001 01:46:40 GMT'' 999994000 False = 1 \<and>
   f_is_modified \<lparr>zone_off = 3600, zone_save = 3600, in_summer = (\<lambda>_. True)\<rparr> ((gmtime 0)\<lparr>tm_isdst := 1\<rparr>)
     ''Sun, 09 Sep 2001 01:46:40 GMT'' 999994000 False = 0"
  by (intro conjI) code_simp+

text \<open>
  Dates before the year 2000 are misread: \<^verbatim>\<open>tm_year\<close> counts from 1900, the correction meant for
  two-digit years adds 1900 or 2000 to it, and a page whose modification time fits in 32 bits is
  reported unmodified for every date from 1900 to 1999.
\<close>

lemma is_modified_before_2000:
  assumes "- 2208988800 \<le> t" "t < 946684800" "tmod < 2 ^ 31" "\<bar>zone_off z\<bar> \<le> 86400" "\<bar>zone_save z\<bar> \<le> 86400"
  shows "\<exists>s. f_http_date t = SString s \<and> f_is_modified z ttm s tmod use_weird = 1"
proof -
  let ?tm = "gmtime t"
  have yr: "0 \<le> tm_year ?tm" "tm_year ?tm < 100"
    using localtime_year_bounds(1) [of 1900 t 0] localtime_year_bounds(2) [of t 0 2000] assms
    by (simp_all add: days_before_years gmtime_def)
  have e: "f_http_date t = SString (http_date_text ?tm (tm_hour ?tm) (tm_min ?tm))"
    and ok: "- 900 \<le> tm_year ?tm \<and> tm_year ?tm < 8100 \<and> tm_ok ?tm"
    using f_http_date_eq [of t] assms by auto
  define y where "y = (fix_year ?tm)\<lparr>tm_isdst := tm_isdst ttm\<rparr>"
  define off where "off = zone_off z + (if summer_fields z y then zone_save z else 0)"
  have z: "tm_year y \<ge> 1969" "tm_mon y = tm_mon ?tm" "tm_mday y = tm_mday ?tm" "tm_hour y = tm_hour ?tm"
    "tm_min y = tm_min ?tm" "tm_sec y = tm_sec ?tm"
    using yr by (auto simp: y_def fix_year_def)
  have "0 \<le> sum_list (take (nat (tm_mon y)) (month_lengths (tm_year y + 1900)))"
    by (rule sum_list_nonneg) (auto simp: month_lengths_def dest!: in_set_takeD)
  moreover have "days_before_year 3869 \<le> days_before_year (tm_year y + 1900)"
    using z(1) by (intro days_before_year_mono) simp
  moreover have "days_before_year 3869 = 693596" by (simp add: days_before_year_def)
  moreover have "1 \<le> tm_mday y" "0 \<le> tm_hour y" "0 \<le> tm_min y" "0 \<le> tm_sec y"
    using ok z by (auto simp: tm_ok_def)
  moreover have "off \<le> 172800" using assms(4,5) by (simp add: off_def) linarith
  moreover define q where "q = days_before_year (tm_year y + 1900) +
    sum_list (take (nat (tm_mon y)) (month_lengths (tm_year y + 1900))) + tm_mday y - 1"
  moreover have "mktime off y = 86400 * q + 3600 * tm_hour y + 60 * tm_min y + tm_sec y - off"
    by (simp only: mktime_def q_def)
  ultimately have "mktime off y > 2147483648" by linarith
  then have "compare_tmod tmod (mktime_in z y) = 1"
    using assms(3) by (simp add: compare_tmod_def mktime_in_def off_def)
  then show ?thesis using e ok f_is_modified_http_date [of ?tm z ttm tmod use_weird] by (auto simp: y_def)
qed

lemma is_modified_before_2000_witness:
  "f_http_date 784111777 = SString ''Sun, 06 Nov 1994 08:49:37 GMT'' \<and>
   (\<exists>s. f_http_date 784111777 = SString s \<and> f_is_modified \<lparr>zone_off = 0, zone_save = 0, in_summer = (\<lambda>_. False)\<rparr> (gmtime 0) s 2000000000 False = 1)"
proof -
  have "f_http_date 784111777 = SString ''Sun, 06 Nov 1994 08:49:37 GMT''" by code_simp
  then show ?thesis using is_modified_before_2000 [of 784111777 2000000000 "\<lparr>zone_off = 0, zone_save = 0, in_summer = (\<lambda>_. False)\<rparr>" "gmtime 0" False] by simp
qed

text \<open>
  RFC 850 dates, the second of the three formats a server must accept, are never recognised: the
  format string has blanks where the date has hyphens, so every such header is answered \<open>-1\<close>.
\<close>

lemma is_modified_rfc850:
  assumes "i < 7" "1 \<le> d" "d \<le> 31" "NUL \<notin> set r"
  shows "f_is_modified z ttm (rfc850_weekday ! i @ '', '' @ show_02d d @ ''-'' @ r) tmod use_weird = - 1"
proof -
  have "i \<in> {0, 1, 2, 3, 4, 5, 6}" using assms(1) by auto
  then have "NUL \<notin> set (rfc850_weekday ! i)" by (elim insertE emptyE) (simp_all add: rfc850_weekday_def)
  then have "NUL \<notin> set (rfc850_weekday ! i @ '', '' @ show_02d d @ ''-'' @ r)"
    using assms by (auto simp: show_02d_digits dest: sym)
  then show ?thesis using try_formats_rfc850 [OF assms(1-3)] by (simp add: f_is_modified_def cstr_id)
qed

lemma is_modified_rfc850_witness:
  "f_is_modified \<lparr>zone_off = 0, zone_save = 0, in_summer = (\<lambda>_. False)\<rparr> (gmtime 0) (rfc850_weekday ! 0 @ '', '' @ show_02d 6 @ ''-'' @ ''Nov-94 08:49:37 GMT'') 784111777 True = - 1
   \<and> rfc850_weekday ! 0 @ '', '' @ show_02d 6 @ ''-'' @ ''Nov-94 08:49:37 GMT'' = ''Sunday, 06-Nov-94 08:49:37 GMT''"
proof -
  have "show_02d 6 = ''06''" by code_simp
  then show ?thesis using is_modified_rfc850 [of 0 6 "''Nov-94 08:49:37 GMT''" "\<lparr>zone_off = 0, zone_save = 0, in_summer = (\<lambda>_. False)\<rparr>" "gmtime 0" 784111777 True]
    by (simp add: rfc850_weekday_def)
qed

text \<open>
  The two variants of \<^verbatim>\<open>http_date\<close> agree for the years 1000 to 9999 when the zone is read from
  \<^verbatim>\<open>tm_gmtoff\<close>; when it is computed by comparing \<^verbatim>\<open>gmtime\<close> and \<^verbatim>\<open>localtime\<close> the two broken-down times are
  one object, the difference is always zero, and the local time is sent with the label GMT.
\<close>

lemma http_date_variants:
  assumes "- 30610224000 \<le> t" "t < 253402300800" "- 30610224000 \<le> t + off" "t + off < 253402300800"
  shows "f_http_date_snprintf Tm_gmtoff off t = f_http_date t \<and>
    f_http_date_snprintf Compare_times off t = f_http_date (t + off)"
proof -
  have len: "length (http_date_text (gmtime u) (tm_hour (gmtime u)) (tm_min (gmtime u))) = 29"
    if "- 30610224000 \<le> u" "u < 253402300800" for u
    using f_http_date_eq(2) [OF that] http_date_text_length(1) [of "gmtime u"] by auto
  have h: "0 \<le> tm_hour (gmtime u)" for u using localtime_ok [of 0 u] by (simp add: gmtime_def tm_ok_def)
  have "f_http_date_snprintf Tm_gmtoff off t = f_http_date t"
    using len [OF assms(1,2)] h [of t] f_http_date_eq(1) [OF assms(1,2)]
    by (simp add: f_http_date_snprintf_def tm_and_diff_def snprintf_result_def cdiv_def cmod_def gmtime_def Let_def)
  moreover have "http_date_text (localtime off t) hh mm = http_date_text (gmtime (t + off)) hh mm" for hh mm
    by (simp add: localtime_shift http_date_text_def)
  then have "f_http_date_snprintf Compare_times off t = f_http_date (t + off)"
    using len [OF assms(3,4)] h [of "t + off"] f_http_date_eq(1) [OF assms(3,4)]
    by (simp add: f_http_date_snprintf_def tm_and_diff_def minutes_between_def snprintf_result_def cdiv_def cmod_def
        Let_def localtime_shift)
  ultimately show ?thesis by blast
qed

lemma http_date_variants_witness:
  "f_http_date_snprintf Tm_gmtoff 3600 784111777 = f_http_date 784111777 \<and>
   f_http_date_snprintf Compare_times 3600 784111777 = f_http_date (784111777 + 3600)"
  using http_date_variants [of 784111777 3600] by simp

text \<open>
  The two variants of \<^verbatim>\<open>cern_http_date\<close> agree for every zone of whole minutes within a day and the
  years 1000 to 9999; the compared variant prints the offset \<open>+0000\<close> in every zone.
\<close>

lemma cern_http_date_variants:
  assumes "- 30610224000 \<le> t + off" "t + off < 253402300800" "\<bar>off\<bar> < 86400" "off mod 60 = 0"
  shows "f_cern_http_date_snprintf Tm_gmtoff off t = f_cern_http_date off t \<and>
    (\<exists>s. f_cern_http_date_snprintf Compare_times off t = SString (s @ '' +0000''))"
proof -
  let ?tm = "localtime off t"
  have y: "1000 \<le> tm_year ?tm + 1900 \<and> tm_year ?tm + 1900 < 10000"
    using localtime_year_bounds(1) [of 1000 t off] localtime_year_bounds(2) [of t off 10000] assms
    by (simp add: days_before_years)
  have len: "length (cern_date_text ?tm z) = 21 + length z" for z
    using y localtime_ok [of off t] month_name_ok [of "tm_mon ?tm"]
    by (simp add: cern_date_text_def tm_ok_def show_02d_digits show_d_four)
  define q where "q = off div 60"
  have q: "off = 60 * q" using assms(4) by (simp add: q_def minus_mod_eq_mult_div [symmetric])
  have b: "\<bar>q\<bar> < 1440" using assms(3) q by linarith
  have d: "0 \<le> \<bar>q\<bar> div 60" "\<bar>q\<bar> div 60 < 100" "0 \<le> \<bar>q\<bar> mod 60" "\<bar>q\<bar> mod 60 < 100"
    using b zdiv_mono1 [of "\<bar>q\<bar>" 1439 60] pos_mod_bound [of 60 "\<bar>q\<bar>"] by auto
  have "- (60 * q) div 60 = - q" using nonzero_mult_div_cancel_left [of 60 "- q"] by simp
  then have c: "cdiv off 60 = q" unfolding q by (simp add: cdiv_def)
  define z where "z = (if q < 0 then ''-'' else ''+'') @ show_02d (\<bar>q\<bar> div 60) @ show_02d (\<bar>q\<bar> mod 60)"
  have z: "length z = 5" using d by (simp add: z_def show_02d_digits)
  have cm: "cdiv n 60 = n div 60" "cmod n 60 = n mod 60" if "0 \<le> n" for n
    using that by (simp_all add: cdiv_def cmod_def minus_mult_div_eq_mod)
  have "off < 0 \<longleftrightarrow> q < 0" by (simp add: q)
  then have "strftime_z ?tm = z" by (simp only: strftime_z_def Let_def tm_gmtoff_localtime c z_def)
  then have "f_cern_http_date off t = SString (cern_date_text ?tm z)"
    by (simp only: f_cern_http_date_def Let_def strftime_result_def len z) simp
  moreover have "f_cern_http_date_snprintf Tm_gmtoff off t = snprintf_result 27 (cern_date_text ?tm z)"
  proof (cases "q < 0")
    case True
    then have "\<bar>q\<bar> = - q" "0 < - q" by auto
    then show ?thesis
      by (simp add: f_cern_http_date_snprintf_def tm_and_diff_def cdiv_neg c z_def cm del: minus_mod_int_eq)
  next
    case False
    then have "\<bar>q\<bar> = q" "\<not> 0 < - q" by auto
    then show ?thesis
      by (simp add: f_cern_http_date_snprintf_def tm_and_diff_def cdiv_neg c z_def cm)
  qed
  then have "f_cern_http_date_snprintf Tm_gmtoff off t = SString (cern_date_text ?tm z)"
    by (simp add: snprintf_result_def len z)
  ultimately have agree: "f_cern_http_date_snprintf Tm_gmtoff off t = f_cern_http_date off t" by simp
  have "show_02d 0 = ''00''" by code_simp
  then have "f_cern_http_date_snprintf Compare_times off t = SString (cern_date_text ?tm ''+0000'')"
    using len [of "''+0000''"]
    by (simp add: f_cern_http_date_snprintf_def tm_and_diff_def minutes_between_def cdiv_def cmod_def Let_def
        snprintf_result_def)
  moreover have "cern_date_text ?tm ''+0000'' = (show_02d (tm_mday ?tm) @ ''/'' @ nth_name months (tm_mon ?tm) @ ''/'' @
      show_d (tm_year ?tm + 1900) @ '':'' @ show_02d (tm_hour ?tm) @ '':'' @ show_02d (tm_min ?tm) @ '':'' @
      show_02d (tm_sec ?tm)) @ '' +0000''"
    unfolding cern_date_text_def by simp
  ultimately have "\<exists>s. f_cern_http_date_snprintf Compare_times off t = SString (s @ '' +0000'')" by metis
  with agree show ?thesis by (rule conjI)
qed

lemma cern_http_date_variants_witness:
  "f_cern_http_date_snprintf Tm_gmtoff (- 25200) 965280987 = f_cern_http_date (- 25200) 965280987 \<and>
   (\<exists>s. f_cern_http_date_snprintf Compare_times (- 25200) 965280987 = SString (s @ '' +0000''))"
  using cern_http_date_variants [of 965280987 "- 25200"] by simp

end
