(* ===== verification/Log_Tables.thy ===== *)
theory Log_Tables
  imports Caudium_Prelude Url_Codec "HOL-Library.Multiset"
begin

text \<open>
  UltraLog's statistics tables: \<^verbatim>\<open>src/cmods/UltraLog/ultrautil.c\<close>. A table is a Pike mapping from
  strings (or return codes) to counters, nested one level for the tables of referrers and errors.
  Counters are Pike integers of 32 bits that wrap around. The tables are filled by the log parser
  (theory \<open>Log_Parser\<close>) and summarised once an hour and once a day by the functions below.
\<close>

type_synonym counter = "32 word"
type_synonym 'k table = "('k, counter) pmap"

section \<open>Counting in mappings\<close>

definition mapaddsval :: "'k table \<Rightarrow> 'k \<Rightarrow> 'k table" where
  "mapaddsval m key =
     (case mapping_lookup m key of None \<Rightarrow> mapping_insert m key 1 | Some s \<Rightarrow> mapping_insert m key (s + 1))"

definition mapaddstr :: "string table \<Rightarrow> string \<Rightarrow> string table" where
  "mapaddstr m key =
     (case mapping_lookup m key of None \<Rightarrow> mapping_insert m key 1 | Some s \<Rightarrow> mapping_insert m key (s + 1))"

definition mapaddint :: "int table \<Rightarrow> int \<Rightarrow> int table" where
  "mapaddint m key =
     (case mapping_lookup m key of None \<Rightarrow> mapping_insert m key 1 | Some s \<Rightarrow> mapping_insert m key (s + 1))"

definition mapaddstrnum :: "string table \<Rightarrow> string \<Rightarrow> counter \<Rightarrow> string table" where
  "mapaddstrnum m key num =
     (case mapping_lookup m key of None \<Rightarrow> mapping_insert m key num | Some s \<Rightarrow> mapping_insert m key (s + num))"

definition map2addint :: "(int, string table) pmap \<Rightarrow> int \<Rightarrow> string \<Rightarrow> (int, string table) pmap" where
  "map2addint m subkey key =
     (case mapping_lookup m subkey of
        None \<Rightarrow> mapping_insert m subkey (mapaddstr [] key)
      | Some s \<Rightarrow> mapping_insert m subkey (mapaddstr s key))"

definition mapaddstrint :: "(string, int table) pmap \<Rightarrow> string \<Rightarrow> int \<Rightarrow> (string, int table) pmap" where
  "mapaddstrint m key subkey =
     (case mapping_lookup m key of
        None \<Rightarrow> mapping_insert m key (mapaddint [] subkey)
      | Some s \<Rightarrow> mapping_insert m key (mapaddint s subkey))"

definition map2addstrnum ::
  "(string, string table) pmap \<Rightarrow> string \<Rightarrow> string \<Rightarrow> counter \<Rightarrow> (string, string table) pmap" where
  "map2addstrnum m key key2 value =
     (case mapping_lookup m key of
        None \<Rightarrow> mapping_insert m key (mapaddstrnum [] key2 value)
      | Some s \<Rightarrow> mapping_insert m key (mapaddstrnum s key2 value))"

definition map2addstr :: "(string, string table) pmap \<Rightarrow> string \<Rightarrow> string \<Rightarrow> (string, string table) pmap" where
  "map2addstr m key key2 =
     (case mapping_lookup m key of
        None \<Rightarrow> mapping_insert m key (mapaddstr [] key2)
      | Some s \<Rightarrow> mapping_insert m key (mapaddstr s key2))"

subsection \<open>Mappings of arbitrary values\<close>

text \<open>
  \<^verbatim>\<open>add_mapping\<close> is called from Pike with any mappings. A float is its bit pattern and \<open>fadd\<close> the
  processor's addition. Adding to a value of another type reads the wrong member of the union.
\<close>

datatype mvalue = MInt counter | MFloat nat | MMap "(svalue \<times> mvalue) list" | MOther nat

definition mapaddintnum :: "(svalue, mvalue) pmap \<Rightarrow> svalue \<Rightarrow> counter \<Rightarrow> (svalue, mvalue) pmap res" where
  "mapaddintnum m key num =
     (case mapping_lookup m key of
        None \<Rightarrow> Inr (mapping_insert m key (MInt num))
      | Some (MInt s) \<Rightarrow> Inr (mapping_insert m key (MInt (s + num)))
      | Some _ \<Rightarrow> Inl Out_of_bounds)"

definition mapaddfloatnum ::
  "(nat \<Rightarrow> nat \<Rightarrow> nat) \<Rightarrow> (svalue, mvalue) pmap \<Rightarrow> svalue \<Rightarrow> nat \<Rightarrow> (svalue, mvalue) pmap res" where
  "mapaddfloatnum fadd m key num =
     (case mapping_lookup m key of
        None \<Rightarrow> Inr (mapping_insert m key (MFloat num))
      | Some (MFloat s) \<Rightarrow> Inr (mapping_insert m key (MFloat (fadd s num)))
      | Some _ \<Rightarrow> Inl Out_of_bounds)"

fun do_map_addition ::
  "(nat \<Rightarrow> nat \<Rightarrow> nat) \<Rightarrow> (svalue, mvalue) pmap \<Rightarrow> (svalue, mvalue) pmap \<Rightarrow> (svalue, mvalue) pmap res" where
  "do_map_addition fadd tom [] = Inr tom"
| "do_map_addition fadd tom ((sind, sval) # fromm) =
     (case sval of
        MInt n \<Rightarrow> bind_res (mapaddintnum tom sind n) (\<lambda>t. do_map_addition fadd t fromm)
      | MFloat x \<Rightarrow> bind_res (mapaddfloatnum fadd tom sind x) (\<lambda>t. do_map_addition fadd t fromm)
      | MMap sub \<Rightarrow>
          (case mapping_lookup tom sind of
             None \<Rightarrow> bind_res (do_map_addition fadd [] sub)
                       (\<lambda>m. do_map_addition fadd (mapping_insert tom sind (MMap m)) fromm)
           | Some (MMap s) \<Rightarrow> bind_res (do_map_addition fadd s sub)
                       (\<lambda>m. do_map_addition fadd (mapping_insert tom sind (MMap m)) fromm)
           | Some _ \<Rightarrow> Inl Out_of_bounds)
      | MOther _ \<Rightarrow> do_map_addition fadd tom fromm)"

definition mapaddstrmap ::
  "(nat \<Rightarrow> nat \<Rightarrow> nat) \<Rightarrow> (svalue, mvalue) pmap \<Rightarrow> string \<Rightarrow> (svalue, mvalue) pmap \<Rightarrow> (svalue, mvalue) pmap res" where
  "mapaddstrmap fadd m key sub =
     (case mapping_lookup m (SString key) of
        None \<Rightarrow> Inr (mapping_insert m (SString key) (MMap sub))
      | Some (MMap s) \<Rightarrow> bind_res (do_map_addition fadd s sub) (\<lambda>t. Inr (mapping_insert m (SString key) (MMap t)))
      | Some _ \<Rightarrow> Inl Out_of_bounds)"

text \<open>The same function on two tables of counters, as the log parser uses it.\<close>

definition add_counters :: "string table \<Rightarrow> string table \<Rightarrow> string table" where
  "add_counters tom fromm = foldl (\<lambda>m (k, n). mapaddstrnum m k n) tom fromm"

section \<open>Strings\<close>

definition MAX_LINE_LEN :: nat where "MAX_LINE_LEN = 2048"

text \<open>
  \<^verbatim>\<open>ultra_lowercase(str, len)\<close>: the buffer, and whether a byte changed.
\<close>

definition ultra_lower_byte :: "char \<Rightarrow> char" where
  "ultra_lower_byte c =
     (if code_of (CHR ''A'') \<le> code_of c \<and> code_of c \<le> code_of (CHR ''Z'') then char_of (code_of c + 32) else c)"

definition ultra_lowercase :: "string \<Rightarrow> nat \<Rightarrow> string \<times> bool" where
  "ultra_lowercase str len =
     (map ultra_lower_byte (take len str) @ drop len str, map ultra_lower_byte (take len str) \<noteq> take len str)"

text \<open>The position of the first occurrence of a string and of a byte.\<close>

fun find_string :: "string \<Rightarrow> string \<Rightarrow> nat option" where
  "find_string pat [] = (if pat = [] then Some 0 else None)"
| "find_string pat (c # s) =
     (if take (length pat) (c # s) = pat then Some 0 else map_option Suc (find_string pat s))"

definition find_char :: "char \<Rightarrow> string \<Rightarrow> nat option" where
  "find_char c s = (if c \<in> set s then Some (length (takeWhile (\<lambda>x. x \<noteq> c) s)) else None)"

definition find_char_last :: "char \<Rightarrow> string \<Rightarrow> nat option" where
  "find_char_last c s =
     (if c \<in> set s then Some (length s - 1 - length (takeWhile (\<lambda>x. x \<noteq> c) (rev s))) else None)"

text \<open>
  \<^verbatim>\<open>ultra_lowercase_host(ref, trunc, changed)\<close>: \<^verbatim>\<open>NULL\<close>, or the copy it allocated, the length \<^verbatim>\<open>*trunc\<close>
  of the part with the host, and \<^verbatim>\<open>*changed\<close>. \<open>want_trunc\<close> tells whether \<^verbatim>\<open>trunc\<close> is a pointer.
\<close>

definition ultra_lowercase_host :: "string \<Rightarrow> bool \<Rightarrow> (string \<times> nat \<times> bool) option" where
  "ultra_lowercase_host ref want_trunc =
     (let work = cstr ref; len = length work
      in case (if len < 8 then None else find_string ''://'' work) of
           None \<Rightarrow> if want_trunc then None else Some (work, 0, False)
         | Some p \<Rightarrow>
             (let sub_len = (case find_char (CHR ''/'') (drop (p + 3) work) of
                               Some q \<Rightarrow> p + 3 + q + 1
                             | None \<Rightarrow> len);
                  (work', changed) = ultra_lowercase work sub_len
              in Some (work', sub_len, changed)))"

text \<open>\<^verbatim>\<open>make_shared_binary_string\<close> of a zero-terminated block that holds \<open>s\<close>.\<close>

definition shared_from :: "string \<Rightarrow> nat \<Rightarrow> string res" where
  "shared_from s n = (if n \<le> length s + 1 then Inr (take n (s @ [NUL])) else Inl Out_of_bounds)"

definition multiset_string_lookup :: "string list \<Rightarrow> string \<Rightarrow> bool" where
  "multiset_string_lookup multi str \<longleftrightarrow> cstr str \<in> set multi"

definition ispage :: "string \<Rightarrow> string list \<Rightarrow> bool" where
  "ispage url pagexts =
     (if url = [] then False
      else if last url = CHR ''/'' \<or> url ! 0 \<noteq> CHR ''/'' then True
      else case find_char_last (CHR ''.'') (cstr url) of
             None \<Rightarrow> False
           | Some dot \<Rightarrow> multiset_string_lookup pagexts (drop (dot + 1) (cstr url)))"

text \<open>
  The copy of a url into \<^verbatim>\<open>decode_buf\<close> and its decoding. The length is \<^verbatim>\<open>MIN(MAX_LINE_LEN, qmark - str - 1)\<close>
  when there is a question mark; a negative length makes \<^verbatim>\<open>MEMCPY\<close> run over the whole memory.
\<close>

definition url_copy_len :: "string \<Rightarrow> int" where
  "url_copy_len url =
     (case find_char (CHR ''?'') (cstr url) of
        Some qmark \<Rightarrow> min (int MAX_LINE_LEN) (int qmark - 1)
      | None \<Rightarrow> min (int MAX_LINE_LEN) (int (length url)))"

definition decoded_url :: "string \<Rightarrow> string res" where
  "decoded_url url =
     (let len = url_copy_len url
      in if len < 0 then Inl Out_of_bounds
         else Inr (http_decode_string (take (nat len) url @ [NUL]) (nat len)))"

subsection \<open>Character classes\<close>

datatype char_cls = CLS_WSPACE | CLS_CRLF | CLS_TOKEN | CLS_DIGIT | CLS_QUOTE | CLS_LBRACK | CLS_RBRACK
  | CLS_SLASH | CLS_COLON | CLS_HYPHEN | CLS_PLUS | CLS_QUESTION

definition char_class :: "char \<Rightarrow> char_cls" where
  "char_class c =
     (if c = SP \<or> c = CHR 0x09 then CLS_WSPACE
      else if code_of (CHR ''0'') \<le> code_of c \<and> code_of c \<le> code_of (CHR ''9'') then CLS_DIGIT
      else if c = LF \<or> c = CR \<or> c = CHR 0x0C then CLS_CRLF
      else if c = CHR 0x22 then CLS_QUOTE
      else if c = CHR ''['' then CLS_LBRACK
      else if c = CHR '']'' then CLS_RBRACK
      else if c = CHR ''/'' then CLS_SLASH
      else if c = CHR '':'' then CLS_COLON
      else if c = CHR ''-'' then CLS_HYPHEN
      else if c = CHR ''+'' then CLS_PLUS
      else if c = CHR ''?'' then CLS_QUESTION
      else CLS_TOKEN)"

section \<open>Summaries\<close>

definition hourly_step ::
  "string list \<Rightarrow> string \<times> counter \<Rightarrow> string table \<times> string table \<times> counter \<Rightarrow>
     (string table \<times> string table \<times> counter) res" where
  "hourly_step pagexts = (\<lambda>(sind, sval) (pages, hits, numpages).
     bind_res (decoded_url sind) (\<lambda>decoded.
       if ispage decoded pagexts then Inr (mapaddstrnum pages decoded sval, hits, numpages + sval)
       else Inr (pages, mapaddstrnum hits decoded sval, numpages)))"

definition hourly_page_hits ::
  "string table \<Rightarrow> string table \<Rightarrow> string table \<Rightarrow> string list \<Rightarrow>
     (string table \<times> string table \<times> counter) res" where
  "hourly_page_hits urls pages hits pagexts = fold_res (hourly_step pagexts) urls (pages, hits, 0)"

text \<open>The copy is limited to \<^verbatim>\<open>MAX_LINE_LEN\<close> bytes, the decoding is not.\<close>

definition http_decode_mapping :: "string table \<Rightarrow> string table \<Rightarrow> string table res" where
  "http_decode_mapping source dest =
     fold_res (\<lambda>(sind, sval) dest.
       if length sind > MAX_LINE_LEN then Inl Out_of_bounds
       else Inr (mapaddstrnum dest (http_decode_string (sind @ [NUL]) (length sind)) sval)) source dest"

definition refsites_step ::
  "string \<times> counter \<Rightarrow> string table \<times> string table \<Rightarrow> (string table \<times> string table) res" where
  "refsites_step = (\<lambda>(str, sval) (refsites, new_referrers).
     case ultra_lowercase_host str True of
       None \<Rightarrow> Inr (refsites, new_referrers)
     | Some (lowered, trunc, changed) \<Rightarrow>
         if changed then
           bind_res (shared_from lowered (length str)) (\<lambda>str2.
             bind_res (if trunc \<noteq> length str then shared_from lowered trunc else Inr str2) (\<lambda>site.
               Inr (mapaddstrnum refsites site sval, mapaddstrnum new_referrers str2 sval)))
         else
           bind_res (if trunc \<noteq> length str then shared_from lowered trunc else Inr str) (\<lambda>site.
             Inr (mapaddstrnum refsites site sval, mapaddstrnum new_referrers str sval)))"

definition summarize_refsites ::
  "string table \<Rightarrow> string table \<Rightarrow> string table \<Rightarrow> (string table \<times> string table) res" where
  "summarize_refsites refsites referrers new_referrers = fold_res refsites_step referrers (refsites, new_referrers)"

text \<open>
  The loop over the dots of a host name from the end: \<^verbatim>\<open>top_done\<close> and the two tables of domains.
\<close>

fun host_dots ::
  "string \<Rightarrow> counter \<Rightarrow> nat \<Rightarrow> nat \<Rightarrow> string table \<Rightarrow> string table \<Rightarrow> nat \<times> string table \<times> string table" where
  "host_dots tmpstr sval 0 top_done domains topdomains = (top_done, domains, topdomains)"
| "host_dots tmpstr sval (Suc point) top_done domains topdomains =
     (if tmpstr ! point = CHR ''.'' then
        (if top_done = 0 then
           (if char_class (tmpstr ! (point + 1)) = CLS_DIGIT then (2, domains, topdomains)
            else host_dots tmpstr sval point 1 domains (mapaddstrnum topdomains (cstr (drop (point + 1) tmpstr)) sval))
         else (2, mapaddstrnum domains (cstr (drop (point + 1) tmpstr)) sval, topdomains))
      else host_dots tmpstr sval point top_done domains topdomains)"

definition hosts_step ::
  "string \<times> counter \<Rightarrow> string table \<times> string table \<times> string table \<Rightarrow> string table \<times> string table \<times> string table" where
  "hosts_step = (\<lambda>(str, sval) (domains, topdomains, newhosts).
     let (top_done, domains, topdomains, newhosts) =
           (if length str < MAX_LINE_LEN then
              (if length str > 1 then
                 (let (lowered, changed) = ultra_lowercase str (length str); tmpstr = lowered @ [NUL];
                      newhosts = mapaddstrnum newhosts (if changed then lowered else str) sval;
                      (top, dom, topdom) = host_dots tmpstr sval (length str - 1) 0 domains topdomains
                  in (top, dom, topdom, newhosts))
               else (2, mapaddstrnum domains ''Unresolved'' sval, mapaddstrnum topdomains ''Unresolved'' sval, newhosts))
            else (0, domains, topdomains, newhosts));
         topdomains = (if top_done = 0 then mapaddstrnum topdomains str sval else topdomains);
         domains = (if top_done \<le> 1 then mapaddstrnum domains str sval else domains)
     in (domains, topdomains, newhosts))"

definition summarize_hosts ::
  "string table \<Rightarrow> string table \<Rightarrow> string table \<Rightarrow> string table \<Rightarrow> string table \<times> string table \<times> string table" where
  "summarize_hosts hosts domains topdomains newhosts =
     foldl (\<lambda>t h. hosts_step h t) (domains, topdomains, newhosts) hosts"

text \<open>\<^verbatim>\<open>summarize_directories\<close>: the string for other files has 8 bytes, its zero byte included.\<close>

definition directory_of :: "string \<Rightarrow> string" where
  "directory_of str =
     (if str ! 0 \<noteq> CHR ''/'' then ''Unknown'' @ [NUL]
      else if length str > 1 then
        (case find_char (CHR ''/'') (drop 1 str) of
           None \<Rightarrow> take 1 str
         | Some q \<Rightarrow> if q + 1 < 2 then take 1 str else take (q + 2) str)
      else take 1 str)"

definition summarize_directories :: "string table \<Rightarrow> string table \<Rightarrow> string table" where
  "summarize_directories dirs files =
     foldl (\<lambda>dirs (str, n). if str = [] then dirs else mapaddstrnum dirs (directory_of str) n) dirs files"

text \<open>
  \<^verbatim>\<open>clean_refto\<close>: for each page the table of its referrers, lower-cased and cut to \<^verbatim>\<open>MAX_LINE_LEN\<close>
  bytes. \<^verbatim>\<open>ultra_lowercase_host\<close> without \<^verbatim>\<open>trunc\<close> always returns a string.
\<close>

definition refto_inner ::
  "string \<Rightarrow> string \<times> counter \<Rightarrow> (string, string table) pmap \<Rightarrow> (string, string table) pmap res" where
  "refto_inner decoded = (\<lambda>(sind2, sval2) refdest.
     let len = min (length sind2) MAX_LINE_LEN; buf = take len sind2
     in case ultra_lowercase_host buf False of
          Some (lowered, _, _) \<Rightarrow>
            bind_res (shared_from lowered len) (\<lambda>plowered. Inr (map2addstrnum refdest decoded plowered sval2))
        | None \<Rightarrow> Inr (map2addstrnum refdest decoded sind2 sval2))"

definition refto_outer ::
  "string list \<Rightarrow> string \<times> string table \<Rightarrow> (string, string table) pmap \<Rightarrow> (string, string table) pmap res" where
  "refto_outer pagexts = (\<lambda>(sind, sval) refdest.
     bind_res (decoded_url sind) (\<lambda>decoded.
       if ispage decoded pagexts then fold_res (refto_inner decoded) sval refdest else Inr refdest))"

definition clean_refto ::
  "(string, string table) pmap \<Rightarrow> (string, string table) pmap \<Rightarrow> string list \<Rightarrow> (string, string table) pmap res" where
  "clean_refto refto refdest pagexts = fold_res (refto_outer pagexts) refto refdest"

section \<open>Limiting the size of a table\<close>

text \<open>
  \<^verbatim>\<open>compress_mapping(map, maxsize)\<close>: \<^verbatim>\<open>f_sort\<close> sorts the values (as signed integers) and permutes the
  indices with them. \<^verbatim>\<open>todelete\<close> is not negative where it is called.
\<close>

definition compress_mapping :: "string table \<Rightarrow> nat \<Rightarrow> string table" where
  "compress_mapping m maxsize =
     (let sorted = sort_key (\<lambda>(k, n). sint n) m; todelete = length m - maxsize;
          num = sum_list (map snd (take todelete sorted));
          new = foldl (\<lambda>new (k, n). mapping_insert new k n) [] (drop todelete sorted)
      in mapaddstrnum new ''Other'' num)"

definition DEFAULT_MAX_TABLE_SIZE :: nat where "DEFAULT_MAX_TABLE_SIZE = 50000"

definition f_compress_mapping :: "string table \<Rightarrow> int \<Rightarrow> string table" where
  "f_compress_mapping m maxsize =
     (let maxsize = (if maxsize \<le> 0 then DEFAULT_MAX_TABLE_SIZE else nat maxsize)
      in if length m < maxsize then m else compress_mapping m maxsize)"

section \<open>Sessions\<close>

text \<open>
  The two mappings from a host to the start and to the last access of its session (seconds of the
  day), and the arrays with one entry per hour.
\<close>

record sessions =
  per_hour :: "counter list"
  time_per :: "counter list"
  sess_start :: "(string, int) pmap"
  sess_end :: "(string, int) pmap"

definition SESSION_IDLE :: int where "SESSION_IDLE = 600"

definition arr_add :: "counter list \<Rightarrow> int \<Rightarrow> counter \<Rightarrow> counter list res" where
  "arr_add a i w = (if 0 \<le> i \<and> nat i < length a then Inr (a[nat i := a ! nat i + w]) else Inl Out_of_bounds)"

definition summarize_step :: "int \<Rightarrow> string \<times> int \<Rightarrow> sessions \<Rightarrow> sessions res" where
  "summarize_step hour = (\<lambda>(host, start) s.
     bind_res (arr_add (per_hour s) hour 1) (\<lambda>ph.
       case mapping_lookup (sess_end s) host of
         None \<Rightarrow> Inl Out_of_bounds
       | Some stop \<Rightarrow>
           bind_res (arr_add (time_per s) hour (word_of_int (stop - start))) (\<lambda>tp.
             Inr (s\<lparr>per_hour := ph, time_per := tp\<rparr>))))"

definition summarize_sessions :: "int \<Rightarrow> sessions \<Rightarrow> sessions res" where
  "summarize_sessions hour s = fold_res (summarize_step hour) (sess_start s) s"

definition process_session :: "string \<Rightarrow> int \<Rightarrow> int \<Rightarrow> sessions \<Rightarrow> string table \<Rightarrow> (sessions \<times> string table) res" where
  "process_session host t hour s sites =
     (let sites = mapaddsval sites host
      in case mapping_lookup (sess_end s) host of
           None \<Rightarrow> Inr (s\<lparr>sess_start := mapping_insert (sess_start s) host t,
                         sess_end := mapping_insert (sess_end s) host t\<rparr>, sites)
         | Some stop \<Rightarrow>
             bind_res
               (if wrap32 (stop + SESSION_IDLE) < t then
                  (case mapping_lookup (sess_start s) host of
                     None \<Rightarrow> Inl Out_of_bounds
                   | Some start \<Rightarrow>
                       bind_res (arr_add (time_per s) hour (word_of_int (stop - start))) (\<lambda>tp.
                         bind_res (arr_add (per_hour s) hour 1) (\<lambda>ph.
                           Inr (s\<lparr>time_per := tp, per_hour := ph,
                                  sess_start := mapping_insert (sess_start s) host t\<rparr>))))
                else Inr s)
               (\<lambda>s. Inr (s\<lparr>sess_end := mapping_insert (sess_end s) host t\<rparr>, sites)))"

section \<open>Counters and totals\<close>

definition count_of :: "'k table \<Rightarrow> 'k \<Rightarrow> counter" where
  "count_of m k = (case mapping_lookup m k of None \<Rightarrow> 0 | Some n \<Rightarrow> n)"

definition total :: "'k table \<Rightarrow> counter" where
  "total m = sum_list (map snd m)"

lemma total_simps [simp]: "total [] = 0" "total ((k, n) # m) = n + total m"
  by (simp_all add: total_def)

lemma count_of_Nil [simp]: "count_of [] k = 0"
  by (simp add: count_of_def)

lemma total_insert:
  "total (mapping_insert m k v) = total m - count_of m k + v"
  by (induction m) (auto simp: mapping_insert_def count_of_def mapping_lookup_def split: option.splits)

lemma count_of_insert: "count_of (mapping_insert m k v) k' = (if k' = k then v else count_of m k')"
  by (simp add: count_of_def)

lemma mapadd_alt:
  "mapaddstrnum m k n = mapping_insert m k (count_of m k + n)"
  "mapaddsval m' k' = mapping_insert m' k' (count_of m' k' + 1)"
  "mapaddint m'' k'' = mapping_insert m'' k'' (count_of m'' k'' + 1)"
  "mapaddstr m k = mapping_insert m k (count_of m k + 1)"
  by (auto simp: mapaddstrnum_def mapaddsval_def mapaddint_def mapaddstr_def count_of_def split: option.splits)

lemma total_mapadd [simp]:
  "total (mapaddstrnum m k n) = total m + n"
  "total (mapaddsval m' k') = total m' + 1"
  "total (mapaddint m'' k'') = total m'' + 1"
  "total (mapaddstr m k) = total m + 1"
  by (simp_all add: mapadd_alt total_insert)

lemma count_of_mapaddstrnum: "count_of (mapaddstrnum m k n) k' = count_of m k' + (if k' = k then n else 0)"
  by (simp add: mapadd_alt count_of_insert)

lemma mapping_ok_mapadd [simp]:
  "mapping_ok m \<Longrightarrow> mapping_ok (mapaddstrnum m k n)" "mapping_ok m \<Longrightarrow> mapping_ok (mapaddstr m k)"
  "mapping_ok m' \<Longrightarrow> mapping_ok (mapaddsval m' k')" "mapping_ok m'' \<Longrightarrow> mapping_ok (mapaddint m'' k'')"
  by (simp_all add: mapadd_alt)

interpretation counters: accumulator count_of mapaddstrnum total
  by unfold_locales (simp_all add: count_of_mapaddstrnum)

text \<open>The tables of tables.\<close>

definition count_of2 :: "(string, string table) pmap \<Rightarrow> string \<times> string \<Rightarrow> counter" where
  "count_of2 m = (\<lambda>(k, k2). case mapping_lookup m k of None \<Rightarrow> 0 | Some s \<Rightarrow> count_of s k2)"

definition total2 :: "('k, string table) pmap \<Rightarrow> counter" where
  "total2 m = (\<Sum>(k, s) \<leftarrow> m. total s)"

lemma total2_insert:
  "total2 (mapping_insert m k s) = total2 m - (case mapping_lookup m k of None \<Rightarrow> 0 | Some t \<Rightarrow> total t) + total s"
  by (induction m) (auto simp: total2_def mapping_insert_def mapping_lookup_def split: option.splits)

interpretation nested_counters: accumulator count_of2 "\<lambda>m p n. map2addstrnum m (fst p) (snd p) n" total2
proof
  show "count_of2 (map2addstrnum m (fst k) (snd k) n) k' = count_of2 m k' + (if k' = k then n else 0)" for m k n k'
    by (cases k; cases k') (auto simp: count_of2_def map2addstrnum_def count_of_mapaddstrnum split: option.splits)
  show "total2 (map2addstrnum m (fst k) (snd k) n) = total2 m + n" for m k n
    by (auto simp: map2addstrnum_def total2_insert split: option.splits)
qed

lemma count_of2_map2addstr:
  "count_of2 (map2addstr m k k2) p = count_of2 m p + (if p = (k, k2) then 1 else 0)"
  "total2 (map2addstr m k k2) = total2 m + 1"
  by (auto simp: map2addstr_def count_of2_def total2_insert mapadd_alt count_of_insert total_insert split: option.splits prod.splits)

lemma count_add_counters:
  "count_of (add_counters a b) k = count_of a k + (\<Sum>(k', n) \<leftarrow> b. if k' = k then n else 0)"
  "total (add_counters a b) = total a + total b"
  using counters.count_foldl [of fst snd a b k] counters.grand_foldl [of fst snd a b]
  by (simp_all add: add_counters_def case_prod_beta' total_def)

lemma sum_distinct_counts: "mapping_ok b \<Longrightarrow> (\<Sum>(k', n) \<leftarrow> b. if k' = k then n else 0) = count_of b k"
proof (induction b)
  case (Cons x b)
  then have ok: "mapping_ok b" "fst x \<notin> fst ` set b" by (auto simp: mapping_ok_def)
  then have "count_of b (fst x) = 0"
    by (auto simp: count_of_def mapping_lookup_def split: option.splits dest: map_of_SomeD intro: rev_image_eqI)
  with Cons.IH [OF ok(1)] show ?case by (cases x) (auto simp: count_of_def mapping_lookup_def)
qed simp

section \<open>Pages and hits\<close>

lemma url_copy_len_le: "url_copy_len url \<le> int (length url)"
proof (cases "CHR ''?'' \<in> set (cstr url)")
  case True
  then have "length (takeWhile (\<lambda>x. x \<noteq> CHR ''?'') (cstr url)) \<le> length url"
    using length_takeWhile_le length_cstr_le le_trans by blast
  with True show ?thesis by (simp add: url_copy_len_def find_char_def)
qed (simp add: url_copy_len_def find_char_def)

lemma decoded_url_eq:
  "decoded_url url =
     (if url_copy_len url < 0 then Inl Out_of_bounds
      else Inr (pct_decode False False (take (nat (url_copy_len url)) url)))"
  using url_copy_len_le [of url] http_decode_string_eq [of "nat (url_copy_len url)" "take (nat (url_copy_len url)) url @ [NUL]"]
  by (simp add: decoded_url_def Let_def)

lemma url_copy_len_plain: "CHR ''?'' \<notin> set url \<Longrightarrow> length url \<le> MAX_LINE_LEN \<Longrightarrow> url_copy_len url = int (length url)"
  by (auto simp: url_copy_len_def find_char_def dest: cstr_set)

lemma takeWhile_upto: "c \<notin> set p \<Longrightarrow> takeWhile (\<lambda>x. x \<noteq> c) (p @ c # q) = p"
  by (induction p) auto

lemma url_copy_len_query:
  "CHR ''?'' \<notin> set p \<Longrightarrow> NUL \<notin> set p \<Longrightarrow> length p \<le> MAX_LINE_LEN \<Longrightarrow>
     url_copy_len (p @ CHR ''?'' # q) = int (length p) - 1"
  by (simp add: url_copy_len_def find_char_def cstr_append takeWhile_upto)

text \<open>What the table of an hour's urls adds to the two tables.\<close>

definition page_key :: "string list \<Rightarrow> string \<Rightarrow> string option" where
  "page_key pagexts url =
     (let d = pct_decode False False (take (nat (url_copy_len url)) url) in if ispage d pagexts then Some d else None)"

definition hit_key :: "string list \<Rightarrow> string \<Rightarrow> string option" where
  "hit_key pagexts url =
     (let d = pct_decode False False (take (nat (url_copy_len url)) url) in if ispage d pagexts then None else Some d)"

lemma hourly_fold:
  assumes "\<forall>(u, n) \<in> set urls. 0 \<le> url_copy_len u"
  shows "\<exists>pages' hits' n'. fold_res (hourly_step exts) urls (pages, hits, n) = Inr (pages', hits', n') \<and>
    n' + total pages = n + total pages' \<and>
    total pages' + total hits' = total pages + total hits + total urls \<and>
    (\<forall>k. count_of pages' k = count_of pages k + (\<Sum>(u, n) \<leftarrow> urls. if page_key exts u = Some k then n else 0)) \<and>
    (\<forall>k. count_of hits' k = count_of hits k + (\<Sum>(u, n) \<leftarrow> urls. if hit_key exts u = Some k then n else 0))"
  using assms
proof (induction urls arbitrary: pages hits n)
  case Nil
  then show ?case by simp
next
  case (Cons un urls)
  obtain u w where un: "un = (u, w)" by fastforce
  have len: "\<not> url_copy_len u < 0" and rest: "\<forall>(u, n) \<in> set urls. 0 \<le> url_copy_len u" using Cons.prems un by auto
  let ?d = "pct_decode False False (take (nat (url_copy_len u)) u)"
  show ?case
  proof (cases "ispage ?d exts")
    case True
    then have "hourly_step exts un (pages, hits, n) = Inr (mapaddstrnum pages ?d w, hits, n + w)"
      using len by (simp add: hourly_step_def un decoded_url_eq)
    moreover have "page_key exts u = Some ?d" "hit_key exts u = None" using True by (simp_all add: page_key_def hit_key_def)
    ultimately show ?thesis
      using Cons.IH [OF rest, of "mapaddstrnum pages ?d w" hits "n + w"]
      by (auto simp: un count_of_mapaddstrnum algebra_simps)
  next
    case False
    then have "hourly_step exts un (pages, hits, n) = Inr (pages, mapaddstrnum hits ?d w, n)"
      using len by (simp add: hourly_step_def un decoded_url_eq)
    moreover have "page_key exts u = None" "hit_key exts u = Some ?d" using False by (simp_all add: page_key_def hit_key_def)
    ultimately show ?thesis
      using Cons.IH [OF rest, of pages "mapaddstrnum hits ?d w" n]
      by (auto simp: un count_of_mapaddstrnum algebra_simps)
  qed
qed

section \<open>Hosts and their domains\<close>

lemma find_char_last_Nil [simp]: "find_char_last c [] = None"
  by (simp add: find_char_last_def)

lemma find_char_last_snoc: "find_char_last c (xs @ [x]) = (if x = c then Some (length xs) else find_char_last c xs)"
  by (auto simp: find_char_last_def)

lemma find_char_last_take:
  "Suc i \<le> length xs \<Longrightarrow>
     find_char_last c (take (Suc i) xs) = (if xs ! i = c then Some i else find_char_last c (take i xs))"
  by (simp add: take_Suc_conv_app_nth find_char_last_snoc)

text \<open>
  The keys a host counts under in the two tables of domains: the part behind its last dot and the
  part behind the last dot but one, where the very last byte is not looked at; an address counts
  nowhere and a short name as unresolved.
\<close>

definition host_domains :: "string \<Rightarrow> string option \<times> string option" where
  "host_domains host =
     (if MAX_LINE_LEN \<le> length host then (Some host, Some host)
      else if length host \<le> 1 then (Some ''Unresolved'', Some ''Unresolved'')
      else (let low = map ultra_lower_byte host
            in case find_char_last (CHR ''.'') (butlast low) of
                 None \<Rightarrow> (Some host, Some host)
               | Some p \<Rightarrow>
                   if char_class (low ! (p + 1)) = CLS_DIGIT then (None, None)
                   else (case find_char_last (CHR ''.'') (take p low) of
                           None \<Rightarrow> (Some host, Some (cstr (drop (p + 1) low)))
                         | Some q \<Rightarrow> (Some (cstr (drop (q + 1) low)), Some (cstr (drop (p + 1) low))))))"

definition new_host :: "string \<Rightarrow> string option" where
  "new_host host = (if 1 < length host \<and> length host < MAX_LINE_LEN then Some (map ultra_lower_byte host) else None)"

definition add_opt :: "string table \<Rightarrow> string option \<Rightarrow> counter \<Rightarrow> string table" where
  "add_opt m k n = (case k of None \<Rightarrow> m | Some key \<Rightarrow> mapaddstrnum m key n)"

lemma count_of_add_opt: "count_of (add_opt m k n) k' = count_of m k' + (if k = Some k' then n else 0)"
  by (auto simp: add_opt_def count_of_mapaddstrnum split: option.splits)

lemma host_dots_one:
  "point \<le> length tmp \<Longrightarrow>
     host_dots tmp n point (Suc 0) domains topdomains =
       (case find_char_last (CHR ''.'') (take point tmp) of
          None \<Rightarrow> (1, domains, topdomains)
        | Some q \<Rightarrow> (2, mapaddstrnum domains (cstr (drop (q + 1) tmp)) n, topdomains))"
  by (induction point) (auto simp: find_char_last_take)

lemma host_dots_zero:
  "point \<le> length tmp \<Longrightarrow>
     host_dots tmp n point 0 domains topdomains =
       (case find_char_last (CHR ''.'') (take point tmp) of
          None \<Rightarrow> (0, domains, topdomains)
        | Some p \<Rightarrow>
            if char_class (tmp ! (p + 1)) = CLS_DIGIT then (2, domains, topdomains)
            else (case find_char_last (CHR ''.'') (take p tmp) of
                    None \<Rightarrow> (1, domains, mapaddstrnum topdomains (cstr (drop (p + 1) tmp)) n)
                  | Some q \<Rightarrow> (2, mapaddstrnum domains (cstr (drop (q + 1) tmp)) n,
                               mapaddstrnum topdomains (cstr (drop (p + 1) tmp)) n)))"
  by (induction point) (auto simp: find_char_last_take host_dots_one split: option.splits)

lemma find_char_last_less: "find_char_last c xs = Some p \<Longrightarrow> p < length xs"
  by (auto simp: find_char_last_def split: if_splits) (cases xs, auto)

lemma cstr_snoc_NUL: "cstr (s @ [NUL]) = cstr s"
  using cstr_until_NUL [of s "[]"] by simp

lemma hosts_step_eq:
  "hosts_step (host, n) (domains, topdomains, newhosts) =
     (add_opt domains (fst (host_domains host)) n, add_opt topdomains (snd (host_domains host)) n,
      add_opt newhosts (new_host host) n)"
proof (cases "1 < length host \<and> length host < MAX_LINE_LEN")
  case True
  define low where "low = map ultra_lower_byte host"
  have len: "length low = length host" by (simp add: low_def)
  have lower: "ultra_lowercase host (length host) = (low, low \<noteq> host)" by (simp add: ultra_lowercase_def low_def)
  have key: "(if low \<noteq> host then low else host) = low" by auto
  have l0: "length host - 1 \<le> length (low @ [NUL])" using len by simp
  have bl': "take (length host - 1) (low @ [NUL]) = butlast low"
    using len by (simp add: butlast_conv_take)
  have pos: "p < length host - 1" if "find_char_last (CHR ''.'') (butlast low) = Some p" for p
    using find_char_last_less [OF that] len by simp
  have q: "q < p" if "p < length host - 1" "find_char_last (CHR ''.'') (take p low) = Some q" for p q
    using find_char_last_less [OF that(2)] by simp
  have c: "1 < length host" "length host < MAX_LINE_LEN" "\<not> MAX_LINE_LEN \<le> length host" "\<not> length host \<le> 1"
    using True by auto
  have nh: "new_host host = Some low" using c by (simp add: new_host_def low_def)
  have dots: "host_dots (low @ [NUL]) n (length host - 1) 0 domains topdomains =
      (case find_char_last (CHR ''.'') (butlast low) of
         None \<Rightarrow> (0, domains, topdomains)
       | Some p \<Rightarrow>
           if char_class (low ! (p + 1)) = CLS_DIGIT then (2, domains, topdomains)
           else (case find_char_last (CHR ''.'') (take p low) of
                   None \<Rightarrow> (1, domains, mapaddstrnum topdomains (cstr (drop (p + 1) low)) n)
                 | Some q \<Rightarrow> (2, mapaddstrnum domains (cstr (drop (q + 1) low)) n,
                              mapaddstrnum topdomains (cstr (drop (p + 1) low)) n)))"
    (is "_ = ?dots")
  proof (cases "find_char_last (CHR ''.'') (butlast low)")
    case None
    then show ?thesis unfolding host_dots_zero [OF l0] bl' by simp
  next
    case (Some p)
    have p: "p < length host - 1" using pos [OF Some] .
    have low_p: "(low @ [NUL]) ! (p + 1) = low ! (p + 1)" using p len by (auto simp: nth_append)
    have take_p: "take p (low @ [NUL]) = take p low" using p len by simp
    have drop_p: "cstr (drop (r + 1) (low @ [NUL])) = cstr (drop (r + 1) low)" if "r \<le> p" for r
      using p len that by (simp add: cstr_snoc_NUL)
    show ?thesis
    proof (cases "find_char_last (CHR ''.'') (take p low)")
      case None
      then show ?thesis using len Some drop_p [of p] unfolding host_dots_zero [OF l0] bl' Some option.case low_p take_p by simp
    next
      case (Some r)
      then have "r \<le> p" using q [OF p] by fastforce
      then show ?thesis using Some drop_p [of p] drop_p [of r]
        unfolding host_dots_zero [OF l0] bl' \<open>find_char_last (CHR ''.'') (butlast low) = Some p\<close> option.case low_p take_p by simp
    qed
  qed
  have step: "hosts_step (host, n) (domains, topdomains, newhosts) =
      (case ?dots of (top_done, domains, topdomains) \<Rightarrow>
        (if top_done \<le> 1 then mapaddstrnum domains host n else domains,
         if top_done = 0 then mapaddstrnum topdomains host n else topdomains, mapaddstrnum newhosts low n))"
    unfolding hosts_step_def prod.case Let_def lower key dots if_P [OF c(1)] if_P [OF c(2)]
    by (simp split: prod.split)
  have dom: "host_domains host =
      (case find_char_last (CHR ''.'') (butlast low) of
         None \<Rightarrow> (Some host, Some host)
       | Some p \<Rightarrow>
           if char_class (low ! (p + 1)) = CLS_DIGIT then (None, None)
           else (case find_char_last (CHR ''.'') (take p low) of
                   None \<Rightarrow> (Some host, Some (cstr (drop (p + 1) low)))
                 | Some q \<Rightarrow> (Some (cstr (drop (q + 1) low)), Some (cstr (drop (p + 1) low)))))"
    unfolding host_domains_def Let_def low_def if_not_P [OF c(3)] if_not_P [OF c(4)] ..
  show ?thesis
    unfolding step dom nh by (simp add: add_opt_def split: option.split)
next
  case False
  then show ?thesis
    by (auto simp: hosts_step_def host_domains_def new_host_def add_opt_def Let_def MAX_LINE_LEN_def)
qed

lemma summarize_hosts_counts:
  "summarize_hosts hosts domains topdomains newhosts = (domains', topdomains', newhosts') \<Longrightarrow>
     count_of domains' k = count_of domains k + (\<Sum>(h, n) \<leftarrow> hosts. if fst (host_domains h) = Some k then n else 0) \<and>
     count_of topdomains' k = count_of topdomains k + (\<Sum>(h, n) \<leftarrow> hosts. if snd (host_domains h) = Some k then n else 0) \<and>
     count_of newhosts' k = count_of newhosts k + (\<Sum>(h, n) \<leftarrow> hosts. if new_host h = Some k then n else 0)"
  unfolding summarize_hosts_def
proof (induction hosts arbitrary: domains topdomains newhosts)
  case (Cons hn hosts)
  obtain h n where hn: "hn = (h, n)" by (cases hn)
  from Cons.prems have "foldl (\<lambda>t h. hosts_step h t) (add_opt domains (fst (host_domains h)) n,
      add_opt topdomains (snd (host_domains h)) n, add_opt newhosts (new_host h) n) hosts = (domains', topdomains', newhosts')"
    unfolding hn foldl.simps hosts_step_eq .
  from Cons.IH [OF this] show ?case by (simp add: hn count_of_add_opt add.assoc)
qed simp

section \<open>Adding mappings\<close>

text \<open>The counter at the end of a path of keys.\<close>

primrec leaf :: "mvalue \<Rightarrow> svalue list \<Rightarrow> counter" where
  "leaf v [] = (case v of MInt n \<Rightarrow> n | _ \<Rightarrow> 0)"
| "leaf v (k # p) = (case v of MMap m \<Rightarrow> (case mapping_lookup m k of None \<Rightarrow> 0 | Some w \<Rightarrow> leaf w p) | _ \<Rightarrow> 0)"

fun wf_mapping :: "(svalue, mvalue) pmap \<Rightarrow> bool" where
  "wf_mapping [] = True"
| "wf_mapping ((k, v) # m) =
     (k \<notin> fst ` set m \<and> (case v of MMap s \<Rightarrow> wf_mapping s | _ \<Rightarrow> True) \<and> wf_mapping m)"

text \<open>No value meets one of another type.\<close>

fun addable :: "(svalue, mvalue) pmap \<Rightarrow> (svalue, mvalue) pmap \<Rightarrow> bool" where
  "addable tom [] = True"
| "addable tom ((k, v) # fromm) =
     ((case v of
         MInt _ \<Rightarrow> (case mapping_lookup tom k of None \<Rightarrow> True | Some (MInt _) \<Rightarrow> True | Some _ \<Rightarrow> False)
       | MFloat _ \<Rightarrow> (case mapping_lookup tom k of None \<Rightarrow> True | Some (MFloat _) \<Rightarrow> True | Some _ \<Rightarrow> False)
       | MMap s \<Rightarrow> (case mapping_lookup tom k of None \<Rightarrow> addable [] s | Some (MMap t) \<Rightarrow> addable t s | Some _ \<Rightarrow> False)
       | MOther _ \<Rightarrow> True) \<and> addable tom fromm)"

lemma addable_insert: "k \<notin> fst ` set b \<Longrightarrow> addable (mapping_insert a k v) b = addable a b"
  by (induction b) (auto split: mvalue.splits option.splits)

lemma leaf_insert:
  "leaf (MMap (mapping_insert m k v)) p =
     (case p of [] \<Rightarrow> 0 | k' # q \<Rightarrow> if k' = k then leaf v q else leaf (MMap m) p)"
  by (cases p) auto

lemma leaf_Cons:
  "leaf (MMap ((k, v) # m)) p =
     (case p of [] \<Rightarrow> 0 | k' # q \<Rightarrow> if k' = k then leaf v q else leaf (MMap m) p)"
  by (cases p) (auto simp: mapping_lookup_def)

lemma leaf_absent: "k \<notin> fst ` set m \<Longrightarrow> leaf (MMap m) (k # q) = 0"
  by (auto simp: mapping_lookup_def split: option.splits dest: map_of_SomeD intro: rev_image_eqI)

declare leaf.simps(2) [simp del]

lemma leaf_empty [simp]: "leaf (MMap []) p = 0" "leaf (MMap m) [] = 0"
  by (cases p; simp add: leaf.simps(2))+

lemma leaf_add_one:
  assumes "k \<notin> fst ` set b" "\<And>q. leaf w q = leaf (MMap a) (k # q) + leaf v q"
    and "\<And>p. leaf (MMap c) p = leaf (MMap (mapping_insert a k w)) p + leaf (MMap b) p"
  shows "leaf (MMap c) p = leaf (MMap a) p + leaf (MMap ((k, v) # b)) p"
  using assms leaf_absent [OF assms(1)] by (cases p) (auto simp: leaf_insert leaf_Cons)

lemma leaf_simps [simp]: "leaf (MInt n) q = (if q = [] then n else 0)" "leaf (MFloat x) q = 0" "leaf (MOther y) q = 0"
  by (cases q; simp add: leaf.simps(2))+

lemma do_map_addition_leaves:
  "wf_mapping b \<Longrightarrow> addable a b \<Longrightarrow>
     \<exists>c. do_map_addition fadd a b = Inr c \<and> (\<forall>p. leaf (MMap c) p = leaf (MMap a) p + leaf (MMap b) p)"
proof (induction fadd a b rule: do_map_addition.induct)
  case (1 fadd a)
  show ?case by simp
next
  case (2 fadd a k v b)
  have k: "k \<notin> fst ` set b" and b: "wf_mapping b" "addable a b" using "2.prems" by auto
  have rest: "addable (mapping_insert a k w) b" for w using addable_insert [OF k] b by simp
  have step_case: ?case if step: "do_map_addition fadd a ((k, v) # b) = do_map_addition fadd (mapping_insert a k w) b"
    and leaves: "\<And>q. leaf w q = leaf (MMap a) (k # q) + leaf v q"
    and ih: "\<exists>c. do_map_addition fadd (mapping_insert a k w) b = Inr c \<and>
      (\<forall>p. leaf (MMap c) p = leaf (MMap (mapping_insert a k w)) p + leaf (MMap b) p)" for w
    using ih leaf_add_one [OF k leaves] unfolding step by metis
  show ?case
  proof (cases v)
    case (MInt n)
    define w where "w = (case mapping_lookup a k of Some (MInt s) \<Rightarrow> MInt (s + n) | _ \<Rightarrow> MInt n)"
    have add: "mapaddintnum a k n = Inr (mapping_insert a k w)"
      using "2.prems"(2) by (auto simp: MInt mapaddintnum_def w_def split: option.splits mvalue.splits)
    show ?thesis
    proof (rule step_case)
      show "do_map_addition fadd a ((k, v) # b) = do_map_addition fadd (mapping_insert a k w) b" by (simp add: MInt add)
      show "leaf w q = leaf (MMap a) (k # q) + leaf v q" for q
        using "2.prems"(2) by (auto simp: MInt w_def leaf.simps(2) split: option.splits mvalue.splits)
      show "\<exists>c. do_map_addition fadd (mapping_insert a k w) b = Inr c \<and>
        (\<forall>p. leaf (MMap c) p = leaf (MMap (mapping_insert a k w)) p + leaf (MMap b) p)"
        using "2.IH"(1) [OF MInt b(1) rest] .
    qed
  next
    case (MFloat x)
    define w where "w = (case mapping_lookup a k of Some (MFloat s) \<Rightarrow> MFloat (fadd s x) | _ \<Rightarrow> MFloat x)"
    have add: "mapaddfloatnum fadd a k x = Inr (mapping_insert a k w)"
      using "2.prems"(2) by (auto simp: MFloat mapaddfloatnum_def w_def split: option.splits mvalue.splits)
    show ?thesis
    proof (rule step_case)
      show "do_map_addition fadd a ((k, v) # b) = do_map_addition fadd (mapping_insert a k w) b" by (simp add: MFloat add)
      show "leaf w q = leaf (MMap a) (k # q) + leaf v q" for q
        using "2.prems"(2) by (auto simp: MFloat w_def leaf.simps(2) split: option.splits mvalue.splits)
      show "\<exists>c. do_map_addition fadd (mapping_insert a k w) b = Inr c \<and>
        (\<forall>p. leaf (MMap c) p = leaf (MMap (mapping_insert a k w)) p + leaf (MMap b) p)"
        using "2.IH"(2) [OF MFloat b(1) rest] .
    qed
  next
    case (MMap s)
    have s: "wf_mapping s" using "2.prems"(1) by (simp add: MMap)
    show ?thesis
    proof (cases "mapping_lookup a k")
      case None
      have "addable [] s" using "2.prems"(2) by (simp add: MMap None)
      from "2.IH"(3) [OF MMap None s this] obtain m where m: "do_map_addition fadd [] s = Inr m"
        "\<forall>p. leaf (MMap m) p = leaf (MMap []) p + leaf (MMap s) p" by blast
      show ?thesis
      proof (rule step_case)
        show "do_map_addition fadd a ((k, v) # b) = do_map_addition fadd (mapping_insert a k (MMap m)) b"
          by (simp add: MMap None m)
        show "leaf (MMap m) q = leaf (MMap a) (k # q) + leaf v q" for q using m(2) by (simp add: MMap None leaf.simps(2))
        show "\<exists>c. do_map_addition fadd (mapping_insert a k (MMap m)) b = Inr c \<and>
          (\<forall>p. leaf (MMap c) p = leaf (MMap (mapping_insert a k (MMap m))) p + leaf (MMap b) p)"
          using "2.IH"(4) [OF MMap None b(1) rest] .
      qed
    next
      case (Some old)
      then obtain t where t: "old = MMap t" "addable t s"
        using "2.prems"(2) by (auto simp: MMap split: mvalue.splits)
      from "2.IH"(5) [OF MMap Some t(1) s t(2)] obtain m where m: "do_map_addition fadd t s = Inr m"
        "\<forall>p. leaf (MMap m) p = leaf (MMap t) p + leaf (MMap s) p" by blast
      show ?thesis
      proof (rule step_case)
        show "do_map_addition fadd a ((k, v) # b) = do_map_addition fadd (mapping_insert a k (MMap m)) b"
          by (simp add: MMap Some t m)
        show "leaf (MMap m) q = leaf (MMap a) (k # q) + leaf v q" for q using m(2) by (simp add: MMap Some t leaf.simps(2))
        show "\<exists>c. do_map_addition fadd (mapping_insert a k (MMap m)) b = Inr c \<and>
          (\<forall>p. leaf (MMap c) p = leaf (MMap (mapping_insert a k (MMap m))) p + leaf (MMap b) p)"
          using "2.IH"(6) [OF MMap Some t(1) b(1) rest] .
      qed
    qed
  next
    case (MOther y)
    have "leaf (MMap ((k, v) # b)) p = leaf (MMap b) p" for p
      using leaf_absent [OF k] by (cases p) (auto simp: leaf_Cons MOther)
    with "2.IH"(7) [OF MOther b] show ?thesis by (simp add: MOther)
  qed
qed

section \<open>Limiting a table\<close>

lemma foldl_insert_distinct:
  "distinct (map fst (m @ xs)) \<Longrightarrow> foldl (\<lambda>m (k, n). mapping_insert m k n) m xs = m @ xs"
proof (induction xs arbitrary: m)
  case (Cons x xs)
  obtain k n where x: "x = (k, n)" by fastforce
  have "k \<notin> fst ` set m" using Cons.prems by (auto simp: x)
  then have "mapping_insert m k n = m @ [(k, n)]"
    by (induction m) (auto simp: mapping_insert_def)
  with Cons.IH [of "m @ [(k, n)]"] Cons.prems show ?case by (simp add: x)
qed simp

text \<open>The parts the sort splits a table into.\<close>

definition kept_part :: "string table \<Rightarrow> nat \<Rightarrow> string table" where
  "kept_part m maxsize = drop (length m - maxsize) (sort_key (\<lambda>(k, n). sint n) m)"

definition dropped_part :: "string table \<Rightarrow> nat \<Rightarrow> string table" where
  "dropped_part m maxsize = take (length m - maxsize) (sort_key (\<lambda>(k, n). sint n) m)"

lemma parts:
  "mset (dropped_part m maxsize) + mset (kept_part m maxsize) = mset m"
  "length (kept_part m maxsize) = min (length m) maxsize"
proof -
  have "mset (dropped_part m maxsize @ kept_part m maxsize) = mset m"
    by (simp only: dropped_part_def kept_part_def append_take_drop_id mset_sort)
  then show "mset (dropped_part m maxsize) + mset (kept_part m maxsize) = mset m" by simp
qed (simp add: kept_part_def min_def)

lemma parts_ordered:
  assumes "(k, n) \<in> set (dropped_part m maxsize)" "(k', n') \<in> set (kept_part m maxsize)"
  shows "sint n \<le> sint n'"
proof -
  have "sorted (map (\<lambda>(k, n). sint n) (dropped_part m maxsize @ kept_part m maxsize))"
    by (simp only: dropped_part_def kept_part_def append_take_drop_id sorted_sort_key)
  then have "\<forall>x \<in> set (dropped_part m maxsize). \<forall>y \<in> set (kept_part m maxsize). sint (snd x) \<le> sint (snd y)"
    by (auto simp: sorted_append case_prod_beta')
  with assms show ?thesis by fastforce
qed

lemma mset_distinct_append:
  "mset xs + mset ys = mset zs \<Longrightarrow> distinct (map fst zs) \<Longrightarrow> distinct (map fst (xs @ ys))"
  by (metis mset_append mset_map mset_eq_imp_distinct_iff)

lemma total_mset: "mset m = mset m' \<Longrightarrow> total m = total m'"
  unfolding total_def by (metis mset_map sum_mset_sum_list)

lemma compress_mapping_parts:
  assumes "mapping_ok m"
  shows "compress_mapping m maxsize = mapaddstrnum (kept_part m maxsize) ''Other'' (total (dropped_part m maxsize))"
    and "mapping_ok (kept_part m maxsize)"
    and "total m = total (dropped_part m maxsize) + total (kept_part m maxsize)"
proof -
  have d: "distinct (map fst (dropped_part m maxsize @ kept_part m maxsize))"
    using mset_distinct_append [OF parts(1)] assms by (simp add: mapping_ok_def)
  then have "distinct (map fst ([] @ kept_part m maxsize))" by simp
  from foldl_insert_distinct [OF this]
  show "compress_mapping m maxsize = mapaddstrnum (kept_part m maxsize) ''Other'' (total (dropped_part m maxsize))"
    by (simp add: compress_mapping_def Let_def kept_part_def dropped_part_def total_def)
  show "mapping_ok (kept_part m maxsize)" using d by (simp add: mapping_ok_def)
  have "mset (dropped_part m maxsize @ kept_part m maxsize) = mset m" using parts(1) by simp
  from total_mset [OF this] show "total m = total (dropped_part m maxsize) + total (kept_part m maxsize)"
    by (simp add: total_def)
qed

lemma length_mapaddstrnum: "length (mapaddstrnum m k n) \<le> length m + 1"
proof -
  have "length (AList.update k v m) \<le> length m + 1" for v by (induction m) auto
  then show ?thesis by (simp add: mapadd_alt mapping_insert_def)
qed

section \<open>Sessions\<close>

text \<open>
  The accesses of one host in order: a pause of more than \<open>SESSION_IDLE\<close> seconds begins a new
  session, and the time of a session is that from its first to its last access.
\<close>

definition accesses :: "string \<Rightarrow> (string \<times> int) list \<Rightarrow> int list" where
  "accesses host evs = map snd (filter (\<lambda>e. fst e = host) evs)"

fun session_count :: "int list \<Rightarrow> nat" where
  "session_count [] = 0"
| "session_count [t] = 1"
| "session_count (t # u # ts) = (if t + SESSION_IDLE < u then 1 else 0) + session_count (u # ts)"

fun session_time :: "int list \<Rightarrow> int" where
  "session_time [] = 0"
| "session_time [t] = 0"
| "session_time (t # u # ts) = (if t + SESSION_IDLE < u then 0 else u - t) + session_time (u # ts)"

definition process_sessions ::
  "int \<Rightarrow> (string \<times> int) list \<Rightarrow> sessions \<times> string table \<Rightarrow> (sessions \<times> string table) res" where
  "process_sessions hour evs = fold_res (\<lambda>(host, t) (s, sites). process_session host t hour s sites) evs"

lemma session_count_snoc:
  "session_count (ts @ [t]) = session_count ts + (if ts = [] \<or> last ts + SESSION_IDLE < t then 1 else 0)"
  by (induction ts rule: session_count.induct) auto

lemma session_time_snoc:
  "session_time (ts @ [t]) = session_time ts + (if ts = [] \<or> last ts + SESSION_IDLE < t then 0 else t - last ts)"
  by (induction ts rule: session_time.induct) auto

lemma accesses_snoc: "accesses h (evs @ [(h', t)]) = accesses h evs @ (if h' = h then [t] else [])"
  by (simp add: accesses_def)

lemma accesses_Nil_iff: "accesses h evs = [] \<longleftrightarrow> h \<notin> fst ` set evs"
  by (force simp: accesses_def filter_empty_conv)

text \<open>The sum of the times in one of the two mappings, as the counters add them.\<close>

definition clock_sum :: "(string, int) pmap \<Rightarrow> counter" where
  "clock_sum m = (\<Sum>(h, t) \<leftarrow> m. word_of_int t)"

lemma clock_sum_insert:
  "clock_sum (mapping_insert m h t) =
     clock_sum m - (case mapping_lookup m h of None \<Rightarrow> 0 | Some u \<Rightarrow> word_of_int u) + word_of_int t"
  by (induction m) (auto simp: clock_sum_def mapping_insert_def mapping_lookup_def split: option.splits)

lemma length_insert:
  "length (mapping_insert m h t) = length m + (if mapping_lookup m h = None then 1 else 0)"
  by (induction m) (auto simp: mapping_insert_def mapping_lookup_def)

lemma clock_sum_keys:
  "mapping_ok m \<Longrightarrow> clock_sum m = (\<Sum>h \<in> fst ` set m. word_of_int (the (mapping_lookup m h)))"
proof (induction m)
  case (Cons x m)
  obtain h t where x: "x = (h, t)" by fastforce
  have ok: "mapping_ok m" "h \<notin> fst ` set m" using Cons.prems by (auto simp: x mapping_ok_def)
  have "(\<Sum>h' \<in> fst ` set m. word_of_int (the (mapping_lookup ((h, t) # m) h'))) =
      (\<Sum>h' \<in> fst ` set m. word_of_int (the (mapping_lookup m h')) :: counter)"
    using ok(2) by (intro sum.cong) (auto simp: mapping_lookup_def)
  moreover have "clock_sum (x # m) = word_of_int t + clock_sum m" by (simp add: clock_sum_def x)
  moreover have "the (mapping_lookup ((h, t) # m) h) = t" by (simp add: mapping_lookup_def)
  ultimately show ?case using Cons.IH [OF ok(1)] ok(2) by (simp add: x)
qed (simp add: clock_sum_def)

lemma sum_hosts_snoc:
  fixes f :: "int list \<Rightarrow> 'n :: comm_monoid_add"
  assumes "f [] = 0"
  shows "(\<Sum>x \<in> fst ` set (evs @ [(h, t)]). f (accesses x (evs @ [(h, t)]))) + f (accesses h evs) =
    (\<Sum>x \<in> fst ` set evs. f (accesses x evs)) + f (accesses h evs @ [t])"
proof -
  let ?T = "insert h (fst ` set evs)"
  have "(\<Sum>x \<in> fst ` set evs. f (accesses x evs)) = (\<Sum>x \<in> ?T. f (accesses x evs))"
    using assms by (intro sum.mono_neutral_left) (auto simp: accesses_Nil_iff [symmetric])
  also have "\<dots> = f (accesses h evs) + (\<Sum>x \<in> ?T - {h}. f (accesses x evs))"
    by (rule sum.remove) auto
  finally have old: "(\<Sum>x \<in> fst ` set evs. f (accesses x evs)) = f (accesses h evs) + (\<Sum>x \<in> ?T - {h}. f (accesses x evs))" .
  have "fst ` set (evs @ [(h, t)]) = ?T" by auto
  then have "(\<Sum>x \<in> fst ` set (evs @ [(h, t)]). f (accesses x (evs @ [(h, t)]))) = (\<Sum>x \<in> ?T. f (accesses x (evs @ [(h, t)])))"
    by simp
  also have "\<dots> = f (accesses h (evs @ [(h, t)])) + (\<Sum>x \<in> ?T - {h}. f (accesses x (evs @ [(h, t)])))"
    by (rule sum.remove) auto
  also have "(\<Sum>x \<in> ?T - {h}. f (accesses x (evs @ [(h, t)]))) = (\<Sum>x \<in> ?T - {h}. f (accesses x evs))"
    by (rule sum.cong) (auto simp: accesses_snoc)
  finally show ?thesis unfolding old by (simp add: accesses_snoc ac_simps)
qed

definition all_sessions :: "(string \<times> int) list \<Rightarrow> nat" where
  "all_sessions evs = (\<Sum>h \<in> fst ` set evs. session_count (accesses h evs))"

definition all_time :: "(string \<times> int) list \<Rightarrow> int" where
  "all_time evs = (\<Sum>h \<in> fst ` set evs. session_time (accesses h evs))"

lemma all_snoc:
  "all_sessions (evs @ [(h, t)]) =
     all_sessions evs + (if accesses h evs = [] \<or> last (accesses h evs) + SESSION_IDLE < t then 1 else 0)"
  "all_time (evs @ [(h, t)]) =
     all_time evs + (if accesses h evs = [] \<or> last (accesses h evs) + SESSION_IDLE < t then 0 else t - last (accesses h evs))"
  using sum_hosts_snoc [of session_count evs h t] sum_hosts_snoc [of session_time evs h t]
  by (simp_all only: all_sessions_def all_time_def session_count_snoc session_time_snoc session_count.simps session_time.simps)
    auto

text \<open>The array \<open>a\<close> with \<open>w\<close> added at \<open>i\<close>.\<close>

abbreviation arr_plus :: "counter list \<Rightarrow> int \<Rightarrow> counter \<Rightarrow> counter list" where
  "arr_plus a i w \<equiv> a[nat i := a ! nat i + w]"

lemma arr_add_ok: "0 \<le> i \<Longrightarrow> nat i < length a \<Longrightarrow> arr_add a i w = Inr (arr_plus a i w)"
  by (simp add: arr_add_def)

lemma arr_plus_plus: "nat i < length a \<Longrightarrow> arr_plus (arr_plus a i v) i w = arr_plus a i (v + w)"
  by (simp add: add.assoc)

definition sessions_inv :: "int \<Rightarrow> sessions \<Rightarrow> (string \<times> int) list \<Rightarrow> sessions \<Rightarrow> bool" where
  "sessions_inv hour s0 evs s \<longleftrightarrow>
     mapping_ok (sess_start s) \<and> mapping_ok (sess_end s) \<and>
     (\<forall>h. mapping_lookup (sess_end s) h = (if accesses h evs = [] then None else Some (last (accesses h evs)))) \<and>
     (\<forall>h. mapping_lookup (sess_start s) h = None \<longleftrightarrow> accesses h evs = []) \<and>
     per_hour s = arr_plus (per_hour s0) hour
       (of_nat (all_sessions evs) - of_nat (length (sess_start s))) \<and>
     time_per s = arr_plus (time_per s0) hour
       (word_of_int (all_time evs) - clock_sum (sess_end s) + clock_sum (sess_start s))"

lemma process_session_inv:
  assumes inv: "sessions_inv hour s0 evs s" and t: "\<forall>(h, t) \<in> set (evs @ [(host, t)]). 0 \<le> t \<and> t < 2 ^ 31 - 600"
    and i: "0 \<le> hour" "nat hour < length (per_hour s0)" "nat hour < length (time_per s0)"
  shows "\<exists>s'. process_session host t hour s sites = Inr (s', mapaddsval sites host) \<and> sessions_inv hour s0 (evs @ [(host, t)]) s'"
proof (cases "accesses host evs = []")
  case True
  have none: "mapping_lookup (sess_end s) host = None" "mapping_lookup (sess_start s) host = None"
    using inv True by (simp_all add: sessions_inv_def)
  let ?s = "s\<lparr>sess_start := mapping_insert (sess_start s) host t, sess_end := mapping_insert (sess_end s) host t\<rparr>"
  have "clock_sum (mapping_insert (sess_start s) host t) = clock_sum (sess_start s) + word_of_int t"
    "clock_sum (mapping_insert (sess_end s) host t) = clock_sum (sess_end s) + word_of_int t"
    by (simp_all add: clock_sum_insert none)
  then have "sessions_inv hour s0 (evs @ [(host, t)]) ?s"
    using inv True by (simp add: sessions_inv_def all_snoc accesses_snoc length_insert algebra_simps)
  moreover have "process_session host t hour s sites = Inr (?s, mapaddsval sites host)"
    by (simp add: process_session_def none Let_def)
  ultimately show ?thesis by blast
next
  case False
  define stop where "stop = last (accesses host evs)"
  have stop: "mapping_lookup (sess_end s) host = Some stop" using inv False by (simp add: sessions_inv_def stop_def)
  obtain start where start: "mapping_lookup (sess_start s) host = Some start"
    using inv False by (fastforce simp: sessions_inv_def)
  have "stop \<in> snd ` set (filter (\<lambda>e. fst e = host) evs)"
    using last_in_set [OF False] by (simp add: stop_def accesses_def)
  then have "0 \<le> stop" "stop < 2 ^ 31 - 600" using t by auto
  then have wrap: "wrap32 (stop + SESSION_IDLE) = stop + SESSION_IDLE" by (simp add: SESSION_IDLE_def)
  have len: "nat hour < length (per_hour s)" "nat hour < length (time_per s)" using inv i by (simp_all add: sessions_inv_def)
  show ?thesis
  proof (cases "stop + SESSION_IDLE < t")
    case True
    let ?s = "s\<lparr>time_per := arr_plus (time_per s) hour (word_of_int (stop - start)), per_hour := arr_plus (per_hour s) hour 1,
      sess_start := mapping_insert (sess_start s) host t, sess_end := mapping_insert (sess_end s) host t\<rparr>"
    have "process_session host t hour s sites = Inr (?s, mapaddsval sites host)"
      using len i by (simp add: process_session_def stop wrap True start arr_add_ok Let_def)
    moreover have "sessions_inv hour s0 (evs @ [(host, t)]) ?s"
      using inv True False start stop i
      by (simp add: sessions_inv_def all_snoc accesses_snoc clock_sum_insert length_insert
          stop_def [symmetric] arr_plus_plus algebra_simps)
    ultimately show ?thesis by blast
  next
    case no_gap: False
    let ?s = "s\<lparr>sess_end := mapping_insert (sess_end s) host t\<rparr>"
    have "process_session host t hour s sites = Inr (?s, mapaddsval sites host)"
      by (simp add: process_session_def stop wrap no_gap Let_def)
    moreover have "sessions_inv hour s0 (evs @ [(host, t)]) ?s"
      using inv no_gap False start stop i
      by (simp add: sessions_inv_def all_snoc accesses_snoc clock_sum_insert length_insert
          stop_def [symmetric] algebra_simps)
    ultimately show ?thesis by blast
  qed
qed

lemma process_sessions_inv:
  assumes "sessions_inv hour s0 [] s" "\<forall>(h, t) \<in> set evs. 0 \<le> t \<and> t < 2 ^ 31 - 600"
    and i: "0 \<le> hour" "nat hour < length (per_hour s0)" "nat hour < length (time_per s0)"
  shows "\<exists>s'. process_sessions hour evs (s, sites) = Inr (s', foldl mapaddsval sites (map fst evs)) \<and> sessions_inv hour s0 evs s'"
  using assms(2)
proof (induction evs rule: rev_induct)
  case Nil
  then show ?case using assms(1) by (simp add: process_sessions_def)
next
  case (snoc e evs)
  obtain h t where e: "e = (h, t)" by fastforce
  from snoc obtain s' where s': "process_sessions hour evs (s, sites) = Inr (s', foldl mapaddsval sites (map fst evs))"
    "sessions_inv hour s0 evs s'" by auto
  from process_session_inv [OF s'(2) _ i, of h t "foldl mapaddsval sites (map fst evs)"] snoc.prems e
  show ?case using s'(1) by (auto simp: process_sessions_def fold_res_append)
qed

lemma summarize_steps:
  assumes "0 \<le> hour" "nat hour < length (per_hour s)" "nat hour < length (time_per s)"
    and "\<forall>h \<in> fst ` set xs. mapping_lookup (sess_end s) h \<noteq> None"
  shows "fold_res (summarize_step hour) xs s =
    Inr (s\<lparr>per_hour := arr_plus (per_hour s) hour (of_nat (length xs)),
           time_per := arr_plus (time_per s) hour ((\<Sum>x \<leftarrow> xs. word_of_int (the (mapping_lookup (sess_end s) (fst x)))) - clock_sum xs)\<rparr>)"
  using assms
proof (induction xs arbitrary: s)
  case Nil
  then show ?case by (simp add: clock_sum_def)
next
  case (Cons x xs)
  obtain h t stop where x: "x = (h, t)" "mapping_lookup (sess_end s) h = Some stop" using Cons.prems by (cases x) auto
  let ?s = "s\<lparr>per_hour := arr_plus (per_hour s) hour 1, time_per := arr_plus (time_per s) hour (word_of_int (stop - t))\<rparr>"
  have "summarize_step hour x s = Inr ?s"
    using x Cons.prems by (simp add: summarize_step_def arr_add_ok)
  moreover have "fold_res (summarize_step hour) xs ?s =
    Inr (?s\<lparr>per_hour := arr_plus (per_hour ?s) hour (of_nat (length xs)),
           time_per := arr_plus (time_per ?s) hour ((\<Sum>x \<leftarrow> xs. word_of_int (the (mapping_lookup (sess_end ?s) (fst x)))) - clock_sum xs)\<rparr>)"
    using Cons.prems by (intro Cons.IH) auto
  ultimately show ?case using x Cons.prems by (simp add: clock_sum_def algebra_simps)
qed

lemma summarize_sessions_inv:
  assumes inv: "sessions_inv hour s0 evs s"
    and i: "0 \<le> hour" "nat hour < length (per_hour s0)" "nat hour < length (time_per s0)"
  shows "\<exists>s'. summarize_sessions hour s = Inr s' \<and>
    per_hour s' = arr_plus (per_hour s0) hour (of_nat (all_sessions evs)) \<and>
    time_per s' = arr_plus (time_per s0) hour (word_of_int (all_time evs))"
proof -
  have keys: "fst ` set (sess_start s) = fst ` set (sess_end s)"
  proof (rule set_eqI)
    fix h
    have "mapping_lookup (sess_start s) h = None \<longleftrightarrow> mapping_lookup (sess_end s) h = None"
      using inv unfolding sessions_inv_def by (metis option.distinct(1))
    then show "h \<in> fst ` set (sess_start s) \<longleftrightarrow> h \<in> fst ` set (sess_end s)"
      by (simp add: mapping_lookup_def map_of_eq_None_iff)
  qed
  have ok: "mapping_ok (sess_start s)" "mapping_ok (sess_end s)" using inv by (simp_all add: sessions_inv_def)
  have all: "\<forall>h \<in> fst ` set (sess_start s). mapping_lookup (sess_end s) h \<noteq> None"
    unfolding keys by (auto simp: mapping_lookup_def map_of_eq_None_iff)
  have "(\<Sum>x \<leftarrow> sess_start s. word_of_int (the (mapping_lookup (sess_end s) (fst x))) :: counter) =
      (\<Sum>h \<leftarrow> map fst (sess_start s). word_of_int (the (mapping_lookup (sess_end s) h)))"
    by (simp add: comp_def)
  also have "\<dots> = (\<Sum>h \<in> fst ` set (sess_start s). word_of_int (the (mapping_lookup (sess_end s) h)))"
    using ok(1) unfolding mapping_ok_def by (subst sum_list_distinct_conv_sum_set) simp_all
  also have "\<dots> = clock_sum (sess_end s)" using clock_sum_keys [OF ok(2)] keys by simp
  finally have ends: "(\<Sum>x \<leftarrow> sess_start s. word_of_int (the (mapping_lookup (sess_end s) (fst x))) :: counter) = clock_sum (sess_end s)" .
  have len: "nat hour < length (per_hour s)" "nat hour < length (time_per s)" using inv i by (simp_all add: sessions_inv_def)
  have ph: "per_hour s = arr_plus (per_hour s0) hour (of_nat (all_sessions evs) - of_nat (length (sess_start s)))"
    and tp: "time_per s = arr_plus (time_per s0) hour
      (word_of_int (all_time evs) - clock_sum (sess_end s) + clock_sum (sess_start s))"
    using inv by (simp_all add: sessions_inv_def)
  show ?thesis
    unfolding summarize_sessions_def summarize_steps [OF i(1) len all] ends
    using i by (simp add: ph tp arr_plus_plus)
qed

section \<open>The properties\<close>

text \<open>
  C17. The urls of an hour are split into pages and hits without loss: every counter of the two
  tables grows by the counts of exactly the urls that decode to its key and are (are not) pages,
  the result is what the pages gained and both together gain what the hour had, provided no url
  begins with a question mark.
\<close>

theorem hourly_page_hits_accounts:
  assumes "\<forall>(u, n) \<in> set urls. 0 \<le> url_copy_len u"
  shows "\<exists>pages' hits' numpages. hourly_page_hits urls pages hits exts = Inr (pages', hits', numpages) \<and>
    numpages = total pages' - total pages \<and>
    total pages' + total hits' = total pages + total hits + total urls \<and>
    (\<forall>k. count_of pages' k = count_of pages k + (\<Sum>(u, n) \<leftarrow> urls. if page_key exts u = Some k then n else 0)) \<and>
    (\<forall>k. count_of hits' k = count_of hits k + (\<Sum>(u, n) \<leftarrow> urls. if hit_key exts u = Some k then n else 0))"
proof -
  obtain pages' hits' n where r: "fold_res (hourly_step exts) urls (pages, hits, 0) = Inr (pages', hits', n)"
    "n + total pages = 0 + total pages'"
    "total pages' + total hits' = total pages + total hits + total urls"
    "\<forall>k. count_of pages' k = count_of pages k + (\<Sum>(u, n) \<leftarrow> urls. if page_key exts u = Some k then n else 0)"
    "\<forall>k. count_of hits' k = count_of hits k + (\<Sum>(u, n) \<leftarrow> urls. if hit_key exts u = Some k then n else 0)"
    using hourly_fold [OF assms, of exts pages hits 0] by blast
  moreover have "n = total pages' - total pages" using r(2) by (simp add: eq_diff_eq)
  ultimately show ?thesis unfolding hourly_page_hits_def by blast
qed

theorem hourly_page_hits_accounts_witness:
  "hourly_page_hits [(''/a%2ehtml'', 2), (''/x.gif'', 3)] [(''/a.html'', 1)] [] [''html''] =
     Inr ([(''/a.html'', 3)], [(''/x.gif'', 3)], 2) \<and>
   (\<exists>pages' hits' numpages. hourly_page_hits [(''/a%2ehtml'', 2), (''/x.gif'', 3)] [(''/a.html'', 1)] [] [''html''] = Inr (pages', hits', numpages) \<and>
     total pages' + total hits' = 6)"
proof -
  have "hourly_page_hits [(''/a%2ehtml'', 2), (''/x.gif'', 3)] [(''/a.html'', 1)] [] [''html''] =
     Inr ([(''/a.html'', 3)], [(''/x.gif'', 3)], 2)" by code_simp
  moreover have "\<forall>(u, n) \<in> set [(''/a%2ehtml'', 2 :: counter), (''/x.gif'', 3)]. 0 \<le> url_copy_len u" by code_simp
  ultimately show ?thesis
    using hourly_page_hits_accounts [of "[(''/a%2ehtml'', 2), (''/x.gif'', 3)]" "[(''/a.html'', 1)]" "[]" "[''html'']"]
    by simp
qed

text \<open>
  A url with a query loses the last byte of its path: the page \<open>p @ [c]\<close> requested with
  a query is counted as \<open>p\<close>, and a url that begins with the question mark makes the copy run with
  a negative length.
\<close>

lemma url_query_cut:
  assumes "CHR ''?'' \<notin> set (p @ [c])" "NUL \<notin> set (p @ [c])" "length p < MAX_LINE_LEN"
  shows "decoded_url (p @ c # CHR ''?'' # q) = Inr (pct_decode False False p) \<and>
    hourly_page_hits (urls @ [(CHR ''?'' # q, n)]) pages hits exts =
      (case hourly_page_hits urls pages hits exts of Inl e \<Rightarrow> Inl e | Inr _ \<Rightarrow> Inl Out_of_bounds)"
proof -
  have "url_copy_len (p @ c # CHR ''?'' # q) = int (length p)"
    using url_copy_len_query [of "p @ [c]" q] assms by simp
  moreover have "url_copy_len (CHR ''?'' # q) = - 1"
    using url_copy_len_query [of "[]" q] by (simp add: MAX_LINE_LEN_def)
  then have "hourly_step exts (CHR ''?'' # q, n) s = Inl Out_of_bounds" for s
    by (cases s) (simp add: hourly_step_def decoded_url_eq)
  ultimately show ?thesis
    by (simp add: decoded_url_eq hourly_page_hits_def fold_res_append bind_res_def split: sum.split)
qed

lemma url_query_cut_witness:
  "decoded_url ''/index.html?x=1'' = Inr ''/index.htm'' \<and>
   hourly_page_hits [(''?x'', 1)] [] [] [''html''] = Inl Out_of_bounds"
proof -
  have "pct_decode False False ''/index.htm'' = ''/index.htm''" by code_simp
  then show ?thesis
    using url_query_cut [of "''/index.htm''" "CHR ''l''" "''x=1''" "[]" 1 "[]" "[]" "[''html'']"]
      url_query_cut [of "''/index.htm''" "CHR ''l''" "''x''" "[]" 1 "[]" "[]" "[''html'']"]
    by (simp add: MAX_LINE_LEN_def hourly_page_hits_def)
qed

text \<open>
  C22. \<^verbatim>\<open>summarize_hosts\<close> computes the tables of domains and top-level domains by the reference
  classification of each host: behind the last dot and behind the last dot but one, addresses in
  neither table, and the table of hosts with the names in lower case.
\<close>

theorem summarize_hosts_domains:
  "case summarize_hosts hosts domains topdomains newhosts of (domains', topdomains', newhosts') \<Rightarrow>
     count_of domains' k = count_of domains k + (\<Sum>(h, n) \<leftarrow> hosts. if fst (host_domains h) = Some k then n else 0) \<and>
     count_of topdomains' k = count_of topdomains k + (\<Sum>(h, n) \<leftarrow> hosts. if snd (host_domains h) = Some k then n else 0) \<and>
     count_of newhosts' k = count_of newhosts k + (\<Sum>(h, n) \<leftarrow> hosts. if new_host h = Some k then n else 0)"
proof (cases "summarize_hosts hosts domains topdomains newhosts")
  case (fields domains' topdomains' newhosts')
  show ?thesis unfolding fields prod.case by (rule summarize_hosts_counts [OF fields])
qed

text \<open>
  C30. \<^verbatim>\<open>add_mapping\<close> adds two trees of counters pointwise: when no value meets one of another type it
  succeeds, and at every path of keys the result has the sum of the two counters.
\<close>

theorem do_map_addition_pointwise:
  assumes "wf_mapping b" "addable a b"
  shows "\<exists>c. do_map_addition fadd a b = Inr c \<and> (\<forall>p. leaf (MMap c) p = leaf (MMap a) p + leaf (MMap b) p)"
  by (rule do_map_addition_leaves [OF assms])

theorem do_map_addition_pointwise_witness:
  "\<exists>c. do_map_addition (\<lambda>x y. x) [(SInt 404, MMap [(SString ''/a'', MInt 1)])]
      [(SInt 404, MMap [(SString ''/a'', MInt 2), (SString ''/b'', MInt 5)]), (SString ''n'', MInt 7)] = Inr c \<and>
    leaf (MMap c) [SInt 404, SString ''/a''] = 3 \<and> leaf (MMap c) [SInt 404, SString ''/b''] = 5 \<and>
    leaf (MMap c) [SString ''n''] = 7"
proof -
  let ?a = "[(SInt 404, MMap [(SString ''/a'', MInt 1)])]"
  let ?b = "[(SInt 404, MMap [(SString ''/a'', MInt 2), (SString ''/b'', MInt 5)]), (SString ''n'', MInt 7)]"
  have "wf_mapping ?b" "addable ?a ?b" by (simp_all add: mapping_lookup_def)
  from do_map_addition_pointwise [OF this, of "\<lambda>x y. x"] obtain c where
    c: "do_map_addition (\<lambda>x y. x) ?a ?b = Inr c" "\<And>p. leaf (MMap c) p = leaf (MMap ?a) p + leaf (MMap ?b) p" by blast
  have "leaf (MMap c) [SInt 404, SString ''/a''] = 3" "leaf (MMap c) [SInt 404, SString ''/b''] = 5"
    "leaf (MMap c) [SString ''n''] = 7"
    unfolding c(2) by (simp_all add: leaf.simps mapping_lookup_def)
  with c(1) show ?thesis by blast
qed

text \<open>
  C21. Limiting a table keeps its total: the entries that stay count at least as much as those that
  go, those go into \<^verbatim>\<open>Other\<close>, and the result has at most one entry more than allowed (a table
  of exactly the allowed size therefore may grow).
\<close>

theorem compress_mapping_total:
  assumes "mapping_ok m" "0 < maxsize"
  shows "total (f_compress_mapping m maxsize) = total m \<and> length (f_compress_mapping m maxsize) \<le> nat maxsize + 1 \<and>
    mapping_ok (f_compress_mapping m maxsize) \<and>
    (nat maxsize \<le> length m \<longrightarrow>
       f_compress_mapping m maxsize =
         mapaddstrnum (kept_part m (nat maxsize)) ''Other'' (total (dropped_part m (nat maxsize))) \<and>
       mset m = mset (dropped_part m (nat maxsize)) + mset (kept_part m (nat maxsize)) \<and>
       length (kept_part m (nat maxsize)) = nat maxsize \<and>
       (\<forall>(k, n) \<in> set (dropped_part m (nat maxsize)). \<forall>(k', n') \<in> set (kept_part m (nat maxsize)). sint n \<le> sint n'))"
proof (cases "length m < nat maxsize")
  case True
  then show ?thesis using assms by (simp add: f_compress_mapping_def)
next
  case False
  note c = compress_mapping_parts [OF assms(1), of "nat maxsize"]
  have "f_compress_mapping m maxsize = compress_mapping m (nat maxsize)"
    using False assms(2) by (simp add: f_compress_mapping_def)
  then show ?thesis
    using c parts [of m "nat maxsize"] parts_ordered [of _ _ m "nat maxsize"] False
      length_mapaddstrnum [of "kept_part m (nat maxsize)" "''Other''" "total (dropped_part m (nat maxsize))"]
    by auto
qed

theorem compress_mapping_total_witness:
  "f_compress_mapping [(''a'', 5), (''b'', 1), (''c'', 2)] 1 = [(''a'', 5), (''Other'', 3)] \<and>
   total (f_compress_mapping [(''a'', 5), (''b'', 1), (''c'', 2)] 1) = 8"
proof -
  have "f_compress_mapping [(''a'', 5), (''b'', 1), (''c'', 2)] 1 = [(''a'', 5), (''Other'', 3)]" by code_simp
  then show ?thesis
    using compress_mapping_total [of "[(''a'', 5), (''b'', 1), (''c'', 2)]" 1] by (simp add: mapping_ok_def)
qed

text \<open>
  C12. Sessions: the accesses of an hour, processed in any interleaving of the hosts and summarised at
  its end, raise the hour's number of sessions by the number of sessions of every single host's
  sequence of accesses and the hour's session time by their lengths.
\<close>

theorem sessions_of_hour:
  assumes "0 \<le> hour" "nat hour < length (per_hour s)" "nat hour < length (time_per s)"
    and "sess_start s = []" "sess_end s = []"
    and "\<forall>(h, t) \<in> set evs. 0 \<le> t \<and> t < 2 ^ 31 - 600"
  shows "\<exists>s' sites' s''. process_sessions hour evs (s, sites) = Inr (s', sites') \<and>
    summarize_sessions hour s' = Inr s'' \<and>
    per_hour s'' = arr_plus (per_hour s) hour (of_nat (\<Sum>h \<in> fst ` set evs. session_count (accesses h evs))) \<and>
    time_per s'' = arr_plus (time_per s) hour (word_of_int (\<Sum>h \<in> fst ` set evs. session_time (accesses h evs)))"
proof -
  have "sessions_inv hour s [] s"
    using assms by (simp add: sessions_inv_def accesses_def all_sessions_def all_time_def clock_sum_def)
  from process_sessions_inv [OF this assms(6,1,2,3), of sites] obtain s' where
    s': "process_sessions hour evs (s, sites) = Inr (s', foldl mapaddsval sites (map fst evs))" "sessions_inv hour s evs s'"
    by blast
  from summarize_sessions_inv [OF s'(2) assms(1-3)] s'(1) show ?thesis
    unfolding all_sessions_def all_time_def by blast
qed

theorem sessions_of_hour_witness:
  "\<exists>s' sites' s''. process_sessions 1 [(''a'', 3600), (''b'', 3700), (''a'', 3900), (''a'', 4800)]
     (\<lparr>per_hour = [0, 0], time_per = [0, 0], sess_start = [], sess_end = []\<rparr>, []) = Inr (s', sites') \<and>
    summarize_sessions 1 s' = Inr s'' \<and> per_hour s'' = [0, 3] \<and> time_per s'' = [0, 300]"
proof -
  let ?evs = "[(''a'', 3600), (''b'', 3700), (''a'', 3900), (''a'', 4800)] :: (string \<times> int) list"
  have hosts: "fst ` set ?evs = {''a'', ''b''}" by auto
  have "(\<Sum>h \<in> fst ` set ?evs. session_count (accesses h ?evs)) = 3" "(\<Sum>h \<in> fst ` set ?evs. session_time (accesses h ?evs)) = 300"
    unfolding hosts by (simp_all add: accesses_def SESSION_IDLE_def)
  then show ?thesis
    using sessions_of_hour [of 1 "\<lparr>per_hour = [0, 0], time_per = [0, 0], sess_start = [], sess_end = []\<rparr>" ?evs "[]"]
    by simp
qed

end
