(* ===== verification/Log_Format.thy ===== *)
theory Log_Format
  imports Log_Tables
begin

text \<open>
  The compiler for log formats: \<^verbatim>\<open>parse_log_format\<close> of \<^verbatim>\<open>src/cmods/UltraLog/ultraparse.c\<close>. It fills three
  arrays of \<^verbatim>\<open>log_format->len + 3\<close> integers: what to do with field \<open>i\<close>, where to save it, and which class
  of characters ends it. A store outside an array is \<open>Out_of_bounds\<close>; an entry nothing was stored
  into is \<open>None\<close>.
\<close>

section \<open>The arrays\<close>

datatype log_state = ST_DATE | ST_MONTH | ST_YEAR | ST_HOUR | ST_MIN | ST_SEC | ST_TZ | ST_URL | ST_CODE
  | ST_SIZE | ST_SKIP_CHAR | ST_TEXT_FIELD | ST_SKIP_UNTIL

text \<open>The last two stand for the numbers \<open>-3\<close> and \<open>-1\<close>.\<close>

datatype save_field = ADDR | REFER | AGENT | TZ | METHOD | URL | RFC | PROTO
  | DATE | MONTH | YEAR | HOUR | MINUTE | UP_SEC | CODE | BYTES | F_ZONE | F_NONE

record fmt_state =
  state_list :: "log_state option list"
  save_field_num :: "save_field option list"
  field_endings :: "char_cls option list"
  fmt_pos :: nat
  fieldnum :: nat
  got_state :: bool
  required_fields :: nat

definition arr_set :: "'a option list \<Rightarrow> nat \<Rightarrow> 'a \<Rightarrow> 'a option list res" where
  "arr_set a i x = (if i < length a then Inr (a[i := Some x]) else Inl Out_of_bounds)"

text \<open>\<^verbatim>\<open>MEMSET(a, 0, sizeof(a))\<close> on a pointer of 8 bytes clears two integers.\<close>

definition memset_pointer :: "'a option list \<Rightarrow> 'a \<Rightarrow> 'a option list" where
  "memset_pointer a zero = map (\<lambda>_. Some zero) (take 2 a) @ drop 2 a"

definition fmt_init :: "nat \<Rightarrow> fmt_state" where
  "fmt_init len =
     \<lparr>state_list = memset_pointer (replicate (len + 3) None) ST_DATE,
      save_field_num = memset_pointer (replicate (len + 3) None) ADDR,
      field_endings = memset_pointer (replicate (len + 3) None) CLS_WSPACE,
      fmt_pos = 0, fieldnum = 0, got_state = False, required_fields = 0\<rparr>"

definition field_spec :: "char \<Rightarrow> (log_state \<times> save_field) option" where
  "field_spec c =
     (if c = CHR ''H'' then Some (ST_TEXT_FIELD, ADDR)
      else if c = CHR ''R'' then Some (ST_TEXT_FIELD, REFER)
      else if c = CHR ''U'' then Some (ST_TEXT_FIELD, AGENT)
      else if c = CHR ''D'' then Some (ST_DATE, DATE)
      else if c = CHR ''M'' then Some (ST_MONTH, MONTH)
      else if c = CHR ''Y'' then Some (ST_YEAR, YEAR)
      else if c = CHR ''h'' then Some (ST_HOUR, HOUR)
      else if c = CHR ''m'' then Some (ST_MIN, MINUTE)
      else if c = CHR ''s'' then Some (ST_SEC, UP_SEC)
      else if c = CHR ''z'' then Some (ST_TZ, F_ZONE)
      else if c = CHR ''e'' then Some (ST_TEXT_FIELD, METHOD)
      else if c = CHR ''f'' then Some (ST_TEXT_FIELD, URL)
      else if c = CHR ''u'' then Some (ST_TEXT_FIELD, RFC)
      else if c = CHR ''P'' then Some (ST_TEXT_FIELD, PROTO)
      else if c = CHR ''c'' then Some (ST_CODE, CODE)
      else if c = CHR ''b'' then Some (ST_SIZE, BYTES)
      else if c = CHR ''j'' then Some (ST_SKIP_UNTIL, F_NONE)
      else None)"

definition separator :: "char \<Rightarrow> char_cls option" where
  "separator c =
     (if c = CHR 0x22 then Some CLS_QUOTE
      else if c = CHR ''['' then Some CLS_LBRACK
      else if c = CHR '']'' then Some CLS_RBRACK
      else if c = CHR ''/'' then Some CLS_SLASH
      else if c = CHR '':'' then Some CLS_COLON
      else if c = CHR ''-'' then Some CLS_HYPHEN
      else if c = CHR ''+'' then Some CLS_PLUS
      else if c = CHR ''?'' then Some CLS_QUESTION
      else if c = SP then Some CLS_WSPACE
      else None)"

definition set_field :: "log_state \<Rightarrow> save_field \<Rightarrow> fmt_state \<Rightarrow> fmt_state res" where
  "set_field ls sf st =
     bind_res (arr_set (state_list st) (fmt_pos st) ls) (\<lambda>sl.
       bind_res (arr_set (save_field_num st) (fmt_pos st) sf) (\<lambda>sn.
         Inr (st\<lparr>state_list := sl, save_field_num := sn\<rparr>)))"

text \<open>The macro \<^verbatim>\<open>SKIPP_STATE\<close>.\<close>

definition skipp_state :: "char_cls \<Rightarrow> fmt_state \<Rightarrow> fmt_state res" where
  "skipp_state cls st =
     bind_res (if got_state st then Inr (st\<lparr>got_state := False\<rparr>) else set_field ST_SKIP_CHAR F_NONE st) (\<lambda>st.
       bind_res (arr_set (field_endings st) (fieldnum st) cls) (\<lambda>fe.
         Inr (st\<lparr>fmt_pos := fmt_pos st + 1, field_endings := fe, fieldnum := fieldnum st + 1\<rparr>)))"

text \<open>The loop; \<open>None\<close> is the return with 0.\<close>

fun parse_format :: "string \<Rightarrow> fmt_state \<Rightarrow> fmt_state option res" where
  "parse_format [] st = Inr (Some st)"
| "parse_format (c # cs) st =
     (if c = CHR ''%'' then
        (case cs of
           [] \<Rightarrow> Inr None
         | d # cs' \<Rightarrow>
             if got_state st then Inr None
             else (case field_spec d of
                     None \<Rightarrow> Inr None
                   | Some (ls, sf) \<Rightarrow>
                       bind_res (set_field ls sf (st\<lparr>got_state := True\<rparr>)) (parse_format cs')))
      else if c = CHR 0x5C then
        (case cs of
           [] \<Rightarrow> Inr None
         | d # cs' \<Rightarrow>
             if d = CHR ''w'' then bind_res (skipp_state CLS_WSPACE st) (parse_format cs')
             else if d = CHR ''o'' then parse_format cs' (st\<lparr>required_fields := fmt_pos st\<rparr>)
             else Inr None)
      else (case separator c of
              None \<Rightarrow> Inr None
            | Some cls \<Rightarrow> bind_res (skipp_state cls st) (parse_format cs)))"

text \<open>The number of states returned is the value of a logical or.\<close>

definition parse_log_format :: "string \<Rightarrow> (nat \<times> fmt_state) res" where
  "parse_log_format fmt =
     (if fmt = [] then Inr (0, fmt_init 0)
      else bind_res (parse_format fmt (fmt_init (length fmt))) (\<lambda>r.
        case r of
          None \<Rightarrow> Inr (0, fmt_init (length fmt))
        | Some st \<Rightarrow>
            bind_res (skipp_state CLS_CRLF st) (\<lambda>st.
              Inr (if required_fields st \<noteq> 0 \<or> fmt_pos st \<noteq> 0 then 1 else 0, st))))"

section \<open>Invariant\<close>

text \<open>
  \<open>n\<close> is the room in the arrays and \<open>k\<close> the number of characters still to come: the entries so far
  are filled, and no field but the one closed by the end of the line ends with a line break.
\<close>

definition fmt_inv :: "nat \<Rightarrow> nat \<Rightarrow> fmt_state \<Rightarrow> bool" where
  "fmt_inv n k st \<longleftrightarrow>
     length (state_list st) = n \<and> length (save_field_num st) = n \<and> length (field_endings st) = n \<and>
     fieldnum st = fmt_pos st \<and> fmt_pos st + k + 3 \<le> n \<and>
     (\<forall>i < fmt_pos st. state_list st ! i \<noteq> None \<and> save_field_num st ! i \<noteq> None \<and>
        field_endings st ! i \<noteq> None \<and> field_endings st ! i \<noteq> Some CLS_CRLF) \<and>
     (got_state st \<longrightarrow> state_list st ! fmt_pos st \<noteq> None \<and> save_field_num st ! fmt_pos st \<noteq> None)"

lemma fmt_inv_init: "fmt_inv (len + 3) len (fmt_init len)"
  by (simp add: fmt_inv_def fmt_init_def memset_pointer_def)

lemma fmt_inv_less: "fmt_inv n k st \<Longrightarrow> k' \<le> k \<Longrightarrow> fmt_inv n k' st"
  by (auto simp: fmt_inv_def)

lemma set_field_inv:
  assumes "fmt_inv n k st" "\<not> got_state st"
  shows "\<exists>st'. set_field ls sf (st\<lparr>got_state := True\<rparr>) = Inr st' \<and> fmt_inv n k st' \<and> got_state st'"
  using assms by (auto simp: set_field_def arr_set_def fmt_inv_def nth_list_update)

lemma skipp_state_inv:
  assumes "fmt_inv n (Suc k) st" "cls \<noteq> CLS_CRLF"
  shows "\<exists>st'. skipp_state cls st = Inr st' \<and> fmt_inv n k st'"
  using assms by (auto simp: skipp_state_def set_field_def arr_set_def fmt_inv_def nth_list_update less_Suc_eq)

lemma separator_not_CRLF: "separator c = Some cls \<Longrightarrow> cls \<noteq> CLS_CRLF"
  by (auto simp: separator_def split: if_splits)

lemma parse_format_inv:
  "fmt_inv n (length cs) st \<Longrightarrow>
     parse_format cs st = Inr None \<or> (\<exists>st'. parse_format cs st = Inr (Some st') \<and> fmt_inv n 0 st')"
proof (induction cs st rule: parse_format.induct)
  case (1 st)
  then show ?case by simp
next
  case (2 c cs st)
  consider "c = CHR ''%''" | "c \<noteq> CHR ''%''" "c = CHR 0x5C" | "c \<noteq> CHR ''%''" "c \<noteq> CHR 0x5C" by blast
  then show ?case
  proof cases
    case 1
    show ?thesis
    proof (cases cs)
      case (Cons d cs')
      show ?thesis
      proof (cases "got_state st \<or> field_spec d = None")
        case False
        then obtain ls sf where spec: "field_spec d = Some (ls, sf)" "\<not> got_state st" by auto
        have "fmt_inv n (length cs') st" using "2.prems" by (rule fmt_inv_less) (simp add: Cons)
        from set_field_inv [OF this spec(2), of ls sf] obtain st' where
          "set_field ls sf (st\<lparr>got_state := True\<rparr>) = Inr st'" "fmt_inv n (length cs') st'" by blast
        with "2.IH"(1) [OF 1 Cons spec(2,1)] 1 Cons spec show ?thesis by simp
      qed (use 1 Cons in auto)
    qed (use 1 in simp)
  next
    case 2
    show ?thesis
    proof (cases cs)
      case (Cons d cs')
      consider "d = CHR ''w''" | "d \<noteq> CHR ''w''" "d = CHR ''o''" | "d \<noteq> CHR ''w''" "d \<noteq> CHR ''o''" by blast
      then show ?thesis
      proof cases
        case w: 1
        have "fmt_inv n (Suc (length cs')) st" using "2.prems" by (rule fmt_inv_less) (simp add: Cons)
        from skipp_state_inv [OF this, of CLS_WSPACE] obtain st' where
          "skipp_state CLS_WSPACE st = Inr st'" "fmt_inv n (length cs') st'" by auto
        with "2.IH"(2) [OF 2(1) 2(2) Cons w] 2 Cons w show ?thesis by simp
      next
        case o: 2
        have "fmt_inv n (length cs') (st\<lparr>required_fields := fmt_pos st\<rparr>)"
          using "2.prems" by (auto simp: fmt_inv_def Cons)
        with "2.IH"(3) [OF 2(1) 2(2) Cons o] 2 Cons o show ?thesis by simp
      qed (use 2 Cons in simp)
    qed (use 2 in simp)
  next
    case 3
    show ?thesis
    proof (cases "separator c")
      case None
      then show ?thesis using 3 by simp
    next
      case (Some cls)
      have "fmt_inv n (Suc (length cs)) st" using "2.prems" by simp
      from skipp_state_inv [OF this separator_not_CRLF [OF Some]] obtain st' where
        "skipp_state cls st = Inr st'" "fmt_inv n (length cs) st'" by auto
      with "2.IH"(4) [OF 3 Some] 3 Some show ?thesis by simp
    qed
  qed
qed

text \<open>A compiled format: \<open>n\<close> fields, all entries filled, the last and only the last ended by the line.\<close>

definition wf_format :: "fmt_state \<Rightarrow> nat \<Rightarrow> bool" where
  "wf_format st n \<longleftrightarrow> 0 < n \<and> fmt_pos st = n \<and>
     n \<le> length (save_field_num st) \<and> n \<le> length (field_endings st) \<and>
     (\<forall>i < n. save_field_num st ! i \<noteq> None \<and> field_endings st ! i \<noteq> None \<and>
        (field_endings st ! i = Some CLS_CRLF \<longleftrightarrow> i = n - 1))"

lemma last_skipp_state:
  assumes "fmt_inv n 0 st"
  shows "\<exists>st'. skipp_state CLS_CRLF st = Inr st' \<and> wf_format st' (fmt_pos st + 1) \<and> fmt_pos st' = fmt_pos st + 1"
  using assms
  by (auto simp: skipp_state_def set_field_def arr_set_def fmt_inv_def wf_format_def nth_list_update less_Suc_eq)

section \<open>Formats as lists of fields\<close>

text \<open>
  A format is a list of fields, each an optional percent code and the separator behind it, and the
  optional code of the field that ends the line.
\<close>

type_synonym fmt_item = "char option \<times> char"

definition code_text :: "char option \<Rightarrow> string" where
  "code_text d = (case d of None \<Rightarrow> [] | Some c \<Rightarrow> [CHR ''%'', c])"

definition items_text :: "fmt_item list \<Rightarrow> string" where
  "items_text items = concat (map (\<lambda>(d, s). code_text d @ [s]) items)"

definition saved :: "char option \<Rightarrow> save_field" where
  "saved d = (case d of None \<Rightarrow> F_NONE | Some c \<Rightarrow> snd (the (field_spec c)))"

definition wf_code :: "char option \<Rightarrow> bool" where
  "wf_code d \<longleftrightarrow> (case d of None \<Rightarrow> True | Some c \<Rightarrow> field_spec c \<noteq> None)"

definition wf_items :: "fmt_item list \<Rightarrow> bool" where
  "wf_items items \<longleftrightarrow> (\<forall>(d, s) \<in> set items. wf_code d \<and> separator s \<noteq> None)"

text \<open>\<open>st'\<close> extends \<open>st\<close> by one field.\<close>

definition one_more :: "fmt_state \<Rightarrow> save_field \<Rightarrow> char_cls \<Rightarrow> fmt_state \<Rightarrow> bool" where
  "one_more st sf cls st' \<longleftrightarrow>
     fmt_pos st' = fmt_pos st + 1 \<and> \<not> got_state st' \<and>
     take (fmt_pos st') (save_field_num st') = take (fmt_pos st) (save_field_num st) @ [Some sf] \<and>
     take (fmt_pos st') (field_endings st') = take (fmt_pos st) (field_endings st) @ [Some cls]"

lemma skipp_state_more:
  assumes "fmt_inv n (Suc k) st" "\<not> got_state st" "cls \<noteq> CLS_CRLF"
  shows "\<exists>st'. skipp_state cls st = Inr st' \<and> fmt_inv n k st' \<and> one_more st F_NONE cls st'"
proof -
  obtain st' where st': "skipp_state cls st = Inr st'" "fmt_inv n k st'" using skipp_state_inv [OF assms(1,3)] by blast
  have "one_more st F_NONE cls st'"
    using st'(1) assms by (auto simp: skipp_state_def set_field_def arr_set_def one_more_def fmt_inv_def take_Suc_update)
  with st' show ?thesis by blast
qed

lemma set_field_more:
  assumes "fmt_inv n (Suc k) st" "\<not> got_state st" "cls \<noteq> CLS_CRLF"
  shows "\<exists>st'. bind_res (set_field ls sf (st\<lparr>got_state := True\<rparr>)) (skipp_state cls) = Inr st' \<and> fmt_inv n k st' \<and>
    one_more st sf cls st'"
proof -
  have len: "fmt_pos st < length (state_list st)" "fmt_pos st < length (save_field_num st)"
    "fmt_pos st < length (field_endings st)" "fieldnum st = fmt_pos st"
    using assms(1) by (auto simp: fmt_inv_def)
  let ?t = "st\<lparr>got_state := True, state_list := (state_list st)[fmt_pos st := Some ls],
    save_field_num := (save_field_num st)[fmt_pos st := Some sf]\<rparr>"
  let ?u = "?t\<lparr>got_state := False, fmt_pos := fmt_pos st + 1, field_endings := (field_endings st)[fmt_pos st := Some cls],
    fieldnum := fmt_pos st + 1\<rparr>"
  have t: "set_field ls sf (st\<lparr>got_state := True\<rparr>) = Inr ?t" using len by (simp add: set_field_def arr_set_def)
  have u: "skipp_state cls ?t = Inr ?u" using len by (simp add: skipp_state_def arr_set_def)
  have "fmt_inv n (Suc k) ?t" using set_field_inv [OF assms(1,2), of ls sf] t by auto
  then have "fmt_inv n k ?u" using skipp_state_inv [OF _ assms(3)] u by fastforce
  moreover have "one_more st sf cls ?u" using len by (simp add: one_more_def take_Suc_update)
  ultimately show ?thesis unfolding t bind_res_simps u by blast
qed

lemma separator_plain: "separator s \<noteq> None \<Longrightarrow> s \<noteq> CHR ''%'' \<and> s \<noteq> CHR 0x5C"
  by (auto simp: separator_def)

lemma item_step:
  assumes "fmt_inv n (length (code_text d @ s # rest)) st" "\<not> got_state st" "wf_code d" "separator s = Some cls"
  shows "\<exists>st'. parse_format (code_text d @ s # rest) st = parse_format rest st' \<and> fmt_inv n (length rest) st' \<and>
    one_more st (saved d) cls st'"
proof -
  have s: "s \<noteq> CHR ''%''" "s \<noteq> CHR 0x5C" using separator_plain assms(4) by auto
  have cls: "cls \<noteq> CLS_CRLF" using separator_not_CRLF [OF assms(4)] .
  have inv: "fmt_inv n (Suc (length rest)) st" using assms(1) by (rule fmt_inv_less) simp
  show ?thesis
  proof (cases d)
    case None
    from skipp_state_more [OF inv assms(2) cls] s assms(4) show ?thesis by (auto simp: code_text_def saved_def None)
  next
    case (Some c)
    then obtain ls sf where spec: "field_spec c = Some (ls, sf)" using assms(3) by (auto simp: wf_code_def)
    from set_field_more [OF inv assms(2) cls, of ls sf] s assms(2,4) spec show ?thesis
      by (auto simp: code_text_def saved_def Some bind_res_Inr)
  qed
qed

lemma items_steps:
  "fmt_inv n (length (items_text items @ rest)) st \<Longrightarrow> \<not> got_state st \<Longrightarrow> wf_items items \<Longrightarrow>
     \<exists>st'. parse_format (items_text items @ rest) st = parse_format rest st' \<and> fmt_inv n (length rest) st' \<and>
       \<not> got_state st' \<and> fmt_pos st' = fmt_pos st + length items \<and>
       take (fmt_pos st') (save_field_num st') =
         take (fmt_pos st) (save_field_num st) @ map (\<lambda>(d, s). Some (saved d)) items \<and>
       take (fmt_pos st') (field_endings st') =
         take (fmt_pos st) (field_endings st) @ map (\<lambda>(d, s). separator s) items"
proof (induction items arbitrary: st)
  case Nil
  then show ?case by (auto simp: items_text_def)
next
  case (Cons it items)
  obtain d s where it: "it = (d, s)" by fastforce
  obtain cls where wf: "wf_code d" "separator s = Some cls" "wf_items items" using Cons.prems(3) by (auto simp: wf_items_def it)
  have eq: "items_text (it # items) @ rest = code_text d @ s # (items_text items @ rest)" by (simp add: items_text_def it)
  from item_step [OF Cons.prems(1) [unfolded eq] Cons.prems(2) wf(1,2)] obtain t where
    t: "parse_format (items_text (it # items) @ rest) st = parse_format (items_text items @ rest) t"
    "fmt_inv n (length (items_text items @ rest)) t" "one_more st (saved d) cls t" unfolding eq by blast
  have "\<not> got_state t" using t(3) by (simp add: one_more_def)
  from Cons.IH [OF t(2) this wf(3)] t(1,3) wf(2) show ?case by (auto simp: one_more_def it)
qed

section \<open>The properties\<close>

text \<open>
  Compiling a format always returns and never stores outside the three arrays; on success every
  field has its three entries and only the last is ended by the line break; and the number of states
  it returns is 1 whatever the format says, because it is the result of a logical or, so that no
  field but the first is ever required.
\<close>

lemma parse_log_format_safe:
  "(\<exists>st. parse_log_format fmt = Inr (0, st)) \<or>
   (\<exists>st n. parse_log_format fmt = Inr (1, st) \<and> wf_format st n \<and> n \<le> length fmt + 1)"
proof (cases "fmt = [] \<or> parse_format fmt (fmt_init (length fmt)) = Inr None")
  case True
  then show ?thesis by (auto simp: parse_log_format_def)
next
  case False
  then obtain st where st: "parse_format fmt (fmt_init (length fmt)) = Inr (Some st)" "fmt_inv (length fmt + 3) 0 st"
    using parse_format_inv [OF fmt_inv_init] by auto
  from last_skipp_state [OF st(2)] obtain st' where
    st': "skipp_state CLS_CRLF st = Inr st'" "wf_format st' (fmt_pos st + 1)" "fmt_pos st' = fmt_pos st + 1" by blast
  have "parse_log_format fmt = Inr (1, st')" using False st(1) st'(1,3) by (simp add: parse_log_format_def)
  moreover have "fmt_pos st + 1 \<le> length fmt + 1" using st(2) by (simp add: fmt_inv_def)
  ultimately show ?thesis using st'(2) by blast
qed

text \<open>
  C29. Compiling the text of a list of fields yields the list: entry by entry the field that is saved
  and the class of its separator, the last one ended by the line.
\<close>

theorem parse_log_format_fields:
  assumes "wf_items items" "wf_code d" "items \<noteq> [] \<or> d \<noteq> None"
  shows "\<exists>st. parse_log_format (items_text items @ code_text d) = Inr (1, st) \<and> wf_format st (length items + 1) \<and>
    take (length items + 1) (save_field_num st) = map (\<lambda>(d, s). Some (saved d)) items @ [Some (saved d)] \<and>
    take (length items + 1) (field_endings st) = map (\<lambda>(d, s). separator s) items @ [Some CLS_CRLF]"
proof -
  let ?fmt = "items_text items @ code_text d" and ?n = "length (items_text items @ code_text d) + 3"
  have ne: "?fmt \<noteq> []" using assms(3) by (cases items) (auto simp: items_text_def code_text_def)
  have "\<not> got_state (fmt_init (length ?fmt))" by (simp add: fmt_init_def)
  from items_steps [OF fmt_inv_init this assms(1)] obtain st where
    st: "parse_format ?fmt (fmt_init (length ?fmt)) = parse_format (code_text d) st" "fmt_inv ?n (length (code_text d)) st"
    "\<not> got_state st" "fmt_pos st = length items"
    "take (length items) (save_field_num st) = map (\<lambda>(d, s). Some (saved d)) items"
    "take (length items) (field_endings st) = map (\<lambda>(d, s). separator s) items"
    by (auto simp: fmt_init_def)
  have "\<exists>st'. bind_res (parse_format (code_text d) st) (\<lambda>r. case r of None \<Rightarrow> Inr None
        | Some t \<Rightarrow> bind_res (skipp_state CLS_CRLF t) (\<lambda>t. Inr (Some t))) = Inr (Some st') \<and>
      fmt_pos st' = length items + 1 \<and>
      take (length items + 1) (save_field_num st') = map (\<lambda>(d, s). Some (saved d)) items @ [Some (saved d)] \<and>
      take (length items + 1) (field_endings st') = map (\<lambda>(d, s). separator s) items @ [Some CLS_CRLF]"
  proof (cases d)
    case None
    then show ?thesis using st(2-)
      by (auto simp: code_text_def saved_def skipp_state_def set_field_def arr_set_def fmt_inv_def take_Suc_update)
  next
    case (Some c)
    then obtain ls sf where "field_spec c = Some (ls, sf)" using assms(2) by (auto simp: wf_code_def)
    then show ?thesis using Some st(2-)
      by (auto simp: code_text_def saved_def skipp_state_def set_field_def arr_set_def fmt_inv_def take_Suc_update)
  qed
  then obtain t st' where t: "parse_format (code_text d) st = Inr (Some t)" "skipp_state CLS_CRLF t = Inr st'"
    "fmt_pos st' = length items + 1"
    "take (length items + 1) (save_field_num st') = map (\<lambda>(d, s). Some (saved d)) items @ [Some (saved d)]"
    "take (length items + 1) (field_endings st') = map (\<lambda>(d, s). separator s) items @ [Some CLS_CRLF]"
    by (auto simp: bind_res_Inr split: option.splits)
  have r: "parse_log_format ?fmt = Inr (1, st')" using ne st(1) t by (simp add: parse_log_format_def)
  have "fmt_inv ?n 0 t" using parse_format_inv [OF st(2)] t(1) by auto
  from last_skipp_state [OF this] t(2,3) have "wf_format st' (length items + 1)" by auto
  with r t show ?thesis by blast
qed

theorem parse_log_format_fields_witness:
  "\<exists>st. parse_log_format ''%H [%D/%M'' = Inr (1, st) \<and> wf_format st 4 \<and>
    take 4 (save_field_num st) = [Some ADDR, Some F_NONE, Some DATE, Some MONTH] \<and>
    take 4 (field_endings st) = [Some CLS_WSPACE, Some CLS_LBRACK, Some CLS_SLASH, Some CLS_CRLF]"
proof -
  have "items_text [(Some (CHR ''H''), SP), (None, CHR ''[''), (Some (CHR ''D''), CHR ''/'')] @ code_text (Some (CHR ''M'')) =
    ''%H [%D/%M''" by (simp add: items_text_def code_text_def)
  then show ?thesis
    using parse_log_format_fields [of "[(Some (CHR ''H''), SP), (None, CHR ''[''), (Some (CHR ''D''), CHR ''/'')]" "Some (CHR ''M'')"]
    by (simp add: wf_items_def wf_code_def field_spec_def separator_def saved_def numeral_eq_Suc)
qed

end
