(* ===== verification/Log_Parser.thy ===== *)
theory Log_Parser
  imports Log_Format
begin

text \<open>
  The log parser: \<^verbatim>\<open>f_ultraparse\<close> of \<^verbatim>\<open>src/cmods/UltraLog/ultraparse.c\<close>. One byte of the log is one step
  of a state machine that either collects a field in the line buffer or skips the rest of a broken
  line; the end of a line updates the statistics, a new hour and a new day summarise them, and each
  day ends with a call of the callback \<open>daily\<close>, whose arguments are appended to a list of reports. The
  arguments of the call of the callback \<open>statfun\<close> behind the last byte are kept as well.

  The numbers of bytes logged per hour are kept as the list of the numbers added (the code adds
  them up in a \<^verbatim>\<open>double\<close>), the average length of the sessions as the pair the code divides.
\<close>

section \<open>State\<close>

record day_stats =
  d_pages :: "string table"
  d_hits :: "string table"
  d_hits302 :: "string table"
  d_hits_per_error :: "int table"
  d_error_urls :: "(int, string table) pmap"
  d_error_refs :: "(string, string table) pmap"
  d_referredto :: "(string, string table) pmap"
  d_refsites :: "string table"
  d_referrers :: "string table"
  d_directories :: "string table"
  d_user_agents :: "string table"
  d_hosts :: "string table"
  d_domains :: "string table"
  d_topdomains :: "string table"
  hits_per_hour :: "counter list"
  pages_per_hour :: "counter list"
  hosts_per_hour :: "counter list"
  kb_per_hour :: "int list list"

definition day_init :: day_stats where
  "day_init =
     \<lparr>d_pages = [], d_hits = [], d_hits302 = [], d_hits_per_error = [], d_error_urls = [], d_error_refs = [],
      d_referredto = [], d_refsites = [], d_referrers = [], d_directories = [], d_user_agents = [], d_hosts = [],
      d_domains = [], d_topdomains = [], hits_per_hour = replicate 24 0, pages_per_hour = replicate 24 0,
      hosts_per_hour = replicate 24 0, kb_per_hour = replicate 24 []\<rparr>"

definition sess_init :: sessions where
  "sess_init = \<lparr>per_hour = replicate 24 0, time_per = replicate 24 0, sess_start = [], sess_end = []\<rparr>"

text \<open>The arguments of the callback: the date, the tables, and the sessions' numbers and times.\<close>

record report =
  r_date :: "int \<times> int \<times> int"
  r_day :: day_stats
  r_sessions :: "counter list"
  r_session_length :: "counter list"

record config =
  c_format :: fmt_state
  c_states :: nat
  c_exts :: "string list"
  c_notref :: "string option"

record log_st =
  skipping :: bool
  buf :: "nat \<Rightarrow> char"
  bufpos :: nat
  field_position :: nat
  state_pos :: nat
  buf_points :: "save_field \<Rightarrow> int"
  tmpinteger :: int
  last_date :: int
  last_hour :: int
  lines :: nat
  broken_lines :: nat
  day :: day_stats
  sess :: sessions
  sites :: "string table"
  hits20x :: "string table"
  reports :: "report list"
  stat_calls :: "(int \<times> int \<times> int) list"

section \<open>Fields\<close>

text \<open>The macro \<^verbatim>\<open>BUFSET\<close> on the buffer of \<open>MAX_LINE_LEN + 2\<close> bytes; the flag is its \<^verbatim>\<open>goto skip\<close>.\<close>

definition bufset :: "char \<Rightarrow> log_st \<Rightarrow> (log_st \<times> bool) res" where
  "bufset x st =
     (if bufpos st \<ge> MAX_LINE_LEN + 2 then Inl Out_of_bounds
      else (let st' = st\<lparr>buf := (buf st)(bufpos st := x)\<rparr>
            in if bufpos st = MAX_LINE_LEN then Inr (st', True) else Inr (st'\<lparr>bufpos := bufpos st + 1\<rparr>, False)))"

definition field_chars :: "log_st \<Rightarrow> nat \<Rightarrow> string" where
  "field_chars st from_pos = map (buf st) [from_pos ..< bufpos st]"

definition digit_of :: "char \<Rightarrow> int" where
  "digit_of c = int (code_of c AND 15)"

text \<open>The value so far and whether all characters were digits.\<close>

fun digits_loop :: "string \<Rightarrow> int \<Rightarrow> int \<times> bool" where
  "digits_loop [] v = (v, True)"
| "digits_loop (c # cs) v =
     (if char_class c = CLS_DIGIT then digits_loop cs (wrap32 (v * 10 + digit_of c)) else (v, False))"

definition month_abbr :: "string list" where
  "month_abbr = [''jan'', ''feb'', ''mar'', ''apr'', ''may'', ''jun'', ''jul'', ''aug'', ''sep'', ''oct'', ''nov'', ''dec'']"

fun month_index :: "string list \<Rightarrow> nat list \<Rightarrow> int \<Rightarrow> int option" where
  "month_index [] cs i = None"
| "month_index (m # ms) cs i = (if map of_char m = cs then Some i else month_index ms cs (i + 1))"

text \<open>What the end of a field does; the flag is \<^verbatim>\<open>goto skip\<close>.\<close>

definition store_number :: "save_field \<Rightarrow> log_st \<Rightarrow> int \<times> bool \<Rightarrow> log_st \<times> bool" where
  "store_number sf st r =
     (let st = st\<lparr>tmpinteger := fst r\<rparr>
      in if snd r then (st\<lparr>buf_points := (buf_points st)(sf := fst r)\<rparr>, False) else (st, True))"

definition four_digit_year :: "int \<times> bool \<Rightarrow> int \<times> bool" where
  "four_digit_year r =
     (if snd r \<and> fst r < 100 then (if fst r < 60 then fst r + 2000 else fst r + 1900, True) else r)"

definition bytes_value :: "log_st \<Rightarrow> int \<times> bool" where
  "bytes_value st =
     (let c = buf st (field_position st); v = field_position st + 1
      in if char_class c = CLS_QUESTION \<or> char_class c = CLS_HYPHEN then
           (if v = bufpos st then (0, True) else (tmpinteger st, False))
         else if char_class c = CLS_DIGIT then digits_loop (field_chars st v) (digit_of c)
         else (tmpinteger st, False))"

definition month_value :: "log_st \<Rightarrow> int \<times> bool" where
  "month_value st =
     (let cs = field_chars st (field_position st);
          r = (if length cs = 2 then digits_loop cs 0
               else if length cs = 3 then
                 (case month_index month_abbr (map (\<lambda>c. code_of c OR 32) cs) 1 of
                    None \<Rightarrow> (tmpinteger st, True)
                  | Some m \<Rightarrow> (m, True))
               else (tmpinteger st, False))
      in (fst r, snd r \<and> 1 \<le> fst r \<and> fst r \<le> 12))"

definition is_text_field :: "save_field \<Rightarrow> bool" where
  "is_text_field sf \<longleftrightarrow> sf \<in> {ADDR, REFER, AGENT, TZ, METHOD, URL, RFC, PROTO}"

definition process_field :: "save_field \<Rightarrow> log_st \<Rightarrow> (log_st \<times> bool) res" where
  "process_field sf st =
     (if sf \<in> {DATE, HOUR, MINUTE, UP_SEC, CODE} then
        Inr (store_number sf st (digits_loop (field_chars st (field_position st)) 0))
      else if sf = YEAR then
        Inr (store_number sf st (four_digit_year (digits_loop (field_chars st (field_position st)) 0)))
      else if sf = BYTES then Inr (store_number sf st (bytes_value st))
      else if sf = MONTH then Inr (store_number sf st (month_value st))
      else if is_text_field sf then
        bind_res (bufset NUL st) (\<lambda>(st, skip).
          Inr (if skip then st else st\<lparr>buf_points := (buf_points st)(sf := int (field_position st))\<rparr>, skip))
      else Inr (st, False))"

text \<open>The zero-terminated string at a position of the buffer.\<close>

fun string_at :: "(nat \<Rightarrow> char) \<Rightarrow> nat \<Rightarrow> nat \<Rightarrow> string" where
  "string_at b 0 p = []"
| "string_at b (Suc n) p = (if b p = NUL then [] else b p # string_at b n (p + 1))"

definition buf_string :: "log_st \<Rightarrow> save_field \<Rightarrow> string" where
  "buf_string st sf =
     (let p = nat (buf_points st sf) in string_at (buf st) (MAX_LINE_LEN + 2 - p) p)"

section \<open>Hours and days\<close>

definition close_hour :: "config \<Rightarrow> log_st \<Rightarrow> log_st res" where
  "close_hour cfg st =
     bind_res (hourly_page_hits (hits20x st) (d_pages (day st)) (d_hits (day st)) (c_exts cfg)) (\<lambda>(pages, hits, n).
       bind_res (arr_add (pages_per_hour (day st)) (last_hour st) n) (\<lambda>pph.
         bind_res (if sess_start (sess st) \<noteq> [] then summarize_sessions (last_hour st) (sess st) else Inr (sess st)) (\<lambda>se.
           bind_res (arr_add (hosts_per_hour (day st)) (last_hour st) (of_nat (length (sites st)))) (\<lambda>hph.
             Inr (st\<lparr>sess := se,
                     day := (day st)\<lparr>d_pages := pages, d_hits := hits, pages_per_hour := pph, hosts_per_hour := hph,
                                     d_hosts := add_counters (d_hosts (day st)) (sites st)\<rparr>\<rparr>)))))"

definition next_hour :: "config \<Rightarrow> int \<Rightarrow> log_st \<Rightarrow> log_st res" where
  "next_hour cfg h st =
     bind_res (close_hour cfg st) (\<lambda>st.
       let se = (if sess_start (sess st) \<noteq> [] then (sess st)\<lparr>sess_start := [], sess_end := []\<rparr> else sess st)
       in Inr (st\<lparr>sess := se, sites := [], hits20x := [], last_hour := h\<rparr>))"

definition summarize_day :: "config \<Rightarrow> day_stats \<Rightarrow> day_stats res" where
  "summarize_day cfg d =
     bind_res (summarize_refsites (d_refsites d) (d_referrers d) []) (\<lambda>(refsites, referrers).
       bind_res (clean_refto (d_referredto d) [] (c_exts cfg)) (\<lambda>referredto.
         bind_res (http_decode_mapping (d_user_agents d) []) (\<lambda>user_agents.
           let directories = summarize_directories (summarize_directories (d_directories d) (d_pages d)) (d_hits d);
               (domains, topdomains, hosts) = summarize_hosts (d_hosts d) (d_domains d) (d_topdomains d) []
           in Inr (d\<lparr>d_refsites := refsites, d_referrers := referrers, d_referredto := referredto,
                     d_directories := directories, d_user_agents := user_agents, d_domains := domains,
                     d_topdomains := topdomains, d_hosts := hosts\<rparr>))))"

definition report_day :: "config \<Rightarrow> int \<times> int \<times> int \<Rightarrow> log_st \<Rightarrow> log_st res" where
  "report_day cfg date st =
     bind_res (summarize_day cfg (day st)) (\<lambda>d.
       Inr (st\<lparr>reports := reports st @
         [\<lparr>r_date = date, r_day = d, r_sessions = per_hour (sess st), r_session_length = time_per (sess st)\<rparr>]\<rparr>))"

definition next_day :: "config \<Rightarrow> int \<Rightarrow> log_st \<Rightarrow> log_st res" where
  "next_day cfg this_date st =
     (let ld = last_date st
      in bind_res (report_day cfg (cdiv ld 10000, cdiv (cmod ld 10000) 100, cmod (cmod ld 10000) 100) st) (\<lambda>st.
           Inr (st\<lparr>day := day_init, sites := [], last_date := this_date,
                   sess := (sess st)\<lparr>per_hour := replicate 24 0, time_per := replicate 24 0\<rparr>\<rparr>)))"

text \<open>The test for a new hour and a new day before a line is counted.\<close>

definition roll :: "config \<Rightarrow> int \<Rightarrow> log_st \<Rightarrow> log_st res" where
  "roll cfg this_date st =
     (let h = buf_points st HOUR
      in if last_date st = 0 then Inr (st\<lparr>last_date := this_date, last_hour := h\<rparr>)
         else bind_res (if last_hour st \<noteq> h \<or> last_date st \<noteq> this_date then next_hour cfg h st else Inr st) (\<lambda>st.
                if last_date st \<noteq> this_date then next_day cfg this_date st else Inr st))"

section \<open>Lines\<close>

definition list_add :: "int list list \<Rightarrow> int \<Rightarrow> int \<Rightarrow> int list list res" where
  "list_add a i x = (if 0 \<le> i \<and> nat i < length a then Inr (a[nat i := a ! nat i @ [x]]) else Inl Out_of_bounds)"

text \<open>The macros \<^verbatim>\<open>DO_REFERRER\<close> (which leaves the length of the referrer in \<open>tmpinteger\<close>) and \<^verbatim>\<open>DO_ERREF\<close>,
  and the table a return code belongs to.\<close>

definition do_referrer :: "config \<Rightarrow> string \<Rightarrow> string \<Rightarrow> day_stats \<Rightarrow> day_stats" where
  "do_referrer cfg url ref d =
     (if length ref > 1 \<and> (case c_notref cfg of None \<Rightarrow> True | Some n \<Rightarrow> find_string (cstr n) ref = None)
      then d\<lparr>d_referredto := map2addstr (d_referredto d) url ref, d_referrers := mapaddstr (d_referrers d) ref\<rparr>
      else d)"

definition do_erref :: "string \<Rightarrow> string \<Rightarrow> day_stats \<Rightarrow> day_stats" where
  "do_erref url ref d =
     (if length ref > 1 then d\<lparr>d_error_refs := map2addstr (d_error_refs d) url ref\<rparr> else d)"

definition count_code :: "config \<Rightarrow> int \<Rightarrow> string \<Rightarrow> string \<Rightarrow> log_st \<Rightarrow> log_st" where
  "count_code cfg v url ref st =
     (if v \<in> {200, 201, 202, 203, 204, 205, 206, 207, 304} then
        st\<lparr>hits20x := mapaddstr (hits20x st) url, day := do_referrer cfg url ref (day st), tmpinteger := int (length ref)\<rparr>
      else if v \<in> {300, 301, 302, 303, 305} then
        st\<lparr>day := do_referrer cfg url ref ((day st)\<lparr>d_hits302 := mapaddstr (d_hits302 (day st)) url\<rparr>),
           tmpinteger := int (length ref)\<rparr>
      else if v \<in> {400, 404, 405, 406, 408, 409, 410, 411, 412, 413, 414, 415, 416, 500, 501} then
        (let d = do_erref url ref (day st)
         in st\<lparr>day := d\<lparr>d_error_urls := map2addint (d_error_urls d) v url\<rparr>\<rparr>)
      else st)"

definition log_line :: "config \<Rightarrow> log_st \<Rightarrow> log_st res" where
  "log_line cfg st =
     (let h = buf_points st HOUR; v = buf_points st CODE; agent = buf_string st AGENT;
          t = wrap32 (h * 3600 + buf_points st MINUTE * 60 + buf_points st UP_SEC)
      in bind_res (process_session (buf_string st ADDR) t h (sess st) (sites st)) (\<lambda>(se, si).
           let st = count_code cfg v (buf_string st URL) (buf_string st REFER) (st\<lparr>sess := se, sites := si\<rparr>);
               d = (day st)\<lparr>d_hits_per_error := mapaddint (d_hits_per_error (day st)) v\<rparr>
           in bind_res (list_add (kb_per_hour d) h (buf_points st BYTES)) (\<lambda>kb.
                bind_res (arr_add (hits_per_hour d) h 1) (\<lambda>hph.
                  let d = d\<lparr>kb_per_hour := kb, hits_per_hour := hph\<rparr>
                  in Inr (st\<lparr>lines := lines st + 1,
                             day := (if length agent > 1 then d\<lparr>d_user_agents := mapaddstr (d_user_agents d) agent\<rparr>
                                     else d)\<rparr>)))))"

text \<open>The label \<^verbatim>\<open>ok\<close>: the points of date, month and year are not reset.\<close>

definition reset_line :: "log_st \<Rightarrow> log_st" where
  "reset_line st =
     st\<lparr>skipping := False, buf_points := (\<lambda>sf. if sf \<in> {DATE, MONTH, YEAR} then buf_points st sf else 0),
        state_pos := 0, field_position := 1, buf := (buf st)(0 := NUL), bufpos := 1\<rparr>"

definition end_of_line :: "config \<Rightarrow> log_st \<Rightarrow> log_st res" where
  "end_of_line cfg st =
     (if state_pos st < c_states cfg then Inr (reset_line (st\<lparr>broken_lines := broken_lines st + 1\<rparr>))
      else (let this_date = wrap32 (buf_points st YEAR * 10000 + buf_points st MONTH * 100 + buf_points st DATE)
            in if this_date = 0 then Inr (reset_line (st\<lparr>broken_lines := broken_lines st + 1\<rparr>))
               else bind_res (roll cfg this_date st) (\<lambda>st.
                      bind_res (log_line cfg st) (\<lambda>st. Inr (reset_line st)))))"

text \<open>The label \<^verbatim>\<open>skip\<close>: the rest of the input up to the next line break is thrown away.\<close>

definition start_skip :: "log_st \<Rightarrow> log_st" where
  "start_skip st = st\<lparr>skipping := True, broken_lines := broken_lines st + 1\<rparr>"

definition entry :: "'a option list \<Rightarrow> nat \<Rightarrow> 'a res" where
  "entry a i = (if i < length a then (case a ! i of None \<Rightarrow> Inl Out_of_bounds | Some x \<Rightarrow> Inr x) else Inl Out_of_bounds)"

section \<open>One byte\<close>

definition log_step :: "config \<Rightarrow> char \<Rightarrow> log_st \<Rightarrow> log_st res" where
  "log_step cfg c st =
     (if skipping st then Inr (if char_class c = CLS_CRLF then reset_line st else st)
      else bind_res (entry (field_endings (c_format cfg)) (state_pos st)) (\<lambda>ending.
        if char_class c = ending \<or> char_class c = CLS_CRLF then
          bind_res (entry (save_field_num (c_format cfg)) (state_pos st)) (\<lambda>sf.
            bind_res (process_field sf st) (\<lambda>(st, skip).
              if skip then Inr (start_skip st)
              else (let st = st\<lparr>state_pos := state_pos st + 1, field_position := bufpos st\<rparr>
                    in if char_class c = CLS_CRLF then end_of_line cfg st else Inr st)))
        else bind_res (bufset c st) (\<lambda>(st, skip). Inr (if skip then start_skip st else st))))"

definition log_run :: "config \<Rightarrow> string \<Rightarrow> log_st \<Rightarrow> log_st res" where
  "log_run cfg bytes = fold_res (log_step cfg) bytes"

definition log_init :: "(nat \<Rightarrow> char) \<Rightarrow> log_st" where
  "log_init junk =
     \<lparr>skipping = False, buf = junk(0 := NUL), bufpos = 1, field_position = 1, state_pos = 0, buf_points = (\<lambda>_. 0),
      tmpinteger = 0, last_date = 0, last_hour = 0, lines = 0, broken_lines = 0, day = day_init, sess = sess_init,
      sites = [], hits20x = [], reports = [], stat_calls = []\<rparr>"

text \<open>The last hour and the last day, if the points of the date are set.\<close>

definition finish :: "config \<Rightarrow> log_st \<Rightarrow> log_st res" where
  "finish cfg st =
     (if buf_points st YEAR \<noteq> 0 \<and> buf_points st MONTH \<noteq> 0 \<and> buf_points st DATE \<noteq> 0 then
        bind_res (close_hour cfg st)
          (\<lambda>st. report_day cfg (buf_points st YEAR, buf_points st MONTH, buf_points st DATE) st)
      else Inr st)"

text \<open>
  The callback \<open>statfun\<close> gets the lines and the megabytes read; a \<^verbatim>\<open>float\<close> holds 24 bits of the
  offset, rounded to even. \<^verbatim>\<open>offs0\<close> has 32 bits.
\<close>

definition float_of_int :: "int \<Rightarrow> int" where
  "float_of_int n =
     (let a = \<bar>n\<bar>; unit = 2 ^ length (takeWhile (\<lambda>k. 2 ^ (24 + k) \<le> a) [0..<8]); q = a div unit; r = a mod unit;
          f = (if unit < 2 * r \<or> 2 * r = unit \<and> odd q then q + 1 else q) * unit
      in if n < 0 then - f else f)"

definition call_statfun :: "int \<Rightarrow> log_st \<Rightarrow> log_st" where
  "call_statfun offs0 st =
     st\<lparr>stat_calls := stat_calls st @ [(int (lines st), cdiv (float_of_int offs0) (1024 * 1024), 1)]\<rparr>"

text \<open>
  \<^verbatim>\<open>ultraparse\<close>: \<open>reads\<close> are the results of \<^verbatim>\<open>fd_read\<close>, ended by an empty one; the result is the state
  with the reports, and the offset returned to Pike.
\<close>

definition f_ultraparse ::
  "string \<Rightarrow> string list \<Rightarrow> string option \<Rightarrow> int \<Rightarrow> (nat \<Rightarrow> char) \<Rightarrow> string list \<Rightarrow> (log_st \<times> int) res" where
  "f_ultraparse log_format pagexts notref offs0 junk reads =
     bind_res (parse_log_format log_format) (\<lambda>(num_states, fmt).
       if num_states < 1 then Inl (Pike_error ''UltraLog.ultraparse(): Failed to parse log format.'')
       else (let cfg = \<lparr>c_format = fmt, c_states = num_states, c_exts = pagexts, c_notref = notref\<rparr>;
                 blocks = takeWhile (\<lambda>b. b \<noteq> []) reads
             in bind_res (fold_res (log_run cfg) blocks (log_init junk)) (\<lambda>st.
                  let offs = wrap32 (offs0 + int (length (concat blocks)))
                  in bind_res (finish cfg (call_statfun offs st)) (\<lambda>st. Inr (st, offs)))))"

section \<open>Runs\<close>

lemma log_run_append: "log_run cfg (xs @ ys) st = bind_res (log_run cfg xs st) (log_run cfg ys)"
  by (simp add: log_run_def fold_res_append)

lemma log_run_Nil [simp]: "log_run cfg [] st = Inr st"
  by (simp add: log_run_def)

lemma log_run_Cons: "log_run cfg (c # cs) st = bind_res (log_step cfg c st) (log_run cfg cs)"
  by (simp add: log_run_def)

text \<open>How the input is cut into blocks does not matter.\<close>

lemma log_run_blocks: "fold_res (log_run cfg) blocks st = log_run cfg (concat blocks) st"
  by (induction blocks arbitrary: st) (auto simp: log_run_append bind_res_def split: sum.split)

lemma skip_line:
  "skipping st \<Longrightarrow> \<forall>c \<in> set xs. char_class c \<noteq> CLS_CRLF \<Longrightarrow> char_class e = CLS_CRLF \<Longrightarrow>
     log_run cfg (xs @ [e]) st = Inr (reset_line st)"
  by (induction xs) (auto simp: log_run_Cons log_step_def)

lemma char_class_LF [simp]: "char_class LF = CLS_CRLF" "char_class CR = CLS_CRLF"
  by (simp_all add: char_class_def)

section \<open>The statistics are consistent\<close>

definition codes20x :: "int set" where "codes20x = {200, 201, 202, 203, 204, 205, 206, 207, 304}"
definition codes302 :: "int set" where "codes302 = {300, 301, 302, 303, 305}"
definition codes_err :: "int set" where
  "codes_err = {400, 404, 405, 406, 408, 409, 410, 411, 412, 413, 414, 415, 416, 500, 501}"

text \<open>
  The tables of a day agree with the table of return codes: the pages, the hits and the urls of the
  hour not yet summarised, the redirections and the errors are as many as the lines with such codes,
  and the hours of the day have all the lines.
\<close>

definition consistent :: "day_stats \<Rightarrow> counter \<Rightarrow> bool" where
  "consistent d pending \<longleftrightarrow>
     sum_list (hits_per_hour d) = total (d_hits_per_error d) \<and>
     total (d_pages d) + total (d_hits d) + pending = (\<Sum>v \<in> codes20x. count_of (d_hits_per_error d) v) \<and>
     total (d_hits302 d) = (\<Sum>v \<in> codes302. count_of (d_hits_per_error d) v) \<and>
     total2 (d_error_urls d) = (\<Sum>v \<in> codes_err. count_of (d_hits_per_error d) v)"

definition reported :: "log_st \<Rightarrow> counter" where
  "reported st = (\<Sum>r \<leftarrow> reports st. total (d_hits_per_error (r_day r)))"

definition stats_inv :: "log_st \<Rightarrow> bool" where
  "stats_inv st \<longleftrightarrow>
     consistent (day st) (total (hits20x st)) \<and> (\<forall>r \<in> set (reports st). consistent (r_day r) 0) \<and>
     of_nat (lines st) = reported st + total (d_hits_per_error (day st))"

text \<open>The part of the state the statistics consist of.\<close>

definition same_stats :: "log_st \<Rightarrow> log_st \<Rightarrow> bool" where
  "same_stats st st' \<longleftrightarrow> day st' = day st \<and> hits20x st' = hits20x st \<and> reports st' = reports st \<and> lines st' = lines st"

lemma same_stats_inv: "same_stats st st' \<Longrightarrow> stats_inv st \<Longrightarrow> stats_inv st'"
  by (simp add: same_stats_def stats_inv_def reported_def)

lemma same_stats_trans: "same_stats a b \<Longrightarrow> same_stats b c \<Longrightarrow> same_stats a c"
  by (simp add: same_stats_def)

lemma hourly_totals:
  "hourly_page_hits urls pages hits exts = Inr (pages', hits', n) \<Longrightarrow>
     total pages' + total hits' = total pages + total hits + total urls"
proof -
  assume "hourly_page_hits urls pages hits exts = Inr (pages', hits', n)"
  then have run: "fold_res (hourly_step exts) urls (pages, hits, 0) = Inr (pages', hits', n)" by (simp add: hourly_page_hits_def)
  define \<mu> :: "string table \<times> string table \<times> counter \<Rightarrow> counter" where "\<mu> = (\<lambda>(p, h, n). total p + total h)"
  have "hourly_step exts x s = Inr s' \<Longrightarrow> \<mu> s' = \<mu> s + snd x" for x s s'
    by (cases x; cases s) (auto simp: \<mu>_def hourly_step_def bind_res_Inr algebra_simps split: if_splits)
  from fold_res_sum [where f = "hourly_step exts" and \<mu> = \<mu> and w = snd, OF this run] show ?thesis
    by (simp add: \<mu>_def total_def)
qed

lemma close_hour_stats:
  assumes "close_hour cfg st = Inr st'" "consistent (day st) (total (hits20x st))"
  shows "consistent (day st') 0" "reports st' = reports st" "lines st' = lines st"
    "d_hits_per_error (day st') = d_hits_per_error (day st)" "buf_points st' = buf_points st"
proof -
  obtain pages hits n pph se hph where
    h: "hourly_page_hits (hits20x st) (d_pages (day st)) (d_hits (day st)) (c_exts cfg) = Inr (pages, hits, n)"
    "st' = st\<lparr>sess := se, day := (day st)\<lparr>d_pages := pages, d_hits := hits, pages_per_hour := pph, hosts_per_hour := hph,
       d_hosts := add_counters (d_hosts (day st)) (sites st)\<rparr>\<rparr>"
    using assms(1) unfolding close_hour_def by (auto simp: bind_res_Inr)
  show "consistent (day st') 0" using assms(2) hourly_totals [OF h(1)] by (simp add: consistent_def h(2))
qed (use assms(1) in \<open>auto simp: close_hour_def bind_res_Inr\<close>)

lemma summarize_day_consistent:
  assumes "summarize_day cfg d = Inr d'"
  shows "consistent d' p = consistent d p \<and> d_hits_per_error d' = d_hits_per_error d"
proof -
  obtain domains topdomains hosts where h: "summarize_hosts (d_hosts d) (d_domains d) (d_topdomains d) [] = (domains, topdomains, hosts)"
    by (cases "summarize_hosts (d_hosts d) (d_domains d) (d_topdomains d) []")
  then obtain refsites referrers referredto directories agents where
    "d' = d\<lparr>d_refsites := refsites, d_referrers := referrers, d_referredto := referredto, d_directories := directories,
       d_user_agents := agents, d_domains := domains, d_topdomains := topdomains, d_hosts := hosts\<rparr>"
    using assms by (auto simp: summarize_day_def bind_res_Inr Let_def)
  then show ?thesis by (simp add: consistent_def)
qed

lemma report_day_stats:
  assumes "report_day cfg date st = Inr st'" "consistent (day st) 0" "\<forall>r \<in> set (reports st). consistent (r_day r) 0"
  shows "\<forall>r \<in> set (reports st'). consistent (r_day r) 0"
    "reported st' = reported st + total (d_hits_per_error (day st))" "lines st' = lines st"
  using assms summarize_day_consistent [of cfg "day st"] by (auto simp: report_day_def bind_res_Inr reported_def)

lemma day_init_consistent [simp]: "consistent day_init 0" "total (d_hits_per_error day_init) = 0"
  by (simp_all add: consistent_def day_init_def total2_def sum_list_replicate)

lemma next_hour_stats:
  assumes "next_hour cfg h st = Inr st'" "stats_inv st"
  shows "stats_inv st'"
proof -
  obtain t se where t: "close_hour cfg st = Inr t" "st' = t\<lparr>sess := se, sites := [], hits20x := [], last_hour := h\<rparr>"
    using assms(1) by (auto simp: next_hour_def bind_res_Inr Let_def)
  have c: "consistent (day st) (total (hits20x st))" using assms(2) by (simp add: stats_inv_def)
  show ?thesis using close_hour_stats [OF t(1) c] assms(2) by (simp add: stats_inv_def t(2) reported_def)
qed

lemma next_hour_pending: "next_hour cfg h st = Inr st' \<Longrightarrow> hits20x st' = []"
  by (auto simp: next_hour_def bind_res_Inr Let_def)

lemma next_hour_last_date: "next_hour cfg h st = Inr st' \<Longrightarrow> last_date st' = last_date st"
  by (auto simp: next_hour_def close_hour_def bind_res_Inr Let_def)

lemma next_day_stats:
  assumes "next_day cfg date st = Inr st'" "stats_inv st" "hits20x st = []"
  shows "stats_inv st'"
proof -
  have c: "consistent (day st) 0" "\<forall>r \<in> set (reports st). consistent (r_day r) 0" using assms by (simp_all add: stats_inv_def)
  obtain t dt where t: "report_day cfg dt st = Inr t"
    "st' = t\<lparr>day := day_init, sites := [], last_date := date, sess := (sess t)\<lparr>per_hour := replicate 24 0, time_per := replicate 24 0\<rparr>\<rparr>"
    using assms(1) by (auto simp: next_day_def bind_res_Inr Let_def)
  have "hits20x t = hits20x st" using t(1) by (auto simp: report_day_def bind_res_Inr)
  with report_day_stats [OF t(1) c] assms show ?thesis by (simp add: stats_inv_def t(2) reported_def)
qed

lemma roll_stats:
  assumes "roll cfg date st = Inr st'" "stats_inv st"
  shows "stats_inv st'"
proof (cases "last_date st = 0")
  case True
  then show ?thesis using assms by (auto simp: roll_def stats_inv_def reported_def)
next
  case False
  show ?thesis
  proof (cases "last_date st = date")
    case True
    then show ?thesis using assms False next_hour_stats next_hour_last_date by (auto simp: roll_def bind_res_Inr Let_def split: if_splits)
  next
    case new: False
    then obtain t where t: "next_hour cfg (buf_points st HOUR) st = Inr t"
      "(if last_date t \<noteq> date then next_day cfg date t else Inr t) = Inr st'"
      using assms(1) False by (auto simp: roll_def bind_res_Inr Let_def)
    then show ?thesis using next_hour_stats [OF t(1) assms(2)] next_hour_pending [OF t(1)] next_day_stats
      by (auto split: if_splits)
  qed
qed

lemma sum_count_mapaddint:
  "finite A \<Longrightarrow> (\<Sum>v \<in> A. count_of (mapaddint m c) v) = (\<Sum>v \<in> A. count_of m v) + (if c \<in> A then 1 else 0)"
proof -
  assume "finite A"
  have "(\<Sum>v \<in> A. count_of (mapaddint m c) v) = (\<Sum>v \<in> A. count_of m v + (if v = c then 1 else 0))"
    by (rule sum.cong) (auto simp: mapadd_alt count_of_insert)
  also have "\<dots> = (\<Sum>v \<in> A. count_of m v) + (\<Sum>v \<in> A. if v = c then 1 else 0)" by (rule sum.distrib)
  also have "(\<Sum>v \<in> A. if v = c then 1 else 0 :: counter) = (if c \<in> A then 1 else 0)" using \<open>finite A\<close> by simp
  finally show ?thesis .
qed

lemma total2_map2addint: "total2 (map2addint m v k) = total2 m + 1"
  by (auto simp: map2addint_def total2_insert split: option.splits)

lemma codes_disjoint:
  "codes20x \<inter> codes302 = {}" "codes20x \<inter> codes_err = {}" "codes302 \<inter> codes_err = {}"
  "finite codes20x" "finite codes302" "finite codes_err"
  by (simp_all add: codes20x_def codes302_def codes_err_def)

lemma sum_list_plus: "i < length a \<Longrightarrow> sum_list (a[i := a ! i + w]) = sum_list a + w" for w :: counter
proof (induction a arbitrary: i)
  case (Cons x a)
  then show ?case by (cases i) (auto simp: algebra_simps)
qed simp

lemma sum_list_arr_add: "arr_add a i w = Inr a' \<Longrightarrow> sum_list a' = sum_list a + w"
  by (auto simp: arr_add_def sum_list_plus split: if_splits)

lemma do_referrer_stats [simp]:
  "hits_per_hour (do_referrer cfg u r d) = hits_per_hour d" "d_hits_per_error (do_referrer cfg u r d) = d_hits_per_error d"
  "d_pages (do_referrer cfg u r d) = d_pages d" "d_hits (do_referrer cfg u r d) = d_hits d"
  "d_hits302 (do_referrer cfg u r d) = d_hits302 d" "d_error_urls (do_referrer cfg u r d) = d_error_urls d"
  "kb_per_hour (do_referrer cfg u r d) = kb_per_hour d"
  by (simp_all add: do_referrer_def)

lemma do_erref_stats [simp]:
  "hits_per_hour (do_erref u r d) = hits_per_hour d" "d_hits_per_error (do_erref u r d) = d_hits_per_error d"
  "d_pages (do_erref u r d) = d_pages d" "d_hits (do_erref u r d) = d_hits d"
  "d_hits302 (do_erref u r d) = d_hits302 d" "d_error_urls (do_erref u r d) = d_error_urls d"
  "kb_per_hour (do_erref u r d) = kb_per_hour d"
  by (simp_all add: do_erref_def)

text \<open>What \<open>count_code\<close> adds, and the fields it leaves alone.\<close>

lemma count_code_stats:
  fixes cfg st u r v
  defines "st' \<equiv> count_code cfg v u r st"
  shows "hits_per_hour (day st') = hits_per_hour (day st)" "d_hits_per_error (day st') = d_hits_per_error (day st)"
    "kb_per_hour (day st') = kb_per_hour (day st)" "d_pages (day st') = d_pages (day st)" "d_hits (day st') = d_hits (day st)"
    "total (hits20x st') = total (hits20x st) + (if v \<in> codes20x then 1 else 0)"
    "total (d_hits302 (day st')) = total (d_hits302 (day st)) + (if v \<in> codes302 then 1 else 0)"
    "total2 (d_error_urls (day st')) = total2 (d_error_urls (day st)) + (if v \<in> codes_err then 1 else 0)"
    "lines st' = lines st" "reports st' = reports st" "last_date st' = last_date st"
proof -
  consider "v \<in> codes20x" | "v \<in> codes302" | "v \<in> codes_err" | "v \<notin> codes20x" "v \<notin> codes302" "v \<notin> codes_err" by blast
  then have "hits_per_hour (day st') = hits_per_hour (day st) \<and> d_hits_per_error (day st') = d_hits_per_error (day st) \<and>
    kb_per_hour (day st') = kb_per_hour (day st) \<and> d_pages (day st') = d_pages (day st) \<and> d_hits (day st') = d_hits (day st) \<and>
    total (hits20x st') = total (hits20x st) + (if v \<in> codes20x then 1 else 0) \<and>
    total (d_hits302 (day st')) = total (d_hits302 (day st)) + (if v \<in> codes302 then 1 else 0) \<and>
    total2 (d_error_urls (day st')) = total2 (d_error_urls (day st)) + (if v \<in> codes_err then 1 else 0) \<and>
    lines st' = lines st \<and> reports st' = reports st \<and> last_date st' = last_date st"
  proof cases
    case 1
    then have "v \<notin> codes302" "v \<notin> codes_err" using codes_disjoint by auto
    with 1 show ?thesis by (simp add: st'_def count_code_def codes20x_def [symmetric])
  next
    case 2
    then have "v \<notin> codes20x" "v \<notin> codes_err" using codes_disjoint by auto
    with 2 show ?thesis by (simp add: st'_def count_code_def codes20x_def [symmetric] codes302_def [symmetric])
  next
    case 3
    then have "v \<notin> codes20x" "v \<notin> codes302" using codes_disjoint by auto
    with 3 show ?thesis
      by (simp add: st'_def count_code_def codes20x_def [symmetric] codes302_def [symmetric] codes_err_def [symmetric]
          Let_def total2_map2addint)
  next
    case 4
    then show ?thesis
      by (simp add: st'_def count_code_def codes20x_def [symmetric] codes302_def [symmetric] codes_err_def [symmetric])
  qed
  then show "hits_per_hour (day st') = hits_per_hour (day st)" "d_hits_per_error (day st') = d_hits_per_error (day st)"
    "kb_per_hour (day st') = kb_per_hour (day st)" "d_pages (day st') = d_pages (day st)" "d_hits (day st') = d_hits (day st)"
    "total (hits20x st') = total (hits20x st) + (if v \<in> codes20x then 1 else 0)"
    "total (d_hits302 (day st')) = total (d_hits302 (day st)) + (if v \<in> codes302 then 1 else 0)"
    "total2 (d_error_urls (day st')) = total2 (d_error_urls (day st)) + (if v \<in> codes_err then 1 else 0)"
    "lines st' = lines st" "reports st' = reports st" "last_date st' = last_date st" by blast+
qed

lemma log_line_stats:
  assumes "log_line cfg st = Inr st'" "stats_inv st"
  shows "stats_inv st' \<and> lines st' = lines st + 1"
proof -
  let ?v = "buf_points st CODE"
  obtain se si where p: "process_session (buf_string st ADDR)
      (wrap32 (buf_points st HOUR * 3600 + buf_points st MINUTE * 60 + buf_points st UP_SEC)) (buf_points st HOUR) (sess st) (sites st) = Inr (se, si)"
    using assms(1) by (auto simp: log_line_def Let_def bind_res_Inr)
  define t where "t = count_code cfg ?v (buf_string st URL) (buf_string st REFER) (st\<lparr>sess := se, sites := si\<rparr>)"
  note ct = count_code_stats [of cfg ?v "buf_string st URL" "buf_string st REFER" "st\<lparr>sess := se, sites := si\<rparr>", folded t_def, simplified]
  obtain kb hph agents where r: "arr_add (hits_per_hour (day t)) (buf_points st HOUR) 1 = Inr hph"
    "st' = t\<lparr>lines := lines t + 1, day := (day t)\<lparr>d_hits_per_error := mapaddint (d_hits_per_error (day t)) ?v,
       kb_per_hour := kb, hits_per_hour := hph, d_user_agents := agents\<rparr>\<rparr>"
  proof -
    from assms(1) p obtain kb hph where
      "arr_add (hits_per_hour (day t)) (buf_points st HOUR) 1 = Inr hph"
      "st' = t\<lparr>lines := lines t + 1, day := (let d = (day t)\<lparr>d_hits_per_error := mapaddint (d_hits_per_error (day t)) ?v,
         kb_per_hour := kb, hits_per_hour := hph\<rparr> in if length (buf_string st AGENT) > 1
           then d\<lparr>d_user_agents := mapaddstr (d_user_agents d) (buf_string st AGENT)\<rparr> else d)\<rparr>"
      by (auto simp: log_line_def Let_def bind_res_Inr t_def)
    then show ?thesis
      by (cases "length (buf_string st AGENT) > 1")
        (auto simp: Let_def intro: that [of hph "mapaddstr (d_user_agents (day t)) (buf_string st AGENT)" kb]
          that [of hph "d_user_agents (day t)" kb])
  qed
  have "consistent (day st') (total (hits20x st'))"
    using assms(2) ct sum_list_arr_add [OF r(1)] codes_disjoint
    by (simp add: stats_inv_def consistent_def r(2) sum_count_mapaddint add.assoc [symmetric])
  then show ?thesis using assms(2) ct by (simp add: stats_inv_def reported_def r(2))
qed

lemma reset_line_stats: "same_stats st (reset_line st)"
  by (simp add: same_stats_def reset_line_def)

lemma end_of_line_stats: "end_of_line cfg st = Inr st' \<Longrightarrow> stats_inv st \<Longrightarrow> stats_inv st'"
  using same_stats_inv [OF reset_line_stats]
  by (auto simp: end_of_line_def Let_def bind_res_Inr split: if_splits dest!: roll_stats log_line_stats)
    (auto simp: stats_inv_def reset_line_def reported_def)

lemma bufset_stats: "bufset c st = Inr (st', skip) \<Longrightarrow> same_stats st st'"
  by (auto simp: bufset_def same_stats_def Let_def split: if_splits)

lemma process_field_stats: "process_field sf st = Inr (st', skip) \<Longrightarrow> same_stats st st'"
  by (auto simp: process_field_def store_number_def same_stats_def bind_res_Inr bufset_def Let_def split: if_splits)

lemma log_step_stats: "log_step cfg c st = Inr st' \<Longrightarrow> stats_inv st \<Longrightarrow> stats_inv st'"
proof -
  assume step: "log_step cfg c st = Inr st'" and inv: "stats_inv st"
  have start: "same_stats a (start_skip a)" "same_stats a (a\<lparr>state_pos := i, field_position := j\<rparr>)" for a i j
    by (simp_all add: same_stats_def start_skip_def)
  show ?thesis
  proof (cases "skipping st")
    case True
    then show ?thesis using step inv same_stats_inv [OF reset_line_stats] by (auto simp: log_step_def split: if_splits)
  next
    case False
    then obtain e where e: "entry (field_endings (c_format cfg)) (state_pos st) = Inr e"
      using step by (auto simp: log_step_def bind_res_Inr)
    show ?thesis
    proof (cases "char_class c = e \<or> char_class c = CLS_CRLF")
      case True
      then obtain sf t skip where t: "process_field sf st = Inr (t, skip)"
        "(if skip then Inr (start_skip t)
          else (let t = t\<lparr>state_pos := state_pos t + 1, field_position := bufpos t\<rparr>
                in if char_class c = CLS_CRLF then end_of_line cfg t else Inr t)) = Inr st'"
        using step False e by (auto simp: log_step_def bind_res_Inr)
      have "stats_inv t" using same_stats_inv [OF process_field_stats [OF t(1)] inv] .
      then show ?thesis using t(2) same_stats_inv [OF start(1)] same_stats_inv [OF start(2)] end_of_line_stats
        by (auto simp: Let_def split: if_splits)
    next
      case no: False
      then obtain t skip where t: "bufset c st = Inr (t, skip)" "st' = (if skip then start_skip t else t)"
        using step False e by (auto simp: log_step_def bind_res_Inr)
      have "stats_inv t" using same_stats_inv [OF bufset_stats [OF t(1)] inv] .
      then show ?thesis using t(2) same_stats_inv [OF start(1)] by simp
    qed
  qed
qed

lemma log_run_stats: "log_run cfg bytes st = Inr st' \<Longrightarrow> stats_inv st \<Longrightarrow> stats_inv st'"
  unfolding log_run_def by (rule fold_res_keeps [where I = stats_inv]) (auto intro: log_step_stats)

lemma log_init_stats: "stats_inv (log_init junk)"
  by (simp add: stats_inv_def log_init_def reported_def)

section \<open>Scanning a line\<close>

text \<open>The value of a numeric field from its text, where the text alone determines it.\<close>

definition is_number_field :: "save_field \<Rightarrow> bool" where
  "is_number_field sf \<longleftrightarrow> sf \<in> {DATE, MONTH, YEAR, HOUR, MINUTE, UP_SEC, CODE, BYTES}"

definition number_of :: "save_field \<Rightarrow> string \<Rightarrow> int option" where
  "number_of sf x =
     (let dec = (let r = digits_loop x 0 in if snd r then Some (fst r) else None)
      in if sf = YEAR then map_option (\<lambda>y. if y < 60 then y + 2000 else if y < 100 then y + 1900 else y) dec
         else if sf = MONTH then
           (case (if length x = 2 then dec
                  else if length x = 3 then month_index month_abbr (map (\<lambda>c. code_of c OR 32) x) 1 else None) of
              None \<Rightarrow> None
            | Some m \<Rightarrow> if 1 \<le> m \<and> m \<le> 12 then Some m else None)
         else if sf = BYTES then
           (case x of
              [] \<Rightarrow> None
            | c # cs \<Rightarrow>
                if char_class c = CLS_QUESTION \<or> char_class c = CLS_HYPHEN then (if cs = [] then Some 0 else None)
                else dec)
         else dec)"

fun put :: "(nat \<Rightarrow> char) \<Rightarrow> nat \<Rightarrow> string \<Rightarrow> nat \<Rightarrow> char" where
  "put b p [] = b"
| "put b p (c # cs) = put (b(p := c)) (p + 1) cs"

lemma put_at: "put b p x j = (if p \<le> j \<and> j < p + length x then x ! (j - p) else b j)"
proof (induction x arbitrary: b p)
  case (Cons c cs)
  then show ?case using Cons.IH [of "b(p := c)" "p + 1"] by (auto simp: nth_Cons' simp del: fun_upd_apply) (auto simp: nth_Cons')
qed auto

lemma put_block: "map (put b p x) [p ..< p + length x] = x"
  by (rule nth_equalityI) (auto simp: put_at)

lemma bufset_room:
  "bufpos st < MAX_LINE_LEN \<Longrightarrow>
     bufset x st = Inr (st\<lparr>buf := (buf st)(bufpos st := x), bufpos := bufpos st + 1\<rparr>, False)"
  by (simp add: bufset_def)

lemma collect:
  assumes "\<not> skipping st" "entry (field_endings (c_format cfg)) (state_pos st) = Inr e"
    and "\<forall>c \<in> set x. char_class c \<noteq> e \<and> char_class c \<noteq> CLS_CRLF" "bufpos st + length x \<le> MAX_LINE_LEN"
  shows "log_run cfg x st = Inr (st\<lparr>buf := put (buf st) (bufpos st) x, bufpos := bufpos st + length x\<rparr>)"
  using assms
proof (induction x arbitrary: st)
  case (Cons c x)
  let ?st = "st\<lparr>buf := (buf st)(bufpos st := c), bufpos := bufpos st + 1\<rparr>"
  have "log_step cfg c st = Inr ?st" using Cons.prems by (simp add: log_step_def bufset_room)
  moreover have "log_run cfg x ?st = Inr (?st\<lparr>buf := put (buf ?st) (bufpos ?st) x, bufpos := bufpos ?st + length x\<rparr>)"
    using Cons.prems by (intro Cons.IH) auto
  ultimately show ?case by (simp add: log_run_Cons)
qed simp

text \<open>The statistics and counters are those of \<open>st\<close>.\<close>

definition scans_only :: "log_st \<Rightarrow> log_st \<Rightarrow> bool" where
  "scans_only st st' \<longleftrightarrow>
     day st' = day st \<and> sess st' = sess st \<and> sites st' = sites st \<and> hits20x st' = hits20x st \<and>
     reports st' = reports st \<and> lines st' = lines st \<and> broken_lines st' = broken_lines st \<and>
     last_date st' = last_date st \<and> last_hour st' = last_hour st"

definition text_holds :: "log_st \<Rightarrow> save_field \<Rightarrow> string \<Rightarrow> bool" where
  "text_holds st sf x \<longleftrightarrow>
     (\<exists>p. buf_points st sf = int p \<and> p + length x < bufpos st \<and>
        (\<forall>j < length x. buf st (p + j) = x ! j) \<and> buf st (p + length x) = NUL)"

definition field_done :: "save_field \<Rightarrow> string \<Rightarrow> log_st \<Rightarrow> log_st \<Rightarrow> bool" where
  "field_done sf x st st' \<longleftrightarrow>
     \<not> skipping st' \<and> state_pos st' = state_pos st + 1 \<and> field_position st' = bufpos st' \<and>
     bufpos st \<le> bufpos st' \<and> bufpos st' \<le> bufpos st + length x + 1 \<and> scans_only st st' \<and>
     (\<forall>j < bufpos st. buf st' j = buf st j) \<and> (\<forall>sf'. sf' \<noteq> sf \<longrightarrow> buf_points st' sf' = buf_points st sf') \<and>
     (if is_text_field sf then text_holds st' sf x
      else buf_points st' sf = (if is_number_field sf then the (number_of sf x) else buf_points st sf))"

lemma process_number:
  assumes "is_number_field sf" "number_of sf x = Some v" "field_chars st (field_position st) = x"
    and "x \<noteq> [] \<longrightarrow> buf st (field_position st) = x ! 0" "bufpos st = field_position st + length x"
    and "\<forall>c cs. x = c # cs \<longrightarrow> field_chars st (field_position st + 1) = cs"
  shows "process_field sf st = Inr (st\<lparr>tmpinteger := v, buf_points := (buf_points st)(sf := v)\<rparr>, False)"
proof -
  have store: "store_number sf st (v, True) = (st\<lparr>tmpinteger := v, buf_points := (buf_points st)(sf := v)\<rparr>, False)"
    by (simp add: store_number_def)
  consider "sf \<in> {DATE, HOUR, MINUTE, UP_SEC, CODE}" | "sf = YEAR" | "sf = BYTES" | "sf = MONTH"
    using assms(1) by (auto simp: is_number_field_def)
  then show ?thesis
  proof cases
    case 1
    then have "digits_loop x 0 = (v, True)"
      using assms(2) by (cases "digits_loop x 0") (auto simp: number_of_def Let_def split: if_splits)
    with 1 store assms(3) show ?thesis by (simp add: process_field_def)
  next
    case 2
    then have "four_digit_year (digits_loop x 0) = (v, True)"
      using assms(2) by (cases "digits_loop x 0") (auto simp: number_of_def Let_def four_digit_year_def split: if_splits)
    with 2 store assms(3) show ?thesis by (simp add: process_field_def)
  next
    case 3
    have "bytes_value st = (v, True)"
    proof (cases x)
      case Nil
      then show ?thesis using assms(2) 3 by (simp add: number_of_def)
    next
      case (Cons c cs)
      have b: "buf st (field_position st) = c" "field_chars st (field_position st + 1) = cs" "bufpos st = field_position st + length cs + 1"
        using assms(4-6) Cons by auto
      have d: "digits_loop (c # cs) 0 = (if char_class c = CLS_DIGIT then digits_loop cs (digit_of c) else (0, False))"
      proof -
        have "code_of c AND 15 = (take_bit 4 (code_of c) :: nat)" by (simp add: take_bit_eq_mask mask_eq_exp_minus_1)
        then have "code_of c AND 15 < (16 :: nat)" using take_bit_nat_less_exp [of 4 "code_of c"] by simp
        then have "digit_of c \<le> 15" "0 \<le> digit_of c" by (simp_all add: digit_of_def)
        then show ?thesis by simp
      qed
      show ?thesis
      proof (cases "char_class c = CLS_QUESTION \<or> char_class c = CLS_HYPHEN")
        case True
        then show ?thesis using assms(2) 3 b by (auto simp: number_of_def Cons bytes_value_def Let_def split: if_splits)
      next
        case False
        then have "char_class c = CLS_DIGIT" "digits_loop cs (digit_of c) = (v, True)"
          using assms(2) 3 d unfolding number_of_def Cons Let_def
          by (auto split: if_splits simp del: digits_loop.simps) (metis prod.collapse)+
        then show ?thesis using b by (simp add: bytes_value_def)
      qed
    qed
    with 3 store show ?thesis by (simp add: process_field_def)
  next
    case 4
    then have "month_value st = (v, True)"
      using assms(2,3) by (cases "digits_loop x 0") (auto simp: number_of_def Let_def month_value_def split: if_splits option.splits)
    with 4 store show ?thesis by (simp add: process_field_def)
  qed
qed

lemma field_chars_put:
  assumes "field_position st = p" "buf st = put b p x" "bufpos st = p + length x"
  shows "field_chars st (field_position st) = x" "x \<noteq> [] \<longrightarrow> buf st (field_position st) = x ! 0"
    "\<forall>c cs. x = c # cs \<longrightarrow> field_chars st (field_position st + 1) = cs"
proof -
  show "field_chars st (field_position st) = x" using put_block [of b p x] by (simp add: field_chars_def assms)
  show "x \<noteq> [] \<longrightarrow> buf st (field_position st) = x ! 0" by (auto simp: assms put_at)
  show "\<forall>c cs. x = c # cs \<longrightarrow> field_chars st (field_position st + 1) = cs"
  proof (intro allI impI)
    fix c cs
    assume x: "x = c # cs"
    then show "field_chars st (field_position st + 1) = cs"
      using put_block [of "b(p := c)" "p + 1" cs] by (simp add: field_chars_def assms)
  qed
qed

lemma end_field:
  assumes st: "\<not> skipping st" "entry (field_endings (c_format cfg)) (state_pos st) = Inr e"
      "entry (save_field_num (c_format cfg)) (state_pos st) = Inr sf"
    and s: "char_class s = e \<or> char_class s = CLS_CRLF"
    and pos: "field_position st + length x = bufpos st" "bufpos st < MAX_LINE_LEN" "buf st = put b (field_position st) x"
    and ok: "is_number_field sf \<Longrightarrow> number_of sf x \<noteq> None"
  shows "\<exists>st'. log_step cfg s st = (if char_class s = CLS_CRLF then end_of_line cfg st' else Inr st') \<and>
    field_done sf x (st\<lparr>bufpos := field_position st, buf := b\<rparr>) st'"
proof -
  note fc = field_chars_put [OF refl pos(3) pos(1) [symmetric]]
  obtain t where t: "process_field sf st = Inr (t, False)" "state_pos t = state_pos st" "\<not> skipping t"
    "bufpos st \<le> bufpos t" "bufpos t \<le> bufpos st + 1" "scans_only st t" "\<forall>j < bufpos st. buf t j = buf st j"
    "\<forall>sf'. sf' \<noteq> sf \<longrightarrow> buf_points t sf' = buf_points st sf'"
    "if is_text_field sf then bufpos t = bufpos st + 1 \<and> buf t (bufpos st) = NUL \<and> buf_points t sf = int (field_position st)
     else buf_points t sf = (if is_number_field sf then the (number_of sf x) else buf_points st sf)"
  proof (cases "is_number_field sf")
    case True
    then obtain v where v: "number_of sf x = Some v" using ok by blast
    have "\<not> is_text_field sf" using True by (auto simp: is_number_field_def is_text_field_def)
    with True v process_number [OF True v fc(1,2) pos(1) [symmetric] fc(3)] st(1) show ?thesis
      by (intro that [of "st\<lparr>tmpinteger := v, buf_points := (buf_points st)(sf := v)\<rparr>"]) (auto simp: scans_only_def)
  next
    case nn: False
    show ?thesis
    proof (cases "is_text_field sf")
      case True
      let ?t = "st\<lparr>buf := (buf st)(bufpos st := NUL), bufpos := bufpos st + 1,
        buf_points := (buf_points st)(sf := int (field_position st))\<rparr>"
      have "process_field sf st = Inr (?t, False)"
        using True nn pos(2) by (auto simp: process_field_def is_number_field_def is_text_field_def bufset_room)
      with True st(1) show ?thesis by (intro that [of ?t]) (auto simp: scans_only_def)
    next
      case False
      then have "process_field sf st = Inr (st, False)"
        using nn by (auto simp: process_field_def is_number_field_def)
      with False nn st(1) show ?thesis by (intro that [of st]) (auto simp: scans_only_def)
    qed
  qed
  let ?u = "t\<lparr>state_pos := state_pos t + 1, field_position := bufpos t\<rparr>"
  have "log_step cfg s st = (if char_class s = CLS_CRLF then end_of_line cfg ?u else Inr ?u)"
    using st s t(1) by (auto simp: log_step_def Let_def)
  moreover have "field_done sf x (st\<lparr>bufpos := field_position st, buf := b\<rparr>) ?u"
  proof -
    have "\<forall>j < field_position st. buf t j = b j" using t(7) pos by (auto simp: put_at)
    moreover have "text_holds ?u sf x" if "is_text_field sf"
    proof -
      have h: "bufpos t = bufpos st + 1" "buf t (bufpos st) = NUL" "buf_points t sf = int (field_position st)"
        using t(9) that by simp_all
      moreover have "\<forall>j < length x. buf t (field_position st + j) = x ! j" using t(7) pos by (auto simp: put_at)
      ultimately show ?thesis using pos(1) by (auto simp: text_holds_def intro!: exI [of _ "field_position st"])
    qed
    ultimately show ?thesis using t pos(1) by (auto simp: field_done_def scans_only_def split: if_splits)
  qed
  ultimately show ?thesis by blast
qed

lemma one_field:
  assumes st: "\<not> skipping st" "entry (field_endings (c_format cfg)) (state_pos st) = Inr e"
      "entry (save_field_num (c_format cfg)) (state_pos st) = Inr sf"
    and s: "char_class s = e \<or> char_class s = CLS_CRLF"
    and x: "\<forall>c \<in> set x. char_class c \<noteq> e \<and> char_class c \<noteq> CLS_CRLF"
    and pos: "field_position st = bufpos st" "bufpos st + length x < MAX_LINE_LEN"
    and ok: "is_number_field sf \<Longrightarrow> number_of sf x \<noteq> None"
  shows "\<exists>st'. log_run cfg (x @ [s]) st = (if char_class s = CLS_CRLF then end_of_line cfg st' else Inr st') \<and> field_done sf x st st'"
proof -
  let ?t = "st\<lparr>buf := put (buf st) (bufpos st) x, bufpos := bufpos st + length x\<rparr>"
  have "log_run cfg x st = Inr ?t" using st x pos by (intro collect) auto
  then have "log_run cfg (x @ [s]) st = log_step cfg s ?t"
    by (simp add: log_run_append log_run_Cons bind_res_def split: sum.split)
  moreover have "\<exists>st'. log_step cfg s ?t = (if char_class s = CLS_CRLF then end_of_line cfg st' else Inr st') \<and>
      field_done sf x (?t\<lparr>bufpos := field_position ?t, buf := buf st\<rparr>) st'"
    using st s pos ok by (intro end_field [where b = "buf st"]) auto
  moreover have "?t\<lparr>bufpos := field_position ?t, buf := buf st\<rparr> = st" using pos(1) by simp
  ultimately show ?thesis by metis
qed

text \<open>A row of the line: what the format says of the field, the text and the separator found.\<close>

type_synonym row = "save_field \<times> char_cls \<times> string \<times> char"

definition row_text :: "row list \<Rightarrow> string" where
  "row_text rows = concat (map (\<lambda>(sf, e, x, s). x @ [s]) rows)"

definition wf_row :: "row \<Rightarrow> bool" where
  "wf_row r \<longleftrightarrow> (case r of (sf, e, x, s) \<Rightarrow>
     (\<forall>c \<in> set x. char_class c \<noteq> e \<and> char_class c \<noteq> CLS_CRLF) \<and> (is_number_field sf \<longrightarrow> number_of sf x \<noteq> None))"

definition row_holds :: "log_st \<Rightarrow> row \<Rightarrow> bool" where
  "row_holds st r \<longleftrightarrow> (case r of (sf, e, x, s) \<Rightarrow>
     (is_text_field sf \<longrightarrow> text_holds st sf x) \<and> (is_number_field sf \<longrightarrow> buf_points st sf = the (number_of sf x)))"

definition format_rows :: "config \<Rightarrow> nat \<Rightarrow> row list \<Rightarrow> bool" where
  "format_rows cfg k rows \<longleftrightarrow>
     (\<forall>i < length rows. entry (save_field_num (c_format cfg)) (k + i) = Inr (fst (rows ! i)) \<and>
        entry (field_endings (c_format cfg)) (k + i) = Inr (fst (snd (rows ! i))))"

text \<open>Fields with a number or a text occur once.\<close>

definition real_fields :: "row list \<Rightarrow> save_field list" where
  "real_fields rows = filter (\<lambda>sf. is_text_field sf \<or> is_number_field sf) (map fst rows)"

lemma format_rows_Cons:
  "format_rows cfg k (r # rows) \<longleftrightarrow>
     entry (save_field_num (c_format cfg)) k = Inr (fst r) \<and> entry (field_endings (c_format cfg)) k = Inr (fst (snd r)) \<and>
     format_rows cfg (k + 1) rows"
  by (auto simp: format_rows_def nth_Cons' less_Suc_eq_0_disj)

lemma row_holds_kept:
  assumes "row_holds st r" "fst r \<noteq> sf" "field_done sf x st st'"
  shows "row_holds st' r"
  using assms by (cases r) (fastforce simp: row_holds_def text_holds_def field_done_def)

lemma row_holds_trivial: "\<not> is_text_field (fst r) \<Longrightarrow> \<not> is_number_field (fst r) \<Longrightarrow> row_holds st r"
  by (cases r) (simp add: row_holds_def)

lemma real_fields_Cons:
  "real_fields (r # rows) = (if is_text_field (fst r) \<or> is_number_field (fst r) then fst r # real_fields rows else real_fields rows)"
  by (simp add: real_fields_def)

lemma field_done_holds: "field_done sf x st st' \<Longrightarrow> row_holds st' (sf, e, x, s)"
  by (auto simp: field_done_def row_holds_def is_text_field_def is_number_field_def split: if_splits)

lemma rows_run:
  assumes "\<not> skipping st" "field_position st = bufpos st" "state_pos st = k" "format_rows cfg k rows"
    and "\<forall>r \<in> set rows. wf_row r \<and> char_class (snd (snd (snd r))) = fst (snd r) \<and> fst (snd r) \<noteq> CLS_CRLF"
    and "distinct (real_fields rows)" "bufpos st + length (row_text rows) \<le> MAX_LINE_LEN"
  shows "\<exists>st'. log_run cfg (row_text rows) st = Inr st' \<and> \<not> skipping st' \<and> field_position st' = bufpos st' \<and>
    state_pos st' = k + length rows \<and> bufpos st' \<le> bufpos st + length (row_text rows) \<and> scans_only st st' \<and>
    (\<forall>r \<in> set rows. row_holds st' r) \<and> (\<forall>sf. sf \<notin> set (real_fields rows) \<longrightarrow> buf_points st' sf = buf_points st sf) \<and>
    (\<forall>r. row_holds st r \<longrightarrow> fst r \<notin> set (real_fields rows) \<longrightarrow> row_holds st' r)"
  using assms
proof (induction rows arbitrary: st k)
  case Nil
  then show ?case by (simp add: row_text_def scans_only_def)
next
  case (Cons r rows)
  obtain sf e x s where r: "r = (sf, e, x, s)" by (cases r)
  have eq: "row_text (r # rows) = (x @ [s]) @ row_text rows" by (simp add: row_text_def r)
  have wf: "char_class s = e" "e \<noteq> CLS_CRLF" "\<forall>c \<in> set x. char_class c \<noteq> e \<and> char_class c \<noteq> CLS_CRLF"
    "is_number_field sf \<Longrightarrow> number_of sf x \<noteq> None"
    using Cons.prems(5) by (auto simp: r wf_row_def)
  have fmt: "entry (save_field_num (c_format cfg)) (state_pos st) = Inr sf" "entry (field_endings (c_format cfg)) (state_pos st) = Inr e"
    "format_rows cfg (k + 1) rows"
    using Cons.prems(3,4) by (simp_all add: format_rows_Cons r)
  have room: "bufpos st + length x < MAX_LINE_LEN" using Cons.prems(7) by (simp add: eq)
  have "\<exists>t. log_run cfg (x @ [s]) st = (if char_class s = CLS_CRLF then end_of_line cfg t else Inr t) \<and> field_done sf x st t"
    using Cons.prems(1,2) fmt wf room by (intro one_field) auto
  then obtain t where t: "log_run cfg (x @ [s]) st = Inr t" "field_done sf x st t" using wf(1,2) by auto
  have t': "\<not> skipping t" "field_position t = bufpos t" "state_pos t = k + 1" "bufpos t \<le> bufpos st + length x + 1" "scans_only st t"
    using t(2) Cons.prems(3) by (auto simp: field_done_def)
  have "bufpos t + length (row_text rows) \<le> MAX_LINE_LEN" using t'(4) Cons.prems(7) by (simp add: eq)
  from Cons.IH [OF t'(1-3) fmt(3) _ _ this] Cons.prems(5,6) obtain u where
    u: "log_run cfg (row_text rows) t = Inr u" "\<not> skipping u" "field_position u = bufpos u" "state_pos u = k + 1 + length rows"
    "bufpos u \<le> bufpos t + length (row_text rows)" "scans_only t u" "\<forall>r \<in> set rows. row_holds u r"
    "\<forall>sf. sf \<notin> set (real_fields rows) \<longrightarrow> buf_points u sf = buf_points t sf"
    "\<forall>r. row_holds t r \<longrightarrow> fst r \<notin> set (real_fields rows) \<longrightarrow> row_holds u r"
    by (auto simp: real_fields_Cons split: if_splits)
  have fresh: "sf \<notin> set (real_fields rows)" if "is_text_field sf \<or> is_number_field sf"
    using Cons.prems(6) that by (auto simp: real_fields_Cons r)
  have "row_holds u r"
  proof (cases "is_text_field sf \<or> is_number_field sf")
    case True
    then show ?thesis using u(9) field_done_holds [OF t(2)] fresh by (auto simp: r)
  next
    case False
    then show ?thesis by (intro row_holds_trivial) (auto simp: r)
  qed
  moreover have "buf_points u sf' = buf_points st sf'" if "sf' \<notin> set (real_fields (r # rows))" for sf'
  proof -
    have "buf_points t sf' = buf_points st sf'"
      using t(2) that by (cases "sf' = sf") (auto simp: field_done_def real_fields_Cons r split: if_splits)
    then show ?thesis using u(8) that by (auto simp: real_fields_Cons split: if_splits)
  qed
  moreover have "row_holds u r'" if "row_holds st r'" "fst r' \<notin> set (real_fields (r # rows))" for r'
  proof (cases "is_text_field (fst r') \<or> is_number_field (fst r')")
    case True
    then have "fst r' \<noteq> sf" using that(2) by (auto simp: real_fields_Cons r)
    from row_holds_kept [OF that(1) this t(2)] u(9) that(2) show ?thesis
      by (cases r') (auto simp: real_fields_Cons split: if_splits)
  next
    case False
    then show ?thesis by (intro row_holds_trivial) auto
  qed
  moreover have "scans_only st u" using t'(5) u(6) by (simp add: scans_only_def)
  ultimately show ?case
    unfolding eq log_run_append [of cfg "x @ [s]"] t(1) bind_res_simps using u t'(4) by auto
qed

lemma string_at_cstr:
  "\<forall>j < length x. b (p + j) = x ! j \<Longrightarrow> b (p + length x) = NUL \<Longrightarrow> length x < n \<Longrightarrow> string_at b n p = cstr x"
proof (induction x arbitrary: n p)
  case Nil
  then show ?case by (cases n) auto
next
  case (Cons c x)
  obtain m where n: "n = Suc m" using Cons.prems(3) by (cases n) auto
  have "b p = c" using Cons.prems(1) by force
  moreover have "string_at b m (p + 1) = cstr x"
    using Cons.prems by (intro Cons.IH) (auto simp: n)
  ultimately show ?case by (simp add: n)
qed

lemma text_holds_string: "text_holds st sf x \<Longrightarrow> bufpos st \<le> MAX_LINE_LEN + 2 \<Longrightarrow> buf_string st sf = cstr x"
  by (auto simp: text_holds_def buf_string_def Let_def intro!: string_at_cstr)

text \<open>A field of the line has its value: the text as a C string, or the number.\<close>

definition row_parsed :: "log_st \<Rightarrow> row \<Rightarrow> bool" where
  "row_parsed st r \<longleftrightarrow> (case r of (sf, e, x, s) \<Rightarrow>
     (is_text_field sf \<longrightarrow> buf_string st sf = cstr x) \<and> (is_number_field sf \<longrightarrow> Some (buf_points st sf) = number_of sf x))"

text \<open>The state at the beginning of a line.\<close>

definition line_start :: "log_st \<Rightarrow> bool" where
  "line_start st \<longleftrightarrow> \<not> skipping st \<and> state_pos st = 0 \<and> field_position st = 1 \<and> bufpos st = 1"

lemma line_start_simps [simp]: "line_start (reset_line st)" "line_start (log_init junk)"
  by (simp_all add: line_start_def reset_line_def log_init_def)

lemma scan_line:
  assumes "line_start st" "format_rows cfg 0 (rows @ [(sf, e, x, s)])" "char_class s = CLS_CRLF"
    and "\<forall>r \<in> set rows. wf_row r \<and> char_class (snd (snd (snd r))) = fst (snd r) \<and> fst (snd r) \<noteq> CLS_CRLF"
    and "wf_row (sf, e, x, s)" "distinct (real_fields (rows @ [(sf, e, x, s)]))"
    and "length (row_text (rows @ [(sf, e, x, s)])) < MAX_LINE_LEN"
  shows "\<exists>st'. log_run cfg (row_text (rows @ [(sf, e, x, s)])) st = end_of_line cfg st' \<and>
    state_pos st' = length rows + 1 \<and> scans_only st st' \<and> (\<forall>r \<in> set (rows @ [(sf, e, x, s)]). row_parsed st' r) \<and>
    (\<forall>f. f \<notin> set (real_fields (rows @ [(sf, e, x, s)])) \<longrightarrow> buf_points st' f = buf_points st f)"
proof -
  have rf: "real_fields (rows @ [(sf, e, x, s)]) =
      real_fields rows @ (if is_text_field sf \<or> is_number_field sf then [sf] else [])" by (simp add: real_fields_def)
  have eq: "row_text (rows @ [(sf, e, x, s)]) = row_text rows @ (x @ [s])" by (simp add: row_text_def)
  have st: "\<not> skipping st" "field_position st = bufpos st" "state_pos st = 0" "bufpos st = 1"
    using assms(1) by (simp_all add: line_start_def)
  have fmt: "format_rows cfg 0 rows" using assms(2) by (auto simp: format_rows_def nth_append)
  have last: "entry (save_field_num (c_format cfg)) (length rows) = Inr sf" "entry (field_endings (c_format cfg)) (length rows) = Inr e"
    using assms(2) by (auto simp: format_rows_def dest!: spec [of _ "length rows"])
  have "bufpos st + length (row_text rows) \<le> MAX_LINE_LEN" using assms(7) st(4) by (simp add: eq)
  from rows_run [OF st(1-3) fmt assms(4) _ this] assms(6) obtain t where
    t: "log_run cfg (row_text rows) st = Inr t" "\<not> skipping t" "field_position t = bufpos t" "state_pos t = length rows"
    "bufpos t \<le> bufpos st + length (row_text rows)" "scans_only st t" "\<forall>r \<in> set rows. row_holds t r"
    "\<forall>sf. sf \<notin> set (real_fields rows) \<longrightarrow> buf_points t sf = buf_points st sf"
    by (auto simp: rf)
  have room: "bufpos t + length x < MAX_LINE_LEN" using t(5) st(4) assms(7) by (simp add: eq)
  have "\<exists>u. log_run cfg (x @ [s]) t = (if char_class s = CLS_CRLF then end_of_line cfg u else Inr u) \<and> field_done sf x t u"
    using t(2-4) last assms(3,5) room by (intro one_field) (auto simp: wf_row_def)
  then obtain u where u: "log_run cfg (x @ [s]) t = end_of_line cfg u" "field_done sf x t u" using assms(3) by auto
  have small: "bufpos u \<le> MAX_LINE_LEN" using u(2) room by (auto simp: field_done_def)
  have "row_holds u r" if "r \<in> set rows" for r
  proof (cases "is_text_field (fst r) \<or> is_number_field (fst r)")
    case True
    then have "fst r \<noteq> sf" using assms(6) that by (auto simp: rf real_fields_def)
    from row_holds_kept [OF _ this u(2)] t(7) that show ?thesis by blast
  next
    case False
    then show ?thesis by (intro row_holds_trivial) auto
  qed
  then have "\<forall>r \<in> set (rows @ [(sf, e, x, s)]). row_holds u r" using field_done_holds [OF u(2)] by auto
  moreover have "row_parsed u r" if "row_holds u r" "wf_row r" for r
    using that small text_holds_string [of u] by (cases r) (auto simp: row_holds_def row_parsed_def wf_row_def)
  ultimately have "\<forall>r \<in> set (rows @ [(sf, e, x, s)]). row_parsed u r" using assms(4,5) by auto
  moreover have "scans_only st u" "state_pos u = length rows + 1" using t(4,6) u(2) by (auto simp: field_done_def scans_only_def)
  moreover have "buf_points u f = buf_points st f" if "f \<notin> set (real_fields (rows @ [(sf, e, x, s)]))" for f
    using that t(8) u(2) by (cases "f = sf") (auto simp: rf field_done_def split: if_splits)
  moreover have "log_run cfg (row_text (rows @ [(sf, e, x, s)])) st = end_of_line cfg u"
    unfolding eq log_run_append [of cfg "row_text rows"] t(1) bind_res_simps u(1) ..
  ultimately show ?thesis by blast
qed

section \<open>Errors\<close>

text \<open>The parser raises no Pike error while it reads: what fails, fails by leaving an object.\<close>

definition only_oob :: "'a res \<Rightarrow> bool" where
  "only_oob r \<longleftrightarrow> (\<forall>e. r = Inl e \<longrightarrow> e = Out_of_bounds)"

lemma only_oob_simps [simp]: "only_oob (Inr a)" "only_oob (Inl e) \<longleftrightarrow> e = Out_of_bounds"
  by (simp_all add: only_oob_def)

lemma only_oob_bind: "only_oob r \<Longrightarrow> (\<And>a. r = Inr a \<Longrightarrow> only_oob (f a)) \<Longrightarrow> only_oob (bind_res r f)"
  by (cases r) auto

lemma only_oob_fold: "(\<And>x s. only_oob (f x s)) \<Longrightarrow> only_oob (fold_res f xs s)"
  by (induction xs arbitrary: s) (auto intro: only_oob_bind)

lemma only_oob_leaves:
  "only_oob (arr_add a i w)" "only_oob (list_add l i v)" "only_oob (decoded_url u)" "only_oob (shared_from t n)"
  by (simp_all add: arr_add_def list_add_def decoded_url_def shared_from_def Let_def)

lemma only_oob_tables:
  "only_oob (hourly_page_hits urls pages hits exts)" "only_oob (http_decode_mapping src dest)"
  "only_oob (summarize_refsites refsites referrers new)" "only_oob (clean_refto refto refdest exts)"
  "only_oob (summarize_sessions hour s)" "only_oob (process_session host t hour s si)"
proof -
  show "only_oob (hourly_page_hits urls pages hits exts)" unfolding hourly_page_hits_def
    by (rule only_oob_fold) (auto simp: hourly_step_def intro!: only_oob_bind only_oob_leaves split: prod.splits)
  show "only_oob (http_decode_mapping src dest)" unfolding http_decode_mapping_def
    by (rule only_oob_fold) (auto split: prod.splits)
  show "only_oob (summarize_refsites refsites referrers new)" unfolding summarize_refsites_def
    by (rule only_oob_fold)
      (auto simp: refsites_step_def intro!: only_oob_bind only_oob_leaves split: prod.splits option.splits)
  show "only_oob (clean_refto refto refdest exts)" unfolding clean_refto_def
    by (rule only_oob_fold)
      (auto simp: refto_outer_def refto_inner_def Let_def intro!: only_oob_bind only_oob_leaves only_oob_fold
        split: prod.splits option.splits)
  show "only_oob (summarize_sessions hour s)" unfolding summarize_sessions_def
    by (rule only_oob_fold) (auto simp: summarize_step_def intro!: only_oob_bind only_oob_leaves split: prod.splits option.splits)
  show "only_oob (process_session host t hour s si)"
    by (auto simp: process_session_def Let_def intro!: only_oob_bind only_oob_leaves split: option.splits)
qed

lemma only_oob_summarize_day: "only_oob (summarize_day cfg d)"
  by (auto simp: summarize_day_def Let_def intro!: only_oob_bind only_oob_tables split: prod.splits)

lemma only_oob_close_hour: "only_oob (close_hour cfg st)"
  by (auto simp: close_hour_def intro!: only_oob_bind only_oob_tables only_oob_leaves split: prod.splits)

lemma only_oob_roll: "only_oob (roll cfg date st)"
  by (auto simp: roll_def next_hour_def next_day_def report_day_def Let_def
      intro!: only_oob_bind only_oob_close_hour only_oob_summarize_day)

definition day_kept :: "log_st \<Rightarrow> log_st \<Rightarrow> bool" where
  "day_kept st st' \<longleftrightarrow>
     buf_points st' = buf_points st \<and> (length (kb_per_hour (day st)) = 24 \<longrightarrow> length (kb_per_hour (day st')) = 24)"

lemma close_hour_kept: "close_hour cfg st = Inr st' \<Longrightarrow> day_kept st st'"
  by (auto simp: close_hour_def day_kept_def bind_res_Inr)

lemma next_hour_kept: "next_hour cfg h st = Inr st' \<Longrightarrow> day_kept st st'"
  by (auto simp: next_hour_def bind_res_Inr day_kept_def Let_def dest!: close_hour_kept)

lemma next_day_kept: "next_day cfg date st = Inr st' \<Longrightarrow> day_kept st st'"
  by (auto simp: next_day_def report_day_def bind_res_Inr day_kept_def day_init_def Let_def)

lemma roll_keeps:
  assumes "roll cfg date st = Inr st'"
  shows "day_kept st st'"
proof (cases "last_date st = 0")
  case True
  then show ?thesis using assms by (auto simp: roll_def day_kept_def)
next
  case False
  then obtain t where "t = st \<or> next_hour cfg (buf_points st HOUR) st = Inr t" "st' = t \<or> next_day cfg date t = Inr st'"
    using assms by (auto simp: roll_def bind_res_Inr Let_def split: if_splits)
  then have "day_kept st t" "day_kept t st'" using next_hour_kept next_day_kept by (auto simp: day_kept_def)
  then show ?thesis by (simp add: day_kept_def)
qed

section \<open>The properties\<close>

text \<open>
  C10. A line of the log is read correctly: from the start of a line, any fields that agree with the
  compiled format (the last one may come early) leave each text field in the buffer as a C string, each
  numeric field as its number, every other field as it was, change nothing of the statistics, and
  hand the line over to \<open>end_of_line\<close>, however many bytes the line has below the limit.
\<close>

theorem log_line_scanned:
  assumes "line_start st" "format_rows cfg 0 (rows @ [(sf, e, x, s)])" "char_class s = CLS_CRLF"
    and "\<forall>r \<in> set rows. wf_row r \<and> char_class (snd (snd (snd r))) = fst (snd r) \<and> fst (snd r) \<noteq> CLS_CRLF"
    and "wf_row (sf, e, x, s)" "distinct (real_fields (rows @ [(sf, e, x, s)]))"
    and "length (row_text (rows @ [(sf, e, x, s)])) < MAX_LINE_LEN"
  shows "\<exists>st'. log_run cfg (row_text (rows @ [(sf, e, x, s)])) st = end_of_line cfg st' \<and>
    state_pos st' = length rows + 1 \<and> scans_only st st' \<and> (\<forall>r \<in> set (rows @ [(sf, e, x, s)]). row_parsed st' r) \<and>
    (\<forall>f. f \<notin> set (real_fields (rows @ [(sf, e, x, s)])) \<longrightarrow> buf_points st' f = buf_points st f)"
  using assms by (rule scan_line)

definition example_config :: config where
  "example_config =
     \<lparr>c_format = (case parse_log_format ''%H %Y-%M-%D %h %c'' of Inr (n, fmt) \<Rightarrow> fmt | _ \<Rightarrow> fmt_init 0),
      c_states = 1, c_exts = [''html''], c_notref = None\<rparr>"

definition example_rows :: "row list" where
  "example_rows =
     [(ADDR, CLS_WSPACE, ''host'', SP), (YEAR, CLS_HYPHEN, ''99'', CHR ''-''), (MONTH, CLS_HYPHEN, ''Feb'', CHR ''-''),
      (DATE, CLS_WSPACE, ''07'', SP), (HOUR, CLS_WSPACE, ''13'', SP)]"

lemma all_less_six: "(\<forall>i < 6. P i) \<longleftrightarrow> P 0 \<and> P 1 \<and> P 2 \<and> P 3 \<and> P 4 \<and> P (5 :: nat)"
  by (simp add: numeral_eq_Suc All_less_Suc conj_ac)

lemma example_format: "format_rows example_config 0 (example_rows @ [(CODE, CLS_CRLF, ''200'', LF)])"
proof -
  have "length (example_rows @ [(CODE, CLS_CRLF, ''200'', LF)]) = 6" by (simp add: example_rows_def)
  then show ?thesis unfolding format_rows_def all_less_six by simp code_simp
qed

theorem log_line_scanned_witness:
  "row_text (example_rows @ [(CODE, CLS_CRLF, ''200'', LF)]) = ''host 99-Feb-07 13 200'' @ [LF] \<and>
   (\<exists>st'. log_run example_config (''host 99-Feb-07 13 200'' @ [LF]) (log_init (\<lambda>_. NUL)) = end_of_line example_config st' \<and>
     buf_string st' ADDR = ''host'' \<and> buf_points st' YEAR = 1999 \<and> buf_points st' MONTH = 2 \<and> buf_points st' CODE = 200)"
proof -
  let ?r = "example_rows @ [(CODE, CLS_CRLF, ''200'', LF)]"
  have eq: "row_text ?r = ''host 99-Feb-07 13 200'' @ [LF]" by (simp add: row_text_def example_rows_def)
  have nums: "number_of YEAR ''99'' = Some 1999" "number_of MONTH ''Feb'' = Some 2" "number_of DATE ''07'' = Some 7"
    "number_of HOUR ''13'' = Some 13" "number_of CODE ''200'' = Some 200" by code_simp+
  have wf: "\<forall>r \<in> set example_rows. wf_row r \<and> char_class (snd (snd (snd r))) = fst (snd r) \<and> fst (snd r) \<noteq> CLS_CRLF"
    "wf_row (CODE, CLS_CRLF, ''200'', LF)"
    using nums by (simp_all add: example_rows_def wf_row_def is_number_field_def char_class_def)
  have "distinct (real_fields ?r)" by (simp add: real_fields_def example_rows_def is_text_field_def is_number_field_def)
  from log_line_scanned [OF _ example_format _ wf this, of "log_init (\<lambda>_. NUL)"] obtain st' where
    st': "log_run example_config (row_text ?r) (log_init (\<lambda>_. NUL)) = end_of_line example_config st'" "\<forall>r \<in> set ?r. row_parsed st' r"
    by (auto simp: eq MAX_LINE_LEN_def)
  have "buf_string st' ADDR = ''host'' \<and> buf_points st' YEAR = 1999 \<and> buf_points st' MONTH = 2 \<and> buf_points st' CODE = 200"
    using st'(2) nums by (simp add: example_rows_def row_parsed_def is_text_field_def is_number_field_def)
  with st'(1) eq show ?thesis by metis
qed

text \<open>
  C1. The statistics are consistent: however the log is cut into blocks and whatever it holds, if the run
  does not leave its arrays then in each reported day the pages and hits are exactly the lines with
  a code of success, the redirections and errors those with theirs, the hours sum up to all lines,
  and the days together have all the lines counted (but for a last day that is not reported).
\<close>

theorem ultraparse_consistent:
  assumes "f_ultraparse log_format exts notref offs0 junk reads = Inr (st, offs)"
  shows "(\<forall>r \<in> set (reports st). consistent (r_day r) 0) \<and>
    of_nat (lines st) = (\<Sum>r \<leftarrow> reports st. total (d_hits_per_error (r_day r))) +
      (if buf_points st YEAR \<noteq> 0 \<and> buf_points st MONTH \<noteq> 0 \<and> buf_points st DATE \<noteq> 0 then 0
       else total (d_hits_per_error (day st)))"
proof -
  obtain cfg t0 where t0: "log_run cfg (concat (takeWhile (\<lambda>b. b \<noteq> []) reads)) (log_init junk) = Inr t0"
    "finish cfg (call_statfun offs t0) = Inr st"
    using assms by (auto simp: f_ultraparse_def bind_res_Inr log_run_blocks Let_def split: if_splits prod.splits)
  define t where "t = call_statfun offs t0"
  have "stats_inv t0" using log_run_stats [OF t0(1) log_init_stats] .
  then have inv: "stats_inv t" by (simp add: t_def call_statfun_def stats_inv_def reported_def)
  have t: "finish cfg t = Inr st" using t0(2) by (simp add: t_def)
  show ?thesis
  proof (cases "buf_points t YEAR \<noteq> 0 \<and> buf_points t MONTH \<noteq> 0 \<and> buf_points t DATE \<noteq> 0")
    case True
    then obtain u date where u: "close_hour cfg t = Inr u" "report_day cfg date u = Inr st"
      using t by (auto simp: finish_def bind_res_Inr)
    have "consistent (day t) (total (hits20x t))" using inv by (simp add: stats_inv_def)
    note c = close_hour_stats [OF u(1) this]
    have r: "\<forall>r \<in> set (reports u). consistent (r_day r) 0" using inv c by (simp add: stats_inv_def)
    have "buf_points st = buf_points t" using u(2) c(5) by (auto simp: report_day_def bind_res_Inr)
    then show ?thesis using report_day_stats [OF u(2) c(1) r] c inv True by (simp add: stats_inv_def reported_def)
  next
    case False
    then show ?thesis using t inv by (auto simp: finish_def stats_inv_def reported_def)
  qed
qed

theorem ultraparse_consistent_witness:
  "\<exists>st offs. f_ultraparse ''%H %Y-%M-%D %h %c'' [''html''] None 0 (\<lambda>_. NUL) [''host 99-Feb-07 13 200'' @ [LF]] = Inr (st, offs) \<and>
     length (reports st) = 1 \<and> lines st = 1 \<and> (\<forall>r \<in> set (reports st). consistent (r_day r) 0)"
proof -
  let ?r = "f_ultraparse ''%H %Y-%M-%D %h %c'' [''html''] None 0 (\<lambda>_. NUL) [''host 99-Feb-07 13 200'' @ [LF]]"
  have "case ?r of Inl _ \<Rightarrow> False | Inr (st, offs) \<Rightarrow> length (reports st) = 1 \<and> lines st = 1" by code_simp
  then obtain st offs where st: "?r = Inr (st, offs)" "length (reports st) = 1" "lines st = 1"
    by (auto split: sum.splits)
  from ultraparse_consistent [OF st(1)] st show ?thesis by blast
qed

text \<open>
  A broken last field costs the next line as well: when the number that ends a line is not a number,
  the search for the next line break begins behind the one just read, so the following line is
  thrown away uncounted.
\<close>

lemma broken_last_field_swallows:
  assumes "\<not> skipping st" "entry (save_field_num (c_format cfg)) (state_pos st) = Inr sf"
    and "entry (field_endings (c_format cfg)) (state_pos st) = Inr e"
    and "sf \<in> {DATE, HOUR, MINUTE, UP_SEC, CODE}" "\<exists>c \<in> set (field_chars st (field_position st)). char_class c \<noteq> CLS_DIGIT"
    and "\<forall>c \<in> set next_line. char_class c \<noteq> CLS_CRLF"
  shows "\<exists>st'. log_run cfg (LF # next_line @ [LF]) st = Inr st' \<and> line_start st' \<and> lines st' = lines st \<and>
    broken_lines st' = broken_lines st + 1 \<and> day st' = day st \<and> hits20x st' = hits20x st"
proof -
  have bad: "\<exists>c \<in> set xs. char_class c \<noteq> CLS_DIGIT \<Longrightarrow> \<not> snd (digits_loop xs v)" for xs v
    by (induction xs v rule: digits_loop.induct) auto
  let ?r = "digits_loop (field_chars st (field_position st)) 0"
  have "process_field sf st = Inr (st\<lparr>tmpinteger := fst ?r\<rparr>, True)"
    using assms(4) bad [OF assms(5)] by (auto simp: process_field_def store_number_def)
  then have step: "log_step cfg LF st = Inr (start_skip (st\<lparr>tmpinteger := fst ?r\<rparr>))"
    using assms(1-3) by (simp add: log_step_def)
  have "log_run cfg (next_line @ [LF]) (start_skip (st\<lparr>tmpinteger := fst ?r\<rparr>)) =
      Inr (reset_line (start_skip (st\<lparr>tmpinteger := fst ?r\<rparr>)))"
    using assms(6) by (intro skip_line) (auto simp: start_skip_def)
  with step show ?thesis by (simp add: log_run_Cons) (simp add: reset_line_def start_skip_def)
qed

lemma broken_last_field_swallows_witness:
  "\<exists>st'. log_run example_config (LF # ''host 99-Feb-08 13 200'' @ [LF])
       (log_init (\<lambda>_. CHR ''x'')\<lparr>state_pos := 5, bufpos := 4\<rparr>) = Inr st' \<and> lines st' = 0 \<and> broken_lines st' = 1"
proof -
  let ?st = "log_init (\<lambda>_. CHR ''x'')\<lparr>state_pos := 5, bufpos := 4\<rparr>"
  have "\<not> skipping ?st" "entry (save_field_num (c_format example_config)) (state_pos ?st) = Inr CODE"
    "entry (field_endings (c_format example_config)) (state_pos ?st) = Inr CLS_CRLF"
    "\<exists>c \<in> set (field_chars ?st (field_position ?st)). char_class c \<noteq> CLS_DIGIT"
    "\<forall>c \<in> set ''host 99-Feb-08 13 200''. char_class c \<noteq> CLS_CRLF"
    by code_simp+
  from broken_last_field_swallows [OF this(1-3) _ this(4,5)] show ?thesis by (auto simp: log_init_def)
qed

text \<open>
  An empty line is counted, so lines that end with CR LF are counted twice (CR ends the line already):
  at a line break where a line should start, the empty first field of the format, if it is a text
  field, is enough for the line to be counted under the date of the line before it.
\<close>

lemma empty_line_counted:
  assumes "line_start st" "entry (save_field_num (c_format cfg)) 0 = Inr sf" "entry (field_endings (c_format cfg)) 0 = Inr e"
    and "is_text_field sf" "c_states cfg = 1" "log_step cfg LF st = Inr st'"
    and "wrap32 (buf_points st YEAR * 10000 + buf_points st MONTH * 100 + buf_points st DATE) \<noteq> 0" "stats_inv st"
  shows "lines st' = lines st + 1 \<and> broken_lines st' = broken_lines st"
proof -
  let ?t = "st\<lparr>buf := (buf st)(1 := NUL), bufpos := 2, buf_points := (buf_points st)(sf := 1), state_pos := 1, field_position := 2\<rparr>"
  have nn: "sf \<notin> {DATE, HOUR, MINUTE, UP_SEC, CODE}" "sf \<noteq> YEAR" "sf \<noteq> BYTES" "sf \<noteq> MONTH"
    using assms(4) by (auto simp: is_text_field_def)
  have st: "\<not> skipping st" "state_pos st = 0" "field_position st = 1" "bufpos st = 1"
    using assms(1) by (simp_all add: line_start_def)
  have "process_field sf st = Inr (st\<lparr>buf := (buf st)(1 := NUL), bufpos := 2, buf_points := (buf_points st)(sf := 1)\<rparr>, False)"
    using st nn assms(4) by (simp add: process_field_def bufset_room MAX_LINE_LEN_def)
  then have "log_step cfg LF st = end_of_line cfg ?t"
    using st assms(2,3) by (simp add: log_step_def Let_def)
  then have "end_of_line cfg ?t = Inr st'" using assms(6) by simp
  moreover have "buf_points ?t YEAR = buf_points st YEAR" "buf_points ?t MONTH = buf_points st MONTH" "buf_points ?t DATE = buf_points st DATE"
    using nn by auto
  ultimately obtain u v where u: "roll cfg (wrap32 (buf_points st YEAR * 10000 + buf_points st MONTH * 100 + buf_points st DATE)) ?t = Inr u"
    "log_line cfg u = Inr v" "st' = reset_line v"
    using assms(5-7) by (auto simp: end_of_line_def bind_res_Inr Let_def)
  have "stats_inv ?t" using assms(8) by (simp add: stats_inv_def reported_def)
  then have "stats_inv u" using roll_stats [OF u(1)] by blast
  then have "lines v = lines u + 1" using log_line_stats [OF u(2)] by blast
  moreover have "lines u = lines st \<and> broken_lines u = broken_lines st"
    using u(1) by (auto simp: roll_def next_hour_def next_day_def close_hour_def report_day_def bind_res_Inr Let_def split: if_splits)
  moreover have "broken_lines v = broken_lines u"
    using u(2) by (auto simp: log_line_def bind_res_Inr Let_def count_code_def)
  ultimately show ?thesis by (simp add: u(3) reset_line_def)
qed

lemma empty_line_counted_witness:
  "\<exists>st'. log_run example_config (''host 99-Feb-07 13 200'' @ [CR, LF]) (log_init (\<lambda>_. NUL)) = Inr st' \<and>
     lines st' = 2 \<and> broken_lines st' = 0"
proof -
  let ?bytes = "''host 99-Feb-07 13 200'' @ [CR]"
  have "case log_run example_config ?bytes (log_init (\<lambda>_. NUL)) of Inl _ \<Rightarrow> False | Inr st \<Rightarrow>
      buf_points st YEAR = 1999 \<and> buf_points st MONTH = 2 \<and> buf_points st DATE = 7 \<and> lines st = 1 \<and> broken_lines st = 0 \<and>
      line_start st \<and> \<not> isl (log_step example_config LF st)"
    by code_simp
  then obtain st where run: "log_run example_config ?bytes (log_init (\<lambda>_. NUL)) = Inr st"
    and st: "buf_points st YEAR = 1999" "buf_points st MONTH = 2" "buf_points st DATE = 7" "lines st = 1" "broken_lines st = 0"
      "line_start st" "\<not> isl (log_step example_config LF st)"
    by (auto split: sum.splits)
  obtain st' where st': "log_step example_config LF st = Inr st'" using st(7) by (cases "log_step example_config LF st") auto
  have c: "entry (save_field_num (c_format example_config)) 0 = Inr ADDR"
    "entry (field_endings (c_format example_config)) 0 = Inr CLS_WSPACE" "c_states example_config = 1"
    by code_simp+
  have w: "wrap32 (buf_points st YEAR * 10000 + buf_points st MONTH * 100 + buf_points st DATE) \<noteq> 0"
    by (simp add: st wrap32_def)
  have "lines st' = 2 \<and> broken_lines st' = 0"
    using empty_line_counted [OF st(6) c(1,2) _ c(3) st' w log_run_stats [OF run log_init_stats]] st by (simp add: is_text_field_def)
  moreover have "log_run example_config (''host 99-Feb-07 13 200'' @ [CR, LF]) (log_init (\<lambda>_. NUL)) = Inr st'"
    using log_run_append [of example_config "''host 99-Feb-07 13 200'' @ [CR]" "[LF]"] run st' by (simp add: log_run_Cons bind_res_def)
  ultimately show ?thesis by blast
qed

text \<open>
  The hour of a line is not checked: with an hour above 23 (or below 0) the arrays with an entry per
  hour are accessed outside their bounds, whatever the state of the statistics.
\<close>

lemma hour_out_of_range:
  assumes "buf_points st HOUR < 0 \<or> 24 \<le> buf_points st HOUR" "length (kb_per_hour (day st)) = 24"
    and "c_states cfg \<le> state_pos st"
    and "wrap32 (buf_points st YEAR * 10000 + buf_points st MONTH * 100 + buf_points st DATE) \<noteq> 0"
  shows "end_of_line cfg st = Inl Out_of_bounds"
proof -
  let ?date = "wrap32 (buf_points st YEAR * 10000 + buf_points st MONTH * 100 + buf_points st DATE)"
  have "end_of_line cfg st = bind_res (roll cfg ?date st) (\<lambda>st. bind_res (log_line cfg st) (\<lambda>st. Inr (reset_line st)))"
    using assms(3,4) by (simp add: end_of_line_def)
  moreover have "log_line cfg u = Inl Out_of_bounds" if "roll cfg ?date st = Inr u" for u
  proof -
    have h: "list_add (kb_per_hour (day u)) (buf_points u HOUR) v = Inl Out_of_bounds" for v
      using assms(1,2) roll_keeps [OF that] by (auto simp: list_add_def day_kept_def)
    show ?thesis
    proof (cases "process_session (buf_string u ADDR)
        (wrap32 (buf_points u HOUR * 3600 + buf_points u MINUTE * 60 + buf_points u UP_SEC)) (buf_points u HOUR) (sess u) (sites u)")
      case (Inl e)
      then have "e = Out_of_bounds" using only_oob_tables(6) by (metis only_oob_simps(2))
      with Inl show ?thesis by (simp add: log_line_def Let_def)
    next
      case (Inr p)
      then show ?thesis using h count_code_stats(3) by (cases p) (simp add: log_line_def Let_def)
    qed
  qed
  moreover have "e = Out_of_bounds" if "roll cfg ?date st = Inl e" for e
    using only_oob_roll [of cfg ?date st] that by simp
  ultimately show ?thesis by (cases "roll cfg ?date st") auto
qed

lemma hour_out_of_range_witness:
  "end_of_line example_config (log_init (\<lambda>_. NUL)\<lparr>buf_points := (\<lambda>_. 1)(HOUR := 24), state_pos := 1\<rparr>) = Inl Out_of_bounds"
  by (rule hour_out_of_range) code_simp+

end
