(* ===== verification/Nbio.thy ===== *)
theory Nbio
  imports Caudium_Prelude
begin

text \<open>
  Non-blocking sending: the class \<^verbatim>\<open>nbio\<close> of \<^verbatim>\<open>src/cmods/_Caudium/nb_send.c\<close>, which pipes strings and files
  into a connection. It keeps a queue of inputs, one output and a read buffer, and is driven by the
  callbacks of Pike's backend.

  What the operating system and Pike answer is scripted in the state: \<open>writes\<close>, \<open>reads\<close> and \<open>maps\<close> are the
  results of the calls to come; when a script is used up, a write would block, a read is at the end of
  the file and a mapping succeeds. A call of a method of a Pike object is appended to \<open>calls\<close>, the
  bytes the output has taken to \<open>sent\<close>. The offsets and lengths of 64 bits are integers; memory is
  never exhausted; an access outside an object, to a freed one or through a null pointer is
  \<open>Out_of_bounds\<close>.
\<close>

section \<open>State\<close>

definition MAX_MMAP_SIZE :: int where "MAX_MMAP_SIZE = 2097152"

definition READ_BUFFER_SIZE :: int where "READ_BUFFER_SIZE = 65536"

text \<open>
  A Pike object: its identity, its descriptor (\<open>-1\<close> for an object that has none), the identifiers found
  for its methods (\<open>-1\<close> for none), and the offset and contents if it is a regular file.
\<close>

record pobj =
  oid :: nat
  ofd :: int
  nb_id :: int
  b_id :: int
  read_id :: int
  write_id :: int
  regular :: "(nat \<times> string) option"

record mmap_data =
  m_file :: pobj
  m_data :: string
  m_start :: int
  m_end :: int
  m_len :: int

datatype source = NBIO_STR string | NBIO_OBJ pobj | NBIO_BLOCK_OBJ pobj | NBIO_MMAP mmap_data

datatype in_mode = SLEEPING | READING

datatype out_mode = IDLE | ACTIVE

record input =
  i_source :: source
  i_len :: int
  i_pos :: int
  i_nb :: int
  i_b :: int
  i_mode :: in_mode

record out_struct =
  o_obj :: pobj
  o_mode :: out_mode

datatype cbarg = Zero | Output_write_cb | Input_read_cb | Input_close_cb

datatype call = Apply nat int "cbarg list" | Done_cb nat nat

datatype errno = EINTR | EWOULDBLOCK | EOTHER

text \<open>Answers to \<^verbatim>\<open>fd_read\<close> and to the method \<^verbatim>\<open>read\<close>: bytes, an error (or the integer 0), anything else.\<close>

datatype reply = Data string | Failed errno | Other_value

record nbio_stats =
  noutputs :: int
  ninputs :: int
  nstrings :: int
  nobjects :: int
  mmapped :: int
  nbuffers :: int
  sbuffers :: int

record nbio =
  written :: int
  finished_flag :: bool
  nb_buf :: "string option"
  buf_size :: int
  buf_len :: int
  buf_pos :: int
  outp :: "out_struct option"
  inputs :: "input list"
  cb_args :: nat
  cb :: "nat option"
  stats :: nbio_stats
  writes :: "(int \<times> errno) list"
  reads :: "reply list"
  maps :: "bool list"
  junk :: char
  sent :: string
  calls :: "call list"
  failovers :: int

text \<open>
  \<^verbatim>\<open>alloc_nb_struct\<close>; the global counters and the scripts stay. \<^verbatim>\<open>last_input\<close> is always the last of
  \<open>inputs\<close>, since an input is put in front only of another one, and it is left out.
\<close>

definition alloc_nb_struct :: "nbio \<Rightarrow> nbio" where
  "alloc_nb_struct s =
     s\<lparr>inputs := [], outp := None, nb_buf := None, cb := None, cb_args := 0, buf_len := 0, buf_pos := 0, buf_size := 0,
       written := 0, finished_flag := False\<rparr>"

text \<open>What follows a call unless it raised an error.\<close>

definition and_then :: "nbio \<times> 'a res \<Rightarrow> ('a \<Rightarrow> nbio \<Rightarrow> nbio \<times> 'b res) \<Rightarrow> nbio \<times> 'b res" where
  "and_then c k = (case c of (s, r) \<Rightarrow> (case r of Inl e \<Rightarrow> (s, Inl e) | Inr a \<Rightarrow> k a s))"

definition lift_res :: "'a res \<Rightarrow> nbio \<Rightarrow> nbio \<times> 'a res" where
  "lift_res r s = (s, r)"

lemma and_then_simps [simp]: "and_then (s, Inl e) k = (s, Inl e)" "and_then (s, Inr a) k = k a s"
  by (simp_all add: and_then_def)

lemma and_then_Inr: "and_then c k = (s', Inr b) \<longleftrightarrow> (\<exists>s a. c = (s, Inr a) \<and> k a s = (s', Inr b))"
  by (cases c; cases "snd c") auto

lemma lift_res_Inr [simp]: "lift_res r s = (s', Inr a) \<longleftrightarrow> r = Inr a \<and> s' = s"
  by (auto simp: lift_res_def)

definition apply_low :: "pobj \<Rightarrow> int \<Rightarrow> cbarg list \<Rightarrow> nbio \<Rightarrow> nbio" where
  "apply_low ob i args s = s\<lparr>calls := calls s @ [Apply (oid ob) i args]\<rparr>"

text \<open>The pair of calls that takes the callbacks of an object away.\<close>

definition reset_callbacks :: "pobj \<Rightarrow> int \<Rightarrow> int \<Rightarrow> nbio \<Rightarrow> nbio" where
  "reset_callbacks ob nb b s = apply_low ob b [] (apply_low ob nb [Zero, Zero, Zero] s)"

definition set_stats :: "(nbio_stats \<Rightarrow> nbio_stats) \<Rightarrow> nbio \<Rightarrow> nbio" where
  "set_stats f s = s\<lparr>stats := f (stats s)\<rparr>"

section \<open>Inputs\<close>

text \<open>\<^verbatim>\<open>free_input\<close>, which is only called for the first input.\<close>

definition release_source :: "input \<Rightarrow> nbio \<Rightarrow> nbio" where
  "release_source inp s =
     (case i_source inp of
        NBIO_STR _ \<Rightarrow> set_stats (\<lambda>t. t\<lparr>nstrings := nstrings t - 1\<rparr>) s
      | NBIO_MMAP m \<Rightarrow>
          reset_callbacks (m_file m) (i_nb inp) (i_b inp) (set_stats (\<lambda>t. t\<lparr>mmapped := mmapped t - m_len m\<rparr>) s)
      | NBIO_OBJ ob \<Rightarrow>
          set_stats (\<lambda>t. t\<lparr>nobjects := nobjects t - 1\<rparr>) (reset_callbacks ob (i_nb inp) (i_b inp) s)
      | NBIO_BLOCK_OBJ ob \<Rightarrow> set_stats (\<lambda>t. t\<lparr>nobjects := nobjects t - 1\<rparr>) s)"

definition wake_input :: "input \<Rightarrow> pobj \<Rightarrow> input list \<Rightarrow> nbio \<Rightarrow> nbio" where
  "wake_input inp ob rest s =
     (apply_low ob (i_nb inp) [Input_read_cb, Zero, Input_close_cb] s)\<lparr>inputs := inp\<lparr>i_mode := READING\<rparr> # rest\<rparr>"

definition free_input :: "nbio \<Rightarrow> nbio" where
  "free_input s =
     (case inputs s of
        [] \<Rightarrow> s
      | inp # rest \<Rightarrow>
          let s = (release_source inp (set_stats (\<lambda>t. t\<lparr>ninputs := ninputs t - 1\<rparr>) s))\<lparr>inputs := rest\<rparr>
          in (case rest of
                [] \<Rightarrow> s
              | nxt # later \<Rightarrow>
                  (case i_source nxt of
                     NBIO_OBJ ob \<Rightarrow> if finished_flag s then s else wake_input nxt ob later s
                   | _ \<Rightarrow> s)))"

definition free_inputs :: "nbio \<Rightarrow> nbio" where
  "free_inputs s = (free_input ^^ length (inputs s)) s"

definition next_map :: "nbio \<Rightarrow> bool \<times> nbio" where
  "next_map s = (case maps s of [] \<Rightarrow> True | ok # _ \<Rightarrow> ok, s\<lparr>maps := tl (maps s)\<rparr>)"

text \<open>\<^verbatim>\<open>mmap\<close> of a part of a file; one of no bytes fails.\<close>

definition try_mmap :: "pobj \<Rightarrow> string \<Rightarrow> int \<Rightarrow> int \<Rightarrow> nbio \<Rightarrow> mmap_data option \<times> nbio" where
  "try_mmap ob contents start n s =
     (let (ok, s) = next_map s
      in (if ok \<and> 0 < n
          then Some \<lparr>m_file = ob, m_data = substr contents (nat start) (nat n), m_start = start, m_end = start + n, m_len = n\<rparr>
          else None, s))"

definition map_length :: "string \<Rightarrow> int \<Rightarrow> int" where
  "map_length contents filep = min ((int (length contents) - filep) mod 2 ^ 64) MAX_MMAP_SIZE"

datatype inval = In_string string | In_object pobj

definition add_input :: "bool \<Rightarrow> input \<Rightarrow> nbio \<Rightarrow> nbio" where
  "add_input first inp s =
     (set_stats (\<lambda>t. t\<lparr>ninputs := ninputs t + 1\<rparr>) s)\<lparr>inputs := (if first then inp # inputs s else inputs s @ [inp])\<rparr>"

definition new_string :: "string \<Rightarrow> int \<Rightarrow> input" where
  "new_string str len =
     \<lparr>i_source = NBIO_STR str, i_len = (if len \<noteq> 0 then len else int (length str)), i_pos = 0, i_nb = - 1, i_b = - 1,
      i_mode = SLEEPING\<rparr>"

definition new_object :: "source \<Rightarrow> int \<Rightarrow> int \<Rightarrow> int \<Rightarrow> int \<Rightarrow> input" where
  "new_object src len pos nb b =
     \<lparr>i_source = src, i_len = len, i_pos = pos, i_nb = nb, i_b = b, i_mode = SLEEPING\<rparr>"

definition classify_fake :: "pobj \<Rightarrow> int \<Rightarrow> input" where
  "classify_fake ob len =
     (if nb_id ob < 0 \<or> b_id ob < 0 then new_object (NBIO_BLOCK_OBJ ob) len 0 0 0
      else new_object (NBIO_OBJ ob) len 0 (nb_id ob) (b_id ob))"

definition one_object :: "nbio \<Rightarrow> nbio" where
  "one_object s = set_stats (\<lambda>t. t\<lparr>nobjects := nobjects t + 1\<rparr>) s"

definition classify_file :: "pobj \<Rightarrow> int \<Rightarrow> nbio \<Rightarrow> nbio \<times> input res" where
  "classify_file ob len s =
     (let (m, s) = (case regular ob of
                      None \<Rightarrow> (None, s)
                    | Some (filep, contents) \<Rightarrow> try_mmap ob contents (int filep) (map_length contents (int filep)) s)
      in case (m, regular ob) of
           (Some m, Some (filep, contents)) \<Rightarrow>
             (set_stats (\<lambda>t. t\<lparr>mmapped := mmapped t + m_len m\<rparr>) s,
              Inr (new_object (NBIO_MMAP m) (int (length contents)) (int filep) (nb_id ob) (b_id ob)))
         | _ \<Rightarrow>
             if nb_id ob < 0 \<or> b_id ob < 0 then
               (s, Inl (Pike_error ''set_nonblocking and/or set_blocking missing from actual file object!''))
             else (one_object s, Inr (new_object (NBIO_OBJ ob) len 0 (nb_id ob) (b_id ob))))"

definition new_input :: "inval \<Rightarrow> int \<Rightarrow> bool \<Rightarrow> nbio \<Rightarrow> nbio \<times> unit res" where
  "new_input inval len first s =
     (case inval of
        In_string str \<Rightarrow>
          (add_input first (new_string str len) (set_stats (\<lambda>t. t\<lparr>nstrings := nstrings t + 1\<rparr>) s), Inr ())
      | In_object ob \<Rightarrow>
          and_then
            (if ofd ob = - 1 then
               (if read_id ob < 0 then
                  (s, Inl (Pike_error ''_Caudium.nbio()->input: Illegal file object, missing read()''))
                else (one_object s, Inr (classify_fake ob len)))
             else classify_file ob len s)
            (\<lambda>inp s.
               let s = (if i_nb inp \<noteq> - 1 \<and> i_b inp \<noteq> - 1 then reset_callbacks ob (i_nb inp) (i_b inp) s else s)
               in (add_input first inp s, Inr ())))"

section \<open>The read buffer\<close>

definition alloc_data_buf :: "int \<Rightarrow> nbio \<Rightarrow> nbio" where
  "alloc_data_buf n s =
     (case nb_buf s of
        None \<Rightarrow>
          (set_stats (\<lambda>t. t\<lparr>nbuffers := nbuffers t + 1, sbuffers := sbuffers t + n\<rparr>) s)
            \<lparr>nb_buf := Some (replicate (nat n) (junk s)), buf_size := n\<rparr>
      | Some old \<Rightarrow>
          (set_stats (\<lambda>t. t\<lparr>sbuffers := sbuffers t - buf_size s + n\<rparr>) s)
            \<lparr>nb_buf := Some (take (nat n) old @ replicate (nat n - length old) (junk s)), buf_size := n\<rparr>)"

definition free_data_buf :: "nbio \<Rightarrow> nbio" where
  "free_data_buf s =
     (case nb_buf s of
        None \<Rightarrow> s
      | Some _ \<Rightarrow>
          (set_stats (\<lambda>t. t\<lparr>nbuffers := nbuffers t - 1, sbuffers := sbuffers t - buf_size s\<rparr>) s)
            \<lparr>nb_buf := None, buf_size := 0\<rparr>)"

text \<open>Bytes of an object in memory, and copying bytes into the buffer.\<close>

definition bytes_of :: "string \<Rightarrow> int \<Rightarrow> int \<Rightarrow> string res" where
  "bytes_of d pos n =
     (if 0 \<le> pos \<and> 0 \<le> n \<and> pos + n \<le> int (length d) then Inr (substr d (nat pos) (nat n)) else Inl Out_of_bounds)"

definition buf_bytes :: "nbio \<Rightarrow> string" where
  "buf_bytes s = (case nb_buf s of None \<Rightarrow> [] | Some d \<Rightarrow> d)"

definition copy_to_buf :: "int \<Rightarrow> string \<Rightarrow> nbio \<Rightarrow> nbio \<times> unit res" where
  "copy_to_buf pos x s =
     (if 0 \<le> pos \<and> pos + int (length x) \<le> int (length (buf_bytes s)) then
        (if x = [] then s
         else s\<lparr>nb_buf := Some (take (nat pos) (buf_bytes s) @ x @ drop (nat pos + length x) (buf_bytes s))\<rparr>, Inr ())
      else (s, Inl Out_of_bounds))"

section \<open>The output\<close>

definition free_output :: "nbio \<Rightarrow> nbio" where
  "free_output s =
     (case outp s of
        None \<Rightarrow> s
      | Some ou \<Rightarrow>
          (reset_callbacks (o_obj ou) (nb_id (o_obj ou)) (b_id (o_obj ou))
             (set_stats (\<lambda>t. t\<lparr>noutputs := noutputs t - 1\<rparr>) s))\<lparr>outp := None\<rparr>)"

definition free_nb_struct :: "nbio \<Rightarrow> nbio" where
  "free_nb_struct s = (free_data_buf (free_output (free_inputs s)))\<lparr>cb := None\<rparr>"

definition set_outp_write_cb :: "nbio \<Rightarrow> nbio" where
  "set_outp_write_cb s =
     (case outp s of
        None \<Rightarrow> s
      | Some ou \<Rightarrow> apply_low (o_obj ou) (nb_id (o_obj ou)) [Zero, Output_write_cb, Zero] s)"

text \<open>Called when the sending is finished, because of a broken connection or for lack of data.\<close>

definition finished :: "nbio \<Rightarrow> nbio" where
  "finished s =
     (let s = free_output (free_inputs (s\<lparr>finished_flag := True\<rparr>))
      in case cb s of None \<Rightarrow> s | Some f \<Rightarrow> s\<lparr>calls := calls s @ [Done_cb f (cb_args s)]\<rparr>)"

text \<open>The answer to a write that is tried again after \<open>EINTR\<close>.\<close>

fun write_reply :: "(int \<times> errno) list \<Rightarrow> (int \<times> errno) \<times> (int \<times> errno) list" where
  "write_reply [] = ((- 1, EWOULDBLOCK), [])"
| "write_reply ((w, e) # ws) = (if w < 0 \<and> e = EINTR then write_reply ws else ((w, e), ws))"

text \<open>A descriptor takes at most the bytes it is given; the method of an object may answer anything.\<close>

definition do_write :: "string \<Rightarrow> nbio \<Rightarrow> nbio \<times> int res" where
  "do_write x s =
     (case outp s of
        None \<Rightarrow> (s, Inl Out_of_bounds)
      | Some ou \<Rightarrow>
          let ((w, e), ws) = write_reply (writes s);
              s = s\<lparr>writes := ws\<rparr>;
              w = (if ofd (o_obj ou) \<noteq> - 1 then min w (int (length x)) else w)
          in if w < 0 then (if e = EWOULDBLOCK then (s, Inr 0) else (finished s, Inr (- 1)))
             else (s\<lparr>written := written s + w, sent := sent s @ take (nat w) x\<rparr>, Inr w))"

section \<open>Reading\<close>

definition next_read :: "nbio \<Rightarrow> reply \<times> nbio" where
  "next_read s = (case reads s of [] \<Rightarrow> (Data [], s) | r # later \<Rightarrow> (r, s\<lparr>reads := later\<rparr>))"

definition advance_head :: "nat \<Rightarrow> int \<Rightarrow> nbio \<Rightarrow> nbio" where
  "advance_head i n s =
     (if i < length (inputs s)
      then s\<lparr>inputs := (inputs s)[i := (inputs s ! i)\<lparr>i_pos := i_pos (inputs s ! i) + n\<rparr>]\<rparr> else s)"

text \<open>What \<^verbatim>\<open>read_data\<close> does with the number of bytes read; \<open>None\<close> is \<^verbatim>\<open>goto redo\<close>.\<close>

definition after_read :: "input \<Rightarrow> int \<Rightarrow> nbio \<Rightarrow> nbio \<times> int option res" where
  "after_read inp n s =
     (if n = 0 then (free_input s, Inr (Some 0))
      else (let s = advance_head 0 n s
            in ((if i_pos inp + n = i_len inp then free_input s else s)\<lparr>buf_len := n\<rparr>, Inr (Some n))))"

definition bytes_wanted :: "input \<Rightarrow> int" where
  "bytes_wanted inp =
     (if i_len inp \<noteq> - 1 then min READ_BUFFER_SIZE (i_len inp - i_pos inp) else READ_BUFFER_SIZE)"

definition prepare_buf :: "int \<Rightarrow> nbio \<Rightarrow> nbio" where
  "prepare_buf n s = (if nb_buf s = None \<or> buf_size s < n then alloc_data_buf n s else s)"

definition store_read :: "input \<Rightarrow> string \<Rightarrow> nbio \<Rightarrow> nbio \<times> int option res" where
  "store_read inp x s =
     and_then (copy_to_buf 0 x s) (\<lambda>_. after_read inp (int (length x)))"

definition read_fd :: "input \<Rightarrow> nbio \<Rightarrow> nbio \<times> int option res" where
  "read_fd inp s =
     (if bytes_wanted inp < 0 then (s, Inl Out_of_bounds)
      else (let (r, s) = next_read (prepare_buf (bytes_wanted inp) s)
            in case r of
                 Data x \<Rightarrow> store_read inp (take (nat (bytes_wanted inp)) x) s
               | Failed e \<Rightarrow> (if e \<noteq> EWOULDBLOCK then free_input s else s, Inr None)
               | Other_value \<Rightarrow> (free_input s, Inr None)))"

definition read_fake :: "input \<Rightarrow> nbio \<Rightarrow> nbio \<times> int option res" where
  "read_fake inp s =
     (if i_len inp \<noteq> - 1 \<and> i_pos inp \<ge> i_len inp then (free_input s, Inr None)
      else (let (r, s) = next_read s
            in case r of
                 Data x \<Rightarrow>
                   if x = [] then (free_input s, Inr (Some 0))
                   else (advance_head 1 (int (length x)) (fst (new_input (In_string x) 0 True s)), Inr (Some (- 3)))
               | Failed _ \<Rightarrow> (free_input s, Inr (Some 0))
               | Other_value \<Rightarrow> (s, Inl (Pike_error ''Incorrect result from read, expected string.''))))"

definition read_once :: "nbio \<Rightarrow> nbio \<times> int option res" where
  "read_once s =
     (let s = s\<lparr>buf_pos := 0\<rparr>
      in case inputs s of
           [] \<Rightarrow> (s, Inr (Some (- 1)))
         | inp # _ \<Rightarrow>
             (case i_source inp of
                NBIO_BLOCK_OBJ ob \<Rightarrow> if ofd ob \<noteq> - 1 then read_fd inp s else read_fake inp s
              | _ \<Rightarrow> (s, Inr (Some (- 2)))))"

lemma apply_low_simps [simp]:
  "inputs (apply_low ob i a s) = inputs s" "reads (apply_low ob i a s) = reads s"
  by (simp_all add: apply_low_def)

text \<open>Every round uses up an input or an answer.\<close>

definition effort :: "nbio \<Rightarrow> nat" where
  "effort s = 2 * length (reads s) + length (inputs s)"

lemma reads_free_input [simp]: "reads (free_input s) = reads s"
  by (auto simp: free_input_def release_source_def set_stats_def reset_callbacks_def wake_input_def Let_def
      split: list.splits source.splits)

lemma length_free_input [simp]: "length (inputs (free_input s)) = length (inputs s) - 1"
  by (auto simp: free_input_def release_source_def set_stats_def reset_callbacks_def wake_input_def Let_def
      split: list.splits source.splits)

lemma reads_other [simp]:
  "reads (alloc_data_buf n s) = reads s" "inputs (alloc_data_buf n s) = inputs s"
  "reads (fst (copy_to_buf p x s)) = reads s" "inputs (fst (copy_to_buf p x s)) = inputs s"
  "reads (advance_head i n s) = reads s" "length (inputs (advance_head i n s)) = length (inputs s)"
  by (auto simp: alloc_data_buf_def set_stats_def copy_to_buf_def advance_head_def split: option.splits)

lemma next_read_effort:
  "next_read s = (r, s') \<Longrightarrow> inputs s' = inputs s \<and> effort s' \<le> effort s \<and> (r \<noteq> Data [] \<longrightarrow> effort s' + 2 = effort s)"
  by (auto simp: next_read_def effort_def split: list.splits)

lemma effort_free_input: "inputs s \<noteq> [] \<Longrightarrow> effort (free_input s) < effort s" "effort (free_input s) \<le> effort s"
  by (auto simp: effort_def)

lemma effort_same [simp]:
  "effort (alloc_data_buf n s) = effort s" "effort (fst (copy_to_buf p x s)) = effort s"
  "effort (advance_head i n s) = effort s" "effort (s\<lparr>buf_pos := n\<rparr>) = effort s" "effort (s\<lparr>buf_len := n\<rparr>) = effort s"
  by (simp_all add: effort_def)

lemma after_read_effort: "after_read inp n s = (s', r) \<Longrightarrow> effort s' \<le> effort s"
  using effort_free_input(2) [of "advance_head 0 n s"]
  by (auto simp: after_read_def Let_def effort_free_input split: if_splits)

definition made_progress :: "nbio \<Rightarrow> nbio \<Rightarrow> int option res \<Rightarrow> bool" where
  "made_progress s s' r \<longleftrightarrow>
     effort s' \<le> effort s \<and> (r = Inr None \<or> r = Inr (Some (- 3)) \<longrightarrow> effort s' < effort s) \<and>
     (\<forall>n. r = Inr (Some n) \<longrightarrow> n = - 3 \<or> 0 \<le> n)"

lemma store_read_progress:
  assumes "store_read inp x s = (s', r)"
  shows "made_progress s s' r"
proof -
  obtain t q where t: "copy_to_buf 0 x s = (t, q)" by fastforce
  then have et: "effort t = effort s" using effort_same(2) [of 0 x s] by simp
  show ?thesis
  proof (cases q)
    case (Inl e)
    then show ?thesis using assms t et by (auto simp: store_read_def made_progress_def)
  next
    case (Inr u)
    then have r: "after_read inp (int (length x)) t = (s', r)" using assms t by (simp add: store_read_def)
    then have "r = Inr (Some (int (length x)))" by (auto simp: after_read_def Let_def split: if_splits)
    with after_read_effort [OF r] et show ?thesis by (simp add: made_progress_def)
  qed
qed

lemma prepare_buf_simps [simp]: "effort (prepare_buf n s) = effort s" "inputs (prepare_buf n s) = inputs s"
  by (simp_all add: prepare_buf_def)

lemma read_fd_progress:
  assumes "read_fd inp s = (s', r)" "inputs s \<noteq> []"
  shows "made_progress s s' r"
proof -
  obtain a v where v: "next_read (prepare_buf (bytes_wanted inp) s) = (a, v)" by fastforce
  note nr = next_read_effort [OF v]
  have free: "effort (free_input v) < effort s" using nr effort_free_input(1) [of v] assms(2) by simp
  have trans: "made_progress s t q" if "made_progress v t q" for t q
    using that nr by (auto simp: made_progress_def)
  show ?thesis
  proof (cases a)
    case (Data x)
    then show ?thesis using assms(1) v nr
      by (auto simp: read_fd_def made_progress_def split: if_splits intro!: trans [unfolded made_progress_def] dest!: store_read_progress)
  next
    case (Failed e)
    then show ?thesis using assms(1) v nr free
      by (auto simp: read_fd_def made_progress_def split: if_splits)
  next
    case Other_value
    then show ?thesis using assms(1) v nr free by (auto simp: read_fd_def made_progress_def split: if_splits)
  qed
qed

lemma read_fake_progress:
  assumes "read_fake inp s = (s', r)" "inputs s \<noteq> []"
  shows "made_progress s s' r"
proof -
  obtain a v where v: "next_read s = (a, v)" by fastforce
  note nr = next_read_effort [OF v]
  have free: "effort (free_input v) < effort s" "effort (free_input s) < effort s"
    using nr effort_free_input(1) [of v] effort_free_input(1) [of s] assms(2) by auto
  have new: "effort (fst (new_input (In_string x) 0 True v)) = effort v + 1" for x
    by (simp add: new_input_def add_input_def set_stats_def effort_def)
  show ?thesis
    using assms(1) v nr free new
    by (cases a) (auto simp: read_fake_def made_progress_def split: if_splits)
qed

lemma read_once_progress:
  assumes "read_once s = (s', r)" "inputs s = inp # rest" "i_source inp = NBIO_BLOCK_OBJ ob"
  shows "made_progress s s' r"
proof -
  have "made_progress (s\<lparr>buf_pos := 0\<rparr>) s' r"
    using assms read_fd_progress [of inp "s\<lparr>buf_pos := 0\<rparr>" s' r] read_fake_progress [of inp "s\<lparr>buf_pos := 0\<rparr>" s' r]
    by (auto simp: read_once_def Let_def split: if_splits)
  then show ?thesis by (simp add: made_progress_def)
qed

lemma read_once_redo:
  assumes "read_once s = (s', Inr None)"
  shows "effort s' < effort s"
proof (cases "\<exists>inp rest ob. inputs s = inp # rest \<and> i_source inp = NBIO_BLOCK_OBJ ob")
  case True
  then show ?thesis using read_once_progress [OF assms] by (auto simp: made_progress_def)
next
  case False
  then show ?thesis using assms by (auto simp: read_once_def Let_def split: list.splits source.splits)
qed

text \<open>\<^verbatim>\<open>read_data\<close>.\<close>

function read_data :: "nbio \<Rightarrow> nbio \<times> int res" where
  "read_data s =
     (case read_once s of
        (s', r) \<Rightarrow>
          (case r of
             Inl e \<Rightarrow> (s', Inl e)
           | Inr q \<Rightarrow> (case q of None \<Rightarrow> read_data s' | Some n \<Rightarrow> (s', Inr n))))"
  by pat_completeness auto
termination
  by (relation "measure effort") (auto dest!: sym intro!: read_once_redo)

declare read_data.simps [simp del]

section \<open>The callbacks\<close>

text \<open>The end of the write callback.\<close>

definition after_write :: "int \<Rightarrow> nbio \<Rightarrow> nbio \<times> bool res" where
  "after_write w s =
     (if w < 0 then (s, Inr False) else if buf_len s = 0 \<and> inputs s = [] then (finished s, Inr False) else (s, Inr False))"

text \<open>Sending from the first input; \<open>True\<close> is the call of the callback by itself.\<close>

definition send_input :: "input \<Rightarrow> string \<Rightarrow> nbio \<Rightarrow> nbio \<times> bool res" where
  "send_input inp x s =
     and_then (do_write x s) (\<lambda>w s.
       if w < 0 then (s, Inr False)
       else (let s = advance_head 0 w s;
                 s = (if i_pos inp + w = i_len inp then free_input s else s)
             in after_write w (set_outp_write_cb s)))"

definition send_block :: "nbio \<Rightarrow> nbio \<times> bool res" where
  "send_block s =
     and_then (read_data s) (\<lambda>n s.
       if n = - 1 then (finished s, Inr False)
       else if n = - 2 \<or> n = - 3 then (s, Inr True)
       else and_then (lift_res (bytes_of (buf_bytes s) 0 (buf_len s)) s) (\<lambda>x s.
         and_then (do_write x s) (\<lambda>w s.
           after_write w
             (if w \<ge> 0 then set_outp_write_cb (s\<lparr>buf_len := buf_len s - w, buf_pos := buf_pos s + w\<rparr>) else s))))"

definition set_out_mode :: "out_mode \<Rightarrow> nbio \<Rightarrow> nbio \<times> unit res" where
  "set_out_mode m s =
     (case outp s of None \<Rightarrow> (s, Inl Out_of_bounds) | Some ou \<Rightarrow> (s\<lparr>outp := Some (ou\<lparr>o_mode := m\<rparr>)\<rparr>, Inr ()))"

text \<open>
  A mapping that fails later on turns the file into a blocking object: the condition
  \<^verbatim>\<open>#if TEST_MMAP_FAILOVER == NBIO_BLOCK_OBJ\<close> compares two names that are no macros, so both are 0, it
  holds, and the offsets are always taken to be negative. The jump leaves out \<^verbatim>\<open>nobjects++\<close>.
\<close>

definition mmap_failover :: "input \<Rightarrow> pobj \<Rightarrow> nbio \<Rightarrow> nbio \<times> bool res" where
  "mmap_failover inp ob s =
     and_then (set_out_mode IDLE s) (\<lambda>_ s.
       send_block (s\<lparr>failovers := failovers s + 1,
         inputs := inp\<lparr>i_source := NBIO_BLOCK_OBJ ob, i_nb := 0, i_b := 0\<rparr> # tl (inputs s)\<rparr>))"

definition send_mapped :: "input \<Rightarrow> mmap_data \<Rightarrow> nbio \<Rightarrow> nbio \<times> bool res" where
  "send_mapped inp m s =
     and_then (lift_res (bytes_of (m_data m) (i_pos inp - m_start m) (m_end m - i_pos inp)) s) (send_input inp)"

definition file_bytes :: "pobj \<Rightarrow> string" where
  "file_bytes ob = (case regular ob of None \<Rightarrow> [] | Some (_, contents) \<Rightarrow> contents)"

definition send_mmap :: "input \<Rightarrow> mmap_data \<Rightarrow> nbio \<Rightarrow> nbio \<times> bool res" where
  "send_mmap inp m s =
     (if m_end m - i_pos inp \<noteq> 0 then send_mapped inp m s
      else (let len = min (i_len inp - i_pos inp) MAX_MMAP_SIZE;
                s = set_stats (\<lambda>t. t\<lparr>mmapped := mmapped t - m_len m\<rparr>) s;
                (r, s) = try_mmap (m_file m) (file_bytes (m_file m)) (i_pos inp) len s
            in case r of
                 None \<Rightarrow> mmap_failover inp (m_file m) s
               | Some m' \<Rightarrow>
                   let inp' = inp\<lparr>i_source := NBIO_MMAP m'\<rparr>
                   in send_mapped inp' m'
                        ((set_stats (\<lambda>t. t\<lparr>mmapped := mmapped t + len\<rparr>) s)\<lparr>inputs := inp' # tl (inputs s)\<rparr>)))"

definition wait_for_input :: "input \<Rightarrow> pobj \<Rightarrow> nbio \<Rightarrow> nbio \<times> bool res" where
  "wait_for_input inp ob s =
     and_then (set_out_mode IDLE s) (\<lambda>_ s.
       (if i_mode inp = SLEEPING then wake_input inp ob (tl (inputs s)) s else s, Inr False))"

definition send_first :: "nbio \<Rightarrow> nbio \<times> bool res" where
  "send_first s =
     (case inputs s of
        [] \<Rightarrow> (finished s, Inr False)
      | inp # _ \<Rightarrow>
          (case i_source inp of
             NBIO_OBJ ob \<Rightarrow> wait_for_input inp ob s
           | NBIO_STR d \<Rightarrow>
               and_then (lift_res (bytes_of d (i_pos inp) (i_len inp - i_pos inp)) s) (send_input inp)
           | NBIO_MMAP m \<Rightarrow> send_mmap inp m s
           | NBIO_BLOCK_OBJ _ \<Rightarrow> send_block s))"

definition write_once :: "nbio \<Rightarrow> nbio \<times> bool res" where
  "write_once s =
     (if buf_len s = 0 then send_first s
      else and_then (lift_res (bytes_of (buf_bytes s) (buf_pos s) (buf_len s)) s) (\<lambda>x s.
        and_then (do_write x s) (\<lambda>w s.
          if w = - 1 \<or> w = 0 then (set_outp_write_cb s, Inr False)
          else (let s = s\<lparr>buf_len := buf_len s - w, buf_pos := buf_pos s + w\<rparr>
                in if buf_len s \<noteq> 0 then (set_outp_write_cb s, Inr False)
                   else send_first (s\<lparr>buf_pos := 0, buf_len := 0\<rparr>)))))"

text \<open>Only reading makes the callback start again, so it ends.\<close>

lemma effort_set_out_mode: "set_out_mode m s = (s', r) \<Longrightarrow> effort s' = effort s \<and> inputs s' = inputs s"
  by (auto simp: set_out_mode_def effort_def split: option.splits)

lemma read_data_progress:
  "read_data s = (s', Inr n) \<Longrightarrow>
     effort s' \<le> effort s \<and> (n = - 3 \<longrightarrow> effort s' < effort s) \<and>
     (n = - 2 \<and> (\<exists>inp rest ob. inputs s = inp # rest \<and> i_source inp = NBIO_BLOCK_OBJ ob) \<longrightarrow> effort s' < effort s)"
proof (induction s rule: read_data.induct)
  case (1 s)
  obtain t r where t: "read_once s = (t, r)" by fastforce
  then obtain q where q: "r = Inr q" using 1(2) by (cases r) (simp_all add: read_data.simps [of s])
  show ?case
  proof (cases q)
    case None
    then have "read_data t = (s', Inr n)" using 1(2) t q by (simp add: read_data.simps [of s])
    then show ?thesis using 1(1) [OF t [symmetric] q None] read_once_redo [of s t] t q None by auto
  next
    case (Some m)
    then have m: "read_once s = (s', Inr (Some n))" using 1(2) t q by (simp add: read_data.simps [of s])
    show ?thesis
    proof (cases "\<exists>inp rest ob. inputs s = inp # rest \<and> i_source inp = NBIO_BLOCK_OBJ ob")
      case True
      then obtain inp rest ob where i: "inputs s = inp # rest" "i_source inp = NBIO_BLOCK_OBJ ob" by blast
      show ?thesis using read_once_progress [OF m i] by (auto simp: made_progress_def)
    next
      case False
      then show ?thesis using m by (auto simp: read_once_def Let_def split: list.splits source.splits)
    qed
  qed
qed

lemma after_write_ends: "after_write w s = (s', Inr b) \<Longrightarrow> \<not> b"
  by (auto simp: after_write_def split: if_splits)

lemma send_block_again:
  assumes "send_block s = (s', Inr True)" "inputs s = inp # rest" "i_source inp = NBIO_BLOCK_OBJ ob"
  shows "effort s' < effort s"
proof -
  obtain n where "read_data s = (s', Inr n)" "n = - 2 \<or> n = - 3"
    using assms(1) by (auto simp: send_block_def and_then_Inr dest: after_write_ends split: if_splits)
  then show ?thesis using read_data_progress [of s s' n] assms(2,3) by auto
qed

lemma send_input_ends: "send_input inp x s = (s', Inr b) \<Longrightarrow> \<not> b"
  by (auto simp: send_input_def and_then_Inr Let_def dest: after_write_ends split: if_splits)

lemma send_mapped_ends: "send_mapped inp m s = (s', Inr b) \<Longrightarrow> \<not> b"
  by (auto simp: send_mapped_def and_then_Inr dest: send_input_ends)

lemma try_mmap_effort: "try_mmap ob c st n s = (m, s') \<Longrightarrow> reads s' = reads s \<and> inputs s' = inputs s"
  by (auto simp: try_mmap_def next_map_def split: list.splits)

lemma mmap_failover_again:
  assumes "mmap_failover inp ob s = (s', Inr True)" "inputs s \<noteq> []"
  shows "effort s' < effort s"
proof -
  obtain t where t: "set_out_mode IDLE s = (t, Inr ())"
    "send_block (t\<lparr>failovers := failovers t + 1, inputs := inp\<lparr>i_source := NBIO_BLOCK_OBJ ob, i_nb := 0, i_b := 0\<rparr> # tl (inputs t)\<rparr>) = (s', Inr True)"
    using assms(1) by (auto simp: mmap_failover_def and_then_Inr)
  have "effort (t\<lparr>failovers := failovers t + 1, inputs := inp\<lparr>i_source := NBIO_BLOCK_OBJ ob, i_nb := 0, i_b := 0\<rparr> # tl (inputs t)\<rparr>) = effort s"
    using effort_set_out_mode [OF t(1)] assms(2) by (cases "inputs s") (auto simp: effort_def)
  then show ?thesis using send_block_again [OF t(2)] by fastforce
qed

lemma send_mmap_again:
  assumes "send_mmap inp m s = (s', Inr True)" "inputs s \<noteq> []"
  shows "effort s' < effort s"
proof -
  define u where "u = set_stats (\<lambda>t. t\<lparr>mmapped := mmapped t - m_len m\<rparr>) s"
  obtain r v where v: "try_mmap (m_file m) (file_bytes (m_file m)) (i_pos inp) (min (i_len inp - i_pos inp) MAX_MMAP_SIZE) u = (r, v)"
    by fastforce
  have e: "effort v = effort s" "inputs v \<noteq> []"
    using try_mmap_effort [OF v] assms(2) by (simp_all add: u_def set_stats_def effort_def)
  have "mmap_failover inp (m_file m) v = (s', Inr True)"
    using assms v by (auto simp: send_mmap_def Let_def u_def [symmetric] dest: send_mapped_ends split: if_splits option.splits)
  with e show ?thesis using mmap_failover_again by fastforce
qed

lemma send_first_again:
  assumes "send_first s = (s', Inr True)"
  shows "effort s' < effort s"
proof -
  obtain inp rest where "inputs s = inp # rest" using assms by (cases "inputs s") (auto simp: send_first_def)
  then show ?thesis
    using assms send_block_again [of s s'] send_mmap_again [of inp _ s s']
    by (cases "i_source inp") (auto simp: send_first_def wait_for_input_def and_then_Inr dest: send_input_ends)
qed

lemma do_write_keeps:
  "do_write x s = (s', Inr w) \<Longrightarrow> w \<noteq> - 1 \<Longrightarrow> 0 \<le> w \<and> reads s' = reads s \<and> inputs s' = inputs s"
  by (auto simp: do_write_def Let_def split: option.splits prod.splits if_splits)

lemma write_once_again:
  assumes "write_once s = (s', Inr True)"
  shows "effort s' < effort s"
proof (cases "buf_len s = 0")
  case True
  then show ?thesis using assms send_first_again by (simp add: write_once_def)
next
  case False
  then obtain x t w where w: "do_write x s = (t, Inr w)" "w \<noteq> - 1" "send_first (t\<lparr>buf_pos := 0, buf_len := 0\<rparr>) = (s', Inr True)"
    using assms by (auto simp: write_once_def and_then_Inr Let_def split: if_splits)
  then show ?thesis using send_first_again [OF w(3)] do_write_keeps [OF w(1)] by (simp add: effort_def)
qed

text \<open>\<^verbatim>\<open>f__output_write_cb\<close>.\<close>

function output_write_cb :: "nbio \<Rightarrow> nbio \<times> unit res" where
  "output_write_cb s =
     (case write_once s of
        (s', r) \<Rightarrow>
          (case r of
             Inl e \<Rightarrow> (s', Inl e)
           | Inr again \<Rightarrow> if again then output_write_cb s' else (s', Inr ())))"
  by pat_completeness auto
termination
  by (relation "measure effort") (auto dest!: sym intro!: write_once_again)

declare output_write_cb.simps [simp del]

definition input_close_cb :: "nbio \<Rightarrow> nbio \<times> unit res" where
  "input_close_cb s =
     (let s = free_input s
      in (if buf_len s = 0 \<and> inputs s = [] then finished s else s, Inr ()))"

text \<open>
  \<^verbatim>\<open>f__input_read_cb\<close>. The input is freed when it has all its bytes; stopping it after that uses freed
  memory, and stopping one that is not a file object takes its data for an object.
\<close>

definition stop_head :: "pobj \<Rightarrow> int \<Rightarrow> nbio \<Rightarrow> nbio" where
  "stop_head ob nb s =
     (let s = apply_low ob nb [Zero, Zero, Zero] s
      in s\<lparr>inputs := map (\<lambda>i. i\<lparr>i_mode := SLEEPING\<rparr>) (take 1 (inputs s)) @ drop 1 (inputs s)\<rparr>)"

definition pause_input :: "bool \<Rightarrow> input \<Rightarrow> nbio \<Rightarrow> nbio \<times> unit res" where
  "pause_input freed inp s =
     (if freed then (s, Inl Out_of_bounds)
      else (case i_source inp of
              NBIO_STR _ \<Rightarrow> (s, Inl Out_of_bounds)
            | NBIO_MMAP _ \<Rightarrow> (s, Inl Out_of_bounds)
            | NBIO_OBJ ob \<Rightarrow> (stop_head ob (i_nb inp) s, Inr ())
            | NBIO_BLOCK_OBJ ob \<Rightarrow> (stop_head ob (i_nb inp) s, Inr ())))"

definition read_all :: "input \<Rightarrow> int \<Rightarrow> bool" where
  "read_all inp n \<longleftrightarrow> i_len inp \<noteq> - 1 \<and> i_pos inp + n \<ge> i_len inp"

text \<open>The bytes that are wanted of those read.\<close>

definition wanted :: "input \<Rightarrow> int \<Rightarrow> int" where
  "wanted inp n = (if read_all inp n then n - (i_pos inp + n - i_len inp) else n)"

definition make_room :: "int \<Rightarrow> nbio \<Rightarrow> nbio" where
  "make_room n s =
     (let avail = (if buf_size s \<noteq> 0 then buf_size s - (buf_len s + buf_pos s) else 0)
      in if avail < n then alloc_data_buf (buf_size s + (n - avail)) s else s)"

definition buffer_data :: "string \<Rightarrow> nbio \<Rightarrow> nbio \<times> unit res" where
  "buffer_data x s =
     and_then (copy_to_buf (buf_pos s + buf_len s) x s) (\<lambda>_ s. (s\<lparr>buf_len := buf_len s + int (length x)\<rparr>, Inr ()))"

definition wake_output :: "nbio \<Rightarrow> nbio \<times> unit res" where
  "wake_output s =
     (case outp s of
        None \<Rightarrow> (s, Inl Out_of_bounds)
      | Some ou \<Rightarrow>
          if o_mode ou = IDLE then output_write_cb (s\<lparr>outp := Some (ou\<lparr>o_mode := ACTIVE\<rparr>)\<rparr>) else (s, Inr ()))"

definition input_read_cb :: "string \<Rightarrow> nbio \<Rightarrow> nbio \<times> unit res" where
  "input_read_cb str s =
     (case inputs s of
        [] \<Rightarrow> (s, Inl (Pike_error ''Input read callback without inputs.''))
      | inp # _ \<Rightarrow>
          let n = wanted inp (int (length str));
              freed = read_all inp (int (length str));
              s = advance_head 0 (int (length str)) s;
              s = make_room n (if freed then free_input s else s)
          in if n < 0 then (s, Inl Out_of_bounds)
             else and_then (buffer_data (take (nat n) str) s) (\<lambda>_ s.
               and_then (if buf_len s + buf_pos s > READ_BUFFER_SIZE then pause_input freed inp s else (s, Inr ()))
                 (\<lambda>_. wake_output)))"

section \<open>The methods\<close>

definition f_input :: "pobj \<Rightarrow> int \<Rightarrow> nbio \<Rightarrow> nbio \<times> unit res" where
  "f_input ob len s = new_input (In_object ob) len False s"

definition f_write :: "string \<Rightarrow> nbio \<Rightarrow> nbio \<times> unit res" where
  "f_write str s = (if 0 < length str then new_input (In_string str) (int (length str)) False s else (s, Inr ()))"

definition f_output :: "pobj \<Rightarrow> nbio \<Rightarrow> nbio \<times> unit res" where
  "f_output ob s =
     (let s = free_output s
      in if write_id ob < 0 \<or> nb_id ob < 0 \<or> b_id ob < 0 then
           (s, Inl (Pike_error (''_Caudium.nbio()->output: illegal file object'' @
              (if write_id ob < 0 then ''; no write'' else []) @ (if nb_id ob < 0 then ''; no set_nonblocking'' else []) @
              (if b_id ob < 0 then ''; no set_blocking'' else []))))
         else (set_outp_write_cb
                 ((set_stats (\<lambda>t. t\<lparr>noutputs := noutputs t + 1\<rparr>) s)\<lparr>outp := Some \<lparr>o_obj = ob, o_mode = ACTIVE\<rparr>\<rparr>), Inr ()))"

text \<open>Without arguments the callback is cleared; the first argument is \<open>None\<close> if it is not a function.\<close>

definition f_set_done_callback :: "(nat option \<times> nat option) option \<Rightarrow> nbio \<Rightarrow> nbio \<times> unit res" where
  "f_set_done_callback args s =
     (case args of
        None \<Rightarrow> (s\<lparr>cb := None, cb_args := 0\<rparr>, Inr ())
      | Some (f, a) \<Rightarrow>
          let s = (case a of None \<Rightarrow> s | Some v \<Rightarrow> s\<lparr>cb_args := v\<rparr>)
          in (case f of
                None \<Rightarrow> (s, Inl (Pike_error ''Bad argument 1 to _Caudium.nbio()->set_done_callback(). Expected function''))
              | Some g \<Rightarrow> (s\<lparr>cb := Some g\<rparr>, Inr ())))"

definition f_bytes_sent :: "nbio \<Rightarrow> int" where
  "f_bytes_sent s = written s"

definition f_nbio_status :: "nbio \<Rightarrow> int list" where
  "f_nbio_status s =
     (let t = stats s in [noutputs t, ninputs t, nstrings t, nobjects t, mmapped t, nbuffers t, sbuffers t])"

text \<open>One step of the life of the object: a method called or a callback of the backend.\<close>

datatype op = Op_input pobj int | Op_write string | Op_output pobj | Op_done "(nat option \<times> nat option) option"
  | Op_write_cb | Op_read_cb string | Op_close_cb

fun exec_op :: "op \<Rightarrow> nbio \<Rightarrow> nbio \<times> unit res" where
  "exec_op (Op_input ob len) s = f_input ob len s"
| "exec_op (Op_write str) s = f_write str s"
| "exec_op (Op_output ob) s = f_output ob s"
| "exec_op (Op_done args) s = f_set_done_callback args s"
| "exec_op Op_write_cb s = output_write_cb s"
| "exec_op (Op_read_cb str) s = input_read_cb str s"
| "exec_op Op_close_cb s = input_close_cb s"

end
