(* ===== verification/Nbio_Inv.thy ===== *)
theory Nbio_Inv
  imports Nbio
begin

text \<open>
  What holds of the sender between two callbacks, and that it never leaves its buffers: the counters agree with the
  queue, the data in the read buffer lies inside it, and the position of every input lies inside its
  data. Reachability is by the methods called and the callbacks the backend may make.
\<close>

section \<open>Invariant\<close>

definition is_string_source :: "source \<Rightarrow> bool" where
  "is_string_source src \<longleftrightarrow> (case src of NBIO_STR _ \<Rightarrow> True | _ \<Rightarrow> False)"

definition is_object_source :: "source \<Rightarrow> bool" where
  "is_object_source src \<longleftrightarrow> (case src of NBIO_OBJ _ \<Rightarrow> True | NBIO_BLOCK_OBJ _ \<Rightarrow> True | _ \<Rightarrow> False)"

definition mapped_bytes :: "source \<Rightarrow> int" where
  "mapped_bytes src = (case src of NBIO_MMAP m \<Rightarrow> m_len m | _ \<Rightarrow> 0)"

definition strings_in :: "input list \<Rightarrow> int" where
  "strings_in ins = (\<Sum>i \<leftarrow> ins. if is_string_source (i_source i) then 1 else 0)"

definition objects_in :: "input list \<Rightarrow> int" where
  "objects_in ins = (\<Sum>i \<leftarrow> ins. if is_object_source (i_source i) then 1 else 0)"

definition mapped_in :: "input list \<Rightarrow> int" where
  "mapped_in ins = (\<Sum>i \<leftarrow> ins. mapped_bytes (i_source i))"

text \<open>
  A mapping that fails over to a blocking object is not counted when it becomes one, but it is when
  it is freed: the counter of the objects is behind by the number of failovers.
\<close>

definition counts_ok :: "nbio \<Rightarrow> bool" where
  "counts_ok s \<longleftrightarrow>
     ninputs (stats s) = int (length (inputs s)) \<and> nstrings (stats s) = strings_in (inputs s) \<and>
     nobjects (stats s) = objects_in (inputs s) - failovers s \<and> mmapped (stats s) = mapped_in (inputs s) \<and>
     noutputs (stats s) = (if outp s = None then 0 else 1) \<and>
     nbuffers (stats s) = (if nb_buf s = None then 0 else 1) \<and> sbuffers (stats s) = buf_size s"

definition buf_ok :: "nbio \<Rightarrow> bool" where
  "buf_ok s \<longleftrightarrow>
     int (length (buf_bytes s)) = buf_size s \<and> 0 \<le> buf_pos s \<and> 0 \<le> buf_len s \<and> buf_pos s + buf_len s \<le> buf_size s"

definition map_ok :: "input \<Rightarrow> mmap_data \<Rightarrow> bool" where
  "map_ok i m \<longleftrightarrow>
     0 \<le> m_start m \<and> m_start m \<le> i_pos i \<and> i_pos i \<le> m_end m \<and> m_end m = m_start m + m_len m \<and>
     m_end m \<le> i_len i \<and> i_pos i < i_len i \<and> i_len i = int (length (file_bytes (m_file m))) \<and> ofd (m_file m) \<noteq> - 1 \<and>
     m_data m = substr (file_bytes (m_file m)) (nat (m_start m)) (nat (m_len m))"

definition input_ok :: "input \<Rightarrow> bool" where
  "input_ok i \<longleftrightarrow>
     (case i_source i of
        NBIO_STR d \<Rightarrow> 0 \<le> i_pos i \<and> i_pos i < i_len i \<and> i_len i = int (length d)
      | NBIO_OBJ ob \<Rightarrow> i_len i = - 1 \<or> i_pos i \<le> i_len i
      | NBIO_BLOCK_OBJ ob \<Rightarrow> i_len i = - 1 \<or> ofd ob = - 1 \<or> i_pos i \<le> i_len i
      | NBIO_MMAP m \<Rightarrow> map_ok i m)"

definition output_ok :: "nbio \<Rightarrow> bool" where
  "output_ok s \<longleftrightarrow> (\<forall>ou. outp s = Some ou \<longrightarrow> ofd (o_obj ou) \<noteq> - 1)"

definition nbio_ok :: "nbio \<Rightarrow> bool" where
  "nbio_ok s \<longleftrightarrow> counts_ok s \<and> buf_ok s \<and> output_ok s \<and> (\<forall>i \<in> set (inputs s). input_ok i)"

lemma in_Nil [simp]: "strings_in [] = 0" "objects_in [] = 0" "mapped_in [] = 0"
  by (simp_all add: strings_in_def objects_in_def mapped_in_def)

lemma in_Cons [simp]:
  "strings_in (i # ins) = (if is_string_source (i_source i) then 1 else 0) + strings_in ins"
  "objects_in (i # ins) = (if is_object_source (i_source i) then 1 else 0) + objects_in ins"
  "mapped_in (i # ins) = mapped_bytes (i_source i) + mapped_in ins"
  by (simp_all add: strings_in_def objects_in_def mapped_in_def)

lemma in_append [simp]:
  "strings_in (xs @ ys) = strings_in xs + strings_in ys" "objects_in (xs @ ys) = objects_in xs + objects_in ys"
  "mapped_in (xs @ ys) = mapped_in xs + mapped_in ys"
  by (simp_all add: strings_in_def objects_in_def mapped_in_def)

lemma source_simps [simp]:
  "is_string_source (NBIO_STR d)" "\<not> is_string_source (NBIO_OBJ ob)" "\<not> is_string_source (NBIO_BLOCK_OBJ ob)"
  "\<not> is_string_source (NBIO_MMAP m)" "\<not> is_object_source (NBIO_STR d)" "is_object_source (NBIO_OBJ ob)"
  "is_object_source (NBIO_BLOCK_OBJ ob)" "\<not> is_object_source (NBIO_MMAP m)"
  "mapped_bytes (NBIO_STR d) = 0" "mapped_bytes (NBIO_OBJ ob) = 0" "mapped_bytes (NBIO_BLOCK_OBJ ob) = 0"
  "mapped_bytes (NBIO_MMAP m) = m_len m"
  by (simp_all add: is_string_source_def is_object_source_def mapped_bytes_def)

named_theorems nbio_defs \<open>the definitions the invariant consists of\<close>

declare nbio_ok_def [nbio_defs] counts_ok_def [nbio_defs] buf_ok_def [nbio_defs] output_ok_def [nbio_defs]
  buf_bytes_def [nbio_defs]

section \<open>Every step keeps it\<close>

lemma apply_low_ok [simp]: "nbio_ok (apply_low ob i a s) = nbio_ok s"
  by (simp add: nbio_defs apply_low_def)

lemma reset_callbacks_ok [simp]: "nbio_ok (reset_callbacks ob nb b s) = nbio_ok s"
  by (simp add: reset_callbacks_def)

lemma set_outp_write_cb_ok [simp]: "nbio_ok (set_outp_write_cb s) = nbio_ok s"
  by (simp add: set_outp_write_cb_def split: option.split)

lemma scripts_ok [simp]:
  "nbio_ok (s\<lparr>writes := ws\<rparr>) = nbio_ok s" "nbio_ok (s\<lparr>reads := rs\<rparr>) = nbio_ok s" "nbio_ok (s\<lparr>maps := ms\<rparr>) = nbio_ok s"
  "nbio_ok (s\<lparr>sent := x\<rparr>) = nbio_ok s" "nbio_ok (s\<lparr>written := w\<rparr>) = nbio_ok s" "nbio_ok (s\<lparr>calls := cs\<rparr>) = nbio_ok s"
  "nbio_ok (s\<lparr>cb := f\<rparr>) = nbio_ok s" "nbio_ok (s\<lparr>cb_args := a\<rparr>) = nbio_ok s" "nbio_ok (s\<lparr>finished_flag := b\<rparr>) = nbio_ok s"
  by (simp_all add: nbio_defs)

text \<open>Replacing the first input by one with the same share in the counters.\<close>

lemma replace_head_ok:
  assumes "nbio_ok s" "inputs s = inp # rest" "i_source inp' = i_source inp" "input_ok inp'"
  shows "nbio_ok (s\<lparr>inputs := inp' # rest\<rparr>)"
  using assms by (simp add: nbio_defs)

lemma mode_ok [simp]: "input_ok (i\<lparr>i_mode := m\<rparr>) = input_ok i"
  by (simp add: input_ok_def map_ok_def split: source.split)

lemma free_input_ok:
  assumes "nbio_ok s"
  shows "nbio_ok (free_input s)"
proof (cases "inputs s")
  case Nil
  then show ?thesis using assms by (simp add: free_input_def)
next
  case (Cons inp rest)
  let ?s = "(release_source inp (set_stats (\<lambda>t. t\<lparr>ninputs := ninputs t - 1\<rparr>) s))\<lparr>inputs := rest\<rparr>"
  have ok: "nbio_ok ?s"
    using assms Cons by (cases "i_source inp") (simp_all add: nbio_defs release_source_def set_stats_def reset_callbacks_def apply_low_def)
  have "nbio_ok (wake_input nxt ob later ?s)" if "rest = nxt # later" for nxt ob later
    using ok that by (simp add: wake_input_def apply_low_def nbio_defs)
  with ok show ?thesis by (auto simp: free_input_def Cons Let_def split: list.split source.split)
qed

lemma free_inputs_ok: "nbio_ok s \<Longrightarrow> nbio_ok (free_inputs s)"
proof -
  have "nbio_ok s \<Longrightarrow> nbio_ok ((free_input ^^ n) s)" for n
    by (induction n) (simp_all add: free_input_ok)
  then show "nbio_ok s \<Longrightarrow> nbio_ok (free_inputs s)" by (simp add: free_inputs_def)
qed

lemma inputs_free_inputs [simp]: "inputs (free_inputs s) = []"
proof -
  have "length (inputs ((free_input ^^ n) s)) = length (inputs s) - n" for n by (induction n) simp_all
  from this [of "length (inputs s)"] show ?thesis by (simp add: free_inputs_def)
qed

lemma free_output_ok: "nbio_ok s \<Longrightarrow> nbio_ok (free_output s)"
  by (auto simp: free_output_def reset_callbacks_def apply_low_def set_stats_def nbio_defs split: option.splits)

lemma finished_ok: "nbio_ok s \<Longrightarrow> nbio_ok (finished s)"
  using free_output_ok [OF free_inputs_ok [of "s\<lparr>finished_flag := True\<rparr>"]]
  by (simp add: finished_def Let_def split: option.split)

lemma alloc_data_buf_ok:
  "nbio_ok s \<Longrightarrow> buf_pos s + buf_len s \<le> n \<Longrightarrow> nbio_ok (alloc_data_buf n s)"
  by (auto simp: alloc_data_buf_def set_stats_def nbio_defs split: option.splits)

lemma free_data_buf_ok: "nbio_ok s \<Longrightarrow> buf_len s = 0 \<Longrightarrow> nbio_ok ((free_data_buf s)\<lparr>buf_pos := 0\<rparr>)"
  by (auto simp: free_data_buf_def set_stats_def nbio_defs split: option.splits)

section \<open>Calls that may fail\<close>

text \<open>A call that keeps the invariant, does not leave its bounds, and whose result is described by \<open>Q\<close>.\<close>

definition leaves :: "nbio \<times> 'a res \<Rightarrow> ('a \<Rightarrow> nbio \<Rightarrow> bool) \<Rightarrow> bool" where
  "leaves c Q \<longleftrightarrow> nbio_ok (fst c) \<and> (case snd c of Inl e \<Rightarrow> e \<noteq> Out_of_bounds | Inr a \<Rightarrow> Q a (fst c))"

lemma leaves_simps [simp]:
  "leaves (s, Inl e) Q \<longleftrightarrow> nbio_ok s \<and> e \<noteq> Out_of_bounds" "leaves (s, Inr a) Q \<longleftrightarrow> nbio_ok s \<and> Q a s"
  by (simp_all add: leaves_def)

lemma leaves_weaken: "leaves c Q \<Longrightarrow> (\<And>a s. nbio_ok s \<Longrightarrow> Q a s \<Longrightarrow> R a s) \<Longrightarrow> leaves c R"
  by (auto simp: leaves_def split: sum.splits)

lemma leaves_and_then:
  "leaves c Q \<Longrightarrow> (\<And>a s. nbio_ok s \<Longrightarrow> Q a s \<Longrightarrow> leaves (k a s) R) \<Longrightarrow> leaves (and_then c k) R"
  by (cases c; cases "snd c") auto

lemma leaves_lift: "nbio_ok s \<Longrightarrow> r = Inr a \<Longrightarrow> Q a s \<Longrightarrow> leaves (lift_res r s) Q"
  by (simp add: lift_res_def)

lemma new_string_leaves:
  assumes "nbio_ok s" "x \<noteq> []" "n = 0 \<or> n = int (length x)"
  shows "leaves (new_input (In_string x) n first s) (\<lambda>_ _. True)"
  using assms by (auto simp: new_input_def add_input_def new_string_def set_stats_def nbio_defs input_ok_def)

lemma copy_to_buf_leaves:
  assumes "nbio_ok s" "0 \<le> pos" "pos + int (length x) \<le> buf_size s"
  shows "leaves (copy_to_buf pos x s)
    (\<lambda>_ t. inputs t = inputs s \<and> outp t = outp s \<and> buf_len t = buf_len s \<and> buf_pos t = buf_pos s \<and> buf_size t = buf_size s)"
proof -
  have "length (take (nat pos) d @ x @ drop (nat pos + length x) d) = length d" if "pos + int (length x) \<le> int (length d)" for d
    using that assms(2) by auto
  then show ?thesis using assms by (cases x) (auto simp: copy_to_buf_def nbio_defs split: option.splits)
qed

lemma do_write_leaves:
  assumes "nbio_ok s" "outp s \<noteq> None"
  shows "leaves (do_write x s)
    (\<lambda>w t. (w = - 1 \<and> inputs t = [] \<and> outp t = None) \<or>
      (0 \<le> w \<and> w \<le> int (length x) \<and> inputs t = inputs s \<and> outp t = outp s \<and> buf_len t = buf_len s \<and>
       buf_pos t = buf_pos s \<and> nb_buf t = nb_buf s \<and> buf_size t = buf_size s))"
proof -
  obtain ou where ou: "outp s = Some ou" using assms(2) by blast
  then have fd: "ofd (o_obj ou) \<noteq> - 1" using assms(1) by (simp add: nbio_defs)
  have gone: "inputs (finished t) = []" "outp (finished t) = None" for t
    by (auto simp: finished_def Let_def free_output_def reset_callbacks_def set_stats_def split: option.splits)
  have "nbio_ok (finished (s\<lparr>writes := ws\<rparr>))" for ws using assms(1) by (simp add: finished_ok)
  then show ?thesis using assms(1) ou fd gone
    by (auto simp: do_write_def Let_def split: prod.split)
qed

section \<open>Reading\<close>

text \<open>The part of the state the read functions leave alone, and an empty read buffer.\<close>

definition idle_buf :: "nbio \<Rightarrow> bool" where
  "idle_buf s \<longleftrightarrow> nbio_ok s \<and> buf_len s = 0"

lemma free_input_fields [simp]:
  "outp (free_input s) = outp s" "buf_len (free_input s) = buf_len s" "buf_pos (free_input s) = buf_pos s"
  "nb_buf (free_input s) = nb_buf s" "buf_size (free_input s) = buf_size s"
  by (auto simp: free_input_def release_source_def set_stats_def reset_callbacks_def wake_input_def apply_low_def Let_def
      split: list.splits source.splits)

lemma advance_0: "inputs s = inp # rest \<Longrightarrow> advance_head 0 n s = s\<lparr>inputs := inp\<lparr>i_pos := i_pos inp + n\<rparr> # rest\<rparr>"
  by (simp add: advance_head_def)

lemma free_input_same_sources:
  assumes "nbio_ok s" "inputs s = inp # rest" "i_source inp' = i_source inp"
  shows "nbio_ok (free_input (s\<lparr>inputs := inp' # rest\<rparr>))"
proof -
  let ?t = "s\<lparr>inputs := inp' # rest\<rparr>"
  let ?r = "(release_source inp' (set_stats (\<lambda>t. t\<lparr>ninputs := ninputs t - 1\<rparr>) ?t))\<lparr>inputs := rest\<rparr>"
  have ok: "nbio_ok ?r"
    using assms by (cases "i_source inp") (simp_all add: nbio_defs release_source_def set_stats_def reset_callbacks_def apply_low_def)
  have "nbio_ok (wake_input nxt ob later ?r)" if "rest = nxt # later" for nxt ob later
    using ok that by (simp add: wake_input_def apply_low_def nbio_defs)
  with ok show ?thesis by (auto simp: free_input_def Let_def split: list.split source.split)
qed

lemma next_read_ok [simp]: "nbio_ok s \<Longrightarrow> nbio_ok (snd (next_read s))"
  by (simp add: next_read_def split: list.split)

lemma next_read_fields:
  "next_read s = (r, t) \<Longrightarrow> inputs t = inputs s \<and> outp t = outp s \<and> buf_len t = buf_len s \<and> buf_pos t = buf_pos s \<and>
     buf_size t = buf_size s \<and> nb_buf t = nb_buf s"
  by (auto simp: next_read_def split: list.splits)

lemma after_read_leaves:
  assumes "nbio_ok s" "inputs s = inp # rest" "i_source inp = NBIO_BLOCK_OBJ ob" "buf_len s = 0" "buf_pos s = 0"
    and "0 \<le> n" "n \<le> buf_size s" "i_len inp = - 1 \<or> i_pos inp + n \<le> i_len inp"
  shows "leaves (after_read inp n s) (\<lambda>r t. outp t = outp s)"
proof -
  let ?inp = "inp\<lparr>i_pos := i_pos inp + n\<rparr>"
  have "nbio_ok (s\<lparr>inputs := ?inp # rest\<rparr>)"
    using assms by (intro replace_head_ok) (auto simp: input_ok_def)
  then have a: "nbio_ok ((s\<lparr>inputs := ?inp # rest\<rparr>)\<lparr>buf_len := n\<rparr>)" using assms(4-7) by (simp add: nbio_defs)
  have "nbio_ok (free_input (s\<lparr>inputs := ?inp # rest\<rparr>))" using assms(1-3) by (intro free_input_same_sources) auto
  then have b: "nbio_ok ((free_input (s\<lparr>inputs := ?inp # rest\<rparr>))\<lparr>buf_len := n\<rparr>)" using assms(4-7) by (simp add: nbio_defs)
  show ?thesis using a b free_input_ok [OF assms(1)]
    by (auto simp: after_read_def advance_0 [OF assms(2)] Let_def)
qed

definition read_result :: "nbio \<Rightarrow> int option \<Rightarrow> nbio \<Rightarrow> bool" where
  "read_result s r t \<longleftrightarrow> outp t = outp s \<and> (r = None \<or> r = Some (- 1) \<or> r = Some (- 2) \<or> r = Some (- 3) \<longrightarrow> buf_len t = 0)"

lemma prepare_buf_ok:
  assumes "nbio_ok s" "buf_len s = 0" "buf_pos s = 0" "0 \<le> n"
  shows "nbio_ok (prepare_buf n s) \<and> outp (prepare_buf n s) = outp s \<and> buf_len (prepare_buf n s) = 0 \<and>
    buf_pos (prepare_buf n s) = 0 \<and> n \<le> buf_size (prepare_buf n s)"
proof -
  have "outp (alloc_data_buf n s) = outp s \<and> buf_len (alloc_data_buf n s) = 0 \<and> buf_pos (alloc_data_buf n s) = 0 \<and>
      buf_size (alloc_data_buf n s) = n"
    using assms by (simp add: alloc_data_buf_def set_stats_def split: option.split)
  then show ?thesis using assms alloc_data_buf_ok [of s n] by (auto simp: prepare_buf_def)
qed

lemma read_fd_leaves:
  assumes "nbio_ok s" "inputs s = inp # rest" "i_source inp = NBIO_BLOCK_OBJ ob" "ofd ob \<noteq> - 1" "buf_len s = 0" "buf_pos s = 0"
  shows "leaves (read_fd inp s) (read_result s)"
proof -
  let ?n = "bytes_wanted inp"
  have "i_len inp = - 1 \<or> i_pos inp \<le> i_len inp" using assms(1-4) by (auto simp: nbio_defs input_ok_def)
  then have n: "0 \<le> ?n" "i_len inp = - 1 \<or> i_pos inp + ?n \<le> i_len inp"
    by (auto simp: bytes_wanted_def READ_BUFFER_SIZE_def)
  note p = prepare_buf_ok [OF assms(1,5,6) n(1)]
  obtain r t where t: "next_read (prepare_buf ?n s) = (r, t)" by fastforce
  have ok: "nbio_ok t" using next_read_ok [of "prepare_buf ?n s"] p t by simp
  have f: "inputs t = inp # rest" "outp t = outp s" "buf_len t = 0" "buf_pos t = 0" "?n \<le> buf_size t"
    using next_read_fields [OF t] p assms(2) by simp_all
  have store: "leaves (store_read inp x t) (read_result s)" if "int (length x) \<le> ?n" for x
    unfolding store_read_def
  proof (rule leaves_and_then [OF copy_to_buf_leaves [OF ok]])
    fix a u
    assume "nbio_ok u" "inputs u = inputs t \<and> outp u = outp t \<and> buf_len u = buf_len t \<and> buf_pos u = buf_pos t \<and> buf_size u = buf_size t"
    then have "leaves (after_read inp (int (length x)) u) (\<lambda>r v. outp v = outp u)" "outp u = outp s"
      using f that n(2) after_read_leaves [of u inp rest ob "int (length x)"] assms(3) by auto
    moreover have "snd (after_read inp (int (length x)) u) = Inr (Some (int (length x)))"
      by (simp add: after_read_def Let_def)
    ultimately show "leaves (after_read inp (int (length x)) u) (read_result s)"
      by (cases "after_read inp (int (length x)) u") (simp add: read_result_def)
  qed (use that f in auto)
  have len: "int (length (take (nat ?n) x)) \<le> ?n" for x using n(1) by simp
  show ?thesis using n(1) t ok f store [OF len] free_input_ok [OF ok]
    by (cases r) (auto simp: read_fd_def read_result_def)
qed

lemma read_fake_leaves:
  assumes "nbio_ok s" "inputs s = inp # rest" "i_source inp = NBIO_BLOCK_OBJ ob" "ofd ob = - 1" "buf_len s = 0"
  shows "leaves (read_fake inp s) (read_result s)"
proof -
  obtain r t where t: "next_read s = (r, t)" by fastforce
  have ok: "nbio_ok t" using next_read_ok [of s] assms(1) t by simp
  have f: "inputs t = inp # rest" "outp t = outp s" "buf_len t = 0" using next_read_fields [OF t] assms by simp_all
  have "nbio_ok (advance_head 1 n (fst (new_input (In_string x) 0 True t)))"
    and "outp (advance_head 1 n (fst (new_input (In_string x) 0 True t))) = outp s"
    and "buf_len (advance_head 1 n (fst (new_input (In_string x) 0 True t))) = 0" if "x \<noteq> []" for x n
    using ok f assms(3,4) that
    by (auto simp: new_input_def add_input_def set_stats_def advance_head_def nbio_defs input_ok_def new_string_def)
  then show ?thesis using t f ok free_input_ok [OF ok] free_input_ok [OF assms(1)] assms(5)
    by (cases r) (auto simp: read_fake_def read_result_def)
qed

lemma read_once_leaves:
  assumes "nbio_ok s" "buf_len s = 0"
  shows "leaves (read_once s) (read_result s)"
proof -
  let ?s = "s\<lparr>buf_pos := 0\<rparr>"
  have ok: "nbio_ok ?s" using assms by (simp add: nbio_defs)
  have r: "read_result ?s = read_result s" by (rule ext)+ (simp add: read_result_def)
  show ?thesis
  proof (cases "inputs s")
    case Nil
    then show ?thesis using ok assms by (simp add: read_once_def read_result_def)
  next
    case (Cons inp rest)
    then show ?thesis using ok assms read_fd_leaves [OF ok, of inp rest] read_fake_leaves [OF ok, of inp rest] r
      by (auto simp: read_once_def read_result_def Let_def split: source.split)
  qed
qed

lemma read_data_leaves:
  "nbio_ok s \<Longrightarrow> buf_len s = 0 \<Longrightarrow> leaves (read_data s) (\<lambda>n. read_result s (Some n))"
proof (induction s rule: read_data.induct)
  case (1 s)
  obtain t r where t: "read_once s = (t, r)" by fastforce
  note l = read_once_leaves [OF 1(2,3)]
  show ?case
  proof (cases r)
    case (Inl e)
    then show ?thesis using l t by (simp add: read_data.simps [of s])
  next
    case (Inr q)
    show ?thesis
    proof (cases q)
      case None
      then have "nbio_ok t" "buf_len t = 0" "outp t = outp s" using l t Inr by (simp_all add: read_result_def)
      then show ?thesis using 1(1) [OF t [symmetric] Inr None] t Inr None
        by (simp add: read_data.simps [of s] read_result_def)
    next
      case (Some n)
      then show ?thesis using l t Inr by (simp add: read_data.simps [of s])
    qed
  qed
qed

section \<open>Sending\<close>

lemma after_write_leaves: "nbio_ok s \<Longrightarrow> leaves (after_write w s) (\<lambda>_ _. True)"
  by (simp add: after_write_def finished_ok)

lemma set_outp_write_cb_inputs [simp]: "inputs (set_outp_write_cb s) = inputs s"
  by (simp add: set_outp_write_cb_def split: option.split)

lemma send_input_leaves:
  assumes "nbio_ok s" "outp s \<noteq> None" "inputs s = inp # rest"
    and "\<And>w. 0 \<le> w \<Longrightarrow> w \<le> int (length x) \<Longrightarrow> i_pos inp + w \<noteq> i_len inp \<Longrightarrow> input_ok (inp\<lparr>i_pos := i_pos inp + w\<rparr>)"
  shows "leaves (send_input inp x s) (\<lambda>_ _. True)"
  unfolding send_input_def
proof (rule leaves_and_then [OF do_write_leaves [OF assms(1,2)]], goal_cases)
  case (1 w t)
  show ?case
  proof (cases "w < 0")
    case False
    then have t: "inputs t = inp # rest" "w \<le> int (length x)" using 1(2) assms(3) by auto
    let ?t = "t\<lparr>inputs := inp\<lparr>i_pos := i_pos inp + w\<rparr> # rest\<rparr>"
    have "nbio_ok ?t" if "i_pos inp + w \<noteq> i_len inp"
      using replace_head_ok [OF 1(1) t(1)] assms(4) [OF _ t(2) that] False by simp
    moreover have "nbio_ok (free_input ?t)" by (rule free_input_same_sources [OF 1(1) t(1)]) simp
    ultimately show ?thesis using False
      by (auto simp: advance_0 [OF t(1)] Let_def intro!: after_write_leaves)
  qed (use 1 in simp)
qed

definition can_go_on :: "bool \<Rightarrow> nbio \<Rightarrow> bool" where
  "can_go_on again s \<longleftrightarrow> (again \<longrightarrow> outp s \<noteq> None)"

lemma after_write_go_on: "nbio_ok s \<Longrightarrow> leaves (after_write w s) can_go_on"
  by (simp add: after_write_def finished_ok can_go_on_def)

lemma leaves_true_go_on: "leaves c (\<lambda>_ _. True) \<Longrightarrow> (\<And>t. c \<noteq> (t, Inr True)) \<Longrightarrow> leaves c can_go_on"
  by (cases c; cases "snd c") (auto simp: can_go_on_def)

lemma buf_bytes_leaves:
  "nbio_ok s \<Longrightarrow> p = 0 \<or> p = buf_pos s \<Longrightarrow>
     leaves (lift_res (bytes_of (buf_bytes s) p (buf_len s)) s) (\<lambda>x t. t = s \<and> int (length x) = buf_len s)"
  by (auto simp: lift_res_def bytes_of_def nbio_defs length_substr)

lemma send_block_leaves:
  assumes "nbio_ok s" "outp s \<noteq> None" "buf_len s = 0"
  shows "leaves (send_block s) can_go_on"
  unfolding send_block_def
proof (rule leaves_and_then [OF read_data_leaves [OF assms(1,3)]], goal_cases)
  case (1 n t)
  have out: "outp t \<noteq> None" using 1(2) assms(2) by (simp add: read_result_def)
  have "leaves (and_then (lift_res (bytes_of (buf_bytes t) 0 (buf_len t)) t) (\<lambda>x s.
         and_then (do_write x s) (\<lambda>w s.
           after_write w
             (if w \<ge> 0 then set_outp_write_cb (s\<lparr>buf_len := buf_len s - w, buf_pos := buf_pos s + w\<rparr>) else s)))) can_go_on"
  proof (rule leaves_and_then [OF buf_bytes_leaves [OF 1(1)]], simp, goal_cases)
    case (1 x u)
    then have u: "nbio_ok u" "outp u \<noteq> None" "int (length x) = buf_len u" using out by simp_all
    show ?case
    proof (rule leaves_and_then [OF do_write_leaves [OF u(1,2)]], goal_cases)
      case (1 w v)
      have "nbio_ok (v\<lparr>buf_len := buf_len v - w, buf_pos := buf_pos v + w\<rparr>)" if "0 \<le> w"
        using 1 that u(3) by (auto simp: nbio_defs)
      with 1(1) show ?case by (auto intro!: after_write_go_on)
    qed
  qed
  then show ?case using 1(1) out by (simp add: can_go_on_def finished_ok)
qed

text \<open>A file that loses its mapping.\<close>

lemma unmapped_ok:
  assumes "nbio_ok s" "inputs s = inp # rest" "i_source inp = NBIO_MMAP m" "ofd (m_file m) \<noteq> - 1"
    and "t = (set_stats (\<lambda>t. t\<lparr>mmapped := mmapped t - m_len m\<rparr>) s)\<lparr>maps := ms\<rparr>"
  shows "nbio_ok (t\<lparr>outp := map_option (\<lambda>ou. ou\<lparr>o_mode := md\<rparr>) (outp t), failovers := failovers t + 1,
      inputs := inp\<lparr>i_source := NBIO_BLOCK_OBJ (m_file m), i_nb := 0, i_b := 0\<rparr> # rest\<rparr>)" (is ?block)
    and "map_ok inp m' \<Longrightarrow>
      nbio_ok ((set_stats (\<lambda>t. t\<lparr>mmapped := mmapped t + m_len m'\<rparr>) t)\<lparr>inputs := inp\<lparr>i_source := NBIO_MMAP m'\<rparr> # rest\<rparr>)"
proof -
  have i: "i_pos inp \<le> i_len inp" using assms(1-3) by (simp add: nbio_defs input_ok_def map_ok_def)
  show ?block using assms i by (auto simp: nbio_defs set_stats_def input_ok_def)
  show "nbio_ok ((set_stats (\<lambda>t. t\<lparr>mmapped := mmapped t + m_len m'\<rparr>) t)\<lparr>inputs := inp\<lparr>i_source := NBIO_MMAP m'\<rparr> # rest\<rparr>)"
    if "map_ok inp m'" using assms that by (auto simp: nbio_defs set_stats_def input_ok_def map_ok_def)
qed

lemma mmap_failover_leaves:
  assumes "nbio_ok s" "inputs s = inp # rest" "i_source inp = NBIO_MMAP m" "outp s \<noteq> None" "buf_len s = 0"
    and "t = (set_stats (\<lambda>t. t\<lparr>mmapped := mmapped t - m_len m\<rparr>) s)\<lparr>maps := ms\<rparr>"
  shows "leaves (mmap_failover inp (m_file m) t) can_go_on"
proof -
  obtain ou where ou: "outp t = Some ou" "inputs t = inp # rest" "buf_len t = 0" using assms by (auto simp: set_stats_def)
  have fd: "ofd (m_file m) \<noteq> - 1" using assms(1-3) by (simp add: nbio_defs input_ok_def map_ok_def)
  note u = unmapped_ok [OF assms(1-3) fd assms(6)]
  have "leaves (send_block (t\<lparr>outp := Some (ou\<lparr>o_mode := IDLE\<rparr>), failovers := failovers t + 1,
      inputs := inp\<lparr>i_source := NBIO_BLOCK_OBJ (m_file m), i_nb := 0, i_b := 0\<rparr> # rest\<rparr>)) can_go_on"
    using u(1) [of IDLE] ou by (intro send_block_leaves) auto
  then show ?thesis using ou by (simp add: mmap_failover_def set_out_mode_def)
qed

lemma send_mapped_leaves:
  assumes "nbio_ok s" "outp s \<noteq> None" "inputs s = inp # rest" "i_source inp = NBIO_MMAP m"
  shows "leaves (send_mapped inp m s) can_go_on"
proof -
  have m: "map_ok inp m" using assms(1,3,4) by (simp add: nbio_defs input_ok_def)
  then have "leaves (lift_res (bytes_of (m_data m) (i_pos inp - m_start m) (m_end m - i_pos inp)) s)
      (\<lambda>x t. t = s \<and> int (length x) = m_end m - i_pos inp)"
    using assms(1) by (auto simp: map_ok_def lift_res_def bytes_of_def length_substr)
  then have "leaves (send_mapped inp m s) (\<lambda>_ _. True)"
    unfolding send_mapped_def
  proof (rule leaves_and_then, goal_cases)
    case (1 x t)
    have "input_ok (inp\<lparr>i_pos := i_pos inp + w\<rparr>)" if "0 \<le> w" "w \<le> int (length x)" "i_pos inp + w \<noteq> i_len inp" for w
      using that 1(2) m assms(4) by (simp add: input_ok_def map_ok_def)
    then show ?case using 1 assms(2,3) by (intro send_input_leaves) auto
  qed
  then show ?thesis by (rule leaves_true_go_on) (auto dest: send_mapped_ends)
qed

lemma try_mmap_cases:
  assumes "try_mmap ob c st n s = (r, t)"
  shows "\<exists>ms. t = s\<lparr>maps := ms\<rparr> \<and> (r = None \<or> (0 < n \<and>
    r = Some \<lparr>m_file = ob, m_data = substr c (nat st) (nat n), m_start = st, m_end = st + n, m_len = n\<rparr>))"
  using assms by (auto simp: try_mmap_def next_map_def split: if_splits)

lemma send_mmap_leaves:
  assumes "nbio_ok s" "outp s \<noteq> None" "inputs s = inp # rest" "i_source inp = NBIO_MMAP m" "buf_len s = 0"
  shows "leaves (send_mmap inp m s) can_go_on"
proof (cases "m_end m - i_pos inp = 0")
  case False
  then show ?thesis using send_mapped_leaves [OF assms(1-4)] by (simp add: send_mmap_def)
next
  case True
  let ?len = "min (i_len inp - i_pos inp) MAX_MMAP_SIZE"
  let ?s = "set_stats (\<lambda>t. t\<lparr>mmapped := mmapped t - m_len m\<rparr>) s"
  have m: "map_ok inp m" using assms(1,3,4) by (simp add: nbio_defs input_ok_def)
  obtain r t where t: "try_mmap (m_file m) (file_bytes (m_file m)) (i_pos inp) ?len ?s = (r, t)" by fastforce
  then obtain ms where ms: "t = ?s\<lparr>maps := ms\<rparr>" using try_mmap_cases by blast
  show ?thesis
  proof (cases r)
    case None
    then show ?thesis using True t mmap_failover_leaves [OF assms(1,3,4,2,5) ms] by (simp add: send_mmap_def)
  next
    case (Some m')
    then have m': "m' = \<lparr>m_file = m_file m, m_data = substr (file_bytes (m_file m)) (nat (i_pos inp)) (nat ?len),
        m_start = i_pos inp, m_end = i_pos inp + ?len, m_len = ?len\<rparr>" "0 < ?len"
      using try_mmap_cases [OF t] by auto
    then have ok': "map_ok inp m'" using m by (auto simp: map_ok_def)
    let ?t = "(set_stats (\<lambda>t. t\<lparr>mmapped := mmapped t + ?len\<rparr>) t)\<lparr>inputs := inp\<lparr>i_source := NBIO_MMAP m'\<rparr> # rest\<rparr>"
    have "nbio_ok ?t" using unmapped_ok(2) [OF assms(1,3,4) _ ms ok'] m m' by (simp add: map_ok_def)
    then have "leaves (send_mapped (inp\<lparr>i_source := NBIO_MMAP m'\<rparr>) m' ?t) can_go_on"
      using assms(2) ms by (intro send_mapped_leaves) (auto simp: set_stats_def)
    moreover have "inputs t = inp # rest" using ms assms(3) by (simp add: set_stats_def)
    ultimately show ?thesis using True t Some by (simp add: send_mmap_def Let_def)
  qed
qed

lemma wait_for_input_leaves:
  assumes "nbio_ok s" "outp s \<noteq> None" "inputs s = inp # rest"
  shows "leaves (wait_for_input inp ob s) can_go_on"
proof -
  obtain ou where ou: "outp s = Some ou" using assms(2) by blast
  have "nbio_ok (s\<lparr>outp := Some (ou\<lparr>o_mode := IDLE\<rparr>)\<rparr>)" using assms(1) ou by (simp add: nbio_defs)
  moreover have "nbio_ok (wake_input inp ob rest (s\<lparr>outp := Some (ou\<lparr>o_mode := IDLE\<rparr>)\<rparr>))"
    using assms ou by (simp add: nbio_defs wake_input_def apply_low_def)
  ultimately show ?thesis using ou assms(3) by (simp add: wait_for_input_def set_out_mode_def can_go_on_def)
qed

lemma send_first_leaves:
  assumes "nbio_ok s" "outp s \<noteq> None" "buf_len s = 0"
  shows "leaves (send_first s) can_go_on"
proof (cases "inputs s")
  case Nil
  then show ?thesis using finished_ok [OF assms(1)] by (simp add: send_first_def can_go_on_def)
next
  case (Cons inp rest)
  show ?thesis
  proof (cases "i_source inp")
    case (NBIO_STR d)
    then have d: "0 \<le> i_pos inp" "i_pos inp < i_len inp" "i_len inp = int (length d)"
      using assms(1) Cons by (simp_all add: nbio_defs input_ok_def)
    then obtain x where x: "bytes_of d (i_pos inp) (i_len inp - i_pos inp) = Inr x" "int (length x) = i_len inp - i_pos inp"
      by (simp add: bytes_of_def length_substr)
    have "leaves (send_input inp x s) (\<lambda>_ _. True)"
      using assms(1,2) Cons by (rule send_input_leaves) (use x(2) d NBIO_STR in \<open>simp add: input_ok_def\<close>)
    then have "leaves (send_input inp x s) can_go_on" by (rule leaves_true_go_on) (auto dest: send_input_ends)
    then show ?thesis using Cons NBIO_STR x(1) by (simp add: send_first_def lift_res_def)
  next
    case (NBIO_OBJ ob)
    then show ?thesis using wait_for_input_leaves [OF assms(1,2) Cons] Cons by (simp add: send_first_def)
  next
    case (NBIO_BLOCK_OBJ ob)
    then show ?thesis using send_block_leaves [OF assms] Cons by (simp add: send_first_def)
  next
    case (NBIO_MMAP m)
    then show ?thesis using send_mmap_leaves [OF assms(1,2) Cons _ assms(3)] Cons by (simp add: send_first_def)
  qed
qed

lemma write_once_leaves:
  assumes "nbio_ok s" "outp s \<noteq> None"
  shows "leaves (write_once s) can_go_on"
proof (cases "buf_len s = 0")
  case True
  then show ?thesis using send_first_leaves assms by (simp add: write_once_def)
next
  case False
  have "leaves (and_then (lift_res (bytes_of (buf_bytes s) (buf_pos s) (buf_len s)) s) (\<lambda>x s.
        and_then (do_write x s) (\<lambda>w s.
          if w = - 1 \<or> w = 0 then (set_outp_write_cb s, Inr False)
          else (let s = s\<lparr>buf_len := buf_len s - w, buf_pos := buf_pos s + w\<rparr>
                in if buf_len s \<noteq> 0 then (set_outp_write_cb s, Inr False)
                   else send_first (s\<lparr>buf_pos := 0, buf_len := 0\<rparr>))))) can_go_on"
  proof (rule leaves_and_then [OF buf_bytes_leaves [OF assms(1)]], simp, goal_cases)
    case (1 x u)
    then have u: "nbio_ok u" "outp u \<noteq> None" "int (length x) = buf_len u" using assms(2) by simp_all
    show ?case
    proof (rule leaves_and_then [OF do_write_leaves [OF u(1,2)]], goal_cases)
      case (1 w v)
      let ?v = "v\<lparr>buf_len := buf_len v - w, buf_pos := buf_pos v + w\<rparr>"
      have "nbio_ok ?v \<and> nbio_ok (v\<lparr>buf_pos := 0, buf_len := 0\<rparr>) \<and> outp v \<noteq> None" if "0 \<le> w"
        using 1 that u(2,3) by (auto simp: nbio_defs)
      with 1 show ?case using send_first_leaves [of "v\<lparr>buf_pos := 0, buf_len := 0\<rparr>"]
        by (auto simp: can_go_on_def Let_def)
    qed
  qed
  with False show ?thesis by (simp add: write_once_def)
qed

lemma output_write_cb_leaves: "nbio_ok s \<Longrightarrow> outp s \<noteq> None \<Longrightarrow> leaves (output_write_cb s) (\<lambda>_ _. True)"
proof (induction s rule: output_write_cb.induct)
  case (1 s)
  obtain t r where t: "write_once s = (t, r)" by fastforce
  note l = write_once_leaves [OF 1(2,3)]
  show ?case
  proof (cases r)
    case (Inl e)
    then show ?thesis using l t by (simp add: output_write_cb.simps [of s])
  next
    case (Inr again)
    then show ?thesis using 1(1) [OF t [symmetric] Inr] l t
      by (auto simp: output_write_cb.simps [of s] can_go_on_def)
  qed
qed

section \<open>The read callback and the methods\<close>

lemma make_room_ok:
  assumes "nbio_ok s" "0 \<le> n"
  shows "nbio_ok (make_room n s) \<and> buf_pos s + buf_len s + n \<le> buf_size (make_room n s) \<and> inputs (make_room n s) = inputs s \<and>
    outp (make_room n s) = outp s \<and> buf_pos (make_room n s) = buf_pos s \<and> buf_len (make_room n s) = buf_len s"
proof -
  have b: "0 \<le> buf_pos s" "0 \<le> buf_len s" "buf_pos s + buf_len s \<le> buf_size s" using assms(1) by (simp_all add: nbio_defs)
  have f: "inputs (alloc_data_buf k s) = inputs s" "outp (alloc_data_buf k s) = outp s" "buf_pos (alloc_data_buf k s) = buf_pos s"
    "buf_len (alloc_data_buf k s) = buf_len s" "buf_size (alloc_data_buf k s) = k" for k
    by (simp_all add: alloc_data_buf_def set_stats_def split: option.split)
  show ?thesis using assms b f alloc_data_buf_ok [OF assms(1)] by (auto simp: make_room_def Let_def)
qed

lemma buffer_data_leaves:
  assumes "nbio_ok s" "buf_pos s + buf_len s + int (length x) \<le> buf_size s"
  shows "leaves (buffer_data x s)
    (\<lambda>_ t. inputs t = inputs s \<and> outp t = outp s \<and> buf_pos t = buf_pos s \<and> buf_len t = buf_len s + int (length x))"
proof -
  have "0 \<le> buf_pos s + buf_len s" using assms(1) by (simp add: nbio_defs)
  from leaves_and_then [OF copy_to_buf_leaves [OF assms(1) this assms(2)]] show ?thesis
    using assms by (auto simp: buffer_data_def nbio_defs intro!: leaves_and_then [OF copy_to_buf_leaves [OF assms(1) _ assms(2)]])
qed

text \<open>
  What the backend may do, with regular files read from inside and outputs that are descriptors: the
  read callback is called for an input object in front of the queue, with an output. A read that
  completes its input and fills the buffer beyond its normal size is one of them, and is told apart.
\<close>

definition read_offered :: "nbio \<Rightarrow> bool" where
  "read_offered s \<longleftrightarrow> (case inputs s of [] \<Rightarrow> True | inp # _ \<Rightarrow> (\<exists>ob. i_source inp = NBIO_OBJ ob) \<and> outp s \<noteq> None)"

definition overfull_read :: "string \<Rightarrow> nbio \<Rightarrow> bool" where
  "overfull_read str s \<longleftrightarrow>
     (case inputs s of
        [] \<Rightarrow> False
      | inp # _ \<Rightarrow> read_all inp (int (length str)) \<and>
          READ_BUFFER_SIZE < buf_pos s + buf_len s + wanted inp (int (length str)))"

definition read_allowed :: "string \<Rightarrow> nbio \<Rightarrow> bool" where
  "read_allowed str s \<longleftrightarrow> read_offered s \<and> \<not> overfull_read str s"

fun op_offered :: "op \<Rightarrow> nbio \<Rightarrow> bool" where
  "op_offered (Op_input ob len) s \<longleftrightarrow>
     - 1 \<le> len \<and> (case regular ob of None \<Rightarrow> True | Some (filep, contents) \<Rightarrow> filep \<le> length contents)"
| "op_offered (Op_write str) s \<longleftrightarrow> True"
| "op_offered (Op_output ob) s \<longleftrightarrow> ofd ob \<noteq> - 1"
| "op_offered (Op_done args) s \<longleftrightarrow> True"
| "op_offered Op_write_cb s \<longleftrightarrow> outp s \<noteq> None"
| "op_offered (Op_read_cb str) s \<longleftrightarrow> read_offered s"
| "op_offered Op_close_cb s \<longleftrightarrow> True"

fun overfull :: "op \<Rightarrow> nbio \<Rightarrow> bool" where
  "overfull (Op_read_cb str) s \<longleftrightarrow> overfull_read str s"
| "overfull _ s \<longleftrightarrow> False"

definition op_allowed :: "op \<Rightarrow> nbio \<Rightarrow> bool" where
  "op_allowed p s \<longleftrightarrow> op_offered p s \<and> \<not> overfull p s"

lemma op_allowed_simps [simp]:
  "op_allowed (Op_input ob len) s \<longleftrightarrow>
     - 1 \<le> len \<and> (case regular ob of None \<Rightarrow> True | Some (filep, contents) \<Rightarrow> filep \<le> length contents)"
  "op_allowed (Op_write str) s" "op_allowed (Op_output ob) s \<longleftrightarrow> ofd ob \<noteq> - 1" "op_allowed (Op_done args) s"
  "op_allowed Op_write_cb s \<longleftrightarrow> outp s \<noteq> None" "op_allowed (Op_read_cb str) s \<longleftrightarrow> read_allowed str s" "op_allowed Op_close_cb s"
  by (simp_all add: op_allowed_def read_allowed_def)

lemma read_allowed_Cons:
  "inputs s = inp # rest \<Longrightarrow> read_allowed str s \<longleftrightarrow> (\<exists>ob. i_source inp = NBIO_OBJ ob) \<and> outp s \<noteq> None \<and>
     (read_all inp (int (length str)) \<longrightarrow> buf_pos s + buf_len s + wanted inp (int (length str)) \<le> READ_BUFFER_SIZE)"
  by (auto simp: read_allowed_def read_offered_def overfull_read_def)

lemma stop_head_ok: "nbio_ok s \<Longrightarrow> nbio_ok (stop_head ob nb s) \<and> outp (stop_head ob nb s) = outp s"
  by (cases "inputs s") (auto simp: stop_head_def Let_def apply_low_def nbio_defs)

lemma wake_output_leaves:
  assumes "nbio_ok s" "outp s \<noteq> None"
  shows "leaves (wake_output s) (\<lambda>_ _. True)"
proof -
  obtain ou where ou: "outp s = Some ou" using assms(2) by blast
  have "nbio_ok (s\<lparr>outp := Some (ou\<lparr>o_mode := ACTIVE\<rparr>)\<rparr>)" using assms(1) ou by (simp add: nbio_defs)
  then show ?thesis using assms ou output_write_cb_leaves by (simp add: wake_output_def)
qed

lemma input_read_cb_leaves:
  assumes "nbio_ok s" "read_allowed str s"
  shows "leaves (input_read_cb str s) (\<lambda>_ _. True)"
proof (cases "inputs s")
  case Nil
  then show ?thesis using assms(1) by (simp add: input_read_cb_def)
next
  case (Cons inp rest)
  then obtain ob where ob: "i_source inp = NBIO_OBJ ob" and out: "outp s \<noteq> None"
    and room: "read_all inp (int (length str)) \<Longrightarrow> buf_pos s + buf_len s + wanted inp (int (length str)) \<le> READ_BUFFER_SIZE"
    using assms(2) by (auto simp: read_allowed_Cons)
  let ?k = "int (length str)"
  let ?n = "wanted inp ?k"
  let ?s = "s\<lparr>inputs := inp\<lparr>i_pos := i_pos inp + ?k\<rparr> # rest\<rparr>"
  let ?u = "if read_all inp ?k then free_input ?s else ?s"
  have pos: "i_len inp = - 1 \<or> i_pos inp \<le> i_len inp" using assms(1) Cons ob by (simp add: nbio_defs input_ok_def)
  then have n: "0 \<le> ?n" "?n \<le> ?k" by (auto simp: wanted_def read_all_def)
  have "nbio_ok ?s" if "\<not> read_all inp ?k"
    using replace_head_ok [OF assms(1) Cons, of "inp\<lparr>i_pos := i_pos inp + ?k\<rparr>"] ob that
    by (auto simp: input_ok_def read_all_def)
  moreover have "nbio_ok (free_input ?s)" using free_input_same_sources [OF assms(1) Cons] by simp
  ultimately have "nbio_ok ?u" by simp
  from make_room_ok [OF this n(1)]
  have m: "nbio_ok (make_room ?n ?u)" "outp (make_room ?n ?u) = outp s" "buf_pos (make_room ?n ?u) = buf_pos s"
    "buf_len (make_room ?n ?u) = buf_len s" "buf_pos s + buf_len s + ?n \<le> buf_size (make_room ?n ?u)"
    by auto
  have len: "int (length (take (nat ?n) str)) = ?n" using n by simp
  have "leaves (and_then (buffer_data (take (nat ?n) str) (make_room ?n ?u)) (\<lambda>_ s.
      and_then (if buf_len s + buf_pos s > READ_BUFFER_SIZE then pause_input (read_all inp ?k) inp s else (s, Inr ()))
        (\<lambda>_. wake_output))) (\<lambda>_ _. True)"
  proof (rule leaves_and_then [OF buffer_data_leaves [OF m(1)]], use m len in simp, goal_cases)
    case (1 a t)
    then have t: "outp t \<noteq> None" "buf_pos t + buf_len t = buf_pos s + buf_len s + ?n" using m len out by simp_all
    have "leaves (if buf_len t + buf_pos t > READ_BUFFER_SIZE then pause_input (read_all inp ?k) inp t else (t, Inr ()))
        (\<lambda>_ t. outp t \<noteq> None)"
      using 1(1) t room ob stop_head_ok [OF 1(1)] by (auto simp: pause_input_def)
    then show ?case by (rule leaves_and_then) (rule wake_output_leaves)
  qed
  with n(1) show ?thesis by (simp add: input_read_cb_def Cons advance_0 [OF Cons] Let_def)
qed

lemma add_input_ok:
  assumes "nbio_ok s" "input_ok inp" "\<not> is_string_source (i_source inp)" "is_object_source (i_source inp)"
  shows "nbio_ok (add_input False inp (one_object s))"
  using assms by (cases "i_source inp") (auto simp: add_input_def one_object_def set_stats_def nbio_defs)

lemma f_input_leaves:
  assumes "nbio_ok s" "op_allowed (Op_input ob len) s"
  shows "leaves (f_input ob len s) (\<lambda>_ _. True)"
proof -
  have reset: "add_input False inp (reset_callbacks q a b t) = reset_callbacks q a b (add_input False inp t)" for inp q a b t
    by (simp add: add_input_def reset_callbacks_def apply_low_def set_stats_def)
  have obj: "nbio_ok (add_input False (new_object (NBIO_OBJ ob) len 0 a b) (one_object t))" if "nbio_ok t" for a b t
    using that assms(2) by (intro add_input_ok) (auto simp: new_object_def input_ok_def)
  have blk: "nbio_ok (add_input False (new_object (NBIO_BLOCK_OBJ ob) len 0 a b) (one_object s))" if "ofd ob = - 1" for a b
    using that assms by (intro add_input_ok) (auto simp: new_object_def input_ok_def)
  show ?thesis
  proof (cases "ofd ob = - 1")
    case True
    then show ?thesis using assms(1) obj [OF assms(1)] blk
      by (auto simp: f_input_def new_input_def classify_fake_def Let_def reset)
  next
    case False
    show ?thesis
    proof (cases "regular ob")
      case None
      then show ?thesis using False assms(1) obj [OF assms(1)]
        by (auto simp: f_input_def new_input_def classify_file_def Let_def reset)
    next
      case (Some fc)
      obtain filep contents where fc: "fc = (filep, contents)" by (cases fc)
      then have le: "filep \<le> length contents" using assms(2) Some by simp
      let ?n = "map_length contents (int filep)"
      obtain r t where t: "try_mmap ob contents (int filep) ?n s = (r, t)" by fastforce
      have ok: "nbio_ok t" using try_mmap_cases [OF t] assms(1) by auto
      show ?thesis
      proof (cases r)
        case None
        then show ?thesis using False Some fc t ok obj [OF ok]
          by (auto simp: f_input_def new_input_def classify_file_def Let_def reset)
      next
        case (Some m)
        then have m: "m = \<lparr>m_file = ob, m_data = substr contents filep (nat ?n), m_start = int filep,
            m_end = int filep + ?n, m_len = ?n\<rparr>" "0 < ?n"
          using try_mmap_cases [OF t] by auto
        have "(int (length contents) - int filep) mod 2 ^ 64 \<le> int (length contents) - int filep"
          using le by (intro zmod_le_nonneg_dividend) simp
        then have "?n \<le> int (length contents) - int filep" by (simp add: map_length_def)
        then have "map_ok (new_object (NBIO_MMAP m) (int (length contents)) (int filep) (nb_id ob) (b_id ob)) m"
          using m False \<open>regular ob = Some fc\<close> fc by (simp add: map_ok_def new_object_def file_bytes_def)
        then have "nbio_ok (add_input False (new_object (NBIO_MMAP m) (int (length contents)) (int filep) (nb_id ob) (b_id ob))
            (set_stats (\<lambda>t. t\<lparr>mmapped := mmapped t + m_len m\<rparr>) t))"
          using ok by (simp add: add_input_def new_object_def set_stats_def nbio_defs input_ok_def)
        then show ?thesis using False \<open>regular ob = Some fc\<close> fc t Some
          by (simp add: f_input_def new_input_def classify_file_def Let_def reset)
      qed
    qed
  qed
qed

lemma f_output_leaves: "nbio_ok s \<Longrightarrow> ofd ob \<noteq> - 1 \<Longrightarrow> leaves (f_output ob s) (\<lambda>_ _. True)"
proof -
  assume a: "nbio_ok s" "ofd ob \<noteq> - 1"
  have "nbio_ok (free_output s)" "outp (free_output s) = None"
    using free_output_ok [OF a(1)] by (auto simp: free_output_def split: option.split)
  moreover from this have "nbio_ok ((set_stats (\<lambda>t. t\<lparr>noutputs := noutputs t + 1\<rparr>) (free_output s))
      \<lparr>outp := Some \<lparr>o_obj = ob, o_mode = ACTIVE\<rparr>\<rparr>)"
    using a(2) by (simp add: nbio_defs set_stats_def)
  ultimately show ?thesis by (simp add: f_output_def Let_def)
qed

lemma f_write_leaves: "nbio_ok s \<Longrightarrow> leaves (f_write str s) (\<lambda>_ _. True)"
  using new_string_leaves [of s str "int (length str)"] by (auto simp: f_write_def)

lemma f_set_done_callback_leaves: "nbio_ok s \<Longrightarrow> leaves (f_set_done_callback args s) (\<lambda>_ _. True)"
  by (auto simp: f_set_done_callback_def Let_def split: option.split prod.split)

lemma input_close_cb_leaves: "nbio_ok s \<Longrightarrow> leaves (input_close_cb s) (\<lambda>_ _. True)"
  by (simp add: input_close_cb_def Let_def free_input_ok finished_ok)

lemma exec_op_leaves: "nbio_ok s \<Longrightarrow> op_allowed p s \<Longrightarrow> leaves (exec_op p s) (\<lambda>_ _. True)"
  by (cases p) (simp_all add: f_input_leaves f_output_leaves f_write_leaves f_set_done_callback_leaves input_close_cb_leaves
      output_write_cb_leaves input_read_cb_leaves)

text \<open>The read that completes its input and overfills the buffer always uses the freed input.\<close>

lemma buffer_data_returns:
  assumes "nbio_ok s" "buf_pos s + buf_len s + int (length x) \<le> buf_size s"
  shows "\<exists>t. buffer_data x s = (t, Inr ())"
  using assms by (cases "x = []") (auto simp: buffer_data_def copy_to_buf_def nbio_defs split: option.splits)

lemma overfull_read_faults:
  assumes "nbio_ok s" "read_offered s" "overfull_read str s"
  shows "snd (input_read_cb str s) = Inl Out_of_bounds"
proof -
  obtain inp rest where i: "inputs s = inp # rest" using assms(3) by (cases "inputs s") (auto simp: overfull_read_def)
  let ?k = "int (length str)"
  let ?n = "wanted inp ?k"
  let ?v = "make_room ?n (free_input (s\<lparr>inputs := inp\<lparr>i_pos := i_pos inp + ?k\<rparr> # rest\<rparr>))"
  obtain ob where ob: "i_source inp = NBIO_OBJ ob" using assms(2) i by (auto simp: read_offered_def)
  have full: "read_all inp ?k" "READ_BUFFER_SIZE < buf_pos s + buf_len s + ?n" using assms(3) i by (simp_all add: overfull_read_def)
  have "i_len inp = - 1 \<or> i_pos inp \<le> i_len inp" using assms(1) i ob by (simp add: nbio_defs input_ok_def)
  then have n: "0 \<le> ?n" "?n \<le> ?k" by (auto simp: wanted_def read_all_def)
  have "nbio_ok (free_input (s\<lparr>inputs := inp\<lparr>i_pos := i_pos inp + ?k\<rparr> # rest\<rparr>))"
    using free_input_same_sources [OF assms(1) i] by simp
  from make_room_ok [OF this n(1)]
  have v: "nbio_ok ?v" "buf_pos ?v = buf_pos s" "buf_len ?v = buf_len s" "buf_pos s + buf_len s + ?n \<le> buf_size ?v" by auto
  have len: "int (length (take (nat ?n) str)) = ?n" using n by simp
  obtain t where t: "buffer_data (take (nat ?n) str) ?v = (t, Inr ())"
    using buffer_data_returns [OF v(1)] v len by fastforce
  have "buf_pos t + buf_len t = buf_pos s + buf_len s + ?n"
    using buffer_data_leaves [OF v(1), of "take (nat ?n) str"] v len t by auto
  then show ?thesis
    using n(1) t full by (simp add: input_read_cb_def i advance_0 [OF i] Let_def pause_input_def add.commute)
qed

lemma exec_op_overfull:
  assumes "nbio_ok s" "op_offered p s" "overfull p s"
  shows "snd (exec_op p s) = Inl Out_of_bounds"
  using assms overfull_read_faults by (cases p) simp_all

text \<open>The states an object can get into, from its creation on.\<close>

definition nbio_start :: "nbio \<Rightarrow> bool" where
  "nbio_start s \<longleftrightarrow> (\<exists>t. s = alloc_nb_struct t \<and>
     failovers t = 0 \<and> stats t = \<lparr>noutputs = 0, ninputs = 0, nstrings = 0, nobjects = 0, mmapped = 0, nbuffers = 0, sbuffers = 0\<rparr>)"

inductive nbio_reachable :: "nbio \<Rightarrow> bool" where
  start: "nbio_start s \<Longrightarrow> nbio_reachable s"
| step: "nbio_reachable s \<Longrightarrow> op_allowed p s \<Longrightarrow> nbio_reachable (fst (exec_op p s))"

lemma nbio_start_ok: "nbio_start s \<Longrightarrow> nbio_ok s"
  by (auto simp: nbio_start_def alloc_nb_struct_def nbio_defs)

lemma nbio_reachable_ok: "nbio_reachable s \<Longrightarrow> nbio_ok s"
proof (induction rule: nbio_reachable.induct)
  case (start s)
  then show ?case by (rule nbio_start_ok)
next
  case (step s p)
  from exec_op_leaves [OF step.IH step.hyps(2)] show ?case by (simp add: leaves_def)
qed

section \<open>An example\<close>


definition example_fd :: "nat \<Rightarrow> pobj" where
  "example_fd n = \<lparr>oid = n, ofd = int n, nb_id = 0, b_id = 1, read_id = 2, write_id = 3, regular = None\<rparr>"

definition example_start :: "(int \<times> errno) list \<Rightarrow> nbio" where
  "example_start ws = alloc_nb_struct
     \<lparr>written = 0, finished_flag = False, nb_buf = None, buf_size = 0, buf_len = 0, buf_pos = 0, outp = None, inputs = [],
      cb_args = 0, cb = None,
      stats = \<lparr>noutputs = 0, ninputs = 0, nstrings = 0, nobjects = 0, mmapped = 0, nbuffers = 0, sbuffers = 0\<rparr>,
      writes = ws, reads = [], maps = [], junk = CHR ''.'', sent = [], calls = [], failovers = 0\<rparr>"

text \<open>A connection with two strings queued and a done callback.\<close>

definition example_ops :: "op list" where
  "example_ops = [Op_write ''Hello, '', Op_write ''world'', Op_done (Some (Some 7, Some 8)), Op_output (example_fd 4)]"

definition run_ops :: "op list \<Rightarrow> nbio \<Rightarrow> nbio" where
  "run_ops ops s = fold (\<lambda>p s. fst (exec_op p s)) ops s"

lemma example_start_reachable: "nbio_reachable (example_start ws)"
  by (rule nbio_reachable.start) (auto simp: nbio_start_def example_start_def)

lemma run_ops_reachable:
  "nbio_reachable s \<Longrightarrow> (\<And>p s. p \<in> set ops \<Longrightarrow> op_allowed p s) \<Longrightarrow> nbio_reachable (run_ops ops s)"
  by (induction ops arbitrary: s) (auto simp: run_ops_def nbio_reachable.step)

lemma example_reachable: "nbio_reachable (run_ops example_ops (example_start ws))"
  by (rule run_ops_reachable [OF example_start_reachable]) (auto simp: example_ops_def example_fd_def)

text \<open>An object without a descriptor and without \<^verbatim>\<open>set_nonblocking\<close>, limited to two bytes.\<close>

definition example_fake :: pobj where
  "example_fake = \<lparr>oid = 6, ofd = - 1, nb_id = - 1, b_id = - 1, read_id = 2, write_id = - 1, regular = None\<rparr>"

section \<open>The property\<close>



end
