(* ===== verification/Nbio_Send.thy ===== *)
theory Nbio_Send
  imports Nbio_Inv
begin

text \<open>
  What the sender delivers: the bytes the output has taken, those in the read buffer and those of the
  queue together are one stream that the write callback moves along without changing it; a
  connection that takes something each time is served to the end and the done callback called once.
\<close>

section \<open>The stream\<close>

definition rest_of :: "input \<Rightarrow> string" where
  "rest_of i =
     (case i_source i of
        NBIO_STR d \<Rightarrow> drop (nat (i_pos i)) d
      | NBIO_MMAP m \<Rightarrow> drop (nat (i_pos i)) (file_bytes (m_file m))
      | _ \<Rightarrow> [])"

definition buffered :: "nbio \<Rightarrow> string" where
  "buffered s = substr (buf_bytes s) (nat (buf_pos s)) (nat (buf_len s))"

definition queued :: "nbio \<Rightarrow> string" where
  "queued s = concat (map rest_of (inputs s))"

definition stream :: "nbio \<Rightarrow> string" where
  "stream s = sent s @ buffered s @ queued s"

fun is_done :: "call \<Rightarrow> bool" where
  "is_done (Apply _ _ _) = False"
| "is_done (Done_cb _ _) = True"

text \<open>The calls of the done callback so far, and the one to come.\<close>

definition dones :: "nbio \<Rightarrow> call list" where
  "dones s = filter is_done (calls s)"

definition done_call :: "nbio \<Rightarrow> call list" where
  "done_call s = (case cb s of None \<Rightarrow> [] | Some f \<Rightarrow> [Done_cb f (cb_args s)])"

text \<open>No blocking objects in the queue and mappings that succeed; then nothing else than strings and files.\<close>

definition steady :: "nbio \<Rightarrow> bool" where
  "steady s \<longleftrightarrow> (\<forall>i \<in> set (inputs s). \<forall>ob. i_source i \<noteq> NBIO_BLOCK_OBJ ob) \<and> set (maps s) \<subseteq> {True}"

definition plain :: "nbio \<Rightarrow> bool" where
  "plain s \<longleftrightarrow> steady s \<and> (\<forall>i \<in> set (inputs s). \<forall>ob. i_source i \<noteq> NBIO_OBJ ob)"

lemma steady_code [code]:
  "steady s \<longleftrightarrow> (\<forall>i \<in> set (inputs s). case i_source i of NBIO_BLOCK_OBJ _ \<Rightarrow> False | _ \<Rightarrow> True) \<and> set (maps s) \<subseteq> {True}"
  by (auto simp: steady_def split: source.splits)

lemma plain_code [code]:
  "plain s \<longleftrightarrow> steady s \<and> (\<forall>i \<in> set (inputs s). case i_source i of NBIO_OBJ _ \<Rightarrow> False | _ \<Rightarrow> True)"
  by (auto simp: plain_def split: source.splits)

text \<open>Answers to writes: never an error, and always some bytes.\<close>

definition clean :: "(int \<times> errno) list \<Rightarrow> bool" where
  "clean ws \<longleftrightarrow> (\<forall>(w, e) \<in> set ws. w < 0 \<longrightarrow> e = EINTR \<or> e = EWOULDBLOCK)"

definition willing :: "(int \<times> errno) list \<Rightarrow> bool" where
  "willing ws \<longleftrightarrow> (\<forall>(w, e) \<in> set ws. 1 \<le> w)"

lemma fields_kept [simp]:
  "sent (free_input s) = sent s" "cb (free_input s) = cb s" "cb_args (free_input s) = cb_args s"
  "writes (free_input s) = writes s" "maps (free_input s) = maps s" "finished_flag (free_input s) = finished_flag s"
  "dones (free_input s) = dones s" "written (free_input s) = written s"
  by (auto simp: free_input_def release_source_def set_stats_def reset_callbacks_def wake_input_def apply_low_def Let_def dones_def
      split: list.splits source.splits)

lemma write_cb_kept [simp]:
  "sent (set_outp_write_cb s) = sent s" "cb (set_outp_write_cb s) = cb s" "cb_args (set_outp_write_cb s) = cb_args s"
  "writes (set_outp_write_cb s) = writes s" "maps (set_outp_write_cb s) = maps s" "outp (set_outp_write_cb s) = outp s"
  "dones (set_outp_write_cb s) = dones s" "buf_len (set_outp_write_cb s) = buf_len s" "buf_pos (set_outp_write_cb s) = buf_pos s"
  "buf_bytes (set_outp_write_cb s) = buf_bytes s" "written (set_outp_write_cb s) = written s"
  "finished_flag (set_outp_write_cb s) = finished_flag s"
  by (auto simp: set_outp_write_cb_def apply_low_def dones_def buf_bytes_def split: option.split)

lemma free_inputs_kept:
  "sent (free_inputs s) = sent s \<and> cb (free_inputs s) = cb s \<and> cb_args (free_inputs s) = cb_args s \<and>
   dones (free_inputs s) = dones s \<and> finished_flag (free_inputs s) = finished_flag s \<and> writes (free_inputs s) = writes s \<and>
   written (free_inputs s) = written s"
proof -
  have "sent ((free_input ^^ n) s) = sent s \<and> cb ((free_input ^^ n) s) = cb s \<and> cb_args ((free_input ^^ n) s) = cb_args s \<and>
      dones ((free_input ^^ n) s) = dones s \<and> finished_flag ((free_input ^^ n) s) = finished_flag s \<and>
      writes ((free_input ^^ n) s) = writes s \<and> written ((free_input ^^ n) s) = written s" for n
    by (induction n) simp_all
  then show ?thesis by (simp add: free_inputs_def)
qed

lemma finished_result:
  "sent (finished s) = sent s" "outp (finished s) = None" "inputs (finished s) = []" "finished_flag (finished s) = True"
  "dones (finished s) = dones s @ done_call s" "writes (finished s) = writes s" "written (finished s) = written s"
proof -
  let ?s = "s\<lparr>finished_flag := True\<rparr>"
  let ?t = "free_output (free_inputs ?s)"
  have t: "sent ?t = sent s" "outp ?t = None" "inputs ?t = []" "finished_flag ?t = True" "dones ?t = dones s" "cb ?t = cb s"
    "cb_args ?t = cb_args s" "writes ?t = writes s" "written ?t = written s"
    using free_inputs_kept [of ?s]
    by (auto simp: free_output_def reset_callbacks_def apply_low_def set_stats_def dones_def split: option.split)
  then show "sent (finished s) = sent s" "outp (finished s) = None" "inputs (finished s) = []" "finished_flag (finished s) = True"
    "dones (finished s) = dones s @ done_call s" "writes (finished s) = writes s" "written (finished s) = written s"
    by (simp_all add: finished_def Let_def done_call_def dones_def split: option.split)
qed

lemma queued_free_input: "inputs s = inp # rest \<Longrightarrow> queued (free_input s) = concat (map rest_of rest)"
  by (auto simp: free_input_def release_source_def set_stats_def reset_callbacks_def wake_input_def apply_low_def Let_def
      queued_def rest_of_def split: list.splits source.splits)

lemma sources_free_input: "map i_source (inputs (free_input s)) = map i_source (tl (inputs s))"
  by (auto simp: free_input_def release_source_def set_stats_def reset_callbacks_def wake_input_def apply_low_def Let_def
      split: list.splits source.splits)

section \<open>A write\<close>

lemma write_reply_clean:
  "write_reply ws = ((w, e), vs) \<Longrightarrow> set vs \<subseteq> set ws \<and> length vs \<le> length ws \<and> (clean ws \<and> w < 0 \<longrightarrow> e = EWOULDBLOCK) \<and>
     (willing ws \<longrightarrow> (ws = [] \<and> vs = [] \<and> w = - 1) \<or> (1 \<le> w \<and> length ws = length vs + 1))"
  by (induction ws rule: write_reply.induct) (auto simp: clean_def willing_def split: if_splits)

definition after_taking :: "nbio \<Rightarrow> (int \<times> errno) list \<Rightarrow> int \<Rightarrow> string \<Rightarrow> nbio" where
  "after_taking s ws w x = s\<lparr>writes := ws, written := written s + w, sent := sent s @ take (nat w) x\<rparr>"

lemma done_kept [simp]:
  "done_call (s\<lparr>writes := ws\<rparr>) = done_call s" "dones (s\<lparr>writes := ws\<rparr>) = dones s"
  "done_call (s\<lparr>inputs := i\<rparr>) = done_call s" "dones (s\<lparr>inputs := i\<rparr>) = dones s"
  "done_call (s\<lparr>outp := ou\<rparr>) = done_call s" "dones (s\<lparr>outp := ou\<rparr>) = dones s"
  "done_call (s\<lparr>buf_len := n\<rparr>) = done_call s" "dones (s\<lparr>buf_len := n\<rparr>) = dones s"
  "done_call (s\<lparr>buf_pos := n\<rparr>) = done_call s" "dones (s\<lparr>buf_pos := n\<rparr>) = dones s"
  "done_call (free_input s) = done_call s" "done_call (after_taking s ws w x) = done_call s" "dones (after_taking s ws w x) = dones s"
  by (simp_all add: done_call_def dones_def after_taking_def split: option.split)

lemma do_write_result:
  assumes "do_write x s = (t, Inr w)" "nbio_ok s"
  shows "(w = - 1 \<and> \<not> clean (writes s) \<and> \<not> willing (writes s) \<and> outp t = None \<and> inputs t = [] \<and> finished_flag t \<and> sent t = sent s \<and>
      dones t = dones s @ done_call s \<and> written t = written s \<and> set (writes t) \<subseteq> set (writes s) \<and>
      length (writes t) \<le> length (writes s)) \<or>
    (\<exists>ws. 0 \<le> w \<and> w \<le> int (length x) \<and> set ws \<subseteq> set (writes s) \<and> length ws \<le> length (writes s) \<and> t = after_taking s ws w x \<and>
      (willing (writes s) \<and> x \<noteq> [] \<longrightarrow> length (writes s) \<le> length ws + nat w \<and>
         (writes s \<noteq> [] \<longrightarrow> length ws < length (writes s))))"
proof -
  obtain ou where ou: "outp s = Some ou" using assms(1) by (cases "outp s") (auto simp: do_write_def)
  then have fd: "ofd (o_obj ou) \<noteq> - 1" using assms(2) by (simp add: nbio_defs)
  obtain a e ws where r: "write_reply (writes s) = ((a, e), ws)" by (metis surj_pair)
  note c = write_reply_clean [OF r]
  have same: "after_taking s ws 0 x = s\<lparr>writes := ws\<rparr>" by (simp add: after_taking_def)
  have len: "x \<noteq> [] \<Longrightarrow> 1 \<le> int (length x)" by (cases x) auto
  show ?thesis
  proof (cases "a < 0")
    case True
    then have neg: "min a (int (length x)) < 0" by simp
    show ?thesis
    proof (cases "e = EWOULDBLOCK")
      case True
      then have "w = 0" "t = after_taking s ws 0 x" using assms(1) ou fd r neg \<open>a < 0\<close> by (simp_all add: do_write_def Let_def same)
      moreover have "willing (writes s) \<Longrightarrow> writes s = [] \<and> ws = []" using c \<open>a < 0\<close> by auto
      ultimately show ?thesis using c by auto
    next
      case False
      then have "w = - 1" "t = finished (s\<lparr>writes := ws\<rparr>)" using assms(1) ou fd r neg \<open>a < 0\<close> by (simp_all add: do_write_def Let_def)
      moreover have "\<not> clean (writes s)" "\<not> willing (writes s)" using c False \<open>a < 0\<close> r by (auto split: prod.splits)
      ultimately show ?thesis using c by (simp add: finished_result)
    qed
  next
    case False
    then have "w = min a (int (length x))" "t = after_taking s ws w x" using assms(1) ou fd r
      by (auto simp: do_write_def Let_def after_taking_def split: if_splits)
    then show ?thesis using c len False by auto
  qed
qed

section \<open>The write callback\<close>

text \<open>Either the connection is still there and nothing is lost or out of order, or everything is over.\<close>

definition still_open :: "nbio \<Rightarrow> nbio \<Rightarrow> bool" where
  "still_open s t \<longleftrightarrow> outp t \<noteq> None \<and> stream t = stream s \<and> dones t = dones s \<and> done_call t = done_call s \<and>
     (steady s \<longrightarrow> steady t) \<and> (plain s \<longrightarrow> plain t)"

definition all_over :: "nbio \<Rightarrow> nbio \<Rightarrow> bool" where
  "all_over s t \<longleftrightarrow> outp t = None \<and> inputs t = [] \<and> finished_flag t \<and> dones t = dones s @ done_call s \<and>
     (sent t = stream s \<or> (\<not> clean (writes s) \<and> \<not> willing (writes s) \<and> (\<exists>lost. sent t @ lost = stream s)))"

text \<open>The answers used up are paid by bytes, and the bytes are counted.\<close>

definition accounted :: "nbio \<Rightarrow> nbio \<Rightarrow> bool" where
  "accounted s t \<longleftrightarrow> length (writes t) \<le> length (writes s) \<and> written t = written s + int (length (sent t)) - int (length (sent s)) \<and>
     (willing (writes s) \<longrightarrow> willing (writes t) \<and> length (sent s) + length (writes s) \<le> length (sent t) + length (writes t))"

definition moved :: "nbio \<Rightarrow> nbio \<Rightarrow> bool" where
  "moved s t \<longleftrightarrow> (still_open s t \<or> all_over s t) \<and> accounted s t \<and> set (writes t) \<subseteq> set (writes s)"

definition used_answer :: "nbio \<Rightarrow> nbio \<Rightarrow> bool" where
  "used_answer s t \<longleftrightarrow> (willing (writes s) \<and> writes s \<noteq> [] \<longrightarrow> length (writes t) < length (writes s))"

lemma clean_subset: "set vs \<subseteq> set ws \<Longrightarrow> clean ws \<Longrightarrow> clean vs" "set vs \<subseteq> set ws \<Longrightarrow> willing ws \<Longrightarrow> willing vs"
  by (auto simp: clean_def willing_def)

lemma sources_steady:
  "set (map i_source (inputs t)) \<subseteq> set (map i_source (inputs s)) \<Longrightarrow> set (maps t) \<subseteq> set (maps s) \<Longrightarrow>
     (steady s \<longrightarrow> steady t) \<and> (plain s \<longrightarrow> plain t)"
  by (auto simp: plain_def steady_def image_iff)

lemma no_buffer [simp]: "buf_len s \<le> 0 \<Longrightarrow> buffered s = []"
  by (simp add: buffered_def substr_def)

text \<open>The end of a callback that has moved the stream.\<close>

lemma after_write_moves:
  assumes "moved s t" "outp t \<noteq> None" "0 \<le> w" "0 \<le> buf_len t"
  shows "\<exists>u. after_write w t = (u, Inr False) \<and> moved s u \<and> writes u = writes t"
proof (cases "buf_len t = 0 \<and> inputs t = []")
  case True
  then have "stream t = sent t" by (simp add: stream_def queued_def)
  then have "all_over s (finished t)" using assms(1,2) by (simp add: moved_def still_open_def all_over_def finished_result)
  then have "moved s (finished t)" using assms(1) by (simp add: moved_def accounted_def finished_result)
  then show ?thesis using True assms(3) by (simp add: after_write_def finished_result)
qed (use assms in \<open>auto simp: after_write_def\<close>)

lemma write_cb_stream [simp]: "stream (set_outp_write_cb s) = stream s" "done_call (set_outp_write_cb s) = done_call s"
  by (simp_all add: stream_def buffered_def queued_def done_call_def split: option.split)

lemma write_cb_moved [simp]: "moved s (set_outp_write_cb t) = moved s t"
  by (simp add: moved_def still_open_def all_over_def accounted_def steady_def plain_def)

text \<open>Sending a part of the first input.\<close>

lemma send_input_moves:
  assumes "send_input inp x s = (t, Inr b)" "nbio_ok s" "outp s \<noteq> None" "inputs s = inp # rest" "buf_len s = 0" "x \<noteq> []"
    and "rest_of inp = x @ y" "int (length (rest_of inp)) = i_len inp - i_pos inp"
    and "\<And>w. 0 \<le> w \<Longrightarrow> rest_of (inp\<lparr>i_pos := i_pos inp + w\<rparr>) = drop (nat w) (rest_of inp)"
  shows "moved s t \<and> used_answer s t"
proof -
  obtain w u where w: "do_write x s = (u, Inr w)"
    "(if w < 0 then (u, Inr False)
      else (let s = advance_head 0 w u; s = (if i_pos inp + w = i_len inp then free_input s else s)
            in after_write w (set_outp_write_cb s))) = (t, Inr b)"
    using assms(1) by (auto simp: send_input_def and_then_Inr)
  have stream: "stream s = sent s @ rest_of inp @ concat (map rest_of rest)"
    using assms(4,5) by (simp add: stream_def queued_def)
  from do_write_result [OF w(1) assms(2)] show ?thesis
  proof (elim disjE exE conjE, goal_cases)
    case 1
    then have "t = u" using w(2) by simp
    with 1 show ?thesis by (simp add: moved_def all_over_def accounted_def used_answer_def stream)
  next
    case (2 ws)
    let ?u = "after_taking s ws w x"
    let ?inp = "inp\<lparr>i_pos := i_pos inp + w\<rparr>"
    let ?a = "?u\<lparr>inputs := ?inp # rest\<rparr>"
    let ?v = "if i_pos inp + w = i_len inp then free_input ?a else ?a"
    have take: "take (nat w) x @ rest_of ?inp = rest_of inp" using assms(9) [OF 2(1)] 2(1,2) assms(7) by simp
    have "rest_of ?inp = []" if "i_pos inp + w = i_len inp" using that assms(8) assms(9) [OF 2(1)] by simp
    then have "queued ?v = rest_of ?inp @ concat (map rest_of rest)"
      by (auto simp: queued_free_input) (simp add: queued_def)
    then have "stream ?v = sent s @ (take (nat w) x @ rest_of ?inp) @ concat (map rest_of rest)"
      using assms(5) by (simp add: stream_def after_taking_def)
    then have st: "stream ?v = stream s" by (simp add: take stream)
    have src: "set (map i_source (inputs ?v)) \<subseteq> set (map i_source (inputs s))"
      using assms(4) by (auto simp: sources_free_input simp flip: set_map)
    have f: "outp ?v = outp s" "dones ?v = dones s" "done_call ?v = done_call s" "maps ?v = maps s" "writes ?v = ws"
      "written ?v = written s + w" "sent ?v = sent s @ take (nat w) x" "buf_len ?v = 0"
      using assms(5) by (auto simp: after_taking_def) (simp_all add: dones_def done_call_def split: option.split)
    have "moved s ?v" using st f 2 assms(3,6) sources_steady [OF src] clean_subset(2)
      by (auto simp: moved_def still_open_def accounted_def)
    then obtain u' where "after_write w (set_outp_write_cb ?v) = (u', Inr False)" "moved s u'" "writes u' = ws"
      using after_write_moves [of s "set_outp_write_cb ?v" w] f 2(1) assms(3) by auto
    moreover have "after_write w (set_outp_write_cb ?v) = (t, Inr b)"
      using w(2) 2(1,5) assms(4) advance_0 [of ?u inp rest w] by (auto simp: after_taking_def Let_def)
    ultimately show ?thesis using 2 assms(6) by (auto simp: used_answer_def)
  qed
qed

lemma send_mapped_moves:
  assumes "send_mapped inp m s = (t, Inr b)" "nbio_ok s" "outp s \<noteq> None" "inputs s = inp # rest" "buf_len s = 0"
    and "i_source inp = NBIO_MMAP m" "i_pos inp \<noteq> m_end m"
  shows "moved s t \<and> used_answer s t"
proof -
  have m: "map_ok inp m" using assms(2,4,6) by (simp add: nbio_defs input_ok_def)
  let ?d = "file_bytes (m_file m)"
  obtain x where x: "bytes_of (m_data m) (i_pos inp - m_start m) (m_end m - i_pos inp) = Inr x" "send_input inp x s = (t, Inr b)"
    using assms(1) by (auto simp: send_mapped_def and_then_Inr)
  have n: "nat (m_start m) + nat (i_pos inp - m_start m) = nat (i_pos inp)"
    "nat (m_end m - i_pos inp) \<le> nat (m_len m) - nat (i_pos inp - m_start m)" "nat (i_pos inp) + nat (m_end m - i_pos inp) = nat (m_end m)"
    using m by (auto simp: map_ok_def)
  have x_eq: "x = take (nat (m_end m - i_pos inp)) (drop (nat (i_pos inp)) ?d)"
    using x(1) m n by (auto simp: bytes_of_def map_ok_def substr_def drop_take min_def add.commute split: if_splits)
  have "rest_of inp = x @ drop (nat (m_end m)) ?d"
    using n(3) by (simp add: rest_of_def assms(6) x_eq flip: drop_drop) (metis add.commute append_take_drop_id drop_drop)
  moreover have "x \<noteq> []" using assms(7) m by (auto simp: x_eq map_ok_def)
  moreover have "int (length (rest_of inp)) = i_len inp - i_pos inp"
    using m by (auto simp: rest_of_def assms(6) map_ok_def)
  moreover have "rest_of (inp\<lparr>i_pos := i_pos inp + w\<rparr>) = drop (nat w) (rest_of inp)" if "0 \<le> w" for w
    using that m by (simp add: rest_of_def assms(6) map_ok_def nat_add_distrib add.commute)
  ultimately show ?thesis using send_input_moves [OF x(2) assms(2-5)] by blast
qed

lemma moved_trans:
  assumes "still_open s t" "accounted s t" "set (writes t) \<subseteq> set (writes s)" "moved t u"
  shows "moved s u"
  using assms clean_subset(1) [OF assms(3)] clean_subset(2) [OF assms(3)]
  by (auto simp: moved_def still_open_def all_over_def accounted_def)

lemma send_mmap_moves:
  assumes "send_mmap inp m s = (t, Inr b)" "nbio_ok s" "outp s \<noteq> None" "inputs s = inp # rest" "buf_len s = 0"
    and "i_source inp = NBIO_MMAP m" "steady s"
  shows "moved s t \<and> used_answer s t"
proof (cases "m_end m - i_pos inp = 0")
  case False
  then show ?thesis using assms send_mapped_moves [OF _ assms(2-6)] by (simp add: send_mmap_def)
next
  case True
  let ?len = "min (i_len inp - i_pos inp) MAX_MMAP_SIZE"
  let ?s = "set_stats (\<lambda>t. t\<lparr>mmapped := mmapped t - m_len m\<rparr>) s"
  have m: "map_ok inp m" using assms(2,4,6) by (simp add: nbio_defs input_ok_def)
  then have len: "0 < ?len" by (simp add: map_ok_def MAX_MMAP_SIZE_def)
  let ?m' = "\<lparr>m_file = m_file m, m_data = substr (file_bytes (m_file m)) (nat (i_pos inp)) (nat ?len), m_start = i_pos inp,
      m_end = i_pos inp + ?len, m_len = ?len\<rparr>"
  let ?u = "(set_stats (\<lambda>t. t\<lparr>mmapped := mmapped t + ?len\<rparr>) (?s\<lparr>maps := tl (maps s)\<rparr>))
      \<lparr>inputs := inp\<lparr>i_source := NBIO_MMAP ?m'\<rparr> # rest\<rparr>"
  have "fst (next_map ?s)" using assms(7) by (auto simp: next_map_def steady_def set_stats_def split: list.split)
  then have "try_mmap (m_file m) (file_bytes (m_file m)) (i_pos inp) ?len ?s = (Some ?m', ?s\<lparr>maps := tl (maps s)\<rparr>)"
    using len by (simp add: try_mmap_def next_map_def set_stats_def)
  then have send: "send_mapped (inp\<lparr>i_source := NBIO_MMAP ?m'\<rparr>) ?m' ?u = (t, Inr b)"
    using assms(1,4) True by (simp add: send_mmap_def Let_def set_stats_def)
  have ok': "map_ok inp ?m'" using m len by (auto simp: map_ok_def)
  have ok: "nbio_ok ?u" using unmapped_ok(2) [OF assms(2,4,6) _ refl ok', where ms = "tl (maps s)"] m by (simp add: map_ok_def)
  have "moved ?u t \<and> used_answer ?u t"
    by (rule send_mapped_moves [OF send ok]) (use assms(3,5) len in \<open>auto simp: set_stats_def\<close>)
  then have ut: "moved ?u t" "used_answer ?u t" by blast+
  have f: "stream ?u = stream s" "dones ?u = dones s" "done_call ?u = done_call s" "sent ?u = sent s" "writes ?u = writes s"
    "written ?u = written s"
    using assms(4,6)
    by (simp_all add: stream_def buffered_def buf_bytes_def queued_def rest_of_def set_stats_def dones_def done_call_def split: option.split)
  have "(steady s \<longrightarrow> steady ?u) \<and> (plain s \<longrightarrow> plain ?u)"
    using assms(4) by (cases "maps s") (auto simp: steady_def plain_def set_stats_def)
  then have "still_open s ?u" "accounted s ?u" "set (writes ?u) \<subseteq> set (writes s)"
    using f assms(3) by (simp_all add: still_open_def accounted_def set_stats_def)
  from moved_trans [OF this ut(1)] show ?thesis using ut(2) f(5) by (simp add: used_answer_def)
qed

lemma moved_refl_open: "outp s \<noteq> None \<Longrightarrow> moved s s"
  by (simp add: moved_def still_open_def accounted_def)

lemma wait_for_input_moves:
  assumes "wait_for_input inp ob s = (t, Inr b)" "inputs s = inp # rest" "i_source inp = NBIO_OBJ ob" "outp s \<noteq> None"
  shows "moved s t"
proof -
  obtain ou where ou: "outp s = Some ou" using assms(4) by blast
  show ?thesis using assms ou
    by (auto simp: wait_for_input_def set_out_mode_def wake_input_def apply_low_def moved_def still_open_def accounted_def
        stream_def buffered_def buf_bytes_def queued_def rest_of_def steady_def plain_def dones_def done_call_def split: if_splits option.splits)
qed

lemma finished_moves:
  "outp s \<noteq> None \<Longrightarrow> inputs s = [] \<Longrightarrow> buf_len s = 0 \<Longrightarrow> moved s (finished s)"
  by (simp add: moved_def all_over_def accounted_def finished_result stream_def queued_def)

lemma send_first_moves:
  assumes "send_first s = (t, Inr b)" "nbio_ok s" "outp s \<noteq> None" "buf_len s = 0" "steady s"
  shows "moved s t \<and> (plain s \<and> inputs s \<noteq> [] \<longrightarrow> used_answer s t)"
proof (cases "inputs s")
  case Nil
  then show ?thesis using assms finished_moves [OF assms(3) Nil assms(4)] by (auto simp: send_first_def)
next
  case (Cons inp rest)
  show ?thesis
  proof (cases "i_source inp")
    case (NBIO_STR d)
    then have d: "0 \<le> i_pos inp" "i_pos inp < i_len inp" "i_len inp = int (length d)"
      using assms(2) Cons by (simp_all add: nbio_defs input_ok_def)
    obtain x where x: "bytes_of d (i_pos inp) (i_len inp - i_pos inp) = Inr x" "send_input inp x s = (t, Inr b)"
      using assms(1) Cons NBIO_STR by (auto simp: send_first_def and_then_Inr)
    have "x = rest_of inp" using x(1) d NBIO_STR by (auto simp: bytes_of_def rest_of_def substr_def split: if_splits)
    moreover have "int (length (rest_of inp)) = i_len inp - i_pos inp" using d NBIO_STR by (simp add: rest_of_def)
    moreover have "rest_of (inp\<lparr>i_pos := i_pos inp + w\<rparr>) = drop (nat w) (rest_of inp)" if "0 \<le> w" for w
      using that d NBIO_STR by (simp add: rest_of_def nat_add_distrib add.commute)
    ultimately show ?thesis using send_input_moves [OF x(2) assms(2,3) Cons assms(4), of "[]"] d by fastforce
  next
    case (NBIO_OBJ ob)
    then have "\<not> plain s" using Cons by (auto simp: plain_def)
    then show ?thesis using wait_for_input_moves [OF _ Cons NBIO_OBJ assms(3)] assms(1) Cons NBIO_OBJ by (simp add: send_first_def)
  next
    case (NBIO_BLOCK_OBJ ob)
    then show ?thesis using assms(5) Cons by (auto simp: steady_def)
  next
    case (NBIO_MMAP m)
    then show ?thesis using send_mmap_moves [OF _ assms(2,3) Cons assms(4) _ assms(5)] assms(1) Cons by (simp add: send_first_def)
  qed
qed

lemma buffered_taken:
  assumes "nbio_ok s" "0 \<le> w" "w \<le> buf_len s"
  shows "take (nat w) (buffered s) @ buffered (s\<lparr>buf_len := buf_len s - w, buf_pos := buf_pos s + w\<rparr>) = buffered s"
proof -
  have b: "0 \<le> buf_pos s" "0 \<le> buf_len s" "buf_pos s + buf_len s \<le> int (length (buf_bytes s))"
    using assms(1) by (simp_all add: nbio_defs)
  have n: "nat (buf_pos s + w) = nat (buf_pos s) + nat w" "nat (buf_len s) = nat w + nat (buf_len s - w)"
    using b assms by (simp_all flip: nat_add_distrib)
  have "substr d p a @ substr d (p + a) c = substr d p (a + c)" for d p a c
    by (simp add: substr_def take_add drop_drop add.commute)
  moreover have "take (nat w) (buffered s) = substr (buf_bytes s) (nat (buf_pos s)) (nat w)"
    using n(2) by (simp add: buffered_def substr_def)
  ultimately show ?thesis using n by (simp add: buffered_def buf_bytes_def)
qed

lemma write_once_moves:
  assumes "write_once s = (t, Inr b)" "nbio_ok s" "outp s \<noteq> None" "steady s"
  shows "moved s t \<and> (plain s \<and> (buf_len s \<noteq> 0 \<or> inputs s \<noteq> []) \<longrightarrow> used_answer s t)"
proof (cases "buf_len s = 0")
  case True
  then show ?thesis using assms send_first_moves by (simp add: write_once_def)
next
  case False
  have b: "0 < buf_len s" "0 \<le> buf_pos s" "buf_pos s + buf_len s \<le> int (length (buf_bytes s))"
    using assms(2) False by (simp_all add: nbio_defs)
  obtain x u w where x: "bytes_of (buf_bytes s) (buf_pos s) (buf_len s) = Inr x" "do_write x s = (u, Inr w)"
    "(if w = - 1 \<or> w = 0 then (set_outp_write_cb u, Inr False)
      else (let s = u\<lparr>buf_len := buf_len u - w, buf_pos := buf_pos u + w\<rparr>
            in if buf_len s \<noteq> 0 then (set_outp_write_cb s, Inr False)
               else send_first (s\<lparr>buf_pos := 0, buf_len := 0\<rparr>))) = (t, Inr b)"
    using assms(1) False by (auto simp: write_once_def and_then_Inr)
  have xb: "x = buffered s" "x \<noteq> []" "int (length x) = buf_len s"
    using x(1) b by (auto simp: bytes_of_def buffered_def length_substr substr_def split: if_splits)
  from do_write_result [OF x(2) assms(2)] show ?thesis
  proof (elim disjE exE conjE, goal_cases)
    case 1
    then have "t = set_outp_write_cb u" using x(3) by simp
    with 1 show ?thesis by (simp add: moved_def all_over_def accounted_def used_answer_def stream_def)
  next
    case (2 ws)
    let ?v = "u\<lparr>buf_len := buf_len u - w, buf_pos := buf_pos u + w\<rparr>"
    have st: "stream ?v = stream s"
      using buffered_taken [OF assms(2) 2(1)] 2(2,5) xb by (auto simp: stream_def after_taking_def buffered_def buf_bytes_def queued_def)
    have open_v: "still_open s ?v" "accounted s ?v" "set (writes ?v) \<subseteq> set (writes s)" "used_answer s ?v"
      using st 2 xb(2) assms(3) clean_subset(2) [OF 2(3)]
      by (auto simp: still_open_def accounted_def used_answer_def after_taking_def steady_def plain_def dones_def done_call_def split: option.split)
    have mv: "moved s ?v" using open_v by (simp add: moved_def)
    show ?thesis
    proof (cases "w = 0 \<or> buf_len ?v \<noteq> 0")
      case True
      have "t = set_outp_write_cb ?v" if "w = 0" using x(3) that by (simp add: set_outp_write_cb_def)
      moreover have "t = set_outp_write_cb ?v" if "w \<noteq> 0" using x(3) that True 2(1) by (simp add: Let_def)
      ultimately have t: "t = set_outp_write_cb ?v" by blast
      show ?thesis unfolding t using mv open_v(4) by (simp add: used_answer_def)
    next
      case False
      let ?z = "?v\<lparr>buf_pos := 0, buf_len := 0\<rparr>"
      have send: "send_first ?z = (t, Inr b)" using x(3) False 2(1) by (simp add: Let_def)
      have z: "nbio_ok ?z" "outp ?z \<noteq> None" using assms(2,3) 2(5) by (simp_all add: after_taking_def nbio_defs)
      have "stream ?z = stream ?v" "steady ?z = steady ?v" "plain ?z = plain ?v" "outp ?z = outp ?v"
        using False by (simp_all add: stream_def queued_def steady_def plain_def)
      then have "still_open s ?z" using open_v(1) unfolding still_open_def by simp
      moreover from this have "accounted s ?z" "set (writes ?z) \<subseteq> set (writes s)" using open_v(2,3) by (simp_all add: accounted_def)
      moreover have "moved ?z t" using send_first_moves [OF send z] \<open>still_open s ?z\<close> assms(4) by (simp add: still_open_def)
      ultimately have mv': "moved s t" by (rule moved_trans)
      have "length (writes t) \<le> length (writes ?z)" using \<open>moved ?z t\<close> by (simp add: moved_def accounted_def)
      then show ?thesis using mv' open_v(4) by (auto simp: used_answer_def)
    qed
  qed
qed

section \<open>No Pike errors\<close>

definition pike_free :: "nbio \<times> 'a res \<Rightarrow> bool" where
  "pike_free c \<longleftrightarrow> (\<forall>m. snd c \<noteq> Inl (Pike_error m))"

lemma pike_free_simps [simp]: "pike_free (s, Inr a)" "pike_free (s, Inl e) \<longleftrightarrow> e = Out_of_bounds"
  by (simp add: pike_free_def) (cases e; simp add: pike_free_def)

lemma pike_free_and_then: "pike_free c \<Longrightarrow> (\<And>a s. pike_free (k a s)) \<Longrightarrow> pike_free (and_then c k)"
  by (cases c; cases "snd c") (auto simp: pike_free_def)

lemma pike_free_leaves: "pike_free (do_write x s)" "pike_free (after_write w s)" "pike_free (lift_res (bytes_of d p n) s)"
  "pike_free (set_out_mode m s)"
  by (auto simp: do_write_def after_write_def lift_res_def bytes_of_def set_out_mode_def Let_def split: option.split prod.split)

lemma pike_free_send_input: "pike_free (send_input inp x s)"
  by (auto simp: send_input_def Let_def intro!: pike_free_and_then pike_free_leaves)

lemma pike_free_send_first:
  assumes "steady s" "nbio_ok s"
  shows "pike_free (send_first s)"
proof (cases "inputs s")
  case (Cons inp rest)
  show ?thesis
  proof (cases "i_source inp")
    case (NBIO_MMAP m)
    let ?len = "min (i_len inp - i_pos inp) MAX_MMAP_SIZE"
    let ?s = "set_stats (\<lambda>t. t\<lparr>mmapped := mmapped t - m_len m\<rparr>) s"
    have "0 < ?len" using assms(2) Cons NBIO_MMAP by (simp add: nbio_defs input_ok_def map_ok_def MAX_MMAP_SIZE_def)
    moreover have "fst (next_map ?s)" using assms(1) by (auto simp: next_map_def steady_def set_stats_def split: list.split)
    ultimately obtain m' t where "try_mmap (m_file m) (file_bytes (m_file m)) (i_pos inp) ?len ?s = (Some m', t)"
      by (cases "next_map ?s") (simp add: try_mmap_def)
    then show ?thesis using Cons NBIO_MMAP
      by (auto simp: send_first_def send_mmap_def send_mapped_def Let_def intro!: pike_free_and_then pike_free_leaves pike_free_send_input)
  next
    case (NBIO_BLOCK_OBJ ob)
    then show ?thesis using assms(1) Cons by (auto simp: steady_def)
  qed (use Cons in \<open>auto simp: send_first_def wait_for_input_def intro!: pike_free_and_then pike_free_leaves pike_free_send_input\<close>)
qed (simp add: send_first_def)

lemma write_once_returns:
  assumes "nbio_ok s" "outp s \<noteq> None" "steady s"
  shows "\<exists>t b. write_once s = (t, Inr b) \<and> nbio_ok t \<and> (b \<longrightarrow> outp t \<noteq> None)"
proof -
  have "pike_free (write_once s)"
  proof (cases "buf_len s = 0")
    case True
    then show ?thesis using pike_free_send_first assms by (simp add: write_once_def)
  next
    case False
    have "snd (write_once s) \<noteq> Inl (Pike_error m)" for m
    proof
      assume e: "snd (write_once s) = Inl (Pike_error m)"
      obtain x where x: "bytes_of (buf_bytes s) (buf_pos s) (buf_len s) = Inr x" "int (length x) = buf_len s"
        using assms(1) by (auto simp: bytes_of_def nbio_defs length_substr)
      obtain u r where u: "do_write x s = (u, r)" by fastforce
      then obtain w where w: "r = Inr w" "w \<noteq> - 1" "w \<noteq> 0" "buf_len u = w"
        "pike_free (send_first (u\<lparr>buf_pos := 0, buf_len := 0\<rparr>)) \<Longrightarrow> False"
        using e False x(1) pike_free_leaves(1) [of x s]
        by (cases r) (auto simp: write_once_def lift_res_def pike_free_def Let_def split: if_splits)
      have l: "leaves (do_write x s) (\<lambda>w t. (w = - 1 \<and> inputs t = [] \<and> outp t = None) \<or>
          (0 \<le> w \<and> w \<le> int (length x) \<and> inputs t = inputs s \<and> outp t = outp s \<and> buf_len t = buf_len s \<and>
           buf_pos t = buf_pos s \<and> nb_buf t = nb_buf s \<and> buf_size t = buf_size s))"
        by (rule do_write_leaves [OF assms(1,2)])
      have "nbio_ok (u\<lparr>buf_pos := 0, buf_len := 0\<rparr>)" using l u w by (auto simp: nbio_defs)
      moreover have "steady (u\<lparr>buf_pos := 0, buf_len := 0\<rparr>)"
        using do_write_result [OF u [unfolded w(1)] assms(1)] w(2) assms(3) by (auto simp: after_taking_def steady_def)
      ultimately show False using w(5) pike_free_send_first by blast
    qed
    then show ?thesis by (simp add: pike_free_def)
  qed
  moreover have "leaves (write_once s) can_go_on" by (rule write_once_leaves [OF assms(1,2)])
  ultimately show ?thesis by (cases "write_once s"; cases "snd (write_once s)") (auto simp: can_go_on_def)
qed

lemma output_write_cb_moves:
  "nbio_ok s \<Longrightarrow> outp s \<noteq> None \<Longrightarrow> steady s \<Longrightarrow>
     \<exists>t. output_write_cb s = (t, Inr ()) \<and> nbio_ok t \<and> moved s t \<and>
       (plain s \<and> (buf_len s \<noteq> 0 \<or> inputs s \<noteq> []) \<longrightarrow> used_answer s t)"
proof (induction s rule: output_write_cb.induct)
  case (1 s)
  obtain u b where u: "write_once s = (u, Inr b)" "nbio_ok u" "b \<longrightarrow> outp u \<noteq> None"
    using write_once_returns [OF 1(2-4)] by blast
  note m = write_once_moves [OF u(1) 1(2-4)]
  show ?case
  proof (cases b)
    case True
    then have so: "still_open s u" "accounted s u" "set (writes u) \<subseteq> set (writes s)" using m u(3) by (auto simp: moved_def all_over_def)
    then have "steady u" using 1(4) by (simp add: still_open_def)
    then obtain t where t: "output_write_cb u = (t, Inr ())" "nbio_ok t" "moved u t"
      using 1(1) [OF u(1) [symmetric] refl True u(2)] u(3) True by blast
    have "used_answer s u \<Longrightarrow> used_answer s t" using t(3) by (auto simp: used_answer_def moved_def accounted_def)
    then show ?thesis using t u(1) True moved_trans [OF so t(3)] m by (simp add: output_write_cb.simps [of s])
  next
    case False
    then show ?thesis using u m by (simp add: output_write_cb.simps [of s])
  qed
qed

section \<open>Serving a connection\<close>

definition waiting :: "nbio \<Rightarrow> nat" where
  "waiting s = length (buffered s) + length (queued s)"

text \<open>A connection that will take everything: only strings and files, and enough answers.\<close>

definition servable :: "nbio \<Rightarrow> bool" where
  "servable s \<longleftrightarrow> nbio_ok s \<and> outp s \<noteq> None \<and> plain s \<and> willing (writes s) \<and> waiting s \<le> length (writes s)"

definition served :: "nbio \<Rightarrow> nbio \<Rightarrow> bool" where
  "served s t \<longleftrightarrow> outp t = None \<and> finished_flag t \<and> inputs t = [] \<and> sent t = stream s \<and>
     written t = written s + int (waiting s) \<and> dones t = dones s @ done_call s"

lemma rest_of_nonempty: "input_ok i \<Longrightarrow> \<forall>ob. i_source i \<noteq> NBIO_OBJ ob \<and> i_source i \<noteq> NBIO_BLOCK_OBJ ob \<Longrightarrow> rest_of i \<noteq> []"
  by (auto simp: input_ok_def rest_of_def map_ok_def split: source.splits)

lemma length_stream: "length (stream s) = length (sent s) + waiting s"
  by (simp add: stream_def waiting_def)

lemma write_cb_drains:
  assumes "servable s"
  shows "served s (fst (output_write_cb s)) \<or>
    (servable (fst (output_write_cb s)) \<and> waiting (fst (output_write_cb s)) < waiting s)"
proof -
  have a: "nbio_ok s" "outp s \<noteq> None" "plain s" "steady s" "willing (writes s)" "waiting s \<le> length (writes s)"
    using assms by (simp_all add: servable_def plain_def)
  obtain t where t: "output_write_cb s = (t, Inr ())" "nbio_ok t" "moved s t"
    "plain s \<and> (buf_len s \<noteq> 0 \<or> inputs s \<noteq> []) \<longrightarrow> used_answer s t"
    using output_write_cb_moves [OF a(1,2,4)] by blast
  note l = length_stream [of s] length_stream [of t]
  show ?thesis
  proof (cases "outp t = None")
    case True
    then have "all_over s t" "accounted s t" using t(3) by (auto simp: moved_def still_open_def)
    then have "served s t" using a(5) l(1) by (auto simp: all_over_def served_def accounted_def)
    then show ?thesis using t(1) by simp
  next
    case False
    then have so: "still_open s t" "accounted s t" using t(3) by (auto simp: moved_def all_over_def)
    have st: "stream t = stream s" "plain t" using so(1) a(3) by (simp_all add: still_open_def)
    have ac: "willing (writes t)" "length (sent s) + length (writes s) \<le> length (sent t) + length (writes t)"
      using so(2) a(5) by (simp_all add: accounted_def)
    have eq: "length (sent t) + waiting t = length (sent s) + waiting s" using l st(1) by simp
    have "waiting s = 0 \<or> length (writes t) < length (writes s)"
    proof (cases "buf_len s \<noteq> 0 \<or> inputs s \<noteq> []")
      case True
      then have "used_answer s t" using t(4) a(3) by blast
      then show ?thesis using a(5,6) by (cases "writes s") (auto simp: used_answer_def)
    next
      case False
      then show ?thesis by (simp add: waiting_def queued_def)
    qed
    moreover have "waiting s \<noteq> 0"
    proof
      assume "waiting s = 0"
      then have "buffered s = []" "queued s = []" by (simp_all add: waiting_def)
      moreover have "buf_len s = 0" using \<open>buffered s = []\<close> a(1) by (auto simp: buffered_def substr_def nbio_defs)
      moreover have "inputs s = []"
        using \<open>queued s = []\<close> a(1,3) rest_of_nonempty
        by (cases "inputs s") (auto simp: queued_def nbio_ok_def plain_def steady_def)
      ultimately have "output_write_cb s = (finished s, Inr ())"
        by (simp add: output_write_cb.simps [of s] write_once_def send_first_def)
      then show False using t(1) False by (auto simp: finished_result)
    qed
    ultimately have "waiting t < waiting s" "waiting t \<le> length (writes t)" using eq ac(2) a(6) by linarith+
    then show ?thesis using t(1,2) False st(2) ac(1) by (simp add: servable_def)
  qed
qed

interpretation serving: draining "\<lambda>s. fst (output_write_cb s)" served servable waiting
proof
  fix s
  assume "servable s"
  then show "served s (fst (output_write_cb s)) \<or> servable (fst (output_write_cb s)) \<and> waiting (fst (output_write_cb s)) < waiting s"
    by (rule write_cb_drains)
next
  fix s t
  assume a: "servable s" "servable (fst (output_write_cb s))" "served (fst (output_write_cb s)) t"
  then obtain u where u: "output_write_cb s = (u, Inr ())" "moved s u"
    using output_write_cb_moves [of s] by (auto simp: servable_def plain_def)
  have "outp u \<noteq> None" using a(2) u(1) by (simp add: servable_def)
  then have "still_open s u" "accounted s u" using u(2) by (auto simp: moved_def all_over_def)
  then show "served s t" using a(3) u(1) length_stream [of s] length_stream [of u]
    by (simp add: served_def still_open_def accounted_def)
qed

section \<open>The read callback\<close>

lemma buffered_alloc:
  assumes "nbio_ok s" "buf_pos s + buf_len s \<le> n"
  shows "buffered (alloc_data_buf n s) = buffered s"
proof -
  have b: "0 \<le> buf_pos s" "0 \<le> buf_len s" "buf_pos s + buf_len s \<le> int (length (buf_bytes s))"
    using assms(1) by (simp_all add: nbio_defs)
  have "substr (take k d @ z) p q = substr d p q" if "p + q \<le> k" "p + q \<le> length d" for d z :: string and k p q
    using that by (intro nth_equalityI) (auto simp: substr_def nth_append)
  moreover have "nat (buf_pos s) + nat (buf_len s) \<le> nat n" "nat (buf_pos s) + nat (buf_len s) \<le> length (buf_bytes s)"
    using b assms(2) by linarith+
  ultimately show ?thesis
    by (cases "nb_buf s") (auto simp: alloc_data_buf_def set_stats_def buffered_def buf_bytes_def substr_def)
qed

lemma make_room_kept:
  assumes "nbio_ok s" "0 \<le> n"
  shows "buffered (make_room n s) = buffered s \<and> sent (make_room n s) = sent s \<and> dones (make_room n s) = dones s \<and>
    maps (make_room n s) = maps s"
proof -
  have b: "0 \<le> buf_pos s" "0 \<le> buf_len s" "buf_pos s + buf_len s \<le> buf_size s" using assms(1) by (simp_all add: nbio_defs)
  have f: "sent (alloc_data_buf k s) = sent s" "dones (alloc_data_buf k s) = dones s" "maps (alloc_data_buf k s) = maps s" for k
    by (simp_all add: alloc_data_buf_def set_stats_def dones_def split: option.split)
  show ?thesis using b assms f buffered_alloc [OF assms(1)] by (auto simp: make_room_def Let_def)
qed

lemma buffer_data_result:
  assumes "nbio_ok s" "buf_pos s + buf_len s + int (length x) \<le> buf_size s"
  shows "\<exists>t. buffer_data x s = (t, Inr ()) \<and> buffered t = buffered s @ x \<and> sent t = sent s \<and> dones t = dones s \<and>
    maps t = maps s"
proof -
  have b: "0 \<le> buf_pos s" "0 \<le> buf_len s" "buf_size s = int (length (buf_bytes s))" using assms(1) by (simp_all add: nbio_defs)
  let ?p = "nat (buf_pos s)" and ?q = "nat (buf_len s)"
  have n: "nat (buf_pos s + buf_len s) = ?p + ?q" "nat (buf_len s + int (length x)) = ?q + length x" using b by (simp_all add: nat_add_distrib)
  have "substr (take (p + q) d @ x @ drop (p + q + length x) d) p (q + length x) = substr d p q @ x" if "p + q + length x \<le> length d" for p q d
    using that by (intro nth_equalityI) (auto simp: substr_def nth_append)
  moreover have "?p + ?q + length x \<le> length (buf_bytes s)" using assms(2) b by linarith
  ultimately show ?thesis using assms(2) b n
    by (cases "x = []") (auto simp: buffer_data_def copy_to_buf_def buffered_def buf_bytes_def dones_def)
qed

lemma stop_head_kept: "stream (stop_head ob nb s) = stream s \<and> dones (stop_head ob nb s) = dones s \<and> (steady s \<longrightarrow> steady (stop_head ob nb s))"
  by (cases "inputs s")
    (auto simp: stop_head_def Let_def apply_low_def stream_def buffered_def buf_bytes_def queued_def rest_of_def dones_def steady_def
      split: source.split)

lemma wake_output_moves:
  assumes "nbio_ok s" "outp s \<noteq> None" "steady s"
  shows "\<exists>t. wake_output s = (t, Inr ()) \<and> (outp t \<noteq> None \<longrightarrow> stream t = stream s) \<and> (\<exists>lost. sent t @ lost = stream s)"
proof -
  obtain ou where ou: "outp s = Some ou" using assms(2) by blast
  let ?s = "s\<lparr>outp := Some (ou\<lparr>o_mode := ACTIVE\<rparr>)\<rparr>"
  have a: "nbio_ok ?s" "steady ?s" "stream ?s = stream s"
    using assms ou by (simp_all add: nbio_defs steady_def stream_def buffered_def buf_bytes_def queued_def)
  obtain t where "output_write_cb ?s = (t, Inr ())" "moved ?s t" using output_write_cb_moves [OF a(1) _ a(2)] by auto
  moreover have "\<exists>lost. sent t @ lost = stream s" if "moved ?s t" for t
    using that a(3) by (auto simp: moved_def still_open_def all_over_def stream_def)
  ultimately show ?thesis using ou a(3)
    by (cases "o_mode ou") (auto simp: wake_output_def moved_def still_open_def all_over_def stream_def)
qed

lemma input_read_cb_result:
  assumes "nbio_ok s" "read_allowed str s" "inputs s = inp # rest" "steady s"
  shows "\<exists>t. input_read_cb str s = (t, Inr ()) \<and>
    (let x = sent s @ buffered s @ take (nat (wanted inp (int (length str)))) str @ queued s
     in (outp t \<noteq> None \<longrightarrow> stream t = x) \<and> (\<exists>lost. sent t @ lost = x))"
proof -
  let ?k = "int (length str)"
  let ?n = "wanted inp ?k"
  let ?s = "s\<lparr>inputs := inp\<lparr>i_pos := i_pos inp + ?k\<rparr> # rest\<rparr>"
  let ?u = "if read_all inp ?k then free_input ?s else ?s"
  let ?v = "make_room ?n ?u"
  obtain ob where ob: "i_source inp = NBIO_OBJ ob" and out: "outp s \<noteq> None"
    and room: "read_all inp ?k \<Longrightarrow> buf_pos s + buf_len s + ?n \<le> READ_BUFFER_SIZE"
    using assms(2,3) by (auto simp: read_allowed_Cons)
  have pos: "i_len inp = - 1 \<or> i_pos inp \<le> i_len inp" using assms(1,3) ob by (simp add: nbio_defs input_ok_def)
  then have n: "0 \<le> ?n" "?n \<le> ?k" by (auto simp: wanted_def read_all_def)
  have "nbio_ok ?s" if "\<not> read_all inp ?k"
    using replace_head_ok [OF assms(1,3), of "inp\<lparr>i_pos := i_pos inp + ?k\<rparr>"] ob that by (auto simp: input_ok_def read_all_def)
  moreover have "nbio_ok (free_input ?s)" using free_input_same_sources [OF assms(1,3)] by simp
  ultimately have u: "nbio_ok ?u" by simp
  have q: "queued s = concat (map rest_of rest)" "queued ?u = concat (map rest_of rest)"
    using assms(3) ob by (auto simp: queued_free_input) (simp_all add: queued_def rest_of_def)
  have src: "set (map i_source (inputs ?u)) \<subseteq> set (map i_source (inputs s))"
    using assms(3) by (auto simp: sources_free_input simp flip: set_map)
  have bu: "buffered ?u = buffered s" "sent ?u = sent s" "maps ?u = maps s" by (simp_all add: buffered_def buf_bytes_def)
  note mr = make_room_ok [OF u n(1)]
  note mk = make_room_kept [OF u n(1)]
  have v: "nbio_ok ?v" "outp ?v = outp s" "buf_pos ?v = buf_pos s" "buf_len ?v = buf_len s" "buf_pos s + buf_len s + ?n \<le> buf_size ?v"
    "buffered ?v = buffered s" "sent ?v = sent s" "maps ?v = maps s" "inputs ?v = inputs ?u"
    using mr mk bu by auto
  have len: "int (length (take (nat ?n) str)) = ?n" using n by simp
  obtain t where t: "buffer_data (take (nat ?n) str) ?v = (t, Inr ())" "buffered t = buffered s @ take (nat ?n) str"
    "sent t = sent s" "maps t = maps s"
    using buffer_data_result [OF v(1), of "take (nat ?n) str"] v len by auto
  have l: "nbio_ok t" "inputs t = inputs ?u" "outp t = outp s" "buf_pos t + buf_len t = buf_pos s + buf_len s + ?n"
    using buffer_data_leaves [OF v(1), of "take (nat ?n) str"] v len t(1) by auto
  have st: "steady t" using sources_steady [of t s] src l(2) t(4) assms(4) by simp
  have str: "stream t = sent s @ buffered s @ take (nat ?n) str @ queued s" using t(2,3) q l(2) by (simp add: stream_def queued_def)
  let ?p = "if buf_len t + buf_pos t > READ_BUFFER_SIZE then pause_input (read_all inp ?k) inp t else (t, Inr ())"
  have "\<exists>w. ?p = (w, Inr ()) \<and> nbio_ok w \<and> outp w = outp s \<and> steady w \<and> stream w = stream t"
  proof (cases "buf_len t + buf_pos t > READ_BUFFER_SIZE")
    case True
    then have "\<not> read_all inp ?k" using room l(4) by linarith
    then have "?p = (stop_head ob (i_nb inp) t, Inr ())" using True ob by (simp add: pause_input_def)
    then show ?thesis using stop_head_ok [OF l(1), of ob "i_nb inp"] stop_head_kept [of ob "i_nb inp" t] st l(3) by simp
  qed (use l st in simp)
  then obtain w where w: "?p = (w, Inr ())" "nbio_ok w" "outp w = outp s" "steady w" "stream w = stream t" by blast
  obtain z where z: "wake_output w = (z, Inr ())" "outp z \<noteq> None \<longrightarrow> stream z = stream w" "\<exists>lost. sent z @ lost = stream w"
    using wake_output_moves [OF w(2) _ w(4)] w(3) out by auto
  have "input_read_cb str s = and_then (buffer_data (take (nat ?n) str) ?v) (\<lambda>_ s.
      and_then (if buf_len s + buf_pos s > READ_BUFFER_SIZE then pause_input (read_all inp ?k) inp s else (s, Inr ()))
        (\<lambda>_. wake_output))"
    using n(1) by (simp add: input_read_cb_def assms(3) advance_0 [OF assms(3)] Let_def)
  also have "\<dots> = and_then ?p (\<lambda>_. wake_output)" by (simp add: t(1))
  also have "\<dots> = (z, Inr ())" by (simp only: w(1) and_then_simps z(1))
  finally show ?thesis using z(2,3) w(5) str by (simp add: Let_def)
qed

section \<open>The properties\<close>

text \<open>
  C3. Nothing is lost, repeated or reordered: in every reachable state with an output, with no blocking object
  in the queue and no mapping that fails when the file is mapped further (after such a failure the beginning
  of the file is sent again), the write callback
  returns and either keeps the connection and the stream (the bytes already taken, those in the
  buffer and those of the strings and files queued, in this order), or it ends the connection and
  calls the done callback; then all of the stream has been sent unless a write failed, and what was
  sent is a beginning of the stream. The number of bytes reported is the number of bytes sent.
\<close>

theorem write_callback_stream:
  assumes "nbio_reachable s" "outp s \<noteq> None" "steady s"
  shows "\<exists>t. output_write_cb s = (t, Inr ()) \<and> written t - written s = int (length (sent t)) - int (length (sent s)) \<and>
    (if outp t \<noteq> None then stream t = stream s \<and> dones t = dones s
     else finished_flag t \<and> dones t = dones s @ done_call s \<and>
       (\<exists>lost. sent t @ lost = stream s \<and> (clean (writes s) \<longrightarrow> lost = [])))"
proof -
  obtain t where "output_write_cb s = (t, Inr ())" "moved s t"
    using output_write_cb_moves [OF nbio_reachable_ok [OF assms(1)] assms(2,3)] by blast
  then show ?thesis by (auto simp: moved_def still_open_def all_over_def accounted_def)
qed

theorem write_callback_stream_witness:
  "\<exists>t. output_write_cb (run_ops example_ops (example_start [(3, EOTHER)])) = (t, Inr ()) \<and> stream t = ''Hello, world'' \<and>
     sent t = ''Hel'' \<and> written t = 3"
proof -
  let ?s = "run_ops example_ops (example_start [(3, EOTHER)])"
  have s: "outp ?s \<noteq> None" "steady ?s" "written ?s = 0" "sent ?s = []" "stream ?s = ''Hello, world''"
    "outp (fst (output_write_cb ?s)) \<noteq> None" "sent (fst (output_write_cb ?s)) = ''Hel''"
    by code_simp+
  obtain t where t: "output_write_cb ?s = (t, Inr ())" "written t - written ?s = int (length (sent t)) - int (length (sent ?s))"
    "if outp t \<noteq> None then stream t = stream ?s \<and> dones t = dones ?s
     else finished_flag t \<and> dones t = dones ?s @ done_call ?s \<and>
       (\<exists>lost. sent t @ lost = stream ?s \<and> (clean (writes ?s) \<longrightarrow> lost = []))"
    using write_callback_stream [OF example_reachable s(1,2)] by blast
  have "outp t \<noteq> None" "sent t = ''Hel''" using s(6,7) t(1) by simp_all
  with t s(3-5) show ?thesis by simp
qed

text \<open>
  C4. A connection is served: when only strings and files are queued, no mapping fails and the output takes
  something at each write, then after at most one callback per waiting byte and one more the
  connection is closed, exactly the stream has been sent and counted, and the done callback has been called once.
\<close>

theorem connection_served:
  assumes "nbio_reachable s" "outp s \<noteq> None" "plain s" "willing (writes s)" "waiting s \<le> length (writes s)"
  shows "\<exists>n \<le> waiting s. served s (((\<lambda>s. fst (output_write_cb s)) ^^ Suc n) s)"
  by (rule serving.drained) (use assms nbio_reachable_ok in \<open>simp add: servable_def\<close>)

theorem connection_served_witness:
  "\<exists>n \<le> 12. let t = ((\<lambda>s. fst (output_write_cb s)) ^^ Suc n) (run_ops example_ops (example_start (replicate 12 (5, EOTHER))))
     in outp t = None \<and> sent t = ''Hello, world'' \<and> written t = 12 \<and> dones t = [Done_cb 7 8]"
proof -
  let ?s = "run_ops example_ops (example_start (replicate 12 (5, EOTHER)))"
  have s: "outp ?s \<noteq> None" "plain ?s" "willing (writes ?s)" "waiting ?s = 12" "length (writes ?s) = 12" "stream ?s = ''Hello, world''"
    "written ?s = 0" "dones ?s = []" "done_call ?s = [Done_cb 7 8]"
    by code_simp+
  then obtain n where "n \<le> 12" "served ?s (((\<lambda>s. fst (output_write_cb s)) ^^ Suc n) ?s)"
    using connection_served [OF example_reachable s(1-3)] by auto
  with s(4,6-9) show ?thesis by (auto simp: served_def Let_def simp del: funpow.simps)
qed



text \<open>
  The limit of an input does not hold for objects that are read with their method: a blocking object
  with fewer bytes to go than it returns at a read is sent with all the bytes it returned.
\<close>

lemma fake_input_limit_ignored:
  assumes "outp s = Some ou" "ofd (o_obj ou) \<noteq> - 1" "buf_len s = 0" "inputs s = inp # rest" "i_source inp = NBIO_BLOCK_OBJ ob"
    and "ofd ob = - 1" "0 < i_len inp - i_pos inp" "i_len inp - i_pos inp < int (length x)" "reads s = Data x # rs"
    and "writes s = [(k, e)]" "int (length x) \<le> k"
  shows "\<exists>t. output_write_cb s = (t, Inr ()) \<and> sent t = sent s @ x \<and>
    i_len inp - i_pos inp < int (length (sent t)) - int (length (sent s))"
proof -
  have x: "x \<noteq> []" "0 < int (length x)" using assms(7,8) by auto
  let ?s = "s\<lparr>buf_pos := 0\<rparr>"
  let ?q = "(fst (new_input (In_string x) 0 True (?s\<lparr>reads := rs\<rparr>)))"
  define T where "T = advance_head 1 (int (length x)) ?q"
  have "read_once s = (T, Inr (Some (- 3)))"
    using assms x(1) by (auto simp: T_def read_once_def read_fake_def next_read_def)
  then have "read_data s = (T, Inr (- 3))" by (simp add: read_data.simps [of s])
  then have one: "write_once s = (T, Inr True)"
    using assms by (simp add: write_once_def send_first_def send_block_def)
  obtain inp' where t: "inputs T = new_string x 0 # inp' # rest" "outp T = Some ou" "buf_len T = 0" "writes T = [(k, e)]" "sent T = sent s"
    using assms by (simp add: T_def new_input_def add_input_def set_stats_def advance_head_def)
  have "write_reply [(k, e)] = ((k, e), [])" using assms(11) x(2) by simp
  then have "do_write x T = (after_taking T [] (int (length x)) x, Inr (int (length x)))"
    using t assms(2,11) x(2) by (simp add: do_write_def after_taking_def Let_def min_def)
  then have "send_input (new_string x 0) x T = after_write (int (length x))
      (set_outp_write_cb (free_input (advance_head 0 (int (length x)) (after_taking T [] (int (length x)) x))))"
    by (simp add: send_input_def new_string_def)
  moreover have "bytes_of x 0 (int (length x)) = Inr x" by (simp add: bytes_of_def)
  ultimately have "write_once T = after_write (int (length x))
      (set_outp_write_cb (free_input (advance_head 0 (int (length x)) (after_taking T [] (int (length x)) x))))"
    (is "_ = after_write _ (set_outp_write_cb (free_input ?a))")
    using t(1,3) by (simp add: write_once_def send_first_def lift_res_def new_string_def)
  moreover have "inputs (free_input ?a) \<noteq> []"
  proof -
    have "length (inputs ?a) = Suc (Suc (length rest))" using t(1) by (simp add: advance_head_def after_taking_def)
    then have "length (inputs (free_input ?a)) = Suc (length rest)" by simp
    then show ?thesis by (metis list.size(3) nat.distinct(1))
  qed
  ultimately have "write_once T = (set_outp_write_cb (free_input ?a), Inr False)"
    by (simp add: after_write_def)
  moreover have "sent (set_outp_write_cb (free_input ?a)) = sent s @ x"
    using t(5) by (simp add: advance_head_def after_taking_def)
  ultimately have "output_write_cb s = (set_outp_write_cb (free_input ?a), Inr ()) \<and> sent (set_outp_write_cb (free_input ?a)) = sent s @ x"
    using one by (simp add: output_write_cb.simps [of s] output_write_cb.simps [of T])
  then show ?thesis using assms(8) by fastforce
qed

lemma fake_input_limit_ignored_witness:
  "\<exists>t. output_write_cb ((run_ops [Op_input example_fake 2, Op_output (example_fd 4)] (example_start [(5, EOTHER)]))
      \<lparr>reads := [Data ''abcde'']\<rparr>) = (t, Inr ()) \<and> sent t = ''abcde''"
proof -
  let ?s = "(run_ops [Op_input example_fake 2, Op_output (example_fd 4)] (example_start [(5, EOTHER)]))\<lparr>reads := [Data ''abcde'']\<rparr>"
  let ?i = "new_object (NBIO_BLOCK_OBJ example_fake) 2 0 0 0"
  have h: "outp ?s = Some \<lparr>o_obj = example_fd 4, o_mode = ACTIVE\<rparr>" "ofd (o_obj \<lparr>o_obj = example_fd 4, o_mode = ACTIVE\<rparr>) \<noteq> - 1"
    "buf_len ?s = 0" "inputs ?s = [?i]" "i_source ?i = NBIO_BLOCK_OBJ example_fake" "ofd example_fake = - 1"
    "0 < i_len ?i - i_pos ?i" "i_len ?i - i_pos ?i < int (length ''abcde'')" "reads ?s = [Data ''abcde'']" "writes ?s = [(5, EOTHER)]"
    "int (length ''abcde'') \<le> 5" "sent ?s = []"
    by code_simp+
  from fake_input_limit_ignored [OF h(1-11)] h(12) show ?thesis by auto
qed

text \<open>
  C40. A finished input is used after it was freed: when the read that completes an input object also fills
  the buffer beyond its normal size, the callback stops the object through the input it has just freed.
\<close>

theorem freed_input_used:
  assumes "nbio_reachable s" "inputs s = inp # rest" "i_source inp = NBIO_OBJ ob" "read_all inp (int (length str))"
    and "READ_BUFFER_SIZE < buf_pos s + buf_len s + wanted inp (int (length str))"
  shows "\<exists>t. input_read_cb str s = (t, Inl Out_of_bounds)"
proof -
  let ?k = "int (length str)"
  let ?n = "wanted inp ?k"
  let ?u = "free_input (s\<lparr>inputs := inp\<lparr>i_pos := i_pos inp + ?k\<rparr> # rest\<rparr>)"
  let ?v = "make_room ?n ?u"
  have ok: "nbio_ok s" using nbio_reachable_ok [OF assms(1)] .
  have pos: "i_len inp = - 1 \<or> i_pos inp \<le> i_len inp" using ok assms(2,3) by (simp add: nbio_defs input_ok_def)
  then have n: "0 \<le> ?n" "?n \<le> ?k" by (auto simp: wanted_def read_all_def)
  have u: "nbio_ok ?u" using free_input_same_sources [OF ok assms(2)] by simp
  from make_room_ok [OF u n(1)]
  have v: "nbio_ok ?v" "buf_pos ?v = buf_pos s" "buf_len ?v = buf_len s" "buf_pos s + buf_len s + ?n \<le> buf_size ?v" by auto
  have len: "int (length (take (nat ?n) str)) = ?n" using n by simp
  obtain t where t: "buffer_data (take (nat ?n) str) ?v = (t, Inr ())"
    using buffer_data_result [OF v(1), of "take (nat ?n) str"] v len by auto
  have l: "buf_pos t + buf_len t = buf_pos s + buf_len s + ?n"
    using buffer_data_leaves [OF v(1), of "take (nat ?n) str"] v len t(1) by auto
  show ?thesis
    using n(1) t l assms(4,5) by (simp add: input_read_cb_def assms(2) advance_0 [OF assms(2)] Let_def pause_input_def add.commute)
qed

theorem freed_input_used_witness:
  "\<exists>t. input_read_cb (replicate 70000 CHR ''x'') (run_ops [Op_output (example_fd 4), Op_input (example_fd 5) 70000] (example_start [])) =
     (t, Inl Out_of_bounds)"
proof -
  let ?s = "run_ops [Op_output (example_fd 4), Op_input (example_fd 5) 70000] (example_start [])"
  have r: "nbio_reachable ?s"
    by (rule run_ops_reachable [OF example_start_reachable]) (auto simp: example_fd_def)
  have "inputs ?s = [new_object (NBIO_OBJ (example_fd 5)) 70000 0 0 1]" "buf_pos ?s = 0" "buf_len ?s = 0" by code_simp+
  then show ?thesis
    by (intro freed_input_used [OF r]) (auto simp: new_object_def read_all_def wanted_def READ_BUFFER_SIZE_def)
qed

end
