(* ===== verification/Mhash.thy ===== *)
theory Mhash
  imports Caudium_Prelude
begin

text \<open>
  Hash objects: the classes \<^verbatim>\<open>Mhash.Hash\<close> and \<^verbatim>\<open>Mhash.HMAC\<close> and the functions of the module, from
  \<^verbatim>\<open>src/cmods/Mhash/mhash.c\<close>, \<^verbatim>\<open>hmac.c\<close>, \<^verbatim>\<open>global.c\<close> and \<^verbatim>\<open>mhash_quick.h\<close>. The library \<^verbatim>\<open>libmhash\<close> is not part of the
  program: its functions are a record the definitions take as an argument, \<open>lib_ok\<close> states what its
  documentation says of them. A context is a value of a type variable. The
  result of a method comes with the object's state, which an error keeps as well.
\<close>

section \<open>The library\<close>

text \<open>\<open>None\<close> is \<^verbatim>\<open>MHASH_FAILED\<close> or a null pointer.\<close>

record 'c mhash_lib =
  l_init :: "int \<Rightarrow> 'c option"
  l_feed :: "'c \<Rightarrow> string \<Rightarrow> 'c"
  l_end :: "'c \<Rightarrow> string option"
  l_hmac_init :: "int \<Rightarrow> string \<Rightarrow> int \<Rightarrow> 'c option"
  l_hmac_end :: "'c \<Rightarrow> string option"
  l_block_size :: "int \<Rightarrow> nat"
  l_pblock :: "int \<Rightarrow> int"
  l_name :: "int \<Rightarrow> string option"

text \<open>
  Hashing is incremental, a context of a known hash can be made, and its digest is as long as the
  block size of the hash says; the same for a hash that supports HMAC.
\<close>

definition feed_ok :: "'c mhash_lib \<Rightarrow> bool" where
  "feed_ok lib \<longleftrightarrow> (\<forall>c x y. l_feed lib (l_feed lib c x) y = l_feed lib c (x @ y)) \<and> (\<forall>c. l_feed lib c [] = c)"

definition hash_ok :: "'c mhash_lib \<Rightarrow> int \<Rightarrow> bool" where
  "hash_ok lib t \<longleftrightarrow> t \<noteq> - 1 \<and>
     (\<exists>c. l_init lib t = Some c \<and> (\<forall>x. \<exists>d. l_end lib (l_feed lib c x) = Some d \<and> length d = l_block_size lib t))"

definition hmac_ok :: "'c mhash_lib \<Rightarrow> int \<Rightarrow> bool" where
  "hmac_ok lib t \<longleftrightarrow> t \<noteq> - 1 \<and> l_pblock lib t \<noteq> 0 \<and>
     (\<forall>k. \<exists>c. l_hmac_init lib t k (l_pblock lib t) = Some c \<and>
       (\<forall>x. \<exists>d. l_hmac_end lib (l_feed lib c x) = Some d \<and> length d = l_block_size lib t))"

definition lib_ok :: "'c mhash_lib \<Rightarrow> int set \<Rightarrow> bool" where
  "lib_ok lib types \<longleftrightarrow> feed_ok lib \<and> (\<forall>t \<in> types. hash_ok lib t)"

definition hmac_lib_ok :: "'c mhash_lib \<Rightarrow> int set \<Rightarrow> bool" where
  "hmac_lib_ok lib types \<longleftrightarrow> feed_ok lib \<and> (\<forall>t \<in> types. hmac_ok lib t)"

lemma lib_okD:
  assumes "lib_ok lib types"
  shows "l_feed lib (l_feed lib c x) y = l_feed lib c (x @ y)" "l_feed lib c [] = c" "- 1 \<notin> types"
  using assms by (auto simp: lib_ok_def feed_ok_def hash_ok_def)

lemma hash_okE:
  assumes "lib_ok lib types" "t \<in> types"
  obtains c where "l_init lib t = Some c" "\<And>x. \<exists>d. l_end lib (l_feed lib c x) = Some d \<and> length d = l_block_size lib t"
proof -
  have "hash_ok lib t" using assms by (simp add: lib_ok_def)
  then show thesis using that by (auto simp: hash_ok_def)
qed

lemma hmac_lib_okD:
  assumes "hmac_lib_ok lib types"
  shows "l_feed lib (l_feed lib c x) y = l_feed lib c (x @ y)" "l_feed lib c [] = c" "- 1 \<notin> types"
  using assms by (auto simp: hmac_lib_ok_def feed_ok_def hmac_ok_def)

lemma hmac_okE:
  assumes "hmac_lib_ok lib types" "t \<in> types"
  obtains c where "l_pblock lib t \<noteq> 0" "l_hmac_init lib t k (l_pblock lib t) = Some c"
    "\<And>x. \<exists>d. l_hmac_end lib (l_feed lib c x) = Some d \<and> length d = l_block_size lib t"
proof -
  have "hmac_ok lib t" using assms by (simp add: hmac_lib_ok_def)
  then have "l_pblock lib t \<noteq> 0" "\<exists>c. l_hmac_init lib t k (l_pblock lib t) = Some c \<and>
    (\<forall>x. \<exists>d. l_hmac_end lib (l_feed lib c x) = Some d \<and> length d = l_block_size lib t)" by (simp_all add: hmac_ok_def)
  then show thesis using that by blast
qed

section \<open>State\<close>

datatype arg = A_int int | A_string string | A_other

record 'c mhash_storage =
  hash :: "'c option"
  hmac :: "'c option"
  htype :: int
  hres :: "string option"
  pw :: "string option"

definition init_hash_storage :: "'c mhash_storage" where
  "init_hash_storage = \<lparr>hash = None, hmac = None, htype = - 1, hres = None, pw = None\<rparr>"

definition free_hash :: "'c mhash_storage \<Rightarrow> 'c mhash_storage" where
  "free_hash st = st\<lparr>hash := None, hmac := None, hres := None\<rparr>"

definition free_hash_storage :: "'c mhash_storage \<Rightarrow> 'c mhash_storage" where
  "free_hash_storage st = free_hash (st\<lparr>pw := None\<rparr>)"

section \<open>Hash\<close>

definition start_hash :: "'c mhash_lib \<Rightarrow> 'c mhash_storage \<Rightarrow> 'c mhash_storage \<times> unit res" where
  "start_hash lib st =
     (case l_init lib (htype st) of
        None \<Rightarrow> (st\<lparr>hash := None\<rparr>, Inl (Pike_error ''Failed to initialize hash.''))
      | Some c \<Rightarrow> (st\<lparr>hash := Some c\<rparr>, Inr ()))"

definition f_hash_create :: "'c mhash_lib \<Rightarrow> arg list \<Rightarrow> 'c mhash_storage \<Rightarrow> 'c mhash_storage \<times> unit res" where
  "f_hash_create lib args st =
     (if htype st \<noteq> - 1 \<or> hash st \<noteq> None \<or> hres st \<noteq> None then (st, Inl (Pike_error ''Recursive call to create. Use Mhash.Hash()->reset() or Mhash.Hash()->set_type() to change the hash type or reset the object.''))
      else (case args of
              [] \<Rightarrow> (st, Inr ())
            | [A_int t] \<Rightarrow> start_hash lib (st\<lparr>htype := t\<rparr>)
            | [_] \<Rightarrow> (st, Inl (Pike_error ''Invalid argument 1. Expected integer.''))
            | _ \<Rightarrow> (st, Inl (Pike_error ''Invalid number of arguments to Mhash.Hash(), expected 0 or 1.''))))"

text \<open>\<^verbatim>\<open>mhash(context, data)\<close> on the object's context; without one it goes through a null pointer.\<close>

definition feed_hash :: "'c mhash_lib \<Rightarrow> arg list \<Rightarrow> 'c mhash_storage \<Rightarrow> 'c mhash_storage \<times> unit res" where
  "feed_hash lib args st =
     (case args of
        [A_string x] \<Rightarrow>
          (case hash st of None \<Rightarrow> (st, Inl Out_of_bounds) | Some c \<Rightarrow> (st\<lparr>hash := Some (l_feed lib c x)\<rparr>, Inr ()))
      | [_] \<Rightarrow> (st, Inl (Pike_error ''Invalid argument 1. Expected string.''))
      | _ \<Rightarrow> (st, Inl (Pike_error ''Invalid number of arguments to Mhash.Hash->feed(), expected 1.'')))"

definition f_hash_feed :: "'c mhash_lib \<Rightarrow> arg list \<Rightarrow> 'c mhash_storage \<Rightarrow> 'c mhash_storage \<times> unit res" where
  "f_hash_feed lib args st =
     (if hash st = None then
        (if htype st \<noteq> - 1 then
           (case start_hash lib (free_hash st) of
              (st, Inl e) \<Rightarrow> (st, Inl e)
            | (st, Inr _) \<Rightarrow> feed_hash lib args st)
         else (st, Inl (Pike_error ''Hash is uninitialized. Use Mhash.Hash()->set_type() to select hash type.'')))
      else feed_hash lib args st)"

text \<open>The digest is computed once and kept; as many bytes are copied as the block size says.\<close>

definition copy_digest :: "'c mhash_lib \<Rightarrow> 'c mhash_storage \<Rightarrow> 'c mhash_storage \<times> string res" where
  "copy_digest lib st =
     (case hres st of
        None \<Rightarrow> (st, Inl (Pike_error ''No hash result available!''))
      | Some d \<Rightarrow>
          let len = l_block_size lib (htype st)
          in (st, if len \<le> length d then Inr (take len d) else Inl Out_of_bounds))"

definition f_hash_digest :: "'c mhash_lib \<Rightarrow> 'c mhash_storage \<Rightarrow> 'c mhash_storage \<times> string res" where
  "f_hash_digest lib st =
     copy_digest lib
       (case (hres st, hash st) of (None, Some c) \<Rightarrow> st\<lparr>hres := l_end lib c, hash := None\<rparr> | _ \<Rightarrow> st)"

text \<open>The results of \<^verbatim>\<open>query_name\<close>: a name, or one of the integers 0 and -1.\<close>

definition f_hash_query_name :: "'c mhash_lib \<Rightarrow> 'c mhash_storage \<Rightarrow> int + string" where
  "f_hash_query_name lib st =
     (if htype st \<noteq> - 1 then (case l_name lib (htype st) of None \<Rightarrow> Inl (- 1) | Some n \<Rightarrow> Inr (cstr n)) else Inl 0)"

definition restart_hash :: "'c mhash_lib \<Rightarrow> 'c mhash_storage \<Rightarrow> 'c mhash_storage \<times> unit res" where
  "restart_hash lib st =
     (let st = free_hash st in if htype st \<noteq> - 1 then start_hash lib st else (st, Inr ()))"

definition f_hash_reset :: "'c mhash_lib \<Rightarrow> 'c mhash_storage \<Rightarrow> 'c mhash_storage \<times> unit res" where
  "f_hash_reset lib st = restart_hash lib st"

definition f_hash_set_type :: "'c mhash_lib \<Rightarrow> arg list \<Rightarrow> 'c mhash_storage \<Rightarrow> 'c mhash_storage \<times> unit res" where
  "f_hash_set_type lib args st =
     (case args of
        [A_int t] \<Rightarrow> restart_hash lib (st\<lparr>htype := t\<rparr>)
      | [_] \<Rightarrow> (st, Inl (Pike_error ''Invalid argument 1. Expected integer.''))
      | _ \<Rightarrow> (st, Inl (Pike_error ''Invalid number of arguments to Mhash.Hash()->set_type, expected 1.'')))"

section \<open>HMAC\<close>

datatype hmac_state = HMAC_OK | HMAC_TYPE | HMAC_PASS | HMAC_FAIL | HMAC_LIVE | HMAC_DONE

definition init_hmac :: "'c mhash_lib \<Rightarrow> 'c mhash_storage \<Rightarrow> 'c mhash_storage \<times> hmac_state" where
  "init_hmac lib st =
     (if hmac st \<noteq> None then (st, HMAC_LIVE)
      else if htype st = - 1 then (st, HMAC_TYPE)
      else (case pw st of
              None \<Rightarrow> (st, HMAC_PASS)
            | Some key \<Rightarrow>
                if hres st \<noteq> None then (st, HMAC_DONE)
                else (case l_hmac_init lib (htype st) key (l_pblock lib (htype st)) of
                        None \<Rightarrow> (st, HMAC_FAIL)
                      | Some c \<Rightarrow> (st\<lparr>hmac := Some c\<rparr>, HMAC_OK))))"

definition f_hmac_create :: "'c mhash_lib \<Rightarrow> arg list \<Rightarrow> 'c mhash_storage \<Rightarrow> 'c mhash_storage \<times> unit res" where
  "f_hmac_create lib args st =
     (if htype st \<noteq> - 1 \<or> hmac st \<noteq> None \<or> hres st \<noteq> None then (st, Inl (Pike_error ''Recursive call to create. Use Mhash.HMAC()->reset() or Mhash.HMAC()->set_type() to change the hash type or reset the object.''))
      else (case args of
              [] \<Rightarrow> (st, Inr ())
            | [A_int t] \<Rightarrow>
                (case l_init lib t of
                   None \<Rightarrow> (st\<lparr>htype := t, hmac := None\<rparr>, Inl (Pike_error ''Failed to initialize hash.''))
                 | Some c \<Rightarrow> (st\<lparr>htype := t, hmac := Some c\<rparr>, Inr ()))
            | [_] \<Rightarrow> (st, Inl (Pike_error ''Invalid argument 1. Expected integer.''))
            | _ \<Rightarrow> (st, Inl (Pike_error ''Invalid number of arguments to Mhash.HMAC(), expected 0 or 1.''))))"

definition f_hmac_set_key :: "'c mhash_lib \<Rightarrow> arg list \<Rightarrow> 'c mhash_storage \<Rightarrow> 'c mhash_storage \<times> unit res" where
  "f_hmac_set_key lib args st =
     (case args of
        [A_string key] \<Rightarrow>
          (let (st, ret) = init_hmac lib (st\<lparr>pw := Some key\<rparr>)
           in (st, if ret = HMAC_LIVE
                   then Inl (Pike_error ''Hash generation already in progress. Password change will not take affect until HMAC object is reset.'')
                   else Inr ()))
      | [_] \<Rightarrow> (st, Inl (Pike_error ''Invalid argument 1. Expected string.''))
      | _ \<Rightarrow> (st, Inl (Pike_error ''Invalid number of arguments to Mhash.HMAC->feed(), expected 1.'')))"

definition feed_hmac :: "'c mhash_lib \<Rightarrow> arg list \<Rightarrow> 'c mhash_storage \<Rightarrow> 'c mhash_storage \<times> unit res" where
  "feed_hmac lib args st =
     (case args of
        [A_string x] \<Rightarrow>
          (case hmac st of None \<Rightarrow> (st, Inl Out_of_bounds) | Some c \<Rightarrow> (st\<lparr>hmac := Some (l_feed lib c x)\<rparr>, Inr ()))
      | [_] \<Rightarrow> (st, Inl (Pike_error ''Invalid argument 1. Expected string.''))
      | _ \<Rightarrow> (st, Inl (Pike_error ''Invalid number of arguments to Mhash.HMAC->feed(), expected 1.'')))"

definition f_hmac_feed :: "'c mhash_lib \<Rightarrow> arg list \<Rightarrow> 'c mhash_storage \<Rightarrow> 'c mhash_storage \<times> unit res" where
  "f_hmac_feed lib args st =
     (let (st, ret) = init_hmac lib st
      in case ret of
           HMAC_TYPE \<Rightarrow> (st, Inl (Pike_error ''The hash type is not set. Use Mhash.HMAC()->set_type() to set it.''))
         | HMAC_PASS \<Rightarrow> (st, Inl (Pike_error ''The HMAC password is missing. Use Mhash.HMAC()->set_key() to set it.''))
         | HMAC_FAIL \<Rightarrow> (st, Inl (Pike_error ''Failed to initialize the hash due to an unknown error.''))
         | HMAC_DONE \<Rightarrow> feed_hmac lib args (fst (init_hmac lib (free_hash st)))
         | HMAC_OK \<Rightarrow> feed_hmac lib args st
         | HMAC_LIVE \<Rightarrow> feed_hmac lib args st)"

definition f_hmac_digest :: "'c mhash_lib \<Rightarrow> 'c mhash_storage \<Rightarrow> 'c mhash_storage \<times> string res" where
  "f_hmac_digest lib st =
     copy_digest lib
       (case (hres st, hmac st) of (None, Some c) \<Rightarrow> st\<lparr>hres := l_hmac_end lib c, hmac := None\<rparr> | _ \<Rightarrow> st)"

definition restart_hmac :: "'c mhash_lib \<Rightarrow> 'c mhash_storage \<Rightarrow> 'c mhash_storage \<times> unit res" where
  "restart_hmac lib st =
     (let (st, ret) = init_hmac lib (free_hash st)
      in (st, if ret = HMAC_FAIL then Inl (Pike_error ''Failed to initialize hash.'') else Inr ()))"

definition f_hmac_reset :: "'c mhash_lib \<Rightarrow> 'c mhash_storage \<Rightarrow> 'c mhash_storage \<times> unit res" where
  "f_hmac_reset lib st = restart_hmac lib st"

definition f_hmac_set_type :: "'c mhash_lib \<Rightarrow> arg list \<Rightarrow> 'c mhash_storage \<Rightarrow> 'c mhash_storage \<times> unit res" where
  "f_hmac_set_type lib args st =
     (case args of
        [A_int t] \<Rightarrow>
          (if l_pblock lib t = 0 then
             (st, Inl (Pike_error ''The selected hash is invalid or doesn't support HMAC mode.''))
           else restart_hmac lib (st\<lparr>htype := t\<rparr>))
      | [_] \<Rightarrow> (st, Inl (Pike_error ''Invalid argument 1. Expected integer.''))
      | _ \<Rightarrow> (st, Inl (Pike_error ''Invalid number of arguments to Mhash.HMAC()->set_type, expected 1.'')))"

section \<open>Functions of the module\<close>

definition f_query_name :: "'c mhash_lib \<Rightarrow> arg list \<Rightarrow> (int + string) res" where
  "f_query_name lib args =
     (case args of
        [A_int t] \<Rightarrow> Inr (case l_name lib t of None \<Rightarrow> Inl 0 | Some n \<Rightarrow> Inr (cstr n))
      | [_] \<Rightarrow> Inl (Pike_error ''Invalid argument 1. Expected integer.'')
      | _ \<Rightarrow> Inl (Pike_error ''Invalid number of arguments to Mhash.Hash()->set_type, expected 1.''))"

text \<open>
  The argument on top of the stack. The test before its use is \<open>args != 1 && not a string\<close>, so a single
  argument that is not a string is taken for one, and without arguments a foreign value is looked at.
\<close>

definition string_arg :: "string \<Rightarrow> arg list \<Rightarrow> string res" where
  "string_arg msg args =
     (case rev args of
        [] \<Rightarrow> Inl Out_of_bounds
      | A_string x # _ \<Rightarrow> Inr x
      | _ # others \<Rightarrow> if others \<noteq> [] then Inl (Pike_error msg) else Inl Out_of_bounds)"

text \<open>The macro \<^verbatim>\<open>QUICKHASH\<close>: the functions \<^verbatim>\<open>hash_md5\<close>, \<^verbatim>\<open>hash_sha1\<close> and so on, for their hash type.\<close>

definition quick_hash :: "'c mhash_lib \<Rightarrow> string \<Rightarrow> int \<Rightarrow> arg list \<Rightarrow> string res" where
  "quick_hash lib name t args =
     bind_res (string_arg (''Invalid / incorrect args to hash_'' @ name @ ''. Expected string.'') args) (\<lambda>x.
       case l_init lib t of
         None \<Rightarrow> Inl (Pike_error ''Failed to initialize hash.'')
       | Some c \<Rightarrow>
           (case l_end lib (l_feed lib c x) of
              None \<Rightarrow> if l_block_size lib t = 0 then Inr [] else Inl Out_of_bounds
            | Some d \<Rightarrow> if l_block_size lib t \<le> length d then Inr (take (l_block_size lib t) d) else Inl Out_of_bounds))"

definition hex_digit :: "nat \<Rightarrow> char" where
  "hex_digit n = (''0123456789abcdef'' ! n)"

text \<open>\<^verbatim>\<open>snprintf(hex, 3, "%.2x", c)\<close>.\<close>

definition hex_pair :: "char \<Rightarrow> string" where
  "hex_pair c = [hex_digit (code_of c div 16), hex_digit (code_of c mod 16)]"

definition f_to_hex :: "arg list \<Rightarrow> string res" where
  "f_to_hex args =
     bind_res (string_arg ''Invalid / incorrect args to to_hex. Expected string.'' args) (\<lambda>x. Inr (concat (map hex_pair x)))"

section \<open>Histories of a hash object\<close>

datatype hash_op = H_feed string | H_digest | H_reset | H_set_type int

definition no_result :: "'s \<times> unit res \<Rightarrow> 's \<times> string res" where
  "no_result p = (fst p, case snd p of Inl e \<Rightarrow> Inl e | Inr _ \<Rightarrow> Inr [])"

lemma no_result_simps [simp]: "no_result (s, Inr u) = (s, Inr [])" "no_result (s, Inl e) = (s, Inl e)"
  by (simp_all add: no_result_def)

fun hash_step :: "'c mhash_lib \<Rightarrow> hash_op \<Rightarrow> 'c mhash_storage \<Rightarrow> 'c mhash_storage \<times> string res" where
  "hash_step lib (H_feed x) st = no_result (f_hash_feed lib [A_string x] st)"
| "hash_step lib H_digest st = f_hash_digest lib st"
| "hash_step lib H_reset st = no_result (f_hash_reset lib st)"
| "hash_step lib (H_set_type t) st = no_result (f_hash_set_type lib [A_int t] st)"

text \<open>The results of a sequence of operations.\<close>

fun results :: "('o \<Rightarrow> 's \<Rightarrow> 's \<times> 'r) \<Rightarrow> 'o list \<Rightarrow> 's \<Rightarrow> 'r list" where
  "results step [] s = []"
| "results step (p # ps) s = (case step p s of (s', r) \<Rightarrow> r # results step ps s')"

text \<open>
  The reference: the type, the bytes fed since the last start, and whether the digest was taken. A digest is what the
  one-shot function of the type gives for all the bytes.
\<close>

fun spec_hash_step :: "'c mhash_lib \<Rightarrow> hash_op \<Rightarrow> int \<times> string \<times> bool \<Rightarrow> (int \<times> string \<times> bool) \<times> string res" where
  "spec_hash_step lib (H_feed x) (t, fed, taken) = ((t, (if taken then x else fed @ x), False), Inr [])"
| "spec_hash_step lib H_digest (t, fed, taken) = ((t, fed, True), quick_hash lib [] t [A_string fed])"
| "spec_hash_step lib H_reset (t, fed, taken) = ((t, [], False), Inr [])"
| "spec_hash_step lib (H_set_type u) (t, fed, taken) = ((u, [], False), Inr [])"

fun types_of :: "hash_op list \<Rightarrow> int set" where
  "types_of [] = {}"
| "types_of (H_set_type t # ps) = insert t (types_of ps)"
| "types_of (p # ps) = types_of ps"

text \<open>Results agree when the steps keep a relation between the states.\<close>

lemma results_simulation:
  assumes "\<And>p s a. p \<in> set ps \<Longrightarrow> R s a \<Longrightarrow> R (fst (f p s)) (fst (g p a)) \<and> snd (f p s) = snd (g p a)" "R s a"
  shows "results f ps s = results g ps a"
  using assms
proof (induction ps arbitrary: s a)
  case (Cons p ps)
  have "R (fst (f p s)) (fst (g p a)) \<and> snd (f p s) = snd (g p a)" using Cons.prems by simp
  moreover from this have "results f ps (fst (f p s)) = results g ps (fst (g p a))" using Cons.prems(1) by (intro Cons.IH) auto
  ultimately show ?case by (simp add: case_prod_beta)
qed simp

definition hash_represents :: "'c mhash_lib \<Rightarrow> int set \<Rightarrow> 'c mhash_storage \<Rightarrow> int \<times> string \<times> bool \<Rightarrow> bool" where
  "hash_represents lib types st a \<longleftrightarrow>
     (case a of (t, fed, taken) \<Rightarrow>
        t \<in> types \<and> htype st = t \<and> hmac st = None \<and>
        (\<exists>c. l_init lib t = Some c \<and>
          (if taken then hash st = None \<and> hres st = l_end lib (l_feed lib c fed)
           else hash st = Some (l_feed lib c fed) \<and> hres st = None)))"

lemma hash_step_represents:
  assumes "lib_ok lib types" "types_of [p] \<subseteq> types" "hash_represents lib types st a"
  shows "hash_represents lib types (fst (hash_step lib p st)) (fst (spec_hash_step lib p a)) \<and>
    snd (hash_step lib p st) = snd (spec_hash_step lib p a)"
proof -
  obtain t fed taken where a: "a = (t, fed, taken)" by (cases a)
  then obtain c where t: "t \<in> types" "htype st = t" "hmac st = None" "l_init lib t = Some c"
    and c: "if taken then hash st = None \<and> hres st = l_end lib (l_feed lib c fed)
      else hash st = Some (l_feed lib c fed) \<and> hres st = None"
    using assms(3) by (auto simp: hash_represents_def)
  note lib = lib_okD [OF assms(1)]
  have init: "\<exists>d. l_init lib u = Some d" if "u \<in> types" for u using hash_okE [OF assms(1) that] by blast
  obtain d where d: "l_end lib (l_feed lib c fed) = Some d" "length d = l_block_size lib t"
    using hash_okE [OF assms(1) t(1)] t(4) by (metis option.inject)
  have restart: "hash_represents lib types (fst (restart_hash lib (st\<lparr>htype := u\<rparr>))) (u, [], False) \<and>
      snd (restart_hash lib (st\<lparr>htype := u\<rparr>)) = Inr ()" if "u \<in> types" for u
  proof -
    have "u \<noteq> - 1" using that lib(3) by auto
    then show ?thesis using init [OF that] that lib(2) t(3)
      by (auto simp: restart_hash_def start_hash_def free_hash_def hash_represents_def Let_def)
  qed
  have same: "st\<lparr>htype := t\<rparr> = st" using t(2) by simp
  have neg: "t \<noteq> - 1" using t(1) lib(3) by auto
  show ?thesis
  proof (cases p)
    case (H_feed x)
    then show ?thesis using a t c lib neg
      by (auto simp: f_hash_feed_def feed_hash_def start_hash_def free_hash_def hash_represents_def split: if_splits)
  next
    case H_digest
    then show ?thesis using a t c d
      by (auto simp: f_hash_digest_def copy_digest_def hash_represents_def quick_hash_def string_arg_def Let_def split: if_splits)
  next
    case H_reset
    then show ?thesis using a restart [OF t(1)] by (simp add: same f_hash_reset_def no_result_def)
  next
    case (H_set_type u)
    then show ?thesis using a restart [of u] assms(2) by (simp add: f_hash_set_type_def no_result_def)
  qed
qed

section \<open>Histories of an HMAC object\<close>

datatype hmac_op = K_set_key string | K_feed string | K_digest | K_reset | K_set_type int

fun hmac_step :: "'c mhash_lib \<Rightarrow> hmac_op \<Rightarrow> 'c mhash_storage \<Rightarrow> 'c mhash_storage \<times> string res" where
  "hmac_step lib (K_set_key k) st = no_result (f_hmac_set_key lib [A_string k] st)"
| "hmac_step lib (K_feed x) st = no_result (f_hmac_feed lib [A_string x] st)"
| "hmac_step lib K_digest st = f_hmac_digest lib st"
| "hmac_step lib K_reset st = no_result (f_hmac_reset lib st)"
| "hmac_step lib (K_set_type t) st = no_result (f_hmac_set_type lib [A_int t] st)"

text \<open>
  The reference: an HMAC computation is idle, running with a key and the bytes fed, or done. A new key
  is used when the next computation starts, which is at once only if none is running or done.
\<close>

datatype phase = Idle | Running string string | Done string

definition hmac_of :: "'c mhash_lib \<Rightarrow> int \<Rightarrow> string \<Rightarrow> string \<Rightarrow> string" where
  "hmac_of lib t key x =
     (case l_hmac_init lib t key (l_pblock lib t) of
        None \<Rightarrow> []
      | Some c \<Rightarrow> (case l_hmac_end lib (l_feed lib c x) of None \<Rightarrow> [] | Some d \<Rightarrow> take (l_block_size lib t) d))"

definition start_phase :: "int \<Rightarrow> string option \<Rightarrow> phase" where
  "start_phase t key = (case key of None \<Rightarrow> Idle | Some k \<Rightarrow> if t = - 1 then Idle else Running k [])"

fun spec_hmac_step :: "'c mhash_lib \<Rightarrow> hmac_op \<Rightarrow> int \<times> string option \<times> phase \<Rightarrow> (int \<times> string option \<times> phase) \<times> string res" where
  "spec_hmac_step lib (K_set_key k) (t, key, ph) =
     (case ph of
        Idle \<Rightarrow> ((t, Some k, start_phase t (Some k)), Inr [])
      | Running _ _ \<Rightarrow>
          ((t, Some k, ph),
           Inl (Pike_error ''Hash generation already in progress. Password change will not take affect until HMAC object is reset.''))
      | Done _ \<Rightarrow> ((t, Some k, ph), Inr []))"
| "spec_hmac_step lib (K_feed x) (t, key, ph) =
     (case ph of
        Idle \<Rightarrow>
          ((t, key, ph),
           Inl (Pike_error (if t = - 1 then ''The hash type is not set. Use Mhash.HMAC()->set_type() to set it.''
                            else ''The HMAC password is missing. Use Mhash.HMAC()->set_key() to set it.'')))
      | Running k fed \<Rightarrow> ((t, key, Running k (fed @ x)), Inr [])
      | Done _ \<Rightarrow> ((t, key, Running (the key) x), Inr []))"
| "spec_hmac_step lib K_digest (t, key, ph) =
     (case ph of
        Idle \<Rightarrow> ((t, key, ph), Inl (Pike_error ''No hash result available!''))
      | Running k fed \<Rightarrow> ((t, key, Done (hmac_of lib t k fed)), Inr (hmac_of lib t k fed))
      | Done d \<Rightarrow> ((t, key, ph), Inr d))"
| "spec_hmac_step lib K_reset (t, key, ph) = ((t, key, start_phase t key), Inr [])"
| "spec_hmac_step lib (K_set_type u) (t, key, ph) = ((u, key, start_phase u key), Inr [])"

definition hmac_represents :: "'c mhash_lib \<Rightarrow> int set \<Rightarrow> 'c mhash_storage \<Rightarrow> int \<times> string option \<times> phase \<Rightarrow> bool" where
  "hmac_represents lib types st a \<longleftrightarrow>
     (case a of (t, key, ph) \<Rightarrow>
        t \<in> insert (- 1) types \<and> htype st = t \<and> pw st = key \<and> hash st = None \<and>
        (case ph of
           Idle \<Rightarrow> hmac st = None \<and> hres st = None \<and> (t = - 1 \<or> key = None)
         | Running k fed \<Rightarrow> t \<in> types \<and> key \<noteq> None \<and> hres st = None \<and>
             (\<exists>c. l_hmac_init lib t k (l_pblock lib t) = Some c \<and> hmac st = Some (l_feed lib c fed))
         | Done d \<Rightarrow> t \<in> types \<and> key \<noteq> None \<and> hmac st = None \<and> hres st = Some d \<and> length d = l_block_size lib t))"

lemma restart_hmac_represents:
  assumes "hmac_lib_ok lib types" "u \<in> insert (- 1) types"
  shows "hmac_represents lib types (fst (restart_hmac lib (st\<lparr>htype := u\<rparr>))) (u, pw st, start_phase u (pw st)) \<and>
    snd (restart_hmac lib (st\<lparr>htype := u\<rparr>)) = Inr ()"
proof (cases "u = - 1")
  case True
  then show ?thesis
    by (simp add: restart_hmac_def init_hmac_def free_hash_def hmac_represents_def start_phase_def split: option.split)
next
  case False
  then have u: "u \<in> types" using assms(2) by simp
  note feed = hmac_lib_okD(2) [OF assms(1)]
  have "\<exists>c. l_hmac_init lib u k (l_pblock lib u) = Some c" for k using hmac_okE [OF assms(1) u] by metis
  then show ?thesis using False u feed
    by (cases "pw st")
      (auto simp: restart_hmac_def init_hmac_def free_hash_def hmac_represents_def start_phase_def Let_def
        split: option.split prod.split)
qed

fun hmac_types :: "hmac_op list \<Rightarrow> int set" where
  "hmac_types [] = {}"
| "hmac_types (K_set_type t # ps) = insert t (hmac_types ps)"
| "hmac_types (p # ps) = hmac_types ps"

lemma hmac_step_represents:
  assumes "hmac_lib_ok lib types" "hmac_types [p] \<subseteq> types" "hmac_represents lib types st a"
  shows "hmac_represents lib types (fst (hmac_step lib p st)) (fst (spec_hmac_step lib p a)) \<and>
    snd (hmac_step lib p st) = snd (spec_hmac_step lib p a)"
proof -
  obtain t key ph where a: "a = (t, key, ph)" by (cases a)
  have r: "t \<in> insert (- 1) types" "htype st = t" "pw st = key" "hash st = None"
    "case ph of
       Idle \<Rightarrow> hmac st = None \<and> hres st = None \<and> (t = - 1 \<or> key = None)
     | Running k fed \<Rightarrow> t \<in> types \<and> key \<noteq> None \<and> hres st = None \<and>
         (\<exists>c. l_hmac_init lib t k (l_pblock lib t) = Some c \<and> hmac st = Some (l_feed lib c fed))
     | Done d \<Rightarrow> t \<in> types \<and> key \<noteq> None \<and> hmac st = None \<and> hres st = Some d \<and> length d = l_block_size lib t"
    using assms(3) a by (simp_all add: hmac_represents_def)
  note lib = hmac_lib_okD [OF assms(1)]
  have init: "\<exists>c. l_hmac_init lib u k (l_pblock lib u) = Some c" "l_pblock lib u \<noteq> 0" "u \<noteq> - 1" if "u \<in> types" for u k
    using hmac_okE [OF assms(1) that, of k] that lib(3) by metis+
  have fin: "\<exists>d. l_hmac_end lib (l_feed lib c x) = Some d \<and> length d = l_block_size lib u"
    if "u \<in> types" "l_hmac_init lib u k (l_pblock lib u) = Some c" for u k c x
    using hmac_okE [OF assms(1) that(1), of k] that(2) by (metis option.inject)
  have same: "st\<lparr>htype := t\<rparr> = st" using r(2) by simp
  show ?thesis
  proof (cases p)
    case (K_set_key k)
    then show ?thesis using a r lib(2) init(1) [of t k] init(3) [of t]
      by (cases ph)
        (auto simp: f_hmac_set_key_def init_hmac_def Let_def start_phase_def hmac_represents_def split: option.split)
  next
    case (K_feed x)
    show ?thesis
    proof (cases ph)
      case (Done d)
      then obtain k where "key = Some k" "t \<in> types" using r(5) by auto
      then show ?thesis using K_feed Done a r lib init(1) [of t k] init(3) [of t]
        by (auto simp: f_hmac_feed_def feed_hmac_def init_hmac_def free_hash_def Let_def hmac_represents_def)
    qed (use K_feed a r lib init in \<open>auto simp: f_hmac_feed_def feed_hmac_def init_hmac_def Let_def hmac_represents_def\<close>)
  next
    case K_digest
    show ?thesis
    proof (cases ph)
      case (Running k fed)
      then obtain c where c: "t \<in> types" "l_hmac_init lib t k (l_pblock lib t) = Some c" "hmac st = Some (l_feed lib c fed)"
        "hres st = None" "key \<noteq> None"
        using r(5) by auto
      then show ?thesis using K_digest Running a r fin [OF c(1,2), of fed]
        by (auto simp: f_hmac_digest_def copy_digest_def hmac_of_def Let_def hmac_represents_def)
    qed (use K_digest a r in \<open>auto simp: f_hmac_digest_def copy_digest_def Let_def hmac_represents_def\<close>)
  next
    case K_reset
    then show ?thesis using a restart_hmac_represents [OF assms(1) r(1), of st] r(3)
      by (simp add: same f_hmac_reset_def no_result_def)
  next
    case (K_set_type u)
    then have u: "u \<in> types" using assms(2) by simp
    then show ?thesis using K_set_type a restart_hmac_represents [OF assms(1), of u st] r(3) init(2) [OF u]
      by (simp add: f_hmac_set_type_def no_result_def)
  qed
qed

lemma in_types: "types_of ps \<subseteq> types \<Longrightarrow> p \<in> set ps \<Longrightarrow> types_of [p] \<subseteq> types"
  "hmac_types qs \<subseteq> types \<Longrightarrow> q \<in> set qs \<Longrightarrow> hmac_types [q] \<subseteq> types"
  by (induction ps rule: types_of.induct, auto) (induction qs rule: hmac_types.induct, auto)

section \<open>A library\<close>

text \<open>
  A concrete library with two types of hash, whose digests are the last one or two bytes of the key and data: it is
  enough to see that the assumptions on the library can hold.
\<close>

definition example_digest :: "int \<times> string \<Rightarrow> string option" where
  "example_digest = (\<lambda>(t, x). Some (take (nat t) (rev x @ ''00'')))"

definition example_lib :: "(int \<times> string) mhash_lib" where
  "example_lib =
     \<lparr>l_init = (\<lambda>t. if t \<in> {1, 2} then Some (t, []) else None), l_feed = (\<lambda>(t, x) y. (t, x @ y)),
      l_end = example_digest, l_hmac_init = (\<lambda>t k b. if t \<in> {1, 2} then Some (t, k) else None),
      l_hmac_end = example_digest, l_block_size = nat, l_pblock = (\<lambda>t. if t \<in> {1, 2} then 64 else 0),
      l_name = (\<lambda>t. if t \<in> {1, 2} then Some ''EXAMPLE'' else None)\<rparr>"

lemma example_lib_ok: "lib_ok example_lib {1, 2}" "hmac_lib_ok example_lib {1, 2}"
  by (auto simp: lib_ok_def hmac_lib_ok_def feed_ok_def hash_ok_def hmac_ok_def example_lib_def example_digest_def)

section \<open>Hexadecimal digits\<close>

definition hex_value :: "char \<Rightarrow> nat" where
  "hex_value c = (if code_of c < 58 then code_of c - 48 else code_of c - 87)"

fun from_hex :: "string \<Rightarrow> string" where
  "from_hex (a # b # cs) = char_of (16 * hex_value a + hex_value b) # from_hex cs"
| "from_hex _ = []"

lemma hex_digit_value: "n < 16 \<Longrightarrow> hex_value (hex_digit n) = n \<and> hex_digit n \<in> set ''0123456789abcdef''"
  by (simp add: numeral_eq_Suc less_Suc_eq) (auto simp: hex_digit_def hex_value_def)

section \<open>The properties\<close>

text \<open>
  C18. Hashing in pieces is hashing at once: whatever sequence of feeds, digests, resets and changes of the type
  a hash object goes through, every digest is what the one-shot function of its type (\<open>hash_md5\<close> and so on)
  gives for all the bytes fed since the last start, and a digest may be asked for again and
  starts a new computation at the next feed.
\<close>

theorem hash_object_equals_quick:
  assumes "lib_ok lib types" "t \<in> types" "types_of ops \<subseteq> types"
  shows "results (hash_step lib) ops (fst (f_hash_create lib [A_int t] init_hash_storage)) =
    results (spec_hash_step lib) ops (t, [], False)"
proof (rule results_simulation)
  obtain c where "l_init lib t = Some c" "l_feed lib c [] = c"
    using hash_okE [OF assms(1,2)] lib_okD(2) [OF assms(1)] by metis
  then show "hash_represents lib types (fst (f_hash_create lib [A_int t] init_hash_storage)) (t, [], False)"
    using assms(2) by (simp add: f_hash_create_def init_hash_storage_def start_hash_def hash_represents_def)
qed (use hash_step_represents [OF assms(1)] in_types(1) [OF assms(3)] in blast)

lemma hash_object_equals_quick_witness:
  "lib_ok example_lib {1, 2} \<and>
   results (hash_step example_lib) [H_feed ''ab'', H_feed ''cd'', H_digest, H_feed ''xyz'', H_digest]
     (fst (f_hash_create example_lib [A_int 2] init_hash_storage)) = [Inr [], Inr [], Inr ''dc'', Inr [], Inr ''zy'']"
  using example_lib_ok(1)
    hash_object_equals_quick [OF example_lib_ok(1), of 2 "[H_feed ''ab'', H_feed ''cd'', H_digest, H_feed ''xyz'', H_digest]"]
  by (simp add: quick_hash_def string_arg_def) (simp add: example_lib_def example_digest_def)

text \<open>
  C19. An HMAC object computes the HMAC of the bytes fed under the key set: through any sequence of keys,
  feeds, digests, resets and types it behaves as the reference, in which a new key waits for the
  next computation, a missing type or key is an error and a digest is kept until the next feed.
\<close>

theorem hmac_object_refines:
  assumes "hmac_lib_ok lib types" "hmac_types ops \<subseteq> types"
  shows "results (hmac_step lib) ops init_hash_storage = results (spec_hmac_step lib) ops (- 1, None, Idle)"
proof (rule results_simulation)
  show "hmac_represents lib types init_hash_storage (- 1, None, Idle)"
    by (simp add: hmac_represents_def init_hash_storage_def)
qed (use hmac_step_represents [OF assms(1)] in_types(2) [OF assms(2)] in blast)

lemma hmac_object_refines_witness:
  "hmac_lib_ok example_lib {1, 2} \<and>
   results (hmac_step example_lib) [K_set_type 2, K_set_key ''key'', K_feed ''a'', K_digest, K_digest] init_hash_storage =
     [Inr [], Inr [], Inr [], Inr ''ay'', Inr ''ay'']"
  using example_lib_ok(2)
    hmac_object_refines [OF example_lib_ok(2), of "[K_set_type 2, K_set_key ''key'', K_feed ''a'', K_digest, K_digest]"]
  by (simp add: start_phase_def hmac_of_def) (simp add: example_lib_def example_digest_def)

text \<open>
  An HMAC object created with a type needs no key: the constructor starts a plain hash, so data is accepted and a
  digest given although no key was ever set, while without the argument the same feed is refused.
\<close>

lemma hmac_created_needs_no_key:
  assumes "l_init lib t = Some c" "t \<noteq> - 1" "l_pblock lib t \<noteq> 0"
  shows "(\<exists>st. f_hmac_feed lib [A_string x] (fst (f_hmac_create lib [A_int t] init_hash_storage)) = (st, Inr ()) \<and>
      pw st = None \<and> hmac st = Some (l_feed lib c x)) \<and>
    snd (f_hmac_feed lib [A_string x] (fst (f_hmac_set_type lib [A_int t] init_hash_storage))) =
      Inl (Pike_error ''The HMAC password is missing. Use Mhash.HMAC()->set_key() to set it.'')"
  using assms
  by (simp add: f_hmac_feed_def f_hmac_create_def f_hmac_set_type_def restart_hmac_def init_hmac_def feed_hmac_def
      init_hash_storage_def free_hash_def)

lemma hmac_created_needs_no_key_witness:
  "l_init example_lib 2 = Some (2, []) \<and>
   (\<exists>st. f_hmac_feed example_lib [A_string ''a''] (fst (f_hmac_create example_lib [A_int 2] init_hash_storage)) = (st, Inr ()) \<and>
      pw st = None \<and> hmac st = Some (2, ''a''))"
  using hmac_created_needs_no_key [of example_lib 2 "(2, [])" "''a''"] by (simp add: example_lib_def)

text \<open>\<open>to_hex\<close> gives two lower-case hexadecimal digits for each byte, from which the bytes can be read back.\<close>

lemma to_hex_roundtrip:
  "\<exists>h. f_to_hex [A_string x] = Inr h \<and> length h = 2 * length x \<and> set h \<subseteq> set ''0123456789abcdef'' \<and> from_hex h = x"
proof -
  have d: "code_of c div 16 < 16" "code_of c mod 16 < 16" for c
    using code_of_less [of c] by (simp_all del: code_of_less)
  have "from_hex (concat (map hex_pair x)) = x \<and> length (concat (map hex_pair x)) = 2 * length x \<and>
      set (concat (map hex_pair x)) \<subseteq> set ''0123456789abcdef''"
    by (induction x) (use hex_digit_value [OF d(1)] hex_digit_value [OF d(2)] in \<open>auto simp: hex_pair_def\<close>)
  then show ?thesis by (simp add: f_to_hex_def string_arg_def)
qed

end
