(* ===== verification/Getdate_Lex.thy ===== *)
theory Getdate_Lex
  imports Dates
begin

text \<open>
  The words and numbers of the date parser, \<^verbatim>\<open>src/cmods/_Caudium/getdate.c\<close>: the parser's control
  structure, the tables of words, \<^verbatim>\<open>lookup_word\<close> and the lexer \<^verbatim>\<open>yylex\<close>, in the C locale. The
  pointer into the date is the string it points to; \<open>None\<close> is the address behind the terminating zero. The
  union \<^verbatim>\<open>YYSTYPE\<close> is a \<open>textint\<close> whose first member is also \<^verbatim>\<open>intval\<close>: storing a word's
  value leaves the number of digits that was there before.
\<close>

section \<open>Tokens and the control structure\<close>

abbreviation tAGO :: int where "tAGO \<equiv> 257"
abbreviation tDST :: int where "tDST \<equiv> 258"
abbreviation tDAY :: int where "tDAY \<equiv> 259"
abbreviation tDAY_UNIT :: int where "tDAY_UNIT \<equiv> 260"
abbreviation tDAYZONE :: int where "tDAYZONE \<equiv> 261"
abbreviation tHOUR_UNIT :: int where "tHOUR_UNIT \<equiv> 262"
abbreviation tLOCAL_ZONE :: int where "tLOCAL_ZONE \<equiv> 263"
abbreviation tMERIDIAN :: int where "tMERIDIAN \<equiv> 264"
abbreviation tMINUTE_UNIT :: int where "tMINUTE_UNIT \<equiv> 265"
abbreviation tMONTH :: int where "tMONTH \<equiv> 266"
abbreviation tMONTH_UNIT :: int where "tMONTH_UNIT \<equiv> 267"
abbreviation tSEC_UNIT :: int where "tSEC_UNIT \<equiv> 268"
abbreviation tYEAR_UNIT :: int where "tYEAR_UNIT \<equiv> 269"
abbreviation tZONE :: int where "tZONE \<equiv> 270"
abbreviation tSNUMBER :: int where "tSNUMBER \<equiv> 271"
abbreviation tUNUMBER :: int where "tUNUMBER \<equiv> 272"

definition MERam :: int where "MERam = 0"
definition MERpm :: int where "MERpm = 1"
definition MER24 :: int where "MER24 = 2"

lemmas meridians = MERam_def MERpm_def MER24_def

definition HOUR :: "int \<Rightarrow> int" where
  "HOUR x = x * 60"

record textint =
  intval :: int
  digits :: int

type_synonym table = "string \<times> int \<times> int"

record parser_control =
  input :: "string option"
  day_ordinal :: int
  day_number :: int
  local_isdst :: int
  time_zone :: int
  meridian :: int
  year :: textint
  month :: int
  day :: int
  hour :: int
  minutes :: int
  seconds :: int
  rel_year :: int
  rel_month :: int
  rel_day :: int
  rel_hour :: int
  rel_minutes :: int
  rel_seconds :: int
  dates_seen :: int
  days_seen :: int
  local_zones_seen :: int
  rels_seen :: int
  times_seen :: int
  zones_seen :: int
  local_time_zone_table :: "table list"

section \<open>Words\<close>

definition meridian_table :: "table list" where
  "meridian_table =
     [(''AM'', tMERIDIAN, MERam), (''A.M.'', tMERIDIAN, MERam), (''PM'', tMERIDIAN, MERpm),
      (''P.M.'', tMERIDIAN, MERpm)]"

definition dst_table :: table where
  "dst_table = (''DST'', tDST, 0)"

definition month_and_day_table :: "table list" where
  "month_and_day_table =
     [(''JANUARY'', tMONTH, 1), (''FEBRUARY'', tMONTH, 2), (''MARCH'', tMONTH, 3), (''APRIL'', tMONTH, 4),
      (''MAY'', tMONTH, 5), (''JUNE'', tMONTH, 6), (''JULY'', tMONTH, 7), (''AUGUST'', tMONTH, 8),
      (''SEPTEMBER'', tMONTH, 9), (''SEPT'', tMONTH, 9), (''OCTOBER'', tMONTH, 10),
      (''NOVEMBER'', tMONTH, 11), (''DECEMBER'', tMONTH, 12), (''SUNDAY'', tDAY, 0), (''MONDAY'', tDAY, 1),
      (''TUESDAY'', tDAY, 2), (''TUES'', tDAY, 2), (''WEDNESDAY'', tDAY, 3), (''WEDNES'', tDAY, 3),
      (''THURSDAY'', tDAY, 4), (''THUR'', tDAY, 4), (''THURS'', tDAY, 4), (''FRIDAY'', tDAY, 5),
      (''SATURDAY'', tDAY, 6)]"

definition time_units_table :: "table list" where
  "time_units_table =
     [(''YEAR'', tYEAR_UNIT, 1), (''MONTH'', tMONTH_UNIT, 1), (''FORTNIGHT'', tDAY_UNIT, 14),
      (''WEEK'', tDAY_UNIT, 7), (''DAY'', tDAY_UNIT, 1), (''HOUR'', tHOUR_UNIT, 1),
      (''MINUTE'', tMINUTE_UNIT, 1), (''MIN'', tMINUTE_UNIT, 1), (''SECOND'', tSEC_UNIT, 1),
      (''SEC'', tSEC_UNIT, 1)]"

definition relative_time_table :: "table list" where
  "relative_time_table =
     [(''TOMORROW'', tMINUTE_UNIT, 24 * 60), (''YESTERDAY'', tMINUTE_UNIT, - (24 * 60)),
      (''TODAY'', tMINUTE_UNIT, 0), (''NOW'', tMINUTE_UNIT, 0), (''LAST'', tUNUMBER, - 1),
      (''THIS'', tUNUMBER, 0), (''NEXT'', tUNUMBER, 1), (''FIRST'', tUNUMBER, 1), (''THIRD'', tUNUMBER, 3),
      (''FOURTH'', tUNUMBER, 4), (''FIFTH'', tUNUMBER, 5), (''SIXTH'', tUNUMBER, 6),
      (''SEVENTH'', tUNUMBER, 7), (''EIGHTH'', tUNUMBER, 8), (''NINTH'', tUNUMBER, 9),
      (''TENTH'', tUNUMBER, 10), (''ELEVENTH'', tUNUMBER, 11), (''TWELFTH'', tUNUMBER, 12),
      (''AGO'', tAGO, 1)]"

definition time_zone_table :: "table list" where
  "time_zone_table =
     [(''GMT'', tZONE, HOUR 0), (''UT'', tZONE, HOUR 0), (''UTC'', tZONE, HOUR 0), (''WET'', tZONE, HOUR 0),
      (''WEST'', tDAYZONE, HOUR 0), (''BST'', tDAYZONE, HOUR 0), (''ART'', tZONE, - HOUR 3),
      (''BRT'', tZONE, - HOUR 3), (''BRST'', tDAYZONE, - HOUR 3), (''NST'', tZONE, - (HOUR 3 + 30)),
      (''NDT'', tDAYZONE, - (HOUR 3 + 30)), (''AST'', tZONE, - HOUR 4), (''ADT'', tDAYZONE, - HOUR 4),
      (''CLT'', tZONE, - HOUR 4), (''CLST'', tDAYZONE, - HOUR 4), (''EST'', tZONE, - HOUR 5),
      (''EDT'', tDAYZONE, - HOUR 5), (''CST'', tZONE, - HOUR 6), (''CDT'', tDAYZONE, - HOUR 6),
      (''MST'', tZONE, - HOUR 7), (''MDT'', tDAYZONE, - HOUR 7), (''PST'', tZONE, - HOUR 8),
      (''PDT'', tDAYZONE, - HOUR 8), (''AKST'', tZONE, - HOUR 9), (''AKDT'', tDAYZONE, - HOUR 9),
      (''HST'', tZONE, - HOUR 10), (''HAST'', tZONE, - HOUR 10), (''HADT'', tDAYZONE, - HOUR 10),
      (''SST'', tZONE, - HOUR 12), (''WAT'', tZONE, HOUR 1), (''CET'', tZONE, HOUR 1),
      (''CEST'', tDAYZONE, HOUR 1), (''MET'', tZONE, HOUR 1), (''MEZ'', tZONE, HOUR 1),
      (''MEST'', tDAYZONE, HOUR 1), (''MESZ'', tDAYZONE, HOUR 1), (''EET'', tZONE, HOUR 2),
      (''EEST'', tDAYZONE, HOUR 2), (''CAT'', tZONE, HOUR 2), (''SAST'', tZONE, HOUR 2),
      (''EAT'', tZONE, HOUR 3), (''MSK'', tZONE, HOUR 3), (''MSD'', tDAYZONE, HOUR 3),
      (''IST'', tZONE, (HOUR 5 + 30)), (''SGT'', tZONE, HOUR 8), (''KST'', tZONE, HOUR 9),
      (''JST'', tZONE, HOUR 9), (''GST'', tZONE, HOUR 10), (''NZST'', tZONE, HOUR 12),
      (''NZDT'', tDAYZONE, HOUR 12)]"

definition military_table :: "table list" where
  "military_table =
     [(''A'', tZONE, - HOUR 1), (''B'', tZONE, - HOUR 2), (''C'', tZONE, - HOUR 3), (''D'', tZONE, - HOUR 4),
      (''E'', tZONE, - HOUR 5), (''F'', tZONE, - HOUR 6), (''G'', tZONE, - HOUR 7), (''H'', tZONE, - HOUR 8),
      (''I'', tZONE, - HOUR 9), (''K'', tZONE, - HOUR 10), (''L'', tZONE, - HOUR 11),
      (''M'', tZONE, - HOUR 12), (''N'', tZONE, HOUR 1), (''O'', tZONE, HOUR 2), (''P'', tZONE, HOUR 3),
      (''Q'', tZONE, HOUR 4), (''R'', tZONE, HOUR 5), (''S'', tZONE, HOUR 6), (''T'', tZONE, HOUR 7),
      (''U'', tZONE, HOUR 8), (''V'', tZONE, HOUR 9), (''W'', tZONE, HOUR 10), (''X'', tZONE, HOUR 11),
      (''Y'', tZONE, HOUR 12), (''Z'', tZONE, HOUR 0)]"

text \<open>The characters of the C locale.\<close>

definition is_lower :: "char \<Rightarrow> bool" where
  "is_lower c \<longleftrightarrow> 97 \<le> code_of c \<and> code_of c \<le> 122"

definition is_alpha :: "char \<Rightarrow> bool" where
  "is_alpha c \<longleftrightarrow> 65 \<le> code_of c \<and> code_of c \<le> 90 \<or> is_lower c"

definition to_upper :: "char \<Rightarrow> char" where
  "to_upper c = (if is_lower c then char_of (code_of c - 32) else c)"

text \<open>The first entry of a table with the name; the null entry that ends a table is the end of the list.\<close>

definition find_entry :: "string \<Rightarrow> table list \<Rightarrow> table option" where
  "find_entry word tbl = find (\<lambda>tp. word = fst tp) tbl"

definition lookup_zone :: "table list \<Rightarrow> string \<Rightarrow> table option" where
  "lookup_zone zones name =
     (case find_entry name zones of Some tp \<Rightarrow> Some tp | None \<Rightarrow> find_entry name time_zone_table)"

text \<open>Three letters, or four with a full stop, are compared with the first three of a name.\<close>

definition find_month_or_day :: "string \<Rightarrow> table option" where
  "find_month_or_day word =
     (let abbrev = length word = 3 \<or> length word = 4 \<and> word ! 3 = CHR ''.''
      in find (\<lambda>tp. if abbrev then take 3 word = take 3 (fst tp) else word = fst tp) month_and_day_table)"

fun first_of :: "('a option) list \<Rightarrow> 'a option" where
  "first_of [] = None"
| "first_of (Some a # xs) = Some a"
| "first_of (None # xs) = first_of xs"

definition lookup_word :: "table list \<Rightarrow> string \<Rightarrow> table option" where
  "lookup_word zones w =
     (let word = map to_upper w in
      first_of
        [find_entry word meridian_table,
         find_month_or_day word,
         lookup_zone zones word,
         find_entry word [dst_table],
         find_entry word time_units_table,
         if word \<noteq> [] \<and> last word = CHR ''S'' then find_entry (butlast word) time_units_table else None,
         find_entry word relative_time_table,
         if length word = 1 then find (\<lambda>tp. hd word = hd (fst tp)) military_table else None,
         if CHR ''.'' \<in> set word then lookup_zone zones (filter (\<lambda>c. c \<noteq> CHR ''.'') word) else None])"

section \<open>yylex\<close>

text \<open>The loop over the digits: \<^verbatim>\<open>value = 10 * value + c - '0'\<close> in 32 bits.\<close>

definition number_value :: "string \<Rightarrow> int" where
  "number_value ds = foldl (\<lambda>v c. wrap32 (10 * v + digit_val c)) 0 ds"

definition lex_number :: "int \<Rightarrow> string \<Rightarrow> string option \<times> textint \<times> int" where
  "lex_number sign s =
     (let ds = takeWhile is_digit s; v = number_value ds
      in (Some (dropWhile is_digit s),
          \<lparr>intval = if sign < 0 then wrap32 (- v) else v, digits = int (length ds)\<rparr>,
          if sign \<noteq> 0 then tSNUMBER else tUNUMBER))"

text \<open>A word: the buffer keeps 19 of its characters.\<close>

definition lex_word :: "table list \<Rightarrow> textint \<Rightarrow> string \<Rightarrow> string option \<times> textint \<times> int" where
  "lex_word zones lval s =
     (let buff = take 19 (takeWhile (\<lambda>c. is_alpha c \<or> c = CHR ''.'') s);
          rest = dropWhile (\<lambda>c. is_alpha c \<or> c = CHR ''.'') s
      in case lookup_word zones buff of
           None \<Rightarrow> (Some rest, lval, 63)
         | Some (name, type, val) \<Rightarrow> (Some rest, lval\<lparr>intval := val\<rparr>, type))"

text \<open>A comment in nested parentheses; \<open>None\<close> when the date ends in it.\<close>

fun skip_comment :: "int \<Rightarrow> string \<Rightarrow> string option" where
  "skip_comment count [] = None"
| "skip_comment count (c # s) =
     (let count = (if c = CHR ''('' then count + 1 else if c = CHR '')'' then count - 1 else count)
      in if count > 0 then skip_comment count s else Some s)"

lemma skip_comment_shorter: "skip_comment n s = Some r \<Longrightarrow> length r < length s"
  by (induction n s rule: skip_comment.induct) (auto simp: Let_def split: if_splits)

definition sign_of :: "char \<Rightarrow> int" where
  "sign_of c = (if c = CHR ''-'' then - 1 else if c = CHR ''+'' then 1 else 0)"

function yylex :: "table list \<Rightarrow> textint \<Rightarrow> string \<Rightarrow> string option \<times> textint \<times> int" where
  "yylex zones lval s =
     (case dropWhile is_space s of
        [] \<Rightarrow> (None, lval, 0)
      | c # r \<Rightarrow>
          if sign_of c \<noteq> 0 then
            (if r \<noteq> [] \<and> is_digit (hd r) then lex_number (sign_of c) r else yylex zones lval r)
          else if is_digit c then lex_number 0 (c # r)
          else if is_alpha c then lex_word zones lval (c # r)
          else if c \<noteq> CHR ''('' then (Some r, lval, schar c)
          else (case skip_comment 0 (c # r) of
                  None \<Rightarrow> (None, lval, 0)
                | Some r' \<Rightarrow> yylex zones lval r'))"
  by pat_completeness auto
termination
proof (relation "measure (\<lambda>(zones, lval, s). length s)")
  fix zones :: "table list" and lval :: textint and s r r' :: string and c
  assume s: "dropWhile is_space s = c # r"
  have l: "length (c # r) \<le> length s" using s length_dropWhile_le [of is_space s] by simp
  then show "((zones, lval, r), zones, lval, s) \<in> measure (\<lambda>(zones, lval, s). length s)" by simp
  assume "skip_comment 0 (c # r) = Some r'"
  then show "((zones, lval, r'), zones, lval, s) \<in> measure (\<lambda>(zones, lval, s). length s)"
    using skip_comment_shorter [of 0 "c # r" r'] l by simp
qed simp

declare yylex.simps [simp del]

end
