(* ===== verification/Getdate_Parse.thy ===== *)
theory Getdate_Parse
  imports Getdate_Lex
begin

text \<open>
  The parser of dates, \<^verbatim>\<open>yyparse\<close> of \<^verbatim>\<open>src/cmods/_Caudium/getdate.c\<close>: the tables bison made of the
  grammar, the semantic actions and the automaton that reads them. A stack is a list with its top in
  front; one step leads from the label \<^verbatim>\<open>yybackup\<close> to the next time it is reached, to a return, or to
  \<open>Out_of_bounds\<close> if a table, a stack or the date would be read outside its bounds. The count
  of errors is never read and left out.
\<close>

section \<open>The tables\<close>

definition YYFLAG :: int where "YYFLAG = - 32768"
definition YYFINAL :: int where "YYFINAL = 64"
definition YYNTBASE :: int where "YYNTBASE = 22"
definition YYLAST :: int where "YYLAST = 53"
definition YYEMPTY :: int where "YYEMPTY = - 2"
definition YYEOF :: int where "YYEOF = 0"
definition YYTERROR :: int where "YYTERROR = 1"
definition YYINITDEPTH :: nat where "YYINITDEPTH = 200"
definition YYMAXDEPTH :: nat where "YYMAXDEPTH = 10000"

definition yytranslate :: "int list" where
  "yytranslate =
     0 # replicate 43 2 @ [20, 2, 2, 21] @ replicate 10 2 @ [19] @ replicate 197 2 @
     [1, 3, 4, 5, 6, 7, 8, 9, 10, 11, 12, 13, 14, 15, 16, 17, 18]"

definition yyr1 :: "int list" where
  "yyr1 =
     [0, 22, 22, 23, 23, 23, 23, 23, 23, 23, 24, 24, 24, 24, 24, 25, 25, 26, 26, 26, 27, 27, 27, 28, 28, 28,
      28, 28, 28, 28, 28, 29, 29, 30, 30, 30, 30, 30, 30, 30, 30, 30, 30, 30, 30, 30, 30, 30, 30, 30, 30,
      31, 32, 32]"

definition yyr2 :: "int list" where
  "yyr2 =
     [0, 0, 2, 1, 1, 1, 1, 1, 1, 1, 2, 4, 4, 6, 6, 1, 2, 1, 1, 2, 1, 2, 2, 3, 5, 3, 3, 2, 4, 2, 3, 2, 1, 2,
      2, 1, 2, 2, 1, 2, 2, 1, 2, 2, 1, 2, 2, 1, 2, 2, 1, 1, 0, 1]"

definition yydefact :: "int list" where
  "yydefact =
     [1, 0, 20, 41, 18, 44, 15, 47, 0, 38, 50, 35, 17, 0, 51, 2, 3, 4, 5, 7, 6, 8, 32, 9, 21, 16, 27, 19,
      40, 43, 46, 37, 49, 34, 22, 39, 42, 10, 45, 29, 36, 48, 33, 0, 0, 0, 31, 0, 26, 30, 25, 52, 23, 28,
      53, 12, 0, 11, 0, 52, 24, 14, 13, 0, 0]"

definition yydefgoto :: "int list" where
  "yydefgoto =
     [1, 15, 16, 17, 18, 19, 20, 21, 22, 23, 57]"

definition yypact :: "int list" where
  "yypact =
     [YYFLAG, 0, 1, YYFLAG, YYFLAG, YYFLAG, 19, YYFLAG, - 14, YYFLAG, YYFLAG, YYFLAG, 32, 26, 14, YYFLAG,
      YYFLAG, YYFLAG, YYFLAG, YYFLAG, YYFLAG, YYFLAG, 27, YYFLAG, YYFLAG, YYFLAG, 22, YYFLAG, YYFLAG,
      YYFLAG, YYFLAG, YYFLAG, YYFLAG, YYFLAG, YYFLAG, YYFLAG, YYFLAG, YYFLAG, YYFLAG, - 16, YYFLAG, YYFLAG,
      YYFLAG, 29, 25, 30, YYFLAG, 31, YYFLAG, YYFLAG, YYFLAG, 28, 23, YYFLAG, YYFLAG, YYFLAG, 33, YYFLAG,
      34, - 7, YYFLAG, YYFLAG, YYFLAG, 50, YYFLAG]"

definition yypgoto :: "int list" where
  "yypgoto =
     [YYFLAG, YYFLAG, YYFLAG, YYFLAG, YYFLAG, YYFLAG, YYFLAG, YYFLAG, YYFLAG, YYFLAG, - 6]"

definition yytable :: "int list" where
  "yytable =
     [63, 48, 49, 54, 26, 2, 3, 4, 5, 6, 61, 7, 8, 9, 10, 11, 12, 13, 14, 34, 35, 24, 36, 25, 37, 38, 39,
      40, 41, 42, 46, 43, 28, 44, 29, 45, 27, 30, 54, 31, 32, 33, 47, 51, 58, 55, 50, 56, 52, 53, 64, 59,
      60, 62]"

definition yycheck :: "int list" where
  "yycheck =
     [0, 17, 18, 10, 18, 5, 6, 7, 8, 9, 17, 11, 12, 13, 14, 15, 16, 17, 18, 5, 6, 20, 8, 4, 10, 11, 12, 13,
      14, 15, 3, 17, 6, 19, 8, 21, 4, 11, 10, 13, 14, 15, 20, 18, 21, 17, 17, 19, 18, 18, 0, 18, 18, 59]"

text \<open>Reading a table.\<close>

definition at :: "int list \<Rightarrow> int \<Rightarrow> int res" where
  "at xs i = (if 0 \<le> i \<and> nat i < length xs then Inr (xs ! nat i) else Inl Out_of_bounds)"

definition YYTRANSLATE :: "int \<Rightarrow> int res" where
  "YYTRANSLATE x = (if 0 \<le> x \<and> x \<le> 272 then at yytranslate x else Inr 33)"

section \<open>Semantic actions\<close>

text \<open>\<open>v i\<close> is \<^verbatim>\<open>yyvsp[-i]\<close>.\<close>

definition item_action :: "int \<Rightarrow> parser_control \<Rightarrow> parser_control" where
  "item_action n pc =
     (if n = 3 then pc\<lparr>times_seen := times_seen pc + 1\<rparr>
      else if n = 4 then pc\<lparr>local_zones_seen := local_zones_seen pc + 1\<rparr>
      else if n = 5 then pc\<lparr>zones_seen := zones_seen pc + 1\<rparr>
      else if n = 6 then pc\<lparr>dates_seen := dates_seen pc + 1\<rparr>
      else if n = 7 then pc\<lparr>days_seen := days_seen pc + 1\<rparr>
      else pc\<lparr>rels_seen := rels_seen pc + 1\<rparr>)"

text \<open>\<^verbatim>\<open>v % 100 + (v / 100) * 60\<close>: a numeric zone such as +0130 in minutes.\<close>

definition zone_minutes :: "int \<Rightarrow> int" where
  "zone_minutes v = cmod v 100 + cdiv v 100 * 60"

definition time_action :: "int \<Rightarrow> (nat \<Rightarrow> textint) \<Rightarrow> parser_control \<Rightarrow> parser_control" where
  "time_action n v pc =
     (if n = 10 then pc\<lparr>hour := intval (v 1), minutes := 0, seconds := 0, meridian := intval (v 0)\<rparr>
      else if n = 11 then
        pc\<lparr>hour := intval (v 3), minutes := intval (v 1), seconds := 0, meridian := intval (v 0)\<rparr>
      else if n = 12 then
        pc\<lparr>hour := intval (v 3), minutes := intval (v 1), meridian := MER24,
          zones_seen := zones_seen pc + 1, time_zone := zone_minutes (intval (v 0))\<rparr>
      else if n = 13 then
        pc\<lparr>hour := intval (v 5), minutes := intval (v 3), seconds := intval (v 1), meridian := intval (v 0)\<rparr>
      else
        pc\<lparr>hour := intval (v 5), minutes := intval (v 3), seconds := intval (v 1), meridian := MER24,
          zones_seen := zones_seen pc + 1, time_zone := zone_minutes (intval (v 0))\<rparr>)"

definition zone_action :: "int \<Rightarrow> (nat \<Rightarrow> textint) \<Rightarrow> parser_control \<Rightarrow> parser_control" where
  "zone_action n v pc =
     (if n = 15 then pc\<lparr>local_isdst := intval (v 0)\<rparr>
      else if n = 16 then pc\<lparr>local_isdst := if intval (v 1) < 0 then 1 else intval (v 1) + 1\<rparr>
      else if n = 17 then pc\<lparr>time_zone := intval (v 0)\<rparr>
      else if n = 18 then pc\<lparr>time_zone := intval (v 0) + 60\<rparr>
      else pc\<lparr>time_zone := intval (v 1) + 60\<rparr>)"

definition day_action :: "int \<Rightarrow> (nat \<Rightarrow> textint) \<Rightarrow> parser_control \<Rightarrow> parser_control" where
  "day_action n v pc =
     (if n = 20 then pc\<lparr>day_ordinal := 1, day_number := intval (v 0)\<rparr>
      else if n = 21 then pc\<lparr>day_ordinal := 1, day_number := intval (v 1)\<rparr>
      else pc\<lparr>day_ordinal := intval (v 1), day_number := intval (v 0)\<rparr>)"

definition date_action :: "int \<Rightarrow> (nat \<Rightarrow> textint) \<Rightarrow> parser_control \<Rightarrow> parser_control" where
  "date_action n v pc =
     (if n = 23 then pc\<lparr>month := intval (v 2), day := intval (v 0)\<rparr>
      else if n = 24 then
        (if 4 \<le> digits (v 4) then pc\<lparr>year := v 4, month := intval (v 2), day := intval (v 0)\<rparr>
         else pc\<lparr>month := intval (v 4), day := intval (v 2), year := v 0\<rparr>)
      else if n = 25 then
        pc\<lparr>year := v 2, month := wrap32 (- intval (v 1)), day := wrap32 (- intval (v 0))\<rparr>
      else if n = 26 then
        pc\<lparr>day := intval (v 2), month := intval (v 1),
          year := \<lparr>intval = wrap32 (- intval (v 0)), digits = digits (v 0)\<rparr>\<rparr>
      else if n = 27 then pc\<lparr>month := intval (v 1), day := intval (v 0)\<rparr>
      else if n = 28 then pc\<lparr>month := intval (v 3), day := intval (v 2), year := v 0\<rparr>
      else if n = 29 then pc\<lparr>day := intval (v 1), month := intval (v 0)\<rparr>
      else pc\<lparr>day := intval (v 2), month := intval (v 1), year := v 0\<rparr>)"

text \<open>The rules of a unit come in threes: a number without a sign, one with a sign, none.\<close>

definition rel_action :: "int \<Rightarrow> (nat \<Rightarrow> textint) \<Rightarrow> parser_control \<Rightarrow> parser_control" where
  "rel_action n v pc =
     (let times = wrap32 (intval (v 1) * intval (v 0)); once = intval (v 0) in
      if n = 31 then
        pc\<lparr>rel_seconds := wrap32 (- rel_seconds pc), rel_minutes := wrap32 (- rel_minutes pc),
          rel_hour := wrap32 (- rel_hour pc), rel_day := wrap32 (- rel_day pc),
          rel_month := wrap32 (- rel_month pc), rel_year := wrap32 (- rel_year pc)\<rparr>
      else if n = 33 \<or> n = 34 then pc\<lparr>rel_year := wrap32 (rel_year pc + times)\<rparr>
      else if n = 35 then pc\<lparr>rel_year := wrap32 (rel_year pc + once)\<rparr>
      else if n = 36 \<or> n = 37 then pc\<lparr>rel_month := wrap32 (rel_month pc + times)\<rparr>
      else if n = 38 then pc\<lparr>rel_month := wrap32 (rel_month pc + once)\<rparr>
      else if n = 39 \<or> n = 40 then pc\<lparr>rel_day := wrap32 (rel_day pc + times)\<rparr>
      else if n = 41 then pc\<lparr>rel_day := wrap32 (rel_day pc + once)\<rparr>
      else if n = 42 \<or> n = 43 then pc\<lparr>rel_hour := wrap32 (rel_hour pc + times)\<rparr>
      else if n = 44 then pc\<lparr>rel_hour := wrap32 (rel_hour pc + once)\<rparr>
      else if n = 45 \<or> n = 46 then pc\<lparr>rel_minutes := wrap32 (rel_minutes pc + times)\<rparr>
      else if n = 47 then pc\<lparr>rel_minutes := wrap32 (rel_minutes pc + once)\<rparr>
      else if n = 48 \<or> n = 49 then pc\<lparr>rel_seconds := wrap32 (rel_seconds pc + times)\<rparr>
      else if n = 50 then pc\<lparr>rel_seconds := wrap32 (rel_seconds pc + once)\<rparr>
      else pc)"

definition number_action :: "textint \<Rightarrow> parser_control \<Rightarrow> parser_control" where
  "number_action u pc =
     (if dates_seen pc \<noteq> 0 \<and> rels_seen pc = 0 \<and> (times_seen pc \<noteq> 0 \<or> 2 < digits u) then pc\<lparr>year := u\<rparr>
      else if 4 < digits u then
        pc\<lparr>dates_seen := dates_seen pc + 1, day := cmod (intval u) 100, month := cmod (cdiv (intval u) 100) 100,
          year := \<lparr>intval = cdiv (intval u) 10000, digits = digits u - 4\<rparr>\<rparr>
      else
        (if digits u \<le> 2 then pc\<lparr>times_seen := times_seen pc + 1, hour := intval u, minutes := 0\<rparr>
         else pc\<lparr>times_seen := times_seen pc + 1, hour := cdiv (intval u) 100, minutes := cmod (intval u) 100\<rparr>)
        \<lparr>seconds := 0, meridian := MER24\<rparr>)"

definition yyaction :: "int \<Rightarrow> (nat \<Rightarrow> textint) \<Rightarrow> textint \<Rightarrow> parser_control \<Rightarrow> parser_control \<times> textint" where
  "yyaction n v yyval pc =
     (if 3 \<le> n \<and> n \<le> 8 then (item_action n pc, yyval)
      else if 10 \<le> n \<and> n \<le> 14 then (time_action n v pc, yyval)
      else if 15 \<le> n \<and> n \<le> 19 then (zone_action n v pc, yyval)
      else if 20 \<le> n \<and> n \<le> 22 then (day_action n v pc, yyval)
      else if 23 \<le> n \<and> n \<le> 30 then (date_action n v pc, yyval)
      else if 31 \<le> n \<and> n \<le> 50 then (rel_action n v pc, yyval)
      else if n = 51 then (number_action (v 0) pc, yyval)
      else if n = 52 then (pc, yyval\<lparr>intval := MER24\<rparr>)
      else if n = 53 then (pc, yyval\<lparr>intval := intval (v 0)\<rparr>)
      else (pc, yyval))"

section \<open>The automaton\<close>

record yyst =
  yyss :: "int list"
  yyvs :: "textint list"
  yyval :: textint
  yychar :: int
  yylval :: textint
  yyerrstatus :: int
  yystacksize :: nat
  yypc :: parser_control

text \<open>What a step leads to: the label \<^verbatim>\<open>yybackup\<close> again, or a return of \<^verbatim>\<open>yyparse\<close>.\<close>

type_synonym yyres = "(yyst + int \<times> parser_control) res"

text \<open>Pushing a state, with the stacks extended when they are full.\<close>

definition yynewstate :: "int \<Rightarrow> yyst \<Rightarrow> yyres" where
  "yynewstate yystate st =
     (let st = st\<lparr>yyss := yystate # yyss st\<rparr> in
      if length (yyss st) < yystacksize st then Inr (Inl st)
      else if YYMAXDEPTH \<le> yystacksize st then Inr (Inr (2, yypc st))
      else
        let st = st\<lparr>yystacksize := min (2 * yystacksize st) YYMAXDEPTH\<rparr> in
        if length (yyss st) < yystacksize st then Inr (Inl st) else Inr (Inr (1, yypc st)))"

definition yygoto :: "int \<Rightarrow> int \<Rightarrow> int res" where
  "yygoto lhs below =
     bind_res (at yypgoto (lhs - YYNTBASE)) (\<lambda>g.
       let i = g + below in
       if 0 \<le> i \<and> i \<le> YYLAST then
         bind_res (at yycheck i) (\<lambda>k. if k = below then at yytable i else at yydefgoto (lhs - YYNTBASE))
       else at yydefgoto (lhs - YYNTBASE))"

text \<open>A reduction by rule \<open>n\<close>: the stacks, \<^verbatim>\<open>yyval\<close> and the control structure behind it.\<close>

definition reduction :: "int \<Rightarrow> int list \<Rightarrow> textint list \<Rightarrow> textint \<Rightarrow> parser_control \<Rightarrow>
    (int list \<times> textint list \<times> textint \<times> parser_control) res" where
  "reduction n ss vs v pc =
     bind_res (at yyr2 n) (\<lambda>len.
       let yylen = nat len in
       if length ss \<le> yylen \<or> length vs \<le> yylen then Inl Out_of_bounds
       else
         let v = (if yylen > 0 then vs ! (yylen - 1) else v);
             (pc, v) = yyaction n (\<lambda>i. vs ! i) v pc;
             ss = drop yylen ss in
         bind_res (at yyr1 n) (\<lambda>lhs. bind_res (yygoto lhs (hd ss)) (\<lambda>s.
           Inr (s # ss, v # drop yylen vs, v, pc))))"

definition yyreduce :: "int \<Rightarrow> yyst \<Rightarrow> yyres" where
  "yyreduce n st =
     bind_res (reduction n (yyss st) (yyvs st) (yyval st) (yypc st)) (\<lambda>(ss, vs, v, pc).
       yynewstate (hd ss) (st\<lparr>yyss := tl ss, yyvs := vs, yyval := v, yypc := pc\<rparr>))"

text \<open>What the tables say of a symbol in a state, by the entry of the state in \<open>yypact\<close>.\<close>

datatype decision = Use_default | Reduce int | Shift int | Accept | Error

definition table_entry :: "int \<Rightarrow> int \<Rightarrow> decision res" where
  "table_entry yyn tok =
     (let i = yyn + tok in
      if i < 0 \<or> YYLAST < i then Inr Use_default
      else bind_res (at yycheck i) (\<lambda>k.
        if k \<noteq> tok then Inr Use_default
        else bind_res (at yytable i) (\<lambda>n. Inr
          (if n < 0 then (if n = YYFLAG then Error else Reduce (- n))
           else if n = 0 then Error else if n = YYFINAL then Accept else Shift n))))"

definition default_entry :: "int \<Rightarrow> decision res" where
  "default_entry s = bind_res (at yydefact s) (\<lambda>n. Inr (if n = 0 then Error else Reduce n))"

text \<open>\<^verbatim>\<open>yyerrhandle\<close>: states are popped until one takes the error token.\<close>

function yyerrhandle :: "yyst \<Rightarrow> yyres" where
  "yyerrhandle st =
     bind_res (at yypact (hd (yyss st))) (\<lambda>yyn.
       bind_res (if yyn = YYFLAG then Inr Use_default else table_entry yyn YYTERROR) (\<lambda>d.
         case d of
           Reduce n \<Rightarrow> yyreduce n st
         | Accept \<Rightarrow> Inr (Inr (0, yypc st))
         | Shift s \<Rightarrow> yynewstate s (st\<lparr>yyvs := yylval st # yyvs st\<rparr>)
         | _ \<Rightarrow>
             if length (yyss st) \<le> 1 then Inr (Inr (1, yypc st))
             else yyerrhandle (st\<lparr>yyss := tl (yyss st), yyvs := tl (yyvs st)\<rparr>)))"
  by pat_completeness auto
termination by (relation "measure (\<lambda>st. length (yyss st))") auto

declare yyerrhandle.simps [simp del]

definition yyerrlab :: "yyst \<Rightarrow> yyres" where
  "yyerrlab st =
     (if yyerrstatus st = 3 then
        (if yychar st = YYEOF then Inr (Inr (1, yypc st)) else yyerrhandle (st\<lparr>yychar := YYEMPTY\<rparr>))
      else yyerrhandle (st\<lparr>yyerrstatus := 3\<rparr>))"

text \<open>Shifting the lookahead token.\<close>

definition yyshift :: "int \<Rightarrow> yyst \<Rightarrow> yyres" where
  "yyshift s st =
     yynewstate s (st\<lparr>yychar := if yychar st \<noteq> YYEOF then YYEMPTY else yychar st, yyvs := yylval st # yyvs st,
       yyerrstatus := if yyerrstatus st \<noteq> 0 then yyerrstatus st - 1 else 0\<rparr>)"

definition perform :: "decision \<Rightarrow> yyst \<Rightarrow> yyres" where
  "perform d st =
     (case d of
        Reduce n \<Rightarrow> yyreduce n st
      | Shift s \<Rightarrow> yyshift s st
      | Accept \<Rightarrow> Inr (Inr (0, yypc st))
      | _ \<Rightarrow> yyerrlab st)"

text \<open>Reading the lookahead token, unless it has been read; every number below 1 is the end of the date.\<close>

definition read_token :: "yyst \<Rightarrow> yyst res" where
  "read_token st =
     (if yychar st = YYEMPTY then
        (case input (yypc st) of
           None \<Rightarrow> Inl Out_of_bounds
         | Some s \<Rightarrow>
             let (inp, lval, c) = yylex (local_time_zone_table (yypc st)) (yylval st) s
             in Inr (st\<lparr>yychar := c, yylval := lval, yypc := (yypc st)\<lparr>input := inp\<rparr>\<rparr>))
      else Inr st)"

definition yybackup :: "yyst \<Rightarrow> yyres" where
  "yybackup st =
     bind_res (at yypact (hd (yyss st))) (\<lambda>yyn.
       if yyn = YYFLAG then bind_res (default_entry (hd (yyss st))) (\<lambda>d. perform d st)
       else
         bind_res (read_token st) (\<lambda>st.
           let st = (if yychar st \<le> 0 then st\<lparr>yychar := YYEOF\<rparr> else st) in
           bind_res (if yychar st \<le> 0 then Inr 0 else YYTRANSLATE (yychar st)) (\<lambda>tok.
             bind_res (table_entry yyn tok) (\<lambda>d.
               if d = Use_default then bind_res (default_entry (hd (yyss st))) (\<lambda>d. perform d st)
               else perform d st))))"

text \<open>The steps until \<^verbatim>\<open>yyparse\<close> returns; \<open>None\<close> would be a parser that never does.\<close>

partial_function (option) yysteps :: "yyres \<Rightarrow> (int \<times> parser_control) res option" where
  "yysteps r =
     (case r of
        Inl e \<Rightarrow> Some (Inl e)
      | Inr (Inr result) \<Rightarrow> Some (Inr result)
      | Inr (Inl st) \<Rightarrow> yysteps (yybackup st))"

declare yysteps.simps [code]

text \<open>\<open>junk\<close> is what the uninitialised semantic values hold.\<close>

definition yyparse :: "textint \<Rightarrow> parser_control \<Rightarrow> (int \<times> parser_control) res option" where
  "yyparse junk pc =
     yysteps (yynewstate 0
       \<lparr>yyss = [], yyvs = [junk], yyval = junk, yychar = YYEMPTY, yylval = junk, yyerrstatus = 0,
        yystacksize = YYINITDEPTH, yypc = pc\<rparr>)"

end
