(* ===== verification/Getdate_Ref.thy ===== *)
theory Getdate_Ref
  imports Getdate_Parse
begin

text \<open>
  What a date means, written by recursive descent over its tokens: the reference for the table-driven parser of
  \<^verbatim>\<open>src/cmods/_Caudium/getdate.c\<close>. A token is the number \<^verbatim>\<open>yylex\<close> returns with the semantic value
  it leaves; the list of tokens ends where the date ends. \<open>None\<close> is a date that is not understood.
\<close>

section \<open>The tokens of a date\<close>

type_synonym tok = "int \<times> textint"

lemma dropWhile_shorter: "P (hd s) \<Longrightarrow> s \<noteq> [] \<Longrightarrow> length (dropWhile P s) < length s"
  by (cases s) (auto simp: less_Suc_eq_le length_dropWhile_le)

lemma yylex_shorter: "yylex zones lval s = (Some r, lval', c) \<Longrightarrow> length r < length s"
proof (induction zones lval s rule: yylex.induct)
  case (1 zones lval s)
  show ?case
  proof (cases "dropWhile is_space s")
    case Nil
    then show ?thesis using "1.prems" unfolding yylex.simps [of zones lval s] by (simp only: list.case) simp
  next
    case (Cons a t)
    have l: "length t < length s" using length_dropWhile_le [of is_space s] Cons by simp
    note eq = "1.prems" [unfolded yylex.simps [of zones lval s] Cons list.case]
    consider "sign_of a \<noteq> 0" "t \<noteq> [] \<and> is_digit (hd t)" | "sign_of a \<noteq> 0" "\<not> (t \<noteq> [] \<and> is_digit (hd t))"
      | "sign_of a = 0" "is_digit a" | "sign_of a = 0" "\<not> is_digit a" "is_alpha a"
      | "sign_of a = 0" "\<not> is_digit a" "\<not> is_alpha a" "a \<noteq> CHR ''(''"
      | "sign_of a = 0" "\<not> is_digit a" "\<not> is_alpha a" "a = CHR ''(''" by blast
    then show ?thesis
    proof cases
      case 1
      then show ?thesis using eq l dropWhile_shorter [of is_digit t] by (auto simp: lex_number_def Let_def)
    next
      case 2
      then have "length r < length t" using eq Cons "1.IH"(1) [of a t] by auto
      then show ?thesis using l by simp
    next
      case 3
      then show ?thesis using eq l length_dropWhile_le [of is_digit t] by (auto simp: lex_number_def Let_def)
    next
      case 4
      then show ?thesis using eq l length_dropWhile_le [of "\<lambda>c. is_alpha c \<or> c = CHR ''.''" t]
        by (auto simp: lex_word_def Let_def split: option.splits prod.splits)
    next
      case 5
      then show ?thesis using eq l by simp
    next
      case 6
      then show ?thesis using eq l Cons "1.IH"(2) [of a t] skip_comment_shorter [of 0 "a # t"]
        by (fastforce split: option.splits)
    qed
  qed
qed

function tokens :: "table list \<Rightarrow> textint \<Rightarrow> string \<Rightarrow> tok list" where
  "tokens zones lval s =
     (case yylex zones lval s of
        (Some r, lval, c) \<Rightarrow> if c \<le> 0 then [] else (c, lval) # tokens zones lval r
      | (None, lval, c) \<Rightarrow> [])"
  by pat_completeness auto
termination by (relation "measure (\<lambda>(zones, lval, s). length s)") (auto dest!: yylex_shorter [OF sym])

declare tokens.simps [simp del]

section \<open>One item\<close>

definition next_tok :: "tok list \<Rightarrow> int" where
  "next_tok ts = (case ts of [] \<Rightarrow> 0 | (t, v) # _ \<Rightarrow> t)"

definition val_of :: "tok list \<Rightarrow> textint" where
  "val_of ts = snd (hd ts)"

abbreviation int_of :: "tok list \<Rightarrow> int" where "int_of ts \<equiv> intval (val_of ts)"

abbreviation COLON :: int where "COLON \<equiv> 58"
abbreviation COMMA :: int where "COMMA \<equiv> 44"
abbreviation SLASH :: int where "SLASH \<equiv> 47"

definition units :: "int set" where
  "units = {tYEAR_UNIT, tMONTH_UNIT, tDAY_UNIT, tHOUR_UNIT, tMINUTE_UNIT, tSEC_UNIT}"

text \<open>A time of the day, with am, pm or a numeric zone.\<close>

definition set_time :: "int \<Rightarrow> int \<Rightarrow> int \<Rightarrow> int \<Rightarrow> parser_control \<Rightarrow> parser_control" where
  "set_time h m s mer pc =
     pc\<lparr>hour := h, minutes := m, seconds := s, meridian := mer, times_seen := times_seen pc + 1\<rparr>"

definition set_zone :: "int \<Rightarrow> parser_control \<Rightarrow> parser_control" where
  "set_zone z pc = pc\<lparr>time_zone := z, zones_seen := zones_seen pc + 1\<rparr>"

definition half_day :: "int \<Rightarrow> int \<Rightarrow> int \<Rightarrow> parser_control \<Rightarrow> tok list \<Rightarrow> parser_control \<times> tok list" where
  "half_day h m s pc ts =
     (if next_tok ts = tMERIDIAN then (set_time h m s (int_of ts) pc, tl ts) else (set_time h m s MER24 pc, ts))"

definition ref_seconds :: "int \<Rightarrow> int \<Rightarrow> parser_control \<Rightarrow> tok list \<Rightarrow> (parser_control \<times> tok list) option" where
  "ref_seconds h m pc ts =
     (if next_tok ts \<noteq> tUNUMBER then None
      else if next_tok (tl ts) = tSNUMBER then
        Some (set_zone (zone_minutes (int_of (tl ts))) (set_time h m (int_of ts) MER24 pc), tl (tl ts))
      else Some (half_day h m (int_of ts) pc (tl ts)))"

text \<open>Behind "hour:"; without seconds, a time with a zone keeps the seconds that were there.\<close>

definition ref_clock :: "int \<Rightarrow> parser_control \<Rightarrow> tok list \<Rightarrow> (parser_control \<times> tok list) option" where
  "ref_clock h pc ts =
     (if next_tok ts \<noteq> tUNUMBER then None
      else if next_tok (tl ts) = COLON then ref_seconds h (int_of ts) pc (tl (tl ts))
      else if next_tok (tl ts) = tSNUMBER then
        Some (set_zone (zone_minutes (int_of (tl ts))) (set_time h (int_of ts) (seconds pc) MER24 pc), tl (tl ts))
      else Some (half_day h (int_of ts) 0 pc (tl ts)))"

text \<open>A relative amount, turned round together with all others by "ago".\<close>

definition add_rel :: "int \<Rightarrow> int \<Rightarrow> parser_control \<Rightarrow> parser_control" where
  "add_rel u n pc =
     (if u = tYEAR_UNIT then pc\<lparr>rel_year := wrap32 (rel_year pc + n)\<rparr>
      else if u = tMONTH_UNIT then pc\<lparr>rel_month := wrap32 (rel_month pc + n)\<rparr>
      else if u = tDAY_UNIT then pc\<lparr>rel_day := wrap32 (rel_day pc + n)\<rparr>
      else if u = tHOUR_UNIT then pc\<lparr>rel_hour := wrap32 (rel_hour pc + n)\<rparr>
      else if u = tMINUTE_UNIT then pc\<lparr>rel_minutes := wrap32 (rel_minutes pc + n)\<rparr>
      else pc\<lparr>rel_seconds := wrap32 (rel_seconds pc + n)\<rparr>)"

definition negate_rels :: "parser_control \<Rightarrow> parser_control" where
  "negate_rels pc =
     pc\<lparr>rel_seconds := wrap32 (- rel_seconds pc), rel_minutes := wrap32 (- rel_minutes pc),
       rel_hour := wrap32 (- rel_hour pc), rel_day := wrap32 (- rel_day pc),
       rel_month := wrap32 (- rel_month pc), rel_year := wrap32 (- rel_year pc)\<rparr>"

definition ref_rel :: "int \<Rightarrow> int \<Rightarrow> parser_control \<Rightarrow> tok list \<Rightarrow> parser_control \<times> tok list" where
  "ref_rel u n pc ts =
     (let pc = add_rel u n pc;
          (pc, ts) = (if next_tok ts = tAGO then (negate_rels pc, tl ts) else (pc, ts))
      in (pc\<lparr>rels_seen := rels_seen pc + 1\<rparr>, ts))"

definition set_day :: "int \<Rightarrow> int \<Rightarrow> parser_control \<Rightarrow> parser_control" where
  "set_day k d pc = pc\<lparr>day_ordinal := k, day_number := d, days_seen := days_seen pc + 1\<rparr>"

definition set_date :: "int \<Rightarrow> int \<Rightarrow> parser_control \<Rightarrow> parser_control" where
  "set_date m d pc = pc\<lparr>month := m, day := d, dates_seen := dates_seen pc + 1\<rparr>"

text \<open>Behind "month/": with a third number the first may be the year.\<close>

definition ref_slashes :: "textint \<Rightarrow> parser_control \<Rightarrow> tok list \<Rightarrow> (parser_control \<times> tok list) option" where
  "ref_slashes u pc ts =
     (if next_tok ts \<noteq> tUNUMBER then None
      else if next_tok (tl ts) \<noteq> SLASH then Some (set_date (intval u) (int_of ts) pc, tl ts)
      else if next_tok (tl (tl ts)) \<noteq> tUNUMBER then None
      else
        let third = val_of (tl (tl ts)); rest = tl (tl (tl ts)) in
        Some (if 4 \<le> digits u then (set_date (int_of ts) (intval third) (pc\<lparr>year := u\<rparr>), rest)
              else (set_date (intval u) (int_of ts) (pc\<lparr>year := third\<rparr>), rest)))"

text \<open>An item that begins with a number.\<close>

definition ref_number :: "textint \<Rightarrow> parser_control \<Rightarrow> tok list \<Rightarrow> (parser_control \<times> tok list) option" where
  "ref_number u pc ts =
     (let t = next_tok ts in
      if t = tDAY then Some (set_day (intval u) (int_of ts) pc, tl ts)
      else if t \<in> units then Some (ref_rel t (wrap32 (intval u * int_of ts)) pc (tl ts))
      else if t = tMERIDIAN then Some (set_time (intval u) 0 0 (int_of ts) pc, tl ts)
      else if t = COLON then ref_clock (intval u) pc (tl ts)
      else if t = SLASH then ref_slashes u pc (tl ts)
      else if t = tSNUMBER then
        (if next_tok (tl ts) = tSNUMBER then
           Some (set_date (wrap32 (- int_of ts)) (wrap32 (- int_of (tl ts))) (pc\<lparr>year := u\<rparr>), tl (tl ts))
         else None)
      else if t = tMONTH then
        (if next_tok (tl ts) = tSNUMBER then
           Some (set_date (int_of ts) (intval u)
             (pc\<lparr>year := \<lparr>intval = wrap32 (- int_of (tl ts)), digits = digits (val_of (tl ts))\<rparr>\<rparr>), tl (tl ts))
         else if next_tok (tl ts) = tUNUMBER then
           Some (set_date (int_of ts) (intval u) (pc\<lparr>year := val_of (tl ts)\<rparr>), tl (tl ts))
         else Some (set_date (int_of ts) (intval u) pc, tl ts))
      else Some (number_action u pc, ts))"

text \<open>An item that begins with a word or a signed number; "month day" may have ", year" behind it.\<close>

definition ref_item :: "parser_control \<Rightarrow> tok list \<Rightarrow> (parser_control \<times> tok list) option" where
  "ref_item pc ts =
     (let t = next_tok ts; v = int_of ts; r = tl ts in
      if t = tUNUMBER then ref_number (val_of ts) pc r
      else if t = tSNUMBER then
        (if next_tok r \<in> units then Some (ref_rel (next_tok r) (wrap32 (v * int_of r)) pc (tl r)) else None)
      else if t \<in> units then Some (ref_rel t v pc r)
      else if t = tDAY then Some (set_day 1 v pc, if next_tok r = COMMA then tl r else r)
      else if t = tMONTH then
        (if next_tok r \<noteq> tUNUMBER then None
         else if next_tok (tl r) \<noteq> COMMA then Some (set_date v (int_of r) pc, tl r)
         else if next_tok (tl (tl r)) \<noteq> tUNUMBER then None
         else Some (set_date v (int_of r) (pc\<lparr>year := val_of (tl (tl r))\<rparr>), tl (tl (tl r))))
      else if t = tLOCAL_ZONE then
        (if next_tok r = tDST then
           Some (pc\<lparr>local_isdst := if v < 0 then 1 else v + 1, local_zones_seen := local_zones_seen pc + 1\<rparr>, tl r)
         else Some (pc\<lparr>local_isdst := v, local_zones_seen := local_zones_seen pc + 1\<rparr>, r))
      else if t = tZONE then
        (if next_tok r = tDST then Some (set_zone (v + 60) pc, tl r) else Some (set_zone v pc, r))
      else if t = tDAYZONE then Some (set_zone (v + 60) pc, r)
      else None)"

section \<open>The date\<close>

lemma ref_item_shorter: "ref_item pc ts = Some (pc', ts') \<Longrightarrow> length ts' < length ts"
proof -
  have tl: "length (tl x) \<le> length x" for x :: "tok list" by simp
  have nonempty: "x \<noteq> []" if "next_tok x \<noteq> 0" for x using that by (auto simp: next_tok_def)
  assume item: "ref_item pc ts = Some (pc', ts')"
  then have "ts \<noteq> []" using nonempty [of ts] by (auto simp: ref_item_def Let_def units_def split: if_splits)
  moreover have "length ts' \<le> length (tl ts)"
    using item unfolding ref_item_def ref_number_def ref_clock_def ref_seconds_def half_day_def ref_slashes_def ref_rel_def Let_def
    by (auto split: if_splits)
  ultimately show ?thesis by (cases ts) auto
qed

function ref_spec :: "parser_control \<Rightarrow> tok list \<Rightarrow> parser_control option" where
  "ref_spec pc ts =
     (if ts = [] then Some pc
      else (case ref_item pc ts of None \<Rightarrow> None | Some (pc', ts') \<Rightarrow> ref_spec pc' ts'))"
  by pat_completeness auto
termination by (relation "measure (\<lambda>(pc, ts). length ts)") (auto dest: ref_item_shorter)

declare ref_spec.simps [simp del]

end
