(* ===== verification/Getdate_Acts.thy ===== *)
theory Getdate_Acts
  imports Getdate_Ref
begin

text \<open>
  What the tables of \<^verbatim>\<open>src/cmods/_Caudium/getdate.c\<close> decide, computed once for every state: the action for a
  token, the length and the head of a rule, and the state behind a reduction.
\<close>

section \<open>The decisions of the tables\<close>

definition act :: "int \<Rightarrow> int \<Rightarrow> decision res" where
  "act s t =
     bind_res (at yypact s) (\<lambda>yyn.
       if yyn = YYFLAG then default_entry s
       else bind_res (if t \<le> 0 then Inr 0 else YYTRANSLATE t) (\<lambda>tok.
         bind_res (table_entry yyn tok) (\<lambda>d. if d = Use_default then default_entry s else Inr d)))"

lemmas parser_constants = YYFLAG_def YYFINAL_def YYNTBASE_def YYLAST_def

text \<open>The token as the tables number it.\<close>

definition internal :: "int \<Rightarrow> int" where
  "internal t =
     (if t < 0 \<or> 272 < t then 33 else if t = 0 then 0 else if t = COMMA then 20 else if t = SLASH then 21
      else if t = COLON then 19 else if t = 256 then 1 else if t = tAGO then 3 else if t = tDST then 4
      else if t = tDAY then 5 else if t = tDAY_UNIT then 6 else if t = tDAYZONE then 7 else if t = tHOUR_UNIT then 8
      else if t = tLOCAL_ZONE then 9 else if t = tMERIDIAN then 10 else if t = tMINUTE_UNIT then 11
      else if t = tMONTH then 12 else if t = tMONTH_UNIT then 13 else if t = tSEC_UNIT then 14
      else if t = tYEAR_UNIT then 15 else if t = tZONE then 16 else if t = tSNUMBER then 17
      else if t = tUNUMBER then 18 else 2)"

lemma translate: "YYTRANSLATE t = Inr (internal t)"
proof (cases "0 \<le> t \<and> t \<le> 272")
  case True
  have "list_all (\<lambda>t. YYTRANSLATE t = Inr (internal t)) [0..272]" by code_simp
  then show ?thesis using True by (simp add: list_all_iff)
qed (auto simp: YYTRANSLATE_def internal_def)

lemma pact:
  "at yypact 0 = Inr YYFLAG" "at yypact 1 = Inr 0" "at yypact 2 = Inr 1" "at yypact 3 = Inr YYFLAG"
  "at yypact 4 = Inr YYFLAG" "at yypact 5 = Inr YYFLAG" "at yypact 6 = Inr 19" "at yypact 7 = Inr YYFLAG"
  "at yypact 8 = Inr (- 14)" "at yypact 9 = Inr YYFLAG" "at yypact 10 = Inr YYFLAG"
  "at yypact 11 = Inr YYFLAG" "at yypact 12 = Inr 32" "at yypact 13 = Inr 26" "at yypact 14 = Inr 14"
  "at yypact 15 = Inr YYFLAG" "at yypact 16 = Inr YYFLAG" "at yypact 17 = Inr YYFLAG"
  "at yypact 18 = Inr YYFLAG" "at yypact 19 = Inr YYFLAG" "at yypact 20 = Inr YYFLAG"
  "at yypact 21 = Inr YYFLAG" "at yypact 22 = Inr 27" "at yypact 23 = Inr YYFLAG" "at yypact 24 = Inr YYFLAG"
  "at yypact 25 = Inr YYFLAG" "at yypact 26 = Inr 22" "at yypact 27 = Inr YYFLAG" "at yypact 28 = Inr YYFLAG"
  "at yypact 29 = Inr YYFLAG" "at yypact 30 = Inr YYFLAG" "at yypact 31 = Inr YYFLAG"
  "at yypact 32 = Inr YYFLAG" "at yypact 33 = Inr YYFLAG" "at yypact 34 = Inr YYFLAG"
  "at yypact 35 = Inr YYFLAG" "at yypact 36 = Inr YYFLAG" "at yypact 37 = Inr YYFLAG"
  "at yypact 38 = Inr YYFLAG" "at yypact 39 = Inr (- 16)" "at yypact 40 = Inr YYFLAG"
  "at yypact 41 = Inr YYFLAG" "at yypact 42 = Inr YYFLAG" "at yypact 43 = Inr 29" "at yypact 44 = Inr 25"
  "at yypact 45 = Inr 30" "at yypact 46 = Inr YYFLAG" "at yypact 47 = Inr 31" "at yypact 48 = Inr YYFLAG"
  "at yypact 49 = Inr YYFLAG" "at yypact 50 = Inr YYFLAG" "at yypact 51 = Inr 28" "at yypact 52 = Inr 23"
  "at yypact 53 = Inr YYFLAG" "at yypact 54 = Inr YYFLAG" "at yypact 55 = Inr YYFLAG" "at yypact 56 = Inr 33"
  "at yypact 57 = Inr YYFLAG" "at yypact 58 = Inr 34" "at yypact 59 = Inr (- 7)" "at yypact 60 = Inr YYFLAG"
  "at yypact 61 = Inr YYFLAG" "at yypact 62 = Inr YYFLAG" "at yypact 63 = Inr 50" "at yypact 64 = Inr YYFLAG"
  by (simp_all add: at_def yypact_def)

lemma default_rules:
  "default_entry 0 = Inr (Reduce 1)" "default_entry 1 = Inr Error" "default_entry 2 = Inr (Reduce 20)"
  "default_entry 3 = Inr (Reduce 41)" "default_entry 4 = Inr (Reduce 18)" "default_entry 5 = Inr (Reduce 44)"
  "default_entry 6 = Inr (Reduce 15)" "default_entry 7 = Inr (Reduce 47)" "default_entry 8 = Inr Error"
  "default_entry 9 = Inr (Reduce 38)" "default_entry 10 = Inr (Reduce 50)"
  "default_entry 11 = Inr (Reduce 35)" "default_entry 12 = Inr (Reduce 17)" "default_entry 13 = Inr Error"
  "default_entry 14 = Inr (Reduce 51)" "default_entry 15 = Inr (Reduce 2)" "default_entry 16 = Inr (Reduce 3)"
  "default_entry 17 = Inr (Reduce 4)" "default_entry 18 = Inr (Reduce 5)" "default_entry 19 = Inr (Reduce 7)"
  "default_entry 20 = Inr (Reduce 6)" "default_entry 21 = Inr (Reduce 8)" "default_entry 22 = Inr (Reduce 32)"
  "default_entry 23 = Inr (Reduce 9)" "default_entry 24 = Inr (Reduce 21)"
  "default_entry 25 = Inr (Reduce 16)" "default_entry 26 = Inr (Reduce 27)"
  "default_entry 27 = Inr (Reduce 19)" "default_entry 28 = Inr (Reduce 40)"
  "default_entry 29 = Inr (Reduce 43)" "default_entry 30 = Inr (Reduce 46)"
  "default_entry 31 = Inr (Reduce 37)" "default_entry 32 = Inr (Reduce 49)"
  "default_entry 33 = Inr (Reduce 34)" "default_entry 34 = Inr (Reduce 22)"
  "default_entry 35 = Inr (Reduce 39)" "default_entry 36 = Inr (Reduce 42)"
  "default_entry 37 = Inr (Reduce 10)" "default_entry 38 = Inr (Reduce 45)"
  "default_entry 39 = Inr (Reduce 29)" "default_entry 40 = Inr (Reduce 36)"
  "default_entry 41 = Inr (Reduce 48)" "default_entry 42 = Inr (Reduce 33)" "default_entry 43 = Inr Error"
  "default_entry 44 = Inr Error" "default_entry 45 = Inr Error" "default_entry 46 = Inr (Reduce 31)"
  "default_entry 47 = Inr Error" "default_entry 48 = Inr (Reduce 26)" "default_entry 49 = Inr (Reduce 30)"
  "default_entry 50 = Inr (Reduce 25)" "default_entry 51 = Inr (Reduce 52)"
  "default_entry 52 = Inr (Reduce 23)" "default_entry 53 = Inr (Reduce 28)"
  "default_entry 54 = Inr (Reduce 53)" "default_entry 55 = Inr (Reduce 12)" "default_entry 56 = Inr Error"
  "default_entry 57 = Inr (Reduce 11)" "default_entry 58 = Inr Error" "default_entry 59 = Inr (Reduce 52)"
  "default_entry 60 = Inr (Reduce 24)" "default_entry 61 = Inr (Reduce 14)"
  "default_entry 62 = Inr (Reduce 13)" "default_entry 63 = Inr Error" "default_entry 64 = Inr Error"
  by (simp_all add: default_entry_def at_def yydefact_def)

lemma rule_lengths:
  "at yyr2 0 = Inr 0" "at yyr2 1 = Inr 0" "at yyr2 2 = Inr 2" "at yyr2 3 = Inr 1" "at yyr2 4 = Inr 1"
  "at yyr2 5 = Inr 1" "at yyr2 6 = Inr 1" "at yyr2 7 = Inr 1" "at yyr2 8 = Inr 1" "at yyr2 9 = Inr 1"
  "at yyr2 10 = Inr 2" "at yyr2 11 = Inr 4" "at yyr2 12 = Inr 4" "at yyr2 13 = Inr 6" "at yyr2 14 = Inr 6"
  "at yyr2 15 = Inr 1" "at yyr2 16 = Inr 2" "at yyr2 17 = Inr 1" "at yyr2 18 = Inr 1" "at yyr2 19 = Inr 2"
  "at yyr2 20 = Inr 1" "at yyr2 21 = Inr 2" "at yyr2 22 = Inr 2" "at yyr2 23 = Inr 3" "at yyr2 24 = Inr 5"
  "at yyr2 25 = Inr 3" "at yyr2 26 = Inr 3" "at yyr2 27 = Inr 2" "at yyr2 28 = Inr 4" "at yyr2 29 = Inr 2"
  "at yyr2 30 = Inr 3" "at yyr2 31 = Inr 2" "at yyr2 32 = Inr 1" "at yyr2 33 = Inr 2" "at yyr2 34 = Inr 2"
  "at yyr2 35 = Inr 1" "at yyr2 36 = Inr 2" "at yyr2 37 = Inr 2" "at yyr2 38 = Inr 1" "at yyr2 39 = Inr 2"
  "at yyr2 40 = Inr 2" "at yyr2 41 = Inr 1" "at yyr2 42 = Inr 2" "at yyr2 43 = Inr 2" "at yyr2 44 = Inr 1"
  "at yyr2 45 = Inr 2" "at yyr2 46 = Inr 2" "at yyr2 47 = Inr 1" "at yyr2 48 = Inr 2" "at yyr2 49 = Inr 2"
  "at yyr2 50 = Inr 1" "at yyr2 51 = Inr 1" "at yyr2 52 = Inr 0" "at yyr2 53 = Inr 1"
  by (simp_all add: at_def yyr2_def)

lemma rule_heads:
  "at yyr1 0 = Inr 0" "at yyr1 1 = Inr 22" "at yyr1 2 = Inr 22" "at yyr1 3 = Inr 23" "at yyr1 4 = Inr 23"
  "at yyr1 5 = Inr 23" "at yyr1 6 = Inr 23" "at yyr1 7 = Inr 23" "at yyr1 8 = Inr 23" "at yyr1 9 = Inr 23"
  "at yyr1 10 = Inr 24" "at yyr1 11 = Inr 24" "at yyr1 12 = Inr 24" "at yyr1 13 = Inr 24"
  "at yyr1 14 = Inr 24" "at yyr1 15 = Inr 25" "at yyr1 16 = Inr 25" "at yyr1 17 = Inr 26"
  "at yyr1 18 = Inr 26" "at yyr1 19 = Inr 26" "at yyr1 20 = Inr 27" "at yyr1 21 = Inr 27"
  "at yyr1 22 = Inr 27" "at yyr1 23 = Inr 28" "at yyr1 24 = Inr 28" "at yyr1 25 = Inr 28"
  "at yyr1 26 = Inr 28" "at yyr1 27 = Inr 28" "at yyr1 28 = Inr 28" "at yyr1 29 = Inr 28"
  "at yyr1 30 = Inr 28" "at yyr1 31 = Inr 29" "at yyr1 32 = Inr 29" "at yyr1 33 = Inr 30"
  "at yyr1 34 = Inr 30" "at yyr1 35 = Inr 30" "at yyr1 36 = Inr 30" "at yyr1 37 = Inr 30"
  "at yyr1 38 = Inr 30" "at yyr1 39 = Inr 30" "at yyr1 40 = Inr 30" "at yyr1 41 = Inr 30"
  "at yyr1 42 = Inr 30" "at yyr1 43 = Inr 30" "at yyr1 44 = Inr 30" "at yyr1 45 = Inr 30"
  "at yyr1 46 = Inr 30" "at yyr1 47 = Inr 30" "at yyr1 48 = Inr 30" "at yyr1 49 = Inr 30"
  "at yyr1 50 = Inr 30" "at yyr1 51 = Inr 31" "at yyr1 52 = Inr 32" "at yyr1 53 = Inr 32"
  by (simp_all add: at_def yyr1_def)

lemma check_entries:
  "at yycheck 0 = Inr 0" "at yycheck 1 = Inr 17" "at yycheck 2 = Inr 18" "at yycheck 3 = Inr 10"
  "at yycheck 4 = Inr 18" "at yycheck 5 = Inr 5" "at yycheck 6 = Inr 6" "at yycheck 7 = Inr 7"
  "at yycheck 8 = Inr 8" "at yycheck 9 = Inr 9" "at yycheck 10 = Inr 17" "at yycheck 11 = Inr 11"
  "at yycheck 12 = Inr 12" "at yycheck 13 = Inr 13" "at yycheck 14 = Inr 14" "at yycheck 15 = Inr 15"
  "at yycheck 16 = Inr 16" "at yycheck 17 = Inr 17" "at yycheck 18 = Inr 18" "at yycheck 19 = Inr 5"
  "at yycheck 20 = Inr 6" "at yycheck 21 = Inr 20" "at yycheck 22 = Inr 8" "at yycheck 23 = Inr 4"
  "at yycheck 24 = Inr 10" "at yycheck 25 = Inr 11" "at yycheck 26 = Inr 12" "at yycheck 27 = Inr 13"
  "at yycheck 28 = Inr 14" "at yycheck 29 = Inr 15" "at yycheck 30 = Inr 3" "at yycheck 31 = Inr 17"
  "at yycheck 32 = Inr 6" "at yycheck 33 = Inr 19" "at yycheck 34 = Inr 8" "at yycheck 35 = Inr 21"
  "at yycheck 36 = Inr 4" "at yycheck 37 = Inr 11" "at yycheck 38 = Inr 10" "at yycheck 39 = Inr 13"
  "at yycheck 40 = Inr 14" "at yycheck 41 = Inr 15" "at yycheck 42 = Inr 20" "at yycheck 43 = Inr 18"
  "at yycheck 44 = Inr 21" "at yycheck 45 = Inr 17" "at yycheck 46 = Inr 17" "at yycheck 47 = Inr 19"
  "at yycheck 48 = Inr 18" "at yycheck 49 = Inr 18" "at yycheck 50 = Inr 0" "at yycheck 51 = Inr 18"
  "at yycheck 52 = Inr 18" "at yycheck 53 = Inr 59"
  by (simp_all add: at_def yycheck_def)

lemma table_entries:
  "at yytable 0 = Inr 63" "at yytable 1 = Inr 48" "at yytable 2 = Inr 49" "at yytable 3 = Inr 54"
  "at yytable 4 = Inr 26" "at yytable 5 = Inr 2" "at yytable 6 = Inr 3" "at yytable 7 = Inr 4"
  "at yytable 8 = Inr 5" "at yytable 9 = Inr 6" "at yytable 10 = Inr 61" "at yytable 11 = Inr 7"
  "at yytable 12 = Inr 8" "at yytable 13 = Inr 9" "at yytable 14 = Inr 10" "at yytable 15 = Inr 11"
  "at yytable 16 = Inr 12" "at yytable 17 = Inr 13" "at yytable 18 = Inr 14" "at yytable 19 = Inr 34"
  "at yytable 20 = Inr 35" "at yytable 21 = Inr 24" "at yytable 22 = Inr 36" "at yytable 23 = Inr 25"
  "at yytable 24 = Inr 37" "at yytable 25 = Inr 38" "at yytable 26 = Inr 39" "at yytable 27 = Inr 40"
  "at yytable 28 = Inr 41" "at yytable 29 = Inr 42" "at yytable 30 = Inr 46" "at yytable 31 = Inr 43"
  "at yytable 32 = Inr 28" "at yytable 33 = Inr 44" "at yytable 34 = Inr 29" "at yytable 35 = Inr 45"
  "at yytable 36 = Inr 27" "at yytable 37 = Inr 30" "at yytable 38 = Inr 54" "at yytable 39 = Inr 31"
  "at yytable 40 = Inr 32" "at yytable 41 = Inr 33" "at yytable 42 = Inr 47" "at yytable 43 = Inr 51"
  "at yytable 44 = Inr 58" "at yytable 45 = Inr 55" "at yytable 46 = Inr 50" "at yytable 47 = Inr 56"
  "at yytable 48 = Inr 52" "at yytable 49 = Inr 53" "at yytable 50 = Inr 64" "at yytable 51 = Inr 59"
  "at yytable 52 = Inr 60" "at yytable 53 = Inr 62"
  by (simp_all add: at_def yytable_def)

lemma goto_entries:
  "at yypgoto 0 = Inr (- 32768)" "at yypgoto 1 = Inr (- 32768)" "at yypgoto 2 = Inr (- 32768)"
  "at yypgoto 3 = Inr (- 32768)" "at yypgoto 4 = Inr (- 32768)" "at yypgoto 5 = Inr (- 32768)"
  "at yypgoto 6 = Inr (- 32768)" "at yypgoto 7 = Inr (- 32768)" "at yypgoto 8 = Inr (- 32768)"
  "at yypgoto 9 = Inr (- 32768)" "at yypgoto 10 = Inr (- 6)" "at yydefgoto 0 = Inr 1"
  "at yydefgoto 1 = Inr 15" "at yydefgoto 2 = Inr 16" "at yydefgoto 3 = Inr 17" "at yydefgoto 4 = Inr 18"
  "at yydefgoto 5 = Inr 19" "at yydefgoto 6 = Inr 20" "at yydefgoto 7 = Inr 21" "at yydefgoto 8 = Inr 22"
  "at yydefgoto 9 = Inr 23" "at yydefgoto 10 = Inr 57"
  by (simp_all add: at_def yypgoto_def yydefgoto_def YYFLAG_def)

lemma goto_number:
  assumes "0 \<le> b" "b \<le> 64"
  shows "yygoto 32 b = Inr (if b = 59 then 62 else 57)"
proof -
  have "list_all (\<lambda>b. yygoto 32 b = Inr (if b = 59 then 62 else 57)) [0..64]"
    by code_simp
  then show ?thesis using assms by (simp add: list_all_iff)
qed

lemma goto_other:
  assumes "0 \<le> b" "b \<le> 64"
  shows "yygoto 22 b = Inr 1" "yygoto 23 b = Inr 15" "yygoto 24 b = Inr 16" "yygoto 25 b = Inr 17" "yygoto 26 b = Inr 18"
    "yygoto 27 b = Inr 19" "yygoto 28 b = Inr 20" "yygoto 29 b = Inr 21" "yygoto 30 b = Inr 22" "yygoto 31 b = Inr 23"
  using assms by (simp_all add: yygoto_def parser_constants goto_entries Let_def)

lemma act_default:
  "act 0 t = Inr (Reduce 1)" "act 3 t = Inr (Reduce 41)" "act 4 t = Inr (Reduce 18)"
  "act 5 t = Inr (Reduce 44)" "act 7 t = Inr (Reduce 47)" "act 9 t = Inr (Reduce 38)"
  "act 10 t = Inr (Reduce 50)" "act 11 t = Inr (Reduce 35)" "act 15 t = Inr (Reduce 2)"
  "act 16 t = Inr (Reduce 3)" "act 17 t = Inr (Reduce 4)" "act 18 t = Inr (Reduce 5)"
  "act 19 t = Inr (Reduce 7)" "act 20 t = Inr (Reduce 6)" "act 21 t = Inr (Reduce 8)"
  "act 23 t = Inr (Reduce 9)" "act 24 t = Inr (Reduce 21)" "act 25 t = Inr (Reduce 16)"
  "act 27 t = Inr (Reduce 19)" "act 28 t = Inr (Reduce 40)" "act 29 t = Inr (Reduce 43)"
  "act 30 t = Inr (Reduce 46)" "act 31 t = Inr (Reduce 37)" "act 32 t = Inr (Reduce 49)"
  "act 33 t = Inr (Reduce 34)" "act 34 t = Inr (Reduce 22)" "act 35 t = Inr (Reduce 39)"
  "act 36 t = Inr (Reduce 42)" "act 37 t = Inr (Reduce 10)" "act 38 t = Inr (Reduce 45)"
  "act 40 t = Inr (Reduce 36)" "act 41 t = Inr (Reduce 48)" "act 42 t = Inr (Reduce 33)"
  "act 46 t = Inr (Reduce 31)" "act 48 t = Inr (Reduce 26)" "act 49 t = Inr (Reduce 30)"
  "act 50 t = Inr (Reduce 25)" "act 53 t = Inr (Reduce 28)" "act 54 t = Inr (Reduce 53)"
  "act 55 t = Inr (Reduce 12)" "act 57 t = Inr (Reduce 11)" "act 60 t = Inr (Reduce 24)"
  "act 61 t = Inr (Reduce 14)" "act 62 t = Inr (Reduce 13)" "act 64 t = Inr Error"
  by (simp_all add: act_def pact default_rules)

lemma act_lookahead:
  "act 1 t = Inr (if t \<le> 0 then Shift 63 else if t = tDAY then Shift 2 else if t = tDAY_UNIT then Shift 3
     else if t = tDAYZONE then Shift 4 else if t = tHOUR_UNIT then Shift 5 else if t = tLOCAL_ZONE then Shift 6
     else if t = tMINUTE_UNIT then Shift 7 else if t = tMONTH then Shift 8 else if t = tMONTH_UNIT then Shift 9
     else if t = tSEC_UNIT then Shift 10 else if t = tYEAR_UNIT then Shift 11 else if t = tZONE then Shift 12
     else if t = tSNUMBER then Shift 13 else if t = tUNUMBER then Shift 14 else Error)"
  "act 2 t = Inr (if t = COMMA then Shift 24 else Reduce 20)"
  "act 6 t = Inr (if t = tDST then Shift 25 else Reduce 15)"
  "act 8 t = Inr (if t = tUNUMBER then Shift 26 else Error)"
  "act 12 t = Inr (if t = tDST then Shift 27 else Reduce 17)"
  "act 13 t = Inr (if t = tDAY_UNIT then Shift 28 else if t = tHOUR_UNIT then Shift 29 else if t = tMINUTE_UNIT
     then Shift 30 else if t = tMONTH_UNIT then Shift 31 else if t = tSEC_UNIT then Shift 32 else if t =
     tYEAR_UNIT then Shift 33 else Error)"
  "act 14 t = Inr (if t = tDAY then Shift 34 else if t = tDAY_UNIT then Shift 35 else if t = tHOUR_UNIT then
     Shift 36 else if t = tMERIDIAN then Shift 37 else if t = tMINUTE_UNIT then Shift 38 else if t = tMONTH then
     Shift 39 else if t = tMONTH_UNIT then Shift 40 else if t = tSEC_UNIT then Shift 41 else if t = tYEAR_UNIT
     then Shift 42 else if t = tSNUMBER then Shift 43 else if t = COLON then Shift 44 else if t = SLASH then
     Shift 45 else Reduce 51)"
  "act 22 t = Inr (if t = tAGO then Shift 46 else Reduce 32)"
  "act 26 t = Inr (if t = COMMA then Shift 47 else Reduce 27)"
  "act 39 t = Inr (if t = tSNUMBER then Shift 48 else if t = tUNUMBER then Shift 49 else Reduce 29)"
  "act 43 t = Inr (if t = tSNUMBER then Shift 50 else Error)"
  "act 44 t = Inr (if t = tUNUMBER then Shift 51 else Error)"
  "act 45 t = Inr (if t = tUNUMBER then Shift 52 else Error)"
  "act 47 t = Inr (if t = tUNUMBER then Shift 53 else Error)"
  "act 51 t = Inr (if t = tMERIDIAN then Shift 54 else if t = tSNUMBER then Shift 55 else if t = COLON then
     Shift 56 else Reduce 52)"
  "act 52 t = Inr (if t = SLASH then Shift 58 else Reduce 23)"
  "act 56 t = Inr (if t = tUNUMBER then Shift 59 else Error)"
  "act 58 t = Inr (if t = tUNUMBER then Shift 60 else Error)"
  "act 59 t = Inr (if t = tMERIDIAN then Shift 54 else if t = tSNUMBER then Shift 61 else Reduce 52)"
  "act 63 t = Inr (if t \<le> 0 then Accept else Error)"
  by (simp_all add: act_def pact default_rules translate internal_def table_entry_def check_entries table_entries parser_constants)

end
