(* ===== verification/Getdate_Run.thy ===== *)
theory Getdate_Run
  imports Getdate_Acts
begin

text \<open>
  The table-driven parser of \<^verbatim>\<open>src/cmods/_Caudium/getdate.c\<close> computes the reference. A machine on the
  list of tokens makes the decisions of the tables on plain stacks; the parser with its lookahead token simulates
  it; and with one item the machine does what the reference does.
\<close>

section \<open>A machine on the list of tokens\<close>

type_synonym lr = "int list \<times> textint list \<times> textint \<times> parser_control \<times> tok list"

definition lr_ok :: "lr \<Rightarrow> bool" where
  "lr_ok c = (case c of (ss, vs, v, pc, ts) \<Rightarrow>
     ss \<noteq> [] \<and> length ss < 100 \<and> length vs = length ss \<and> (\<forall>s \<in> set ss. 0 \<le> s \<and> s \<le> 64))"

text \<open>
  One step: a result (\<open>Inl None\<close> for a syntax error) or the next configuration; no step at all where the tables or
  the stack would be left. At the end of the tokens the state that is shifted to accepts.
\<close>

definition lr_step :: "lr \<Rightarrow> (parser_control option + lr) option" where
  "lr_step c = (case c of (ss, vs, v, pc, ts) \<Rightarrow>
     (case act (hd ss) (next_tok ts) of
        Inr (Shift s) \<Rightarrow>
          if ts \<noteq> [] then Some (Inr (s # ss, val_of ts # vs, v, pc, tl ts))
          else if act s 0 = Inr Accept \<and> 0 \<le> s \<and> s \<le> 64 then Some (Inl (Some pc)) else None
      | Inr (Reduce n) \<Rightarrow>
          (case reduction n ss vs v pc of
             Inr (ss, vs, v, pc) \<Rightarrow> Some (Inr (ss, vs, v, pc, ts))
           | Inl e \<Rightarrow> None)
      | Inr Error \<Rightarrow> Some (Inl None)
      | _ \<Rightarrow> None))"

inductive lr_exec :: "lr \<Rightarrow> parser_control option \<Rightarrow> bool" where
  lr_done: "lr_step c = Some (Inl r) \<Longrightarrow> lr_exec c r"
| lr_more: "lr_step c = Some (Inr c') \<Longrightarrow> lr_ok c' \<Longrightarrow> lr_exec c' r \<Longrightarrow> lr_exec c r"

lemma lr_exec_step:
  "lr_exec c r \<longleftrightarrow>
     (case lr_step c of
        None \<Rightarrow> False
      | Some (Inl r') \<Rightarrow> r = r'
      | Some (Inr c') \<Rightarrow> lr_ok c' \<and> lr_exec c' r)"
  by (subst lr_exec.simps) (auto split: sum.split option.split)

section \<open>The parser simulates the machine\<close>

text \<open>Actions neither look at the rest of the date nor change it or the local time zones.\<close>

lemma action_input:
  "item_action n (pc\<lparr>input := i\<rparr>) = item_action n pc\<lparr>input := i\<rparr>"
  "time_action n f (pc\<lparr>input := i\<rparr>) = time_action n f pc\<lparr>input := i\<rparr>"
  "zone_action n f (pc\<lparr>input := i\<rparr>) = zone_action n f pc\<lparr>input := i\<rparr>"
  "day_action n f (pc\<lparr>input := i\<rparr>) = day_action n f pc\<lparr>input := i\<rparr>"
  "date_action n f (pc\<lparr>input := i\<rparr>) = date_action n f pc\<lparr>input := i\<rparr>"
  "number_action u (pc\<lparr>input := i\<rparr>) = number_action u pc\<lparr>input := i\<rparr>"
  by (simp_all add: item_action_def time_action_def zone_action_def day_action_def date_action_def)
    (auto simp: number_action_def)

lemma rel_action_input: "rel_action n f (pc\<lparr>input := i\<rparr>) = rel_action n f pc\<lparr>input := i\<rparr>"
  unfolding rel_action_def Let_def by (simp only: if_distrib [of "\<lambda>p. p\<lparr>input := i\<rparr>"]) simp

lemma yyaction_input:
  "yyaction n f v (pc\<lparr>input := i\<rparr>) = (fst (yyaction n f v pc)\<lparr>input := i\<rparr>, snd (yyaction n f v pc))"
  by (simp add: yyaction_def action_input rel_action_input)

lemma action_keeps:
  "input (item_action n pc) = input pc" "local_time_zone_table (item_action n pc) = local_time_zone_table pc"
  "input (time_action n f pc) = input pc" "local_time_zone_table (time_action n f pc) = local_time_zone_table pc"
  "input (zone_action n f pc) = input pc" "local_time_zone_table (zone_action n f pc) = local_time_zone_table pc"
  "input (day_action n f pc) = input pc" "local_time_zone_table (day_action n f pc) = local_time_zone_table pc"
  "input (date_action n f pc) = input pc" "local_time_zone_table (date_action n f pc) = local_time_zone_table pc"
  "input (rel_action n f pc) = input pc" "local_time_zone_table (rel_action n f pc) = local_time_zone_table pc"
  "input (number_action u pc) = input pc" "local_time_zone_table (number_action u pc) = local_time_zone_table pc"
  by (simp_all add: item_action_def time_action_def zone_action_def day_action_def date_action_def rel_action_def
      number_action_def Let_def)

lemma yyaction_keeps:
  "input (fst (yyaction n f v pc)) = input pc"
  "local_time_zone_table (fst (yyaction n f v pc)) = local_time_zone_table pc"
  by (simp_all add: yyaction_def action_keeps)

lemma reduction_input:
  assumes "reduction n ss vs v pc = Inr (ss', vs', v', pc')"
  shows "reduction n ss vs v (pc\<lparr>input := i\<rparr>) = Inr (ss', vs', v', pc'\<lparr>input := i\<rparr>)"
    and "input pc' = input pc" "local_time_zone_table pc' = local_time_zone_table pc"
    and "ss' \<noteq> []" "length ss' = Suc (length (tl ss'))"
  using assms yyaction_keeps
  by (auto simp: reduction_def Let_def yyaction_input bind_res_Inr split: if_splits prod.splits) (metis fst_conv)+

text \<open>The tokens still to be shifted, the lookahead token first if it has been read.\<close>

definition ahead :: "yyst \<Rightarrow> tok list \<Rightarrow> bool" where
  "ahead st ts \<longleftrightarrow>
     (let zones = local_time_zone_table (yypc st) in
      if yychar st = YYEMPTY then \<exists>s. input (yypc st) = Some s \<and> tokens zones (yylval st) s = ts
      else if yychar st = YYEOF then ts = []
      else 0 < yychar st \<and>
        (\<exists>s. input (yypc st) = Some s \<and> ts = (yychar st, yylval st) # tokens zones (yylval st) s))"

lemma ahead_cong:
  "yychar st = yychar st' \<Longrightarrow> yylval st = yylval st' \<Longrightarrow> input (yypc st) = input (yypc st') \<Longrightarrow>
     local_time_zone_table (yypc st) = local_time_zone_table (yypc st') \<Longrightarrow> ahead st ts = ahead st' ts"
  by (simp add: ahead_def)

definition same_control :: "parser_control \<Rightarrow> parser_control \<Rightarrow> bool" where
  "same_control p q \<longleftrightarrow> p\<lparr>input := None\<rparr> = q\<lparr>input := None\<rparr>"

lemma same_control_input [simp]: "same_control (p\<lparr>input := i\<rparr>) q \<longleftrightarrow> same_control p q"
  by (simp add: same_control_def)

definition sim :: "yyst \<Rightarrow> lr \<Rightarrow> bool" where
  "sim st c \<longleftrightarrow> (case c of (ss, vs, v, pc, ts) \<Rightarrow>
     yyss st = ss \<and> yyvs st = vs \<and> yyval st = v \<and> same_control (yypc st) pc \<and>
     yystacksize st = YYINITDEPTH \<and> yyerrstatus st = 0 \<and> ahead st ts)"

lemma yylex_end: "yylex zones lval s = (None, lval', c) \<Longrightarrow> c = 0"
proof (induction zones lval s rule: yylex.induct)
  case (1 zones lval s)
  show ?case
  proof (cases "dropWhile is_space s")
    case Nil
    then show ?thesis using "1.prems" unfolding yylex.simps [of zones lval s] by (simp only: list.case) simp
  next
    case (Cons a t)
    show ?thesis
      using "1.prems" "1.IH" [of a t] Cons unfolding yylex.simps [of zones lval s]
      by (auto simp: lex_number_def lex_word_def Let_def split: if_splits option.splits prod.splits)
  qed
qed

text \<open>Reading the lookahead token, with a number below 1 taken for the end.\<close>

definition settle :: "yyst \<Rightarrow> yyst" where
  "settle st = (if yychar st \<le> 0 then st\<lparr>yychar := YYEOF\<rparr> else st)"

lemma read_token_ahead:
  assumes "sim st (ss, vs, v, pc, ts)"
  obtains st' where "read_token st = Inr st'" "sim (settle st') (ss, vs, v, pc, ts)"
    "yychar (settle st') \<noteq> YYEMPTY" "yychar (settle st') = next_tok ts" "ts \<noteq> [] \<Longrightarrow> yylval st' = val_of ts"
    "0 \<le> yychar (settle st')"
proof (cases "yychar st = YYEMPTY")
  case True
  then obtain s where s: "input (yypc st) = Some s" "tokens (local_time_zone_table (yypc st)) (yylval st) s = ts"
    using assms by (auto simp: sim_def ahead_def)
  obtain inp lval c where lex: "yylex (local_time_zone_table (yypc st)) (yylval st) s = (inp, lval, c)"
    by (metis prod_cases3)
  define st' where "st' = st\<lparr>yychar := c, yylval := lval, yypc := (yypc st)\<lparr>input := inp\<rparr>\<rparr>"
  have r: "read_token st = Inr st'" using True s lex by (simp add: read_token_def st'_def)
  have ts: "ts = (if c \<le> 0 then [] else (c, lval) # tokens (local_time_zone_table (yypc st)) lval (the inp))"
    and inp: "0 < c \<Longrightarrow> inp \<noteq> None"
    using s(2) lex yylex_end [of "local_time_zone_table (yypc st)" "yylval st" s lval c]
    by (auto simp: tokens.simps [of "local_time_zone_table (yypc st)" "yylval st" s] split: option.splits)
  have zones: "local_time_zone_table (yypc st') = local_time_zone_table (yypc st)" by (simp add: st'_def)
  show ?thesis
  proof (cases "c \<le> 0")
    case True
    then have "ts = []" "settle st' = st'\<lparr>yychar := YYEOF\<rparr>" using ts by (simp_all add: settle_def st'_def)
    then show ?thesis using that [OF r] assms zones
      by (auto simp: sim_def ahead_def st'_def next_tok_def YYEMPTY_def YYEOF_def)
  next
    case False
    then obtain s' where "inp = Some s'" "ts = (c, lval) # tokens (local_time_zone_table (yypc st)) lval s'"
      "settle st' = st'"
      using ts inp by (auto simp: settle_def st'_def)
    then show ?thesis using that [OF r] assms zones False
      by (auto simp: sim_def ahead_def st'_def next_tok_def val_of_def YYEMPTY_def YYEOF_def)
  qed
next
  case False
  then have "read_token st = Inr st" by (simp add: read_token_def)
  moreover have "settle st = st" "0 \<le> yychar st" using assms False by (auto simp: sim_def ahead_def settle_def YYEOF_def Let_def split: if_splits)
  ultimately show ?thesis using that [of st] assms False
    by (auto simp: sim_def ahead_def next_tok_def val_of_def YYEOF_def Let_def split: if_splits)
qed

lemma default_no_shift: "default_entry s = Inr d \<Longrightarrow> d \<noteq> Shift k \<and> d \<noteq> Use_default"
  by (auto simp: default_entry_def bind_res_Inr split: if_splits)

text \<open>What happens at \<^verbatim>\<open>yybackup\<close> is what the machine decides.\<close>

lemma yybackup_act:
  assumes sim: "sim st (ss, vs, v, pc, ts)" and act: "act (hd ss) (next_tok ts) = Inr d"
  obtains st' where "sim st' (ss, vs, v, pc, ts)" "yybackup st = perform d st'"
    "\<And>s. d = Shift s \<Longrightarrow> yychar st' = next_tok ts \<and> (ts \<noteq> [] \<longrightarrow> yylval st' = val_of ts) \<and> yychar st' \<noteq> YYEMPTY"
proof -
  have ss: "yyss st = ss" using sim by (simp add: sim_def)
  obtain yyn where yyn: "at yypact (hd ss) = Inr yyn" using act by (auto simp: act_def bind_res_Inr)
  show thesis
  proof (cases "yyn = YYFLAG")
    case True
    then have d: "default_entry (hd ss) = Inr d" using act yyn by (simp add: act_def)
    then have "yybackup st = perform d st" using yyn ss True by (simp add: yybackup_def)
    then show thesis using that [OF sim] default_no_shift [OF d] by simp
  next
    case False
    obtain st' where st': "read_token st = Inr st'" "sim (settle st') (ss, vs, v, pc, ts)"
      "yychar (settle st') \<noteq> YYEMPTY" "yychar (settle st') = next_tok ts" "ts \<noteq> [] \<Longrightarrow> yylval st' = val_of ts"
      "0 \<le> yychar (settle st')"
      using read_token_ahead [OF sim] by metis
    have settled: "yyss (settle st') = ss" "yylval (settle st') = yylval st'"
      using st'(2) by (simp_all add: sim_def settle_def)
    have "yybackup st = bind_res (act (hd ss) (next_tok ts)) (\<lambda>d. perform d (settle st'))"
      using yyn False st'(1,4) ss settled(1)
      by (simp add: yybackup_def act_def settle_def [symmetric] Let_def translate bind_res_def split: sum.split)
    then show thesis using that [OF st'(2)] act st' settled by simp
  qed
qed

text \<open>No state takes the error token: a syntax error ends the parse.\<close>

lemma no_error_token:
  assumes "0 \<le> s" "s \<le> 64"
  obtains yyn where "at yypact s = Inr yyn" "yyn = YYFLAG \<or> table_entry yyn YYTERROR = Inr Use_default"
proof -
  have "list_all (\<lambda>s. case at yypact s of Inl _ \<Rightarrow> False
    | Inr yyn \<Rightarrow> yyn = YYFLAG \<or> table_entry yyn YYTERROR = Inr Use_default) [0..64]"
    by code_simp
  then have "case at yypact s of Inl _ \<Rightarrow> False
    | Inr yyn \<Rightarrow> yyn = YYFLAG \<or> table_entry yyn YYTERROR = Inr Use_default"
    using assms by (simp add: list_all_iff)
  then show thesis using that by (cases "at yypact s") auto
qed

lemma yyerrhandle_aborts:
  assumes "yyss st \<noteq> []" "\<forall>s \<in> set (yyss st). 0 \<le> s \<and> s \<le> 64"
  shows "yyerrhandle st = Inr (Inr (1, yypc st))"
  using assms
proof (induction "length (yyss st)" arbitrary: st)
  case (Suc n)
  obtain s ss where ss: "yyss st = s # ss" using Suc.prems(1) by (cases "yyss st") auto
  obtain yyn where yyn: "at yypact s = Inr yyn" "yyn = YYFLAG \<or> table_entry yyn YYTERROR = Inr Use_default"
    using no_error_token [of s] Suc.prems(2) ss by auto
  have step: "yyerrhandle st =
      (if length (yyss st) \<le> 1 then Inr (Inr (1, yypc st))
       else yyerrhandle (st\<lparr>yyss := tl (yyss st), yyvs := tl (yyvs st)\<rparr>))"
    by (subst yyerrhandle.simps) (use yyn ss in auto)
  show ?case
  proof (cases ss)
    case Nil
    then show ?thesis using step ss by simp
  next
    case (Cons s' ss')
    then show ?thesis using step ss Suc.hyps(1) [of "st\<lparr>yyss := tl (yyss st), yyvs := tl (yyvs st)\<rparr>"] Suc.hyps(2) Suc.prems(2)
      by simp
  qed
qed simp

lemma yyerrlab_aborts:
  assumes "sim st c" "lr_ok c"
  shows "yyerrlab st = Inr (Inr (1, yypc st))"
  using assms yyerrhandle_aborts [of "st\<lparr>yyerrstatus := 3\<rparr>"]
  by (cases c) (auto simp: yyerrlab_def sim_def lr_ok_def)

lemma yynewstate_pushes:
  "length (yyss st) < 199 \<Longrightarrow> yystacksize st = YYINITDEPTH \<Longrightarrow> yynewstate s st = Inr (Inl (st\<lparr>yyss := s # yyss st\<rparr>))"
  by (simp add: yynewstate_def YYINITDEPTH_def)

lemma shift_sim:
  assumes "sim st (ss, vs, v, pc, ts)" "lr_ok (ss, vs, v, pc, ts)" "ts \<noteq> []"
    "yychar st = next_tok ts" "yylval st = val_of ts" "yychar st \<noteq> YYEMPTY"
  obtains st' where "yyshift s st = Inr (Inl st')" "sim st' (s # ss, val_of ts # vs, v, pc, tl ts)"
proof -
  define st' where "st' = st\<lparr>yyss := s # ss, yychar := YYEMPTY, yyvs := yylval st # vs, yyerrstatus := 0\<rparr>"
  have "yychar st \<noteq> YYEOF" using assms by (auto simp: sim_def ahead_def Let_def)
  then have "yyshift s st = Inr (Inl st')"
    using assms by (simp add: yyshift_def yynewstate_pushes sim_def lr_ok_def st'_def)
  moreover have "\<exists>r. input (yypc st) = Some r \<and> tokens (local_time_zone_table (yypc st)) (yylval st) r = tl ts"
    using assms(1,6) \<open>yychar st \<noteq> YYEOF\<close> by (auto simp: sim_def ahead_def Let_def)
  then have "sim st' (s # ss, val_of ts # vs, v, pc, tl ts)"
    using assms(1,5) by (simp add: sim_def ahead_def st'_def)
  ultimately show thesis using that by blast
qed

lemma reduce_sim:
  assumes "sim st (ss, vs, v, pc, ts)" "reduction n ss vs v pc = Inr (ss', vs', v', pc')" "lr_ok (ss', vs', v', pc', ts)"
  obtains st' where "yyreduce n st = Inr (Inl st')" "sim st' (ss', vs', v', pc', ts)"
proof -
  define i where "i = input (yypc st)"
  have same: "yypc st = pc\<lparr>input := i\<rparr>"
  proof -
    have "(yypc st)\<lparr>input := None\<rparr> = pc\<lparr>input := None\<rparr>" using assms(1) by (simp add: sim_def same_control_def)
    then have "(yypc st)\<lparr>input := None, input := i\<rparr> = pc\<lparr>input := None, input := i\<rparr>" by simp
    then show ?thesis by (simp add: i_def)
  qed
  note red = reduction_input [OF assms(2)]
  define st' where "st' = st\<lparr>yyss := ss', yyvs := vs', yyval := v', yypc := pc'\<lparr>input := i\<rparr>\<rparr>"
  have "hd ss' # tl ss' = ss'" "length (tl ss') < 199" using red(4) assms(3) by (auto simp: lr_ok_def)
  then have "yyreduce n st = Inr (Inl st')"
    using assms(1) red(1) [of i] same by (simp add: yyreduce_def yynewstate_pushes sim_def st'_def)
  moreover have "sim st' (ss', vs', v', pc', ts)"
    using assms(1) red(2,3) same ahead_cong [of st' st ts] by (simp add: sim_def st'_def same_control_def)
  ultimately show thesis using that by blast
qed

text \<open>Every run of the machine is a run of the parser.\<close>

definition outcome :: "parser_control option \<Rightarrow> (int \<times> parser_control) res option \<Rightarrow> bool" where
  "outcome r result \<longleftrightarrow>
     (case r of
        None \<Rightarrow> \<exists>pc. result = Some (Inr (1, pc))
      | Some pc \<Rightarrow> \<exists>pc'. result = Some (Inr (0, pc')) \<and> same_control pc' pc)"

lemma yysteps_simps [simp]:
  "yysteps (Inr (Inr result)) = Some (Inr result)" "yysteps (Inl e) = Some (Inl e)"
  by (simp_all add: yysteps.simps)

lemma yysteps_step: "yysteps (Inr (Inl st)) = yysteps (yybackup st)"
  by (subst yysteps.simps) simp

theorem lr_exec_sim:
  assumes "lr_exec c r" "lr_ok c" "sim st c"
  shows "outcome r (yysteps (Inr (Inl st)))"
  using assms
proof (induction arbitrary: st rule: lr_exec.induct)
  case (lr_done c r)
  obtain ss vs v pc ts where c: "c = (ss, vs, v, pc, ts)" by (cases c)
  consider (shift) s where "act (hd ss) (next_tok ts) = Inr (Shift s)" "ts = []" "act s 0 = Inr Accept" "r = Some pc"
      "0 \<le> s" "s \<le> 64"
    | (error) "act (hd ss) (next_tok ts) = Inr Error" "r = None"
    using lr_done(1) c by (auto simp: lr_step_def split: sum.splits decision.splits if_splits)
  then show ?case
  proof cases
    case error
    obtain st' where st': "sim st' c" "yybackup st = perform Error st'"
      using yybackup_act [OF lr_done(3) [unfolded c] error(1)] c by metis
    then show ?thesis
      using error yyerrlab_aborts [OF st'(1) lr_done(2)] by (simp add: yysteps_step perform_def outcome_def)
  next
    case shift
    obtain st' where st': "sim st' c" "yybackup st = perform (Shift s) st'" "yychar st' = 0"
      using yybackup_act [OF lr_done(3) [unfolded c] shift(1)] c shift(2) by (metis list.case(1) next_tok_def)
    define st2 where "st2 = st'\<lparr>yyss := s # ss, yyvs := yylval st' # vs\<rparr>"
    have "yyshift s st' = Inr (Inl st2)"
      using st'(1,3) lr_done(2) c
      by (simp add: yyshift_def yynewstate_pushes sim_def lr_ok_def st2_def YYEOF_def)
    then have step: "yysteps (Inr (Inl st)) = yysteps (Inr (Inl st2))"
      using st'(2) by (simp add: yysteps_step perform_def)
    have "sim st2 (s # ss, yylval st' # vs, v, pc, ts)"
      using st'(1) c ahead_cong [of st2 st' ts] by (simp add: sim_def st2_def)
    then obtain st3 where "sim st3 (s # ss, yylval st' # vs, v, pc, ts)" "yybackup st2 = perform Accept st3"
      using yybackup_act [of st2 "s # ss" "yylval st' # vs" v pc ts Accept] shift by (auto simp: next_tok_def)
    then show ?thesis using step shift by (simp add: yysteps_step [of st2] perform_def outcome_def sim_def)
  qed
next
  case (lr_more c c' r)
  obtain ss vs v pc ts where c: "c = (ss, vs, v, pc, ts)" by (cases c)
  consider (shift) s where "act (hd ss) (next_tok ts) = Inr (Shift s)" "ts \<noteq> []" "c' = (s # ss, val_of ts # vs, v, pc, tl ts)"
    | (reduce) n ss' vs' v' pc' where "act (hd ss) (next_tok ts) = Inr (Reduce n)"
      "reduction n ss vs v pc = Inr (ss', vs', v', pc')" "c' = (ss', vs', v', pc', ts)"
    using lr_more(1) c by (auto simp: lr_step_def split: sum.splits decision.splits if_splits)
  then show ?case
  proof cases
    case shift
    obtain st' where st': "sim st' c" "yybackup st = perform (Shift s) st'" "yychar st' = next_tok ts"
      "yylval st' = val_of ts" "yychar st' \<noteq> YYEMPTY"
      using yybackup_act [OF lr_more(6) [unfolded c] shift(1)] c shift(2) by metis
    obtain st2 where "yyshift s st' = Inr (Inl st2)" "sim st2 c'"
      using shift_sim [OF st'(1) [unfolded c] lr_more(5) [unfolded c] shift(2) st'(3-5)] shift(3) by metis
    then show ?thesis using lr_more.IH [of st2] lr_more(2) st'(2) by (simp add: yysteps_step [of st] perform_def)
  next
    case reduce
    obtain st' where st': "sim st' c" "yybackup st = perform (Reduce n) st'"
      using yybackup_act [OF lr_more(6) [unfolded c] reduce(1)] c by metis
    obtain st2 where "yyreduce n st' = Inr (Inl st2)" "sim st2 c'"
      using reduce_sim [OF st'(1) [unfolded c] reduce(2)] lr_more(2) reduce(3) by metis
    then show ?thesis using lr_more.IH [of st2] lr_more(2) st'(2) by (simp add: yysteps_step [of st] perform_def)
  qed
qed

end
