(* ===== verification/Getdate_Items.thy ===== *)
theory Getdate_Items
  imports Getdate_Run
begin

text \<open>
  The automaton of \<^verbatim>\<open>src/cmods/_Caudium/getdate.c\<close> on one item after the other: from the state that
  waits for an item it shifts and reduces what the reference reads at once. Every form of an item is
  run through the tables; together with the simulation this is the equivalence of \<^verbatim>\<open>yyparse\<close> and the reference.
\<close>

section \<open>Running the tables\<close>

text \<open>Tokens are numbers above 0.\<close>

definition pos :: "tok list \<Rightarrow> bool" where
  "pos ts \<longleftrightarrow> (\<forall>t \<in> set ts. 0 < fst t)"

lemma pos_tl [simp]: "pos ts \<Longrightarrow> pos (tl ts)"
  by (cases ts) (auto simp: pos_def)

lemma pos_next: "pos ts \<Longrightarrow> 0 \<le> next_tok ts" "pos ts \<Longrightarrow> (ts = []) = (next_tok ts = 0)"
  by (cases ts; force simp: pos_def next_tok_def)+

lemma lr_at:
  assumes "pos ts"
  shows "lr_exec (s # ss, vs, v, pc, ts) r \<longleftrightarrow>
     (case act s (next_tok ts) of
        Inr d \<Rightarrow>
          (case d of
             Shift s' \<Rightarrow>
               if next_tok ts \<noteq> 0 then
                 lr_ok (s' # s # ss, val_of ts # vs, v, pc, tl ts) \<and>
                 lr_exec (s' # s # ss, val_of ts # vs, v, pc, tl ts) r
               else act s' 0 = Inr Accept \<and> 0 \<le> s' \<and> s' \<le> 64 \<and> r = Some pc
           | Reduce n \<Rightarrow>
               (case reduction n (s # ss) vs v pc of
                  Inr (ss', vs', v', pc') \<Rightarrow> lr_ok (ss', vs', v', pc', ts) \<and> lr_exec (ss', vs', v', pc', ts) r
                | Inl e \<Rightarrow> False)
           | Error \<Rightarrow> r = None
           | _ \<Rightarrow> False)
      | Inl e \<Rightarrow> False)"
  using assms by (subst lr_exec_step) (auto simp: lr_step_def pos_next split: sum.split decision.split)

text \<open>Away from the state between two items the equation serves as a rewrite rule.\<close>

lemma lr_at_inner: "pos ts \<Longrightarrow> s \<noteq> 1 \<Longrightarrow> lr_exec (s # ss, vs, v, pc, ts) r \<longleftrightarrow>
     (case act s (next_tok ts) of
        Inr d \<Rightarrow>
          (case d of
             Shift s' \<Rightarrow>
               if next_tok ts \<noteq> 0 then
                 lr_ok (s' # s # ss, val_of ts # vs, v, pc, tl ts) \<and>
                 lr_exec (s' # s # ss, val_of ts # vs, v, pc, tl ts) r
               else act s' 0 = Inr Accept \<and> 0 \<le> s' \<and> s' \<le> 64 \<and> r = Some pc
           | Reduce n \<Rightarrow>
               (case reduction n (s # ss) vs v pc of
                  Inr (ss', vs', v', pc') \<Rightarrow> lr_ok (ss', vs', v', pc', ts) \<and> lr_exec (ss', vs', v', pc', ts) r
                | Inl e \<Rightarrow> False)
           | Error \<Rightarrow> r = None
           | _ \<Rightarrow> False)
      | Inl e \<Rightarrow> False)"
  by (rule lr_at)

lemmas lr_simps = lr_at_inner act_lookahead act_default lr_ok_def reduction_def rule_lengths rule_heads goto_other goto_number
  yyaction_def Let_def

section \<open>One item\<close>

text \<open>The run is in the same state behind the item, or it ends if there is none.\<close>

definition goes_on :: "textint \<Rightarrow> textint \<Rightarrow> parser_control option \<Rightarrow> (parser_control \<times> tok list) option \<Rightarrow> bool" where
  "goes_on w w0 r x \<longleftrightarrow>
     (case x of None \<Rightarrow> r = None | Some (pc', ts') \<Rightarrow> lr_exec ([1, 0], [w, w0], w, pc', ts') r)"

definition item_ok :: "textint \<Rightarrow> textint \<Rightarrow> parser_control \<Rightarrow> tok list \<Rightarrow> parser_control option \<Rightarrow> bool" where
  "item_ok w w0 pc ts r \<longleftrightarrow> lr_exec ([1, 0], [w, w0], w, pc, ts) r = goes_on w w0 r (ref_item pc ts)"

lemmas ref_simps = ref_item_def units_def goes_on_def half_day_def set_time_def set_zone_def ref_seconds_def ref_clock_def
  add_rel_def negate_rels_def ref_rel_def set_day_def set_date_def ref_slashes_def ref_number_def

text \<open>Updates of the control structure in one order.\<close>

lemma control_order:
  "pc\<lparr>year := y, month := m\<rparr> = pc\<lparr>month := m, year := y\<rparr>"
  "pc\<lparr>year := y, day := d\<rparr> = pc\<lparr>day := d, year := y\<rparr>"
  "pc\<lparr>day := d, month := m\<rparr> = pc\<lparr>month := m, day := d\<rparr>"
  "pc\<lparr>zones_seen := z, time_zone := t\<rparr> = pc\<lparr>time_zone := t, zones_seen := z\<rparr>"
  "pc\<lparr>zones_seen := z, times_seen := n\<rparr> = pc\<lparr>times_seen := n, zones_seen := z\<rparr>"
  "pc\<lparr>time_zone := t, times_seen := n\<rparr> = pc\<lparr>times_seen := n, time_zone := t\<rparr>"
  "pc\<lparr>hour := h, minutes := k, seconds := seconds pc\<rparr> = pc\<lparr>hour := h, minutes := k\<rparr>"
  by simp_all

lemma item_zone:
  assumes "pos ts" "next_tok ts = tZONE \<or> next_tok ts = tLOCAL_ZONE"
  shows "item_ok w w0 pc ts r"
  unfolding item_ok_def using assms
  by (cases "next_tok (tl ts) = tDST"; subst lr_at; elim disjE;
    simp add: lr_simps zone_action_def item_action_def ref_simps)

lemma item_dayzone:
  assumes "pos ts" "next_tok ts = tDAYZONE"
  shows "item_ok w w0 pc ts r"
  unfolding item_ok_def using assms by (subst lr_at; simp add: lr_simps zone_action_def item_action_def ref_simps)

lemma item_day:
  assumes "pos ts" "next_tok ts = tDAY"
  shows "item_ok w w0 pc ts r"
  unfolding item_ok_def using assms
  by (cases "next_tok (tl ts) = COMMA"; subst lr_at; simp add: lr_simps day_action_def item_action_def ref_simps)

lemma item_unit:
  assumes "pos ts" "next_tok ts \<in> units"
  shows "item_ok w w0 pc ts r"
  unfolding item_ok_def using assms unfolding units_def insert_iff
  by (cases "next_tok (tl ts) = tAGO"; elim disjE; subst lr_at;
    simp add: lr_simps rel_action_def item_action_def ref_simps)

lemma item_month:
  assumes "pos ts" "next_tok ts = tMONTH"
  shows "item_ok w w0 pc ts r"
  unfolding item_ok_def using assms
  by (cases "next_tok (tl ts) = tUNUMBER"; cases "next_tok (tl (tl ts)) = COMMA"; cases "next_tok (tl (tl (tl ts))) = tUNUMBER";
    subst lr_at; simp add: lr_simps date_action_def item_action_def ref_simps control_order)

lemma item_snumber:
  assumes "pos ts" "next_tok ts = tSNUMBER"
  shows "item_ok w w0 pc ts r"
proof (cases "next_tok (tl ts) \<in> units")
  case True
  then show ?thesis unfolding item_ok_def using assms unfolding units_def insert_iff
    by (cases "next_tok (tl (tl ts)) = tAGO"; elim disjE; subst lr_at; simp add: lr_simps rel_action_def item_action_def ref_simps)
next
  case False
  then show ?thesis unfolding item_ok_def using assms unfolding units_def
    by (subst lr_at; simp add: lr_simps ref_simps)
qed

lemma number_unit:
  assumes "pos ts" "next_tok ts = tUNUMBER" "next_tok (tl ts) \<in> units"
  shows "item_ok w w0 pc ts r"
  unfolding item_ok_def using assms unfolding units_def insert_iff
    by (cases "next_tok (tl (tl ts)) = tAGO"; elim disjE; subst lr_at; simp add: lr_simps rel_action_def item_action_def ref_simps)

lemma number_word:
  assumes "pos ts" "next_tok ts = tUNUMBER" "next_tok (tl ts) = tDAY \<or> next_tok (tl ts) = tMERIDIAN"
  shows "item_ok w w0 pc ts r"
  unfolding item_ok_def using assms
    by (elim disjE; subst lr_at; simp add: lr_simps day_action_def time_action_def item_action_def ref_simps)

lemma number_colon:
  assumes "pos ts" "next_tok ts = tUNUMBER" "next_tok (tl ts) = COLON"
  shows "item_ok w w0 pc ts r"
proof (cases "next_tok (tl (tl ts)) = tUNUMBER")
  case False
  then show ?thesis unfolding item_ok_def using assms by (subst lr_at; simp add: lr_simps ref_simps)
next
  case True
  note start = assms True
  consider "next_tok (tl (tl (tl ts))) = tMERIDIAN" | "next_tok (tl (tl (tl ts))) = tSNUMBER" 
    | "next_tok (tl (tl (tl ts))) = COLON" | "next_tok (tl (tl (tl ts))) \<noteq> tMERIDIAN" "next_tok (tl (tl (tl ts))) \<noteq> tSNUMBER"
      "next_tok (tl (tl (tl ts))) \<noteq> COLON" by blast
  then show ?thesis
  proof cases
    case 3
    then show ?thesis 
    proof (cases "next_tok (tl (tl (tl (tl ts)))) = tUNUMBER")
      case False
      with 3 show ?thesis unfolding item_ok_def using start by (subst lr_at; simp add: lr_simps ref_simps)
    next
      case True
      with 3 show ?thesis unfolding item_ok_def using start
        by (cases "next_tok (tl (tl (tl (tl (tl ts))))) = tMERIDIAN"; cases "next_tok (tl (tl (tl (tl (tl ts))))) = tSNUMBER";
         subst lr_at; simp add: lr_simps time_action_def item_action_def ref_simps control_order MER24_def)
    qed
  next
    case 1
    then show ?thesis unfolding item_ok_def using start
      by (subst lr_at; simp add: lr_simps time_action_def item_action_def ref_simps)
  next
    case 2
    then show ?thesis unfolding item_ok_def using start
      by (subst lr_at; simp add: lr_simps time_action_def item_action_def ref_simps control_order)
  next
    case 4
    then show ?thesis unfolding item_ok_def using start
      by (subst lr_at; simp add: lr_simps time_action_def item_action_def ref_simps)
  qed
qed

lemma number_slash:
  assumes "pos ts" "next_tok ts = tUNUMBER" "next_tok (tl ts) = SLASH"
  shows "item_ok w w0 pc ts r"
  unfolding item_ok_def using assms
  by (cases "next_tok (tl (tl ts)) = tUNUMBER"; cases "next_tok (tl (tl (tl ts))) = SLASH"; 
      cases "next_tok (tl (tl (tl (tl ts)))) = tUNUMBER"; cases "4 \<le> digits (val_of ts)";
    subst lr_at; simp add: lr_simps date_action_def item_action_def ref_simps control_order)

lemma number_number:
  assumes "pos ts" "next_tok ts = tUNUMBER" "next_tok (tl ts) = tSNUMBER"
  shows "item_ok w w0 pc ts r"
  unfolding item_ok_def using assms
  by (cases "next_tok (tl (tl ts)) = tSNUMBER"; 
    subst lr_at; simp add: lr_simps date_action_def item_action_def ref_simps control_order)

lemma number_month:
  assumes "pos ts" "next_tok ts = tUNUMBER" "next_tok (tl ts) = tMONTH"
  shows "item_ok w w0 pc ts r"
  unfolding item_ok_def using assms
  by (cases "next_tok (tl (tl ts)) = tSNUMBER"; cases "next_tok (tl (tl ts)) = tUNUMBER"; 
    subst lr_at; simp add: lr_simps date_action_def item_action_def ref_simps control_order)

lemma number_alone:
  assumes "pos ts" "next_tok ts = tUNUMBER" "next_tok (tl ts) \<notin> units \<union> {tDAY, tMERIDIAN, COLON, SLASH, tSNUMBER, tMONTH}"
  shows "item_ok w w0 pc ts r"
  unfolding item_ok_def using assms unfolding units_def
  by (subst lr_at; simp add: lr_simps ref_simps)

lemma item_other:
  assumes "pos ts" "ts \<noteq> []"
    "next_tok ts \<notin> units \<union> {tZONE, tLOCAL_ZONE, tDAYZONE, tDAY, tMONTH, tSNUMBER, tUNUMBER}"
  shows "item_ok w w0 pc ts r"
  unfolding item_ok_def using assms pos_next [of ts] unfolding units_def
  by (subst lr_at; simp add: act_lookahead ref_simps Let_def)

lemma item_at:
  assumes "pos ts" "ts \<noteq> []"
  shows "lr_exec ([1, 0], [w, w0], w, pc, ts) r = goes_on w w0 r (ref_item pc ts)"
proof -
  have "item_ok w w0 pc ts r"
  proof (cases "next_tok ts = tUNUMBER")
    case True
    then show ?thesis
      using number_unit [OF assms(1) True, of w w0 pc r] number_word [OF assms(1) True, of w w0 pc r] number_colon [OF assms(1) True, of w w0 pc r]
        number_slash [OF assms(1) True, of w w0 pc r] number_number [OF assms(1) True, of w w0 pc r] number_month [OF assms(1) True, of w w0 pc r]
        number_alone [OF assms(1) True, of w w0 pc r] by auto
  next
    case False
    then show ?thesis
      using item_other [OF assms, of w w0 pc r] item_zone [OF assms(1), of w w0 pc r] item_dayzone [OF assms(1), of w w0 pc r] item_day [OF assms(1), of w w0 pc r]
        item_unit [OF assms(1), of w w0 pc r] item_month [OF assms(1), of w w0 pc r] item_snumber [OF assms(1), of w w0 pc r] by auto
  qed
  then show ?thesis by (simp add: item_ok_def)
qed

section \<open>The whole date\<close>

lemma ref_item_pos: "ref_item pc ts = Some (pc', ts') \<Longrightarrow> pos ts \<Longrightarrow> pos ts'"
  unfolding ref_simps Let_def by (auto split: if_splits)

lemma pos_tokens: "pos (tokens zones lval s)"
proof (induction zones lval s rule: tokens.induct)
  case (1 zones lval s)
  show ?case
  proof (cases "yylex zones lval s")
    case (fields inp lval' c)
    show ?thesis
    proof (cases inp)
      case (Some r)
      then show ?thesis using "1.IH" [OF fields [symmetric] Some refl] fields
        by (subst tokens.simps) (auto simp: pos_def)
    qed (subst tokens.simps, simp add: fields pos_def)
  qed
qed

lemma spec_at: "pos ts \<Longrightarrow> lr_exec ([1, 0], [w, w0], w, pc, ts) (ref_spec pc ts)"
proof (induction pc ts rule: ref_spec.induct)
  case (1 pc ts)
  show ?case
  proof (cases "ts = []")
    case True
    then show ?thesis
      by (subst lr_at) (simp_all add: ref_spec.simps pos_def next_tok_def act_lookahead)
  next
    case False
    show ?thesis
    proof (cases "ref_item pc ts")
      case None
      then show ?thesis using False item_at [OF 1(2) False] by (simp add: ref_spec.simps goes_on_def)
    next
      case (Some p)
      then show ?thesis using False 1 item_at [OF 1(2) False] ref_item_pos
        by (cases p) (simp add: ref_spec.simps [of pc ts] goes_on_def)
    qed
  qed
qed

lemma yyparse_outcome:
  "outcome (ref_spec pc (tokens (local_time_zone_table pc) junk s)) (yyparse junk (pc\<lparr>input := Some s\<rparr>))"
proof -
  define ts where "ts = tokens (local_time_zone_table pc) junk s"
  define st where "st = \<lparr>yyss = [0], yyvs = [junk], yyval = junk, yychar = YYEMPTY, yylval = junk, yyerrstatus = 0,
     yystacksize = YYINITDEPTH, yypc = pc\<lparr>input := Some s\<rparr>\<rparr>"
  have ts: "pos ts" by (simp add: ts_def pos_tokens)
  have "lr_exec ([0], [junk], junk, pc, ts) (ref_spec pc ts)"
    using spec_at [OF ts] ts by (subst lr_at) (simp_all add: lr_simps)
  moreover have "sim st ([0], [junk], junk, pc, ts)"
    by (simp add: sim_def st_def ahead_def ts_def) (simp add: same_control_def)
  moreover have "lr_ok ([0], [junk], junk, pc, ts)" by (simp add: lr_ok_def)
  ultimately have "outcome (ref_spec pc ts) (yysteps (Inr (Inl st)))" using lr_exec_sim by blast
  moreover have "yyparse junk (pc\<lparr>input := Some s\<rparr>) = yysteps (Inr (Inl st))"
    by (simp add: yyparse_def yynewstate_def st_def YYINITDEPTH_def)
  ultimately show ?thesis by (simp add: ts_def)
qed

end
