(* ===== verification/Getdate.thy ===== *)
theory Getdate
  imports Getdate_Items
begin

text \<open>
  \<^verbatim>\<open>get_date\<close> of \<^verbatim>\<open>src/cmods/_Caudium/getdate.c\<close>: from the words of a date to seconds since 1970, relative
  to now. What the C library knows of time zones is a record of its three functions; \<open>fixed_zone\<close> is a zone without
  summer time. \<^verbatim>\<open>time_t\<close> has 64 bits, which the 32 bits of the fields of a date cannot exceed. The
  configuration is the one with \<^verbatim>\<open>tm_zone\<close> and, as configure does not define it, without \<^verbatim>\<open>HAVE_TM_GMTOFF\<close>.
\<close>

section \<open>The C library\<close>

record ztm = tm +
  tm_zone :: "string option"

record clib =
  c_localtime :: "int \<Rightarrow> ztm option"
  c_gmtime :: "int \<Rightarrow> ztm option"
  c_mktime :: "ztm \<Rightarrow> int \<times> ztm"

section \<open>Hours, years, differences\<close>

text \<open>\<open>None\<close> is \<^verbatim>\<open>abort\<close>.\<close>

definition to_hour :: "int \<Rightarrow> int \<Rightarrow> int option" where
  "to_hour hours mer =
     (if mer = MER24 then Some (if 0 \<le> hours \<and> hours < 24 then hours else - 1)
      else if mer = MERam then Some (if 0 < hours \<and> hours < 12 then hours else if hours = 12 then 0 else - 1)
      else if mer = MERpm then Some (if 0 < hours \<and> hours < 12 then hours + 12 else if hours = 12 then 12 else - 1)
      else None)"

definition to_year :: "textint \<Rightarrow> int" where
  "to_year textyear =
     (let year = intval textyear;
          year = (if year < 0 then wrap32 (- year) else year)
      in if digits textyear = 2 then wrap32 (year + (if year < 69 then 2000 else 1900)) else year)"

definition tm_diff :: "ztm \<Rightarrow> ztm \<Rightarrow> int" where
  "tm_diff a b =
     (let a4 = tm_year a div 4 + 1900 div 4 - (if tm_year a mod 4 = 0 then 1 else 0);
          b4 = tm_year b div 4 + 1900 div 4 - (if tm_year b mod 4 = 0 then 1 else 0);
          a100 = cdiv a4 25 - (if cmod a4 25 < 0 then 1 else 0);
          b100 = cdiv b4 25 - (if cmod b4 25 < 0 then 1 else 0);
          a400 = a100 div 4;
          b400 = b100 div 4;
          intervening_leap_days = (a4 - b4) - (a100 - b100) + (a400 - b400);
          years = tm_year a - tm_year b;
          days = 365 * years + intervening_leap_days + (tm_yday a - tm_yday b)
      in wrap32 (60 * (60 * (24 * days + (tm_hour a - tm_hour b)) + (tm_min a - tm_min b)) + (tm_sec a - tm_sec b)))"

section \<open>The local time zones\<close>

text \<open>The first of the next three quarters of a year in which the other kind of time is used.\<close>

fun probe_zone :: "clib \<Rightarrow> int \<Rightarrow> int \<Rightarrow> int list \<Rightarrow> table list" where
  "probe_zone lib start isdst [] = []"
| "probe_zone lib start isdst (quarter # qs) =
     (case c_localtime lib (start + quarter * (90 * 24 * 60 * 60)) of
        None \<Rightarrow> probe_zone lib start isdst qs
      | Some tm \<Rightarrow>
          (case tm_zone tm of
             None \<Rightarrow> probe_zone lib start isdst qs
           | Some name \<Rightarrow>
               if tm_isdst tm \<noteq> isdst then [(name, tLOCAL_ZONE, tm_isdst tm)] else probe_zone lib start isdst qs))"

text \<open>Abbreviations of standard and summer time; the same one for both says nothing.\<close>

definition local_zones :: "clib \<Rightarrow> int \<Rightarrow> ztm \<Rightarrow> table list" where
  "local_zones lib start tm =
     (case tm_zone tm of
        None \<Rightarrow> []
      | Some name \<Rightarrow>
          (case probe_zone lib start (tm_isdst tm) [1, 2, 3] of
             [] \<Rightarrow> [(name, tLOCAL_ZONE, tm_isdst tm)]
           | (name', type, val) # _ \<Rightarrow>
               if name = name' then [(name, tLOCAL_ZONE, - 1)]
               else [(name, tLOCAL_ZONE, tm_isdst tm), (name', type, val)]))"

section \<open>get_date\<close>

definition start_control :: "clib \<Rightarrow> parser_control \<Rightarrow> int \<Rightarrow> ztm \<Rightarrow> string \<Rightarrow> parser_control" where
  "start_control lib junk start tm p =
     junk\<lparr>input := Some p, year := \<lparr>intval = wrap32 (tm_year tm + 1900), digits = 4\<rparr>, month := tm_mon tm + 1,
       day := tm_mday tm, hour := tm_hour tm, minutes := tm_min tm, seconds := tm_sec tm, meridian := MER24,
       rel_seconds := 0, rel_minutes := 0, rel_hour := 0, rel_day := 0, rel_month := 0, rel_year := 0,
       dates_seen := 0, days_seen := 0, rels_seen := 0, times_seen := 0, local_zones_seen := 0, zones_seen := 0,
       local_time_zone_table := local_zones lib start tm\<rparr>"

text \<open>At most one of each kind of item.\<close>

definition sensible :: "parser_control \<Rightarrow> bool" where
  "sensible pc \<longleftrightarrow>
     times_seen pc \<le> 1 \<and> dates_seen pc \<le> 1 \<and> days_seen pc \<le> 1 \<and> local_zones_seen pc + zones_seen pc \<le> 1 \<and>
     \<not> (local_zones_seen pc \<noteq> 0 \<and> 1 < local_isdst pc)"

text \<open>Whether it is summer time is left to \<^verbatim>\<open>mktime\<close> unless the date says it or is relative in hours.\<close>

definition choose_isdst :: "parser_control \<Rightarrow> ztm \<Rightarrow> int" where
  "choose_isdst pc tm =
     (if local_zones_seen pc \<noteq> 0 then local_isdst pc
      else if dates_seen pc \<noteq> 0 \<or> days_seen pc \<noteq> 0 \<or> times_seen pc \<noteq> 0 \<or> rel_day pc \<noteq> 0 \<or>
        rel_month pc \<noteq> 0 \<or> rel_year pc \<noteq> 0 then - 1
      else tm_isdst tm)"

text \<open>The day of the date, at the time that \<open>tm\<close> already has.\<close>

definition day_fields :: "parser_control \<Rightarrow> ztm \<Rightarrow> ztm" where
  "day_fields pc tm =
     tm\<lparr>tm_year := wrap32 (to_year (year pc) - 1900 + rel_year pc), tm_mon := wrap32 (month pc - 1 + rel_month pc),
       tm_mday := wrap32 (day pc + rel_day pc), tm_isdst := choose_isdst pc tm\<rparr>"

definition set_clock :: "int \<Rightarrow> int \<Rightarrow> int \<Rightarrow> ztm \<Rightarrow> ztm" where
  "set_clock h m s tm = tm\<lparr>tm_hour := h, tm_min := m, tm_sec := s\<rparr>"

text \<open>The broken-down time before \<^verbatim>\<open>mktime\<close>; \<open>Some None\<close> is an hour out of range, \<open>None\<close> is \<^verbatim>\<open>abort\<close>.\<close>

definition broken_down :: "parser_control \<Rightarrow> ztm \<Rightarrow> ztm option option" where
  "broken_down pc tm =
     (if times_seen pc \<noteq> 0 \<or> (rels_seen pc \<noteq> 0 \<and> dates_seen pc = 0 \<and> days_seen pc = 0) then
        (case to_hour (hour pc) (meridian pc) of
           None \<Rightarrow> None
         | Some h \<Rightarrow>
             Some (if h < 0 then None else Some (set_clock h (minutes pc) (seconds pc) (day_fields pc tm))))
      else Some (Some (set_clock 0 0 0 (day_fields pc tm))))"

text \<open>\<^verbatim>\<open>mktime\<close>, tried once more a day off when it fails and a zone was given: the time, its fields, the zone.\<close>

definition guarded_mktime :: "clib \<Rightarrow> parser_control \<Rightarrow> ztm \<Rightarrow> int \<times> ztm \<times> int" where
  "guarded_mktime lib pc tm0 =
     (let (start, tm) = c_mktime lib tm0 in
      if start = - 1 \<and> zones_seen pc \<noteq> 0 then
        (let (tm, zone) =
           (if tm_year tm0 \<le> 1970 - 1900 then (tm0\<lparr>tm_mday := wrap32 (tm_mday tm0 + 1)\<rparr>, wrap32 (time_zone pc + 24 * 60))
            else (tm0\<lparr>tm_mday := wrap32 (tm_mday tm0 - 1)\<rparr>, wrap32 (time_zone pc - 24 * 60)));
           (start, tm) = c_mktime lib tm
         in (start, tm, zone))
      else (start, tm, time_zone pc))"

definition move_to_weekday :: "clib \<Rightarrow> parser_control \<Rightarrow> int \<Rightarrow> ztm \<Rightarrow> int \<times> ztm" where
  "move_to_weekday lib pc start tm =
     (if days_seen pc \<noteq> 0 \<and> dates_seen pc = 0 then
        c_mktime lib (tm\<lparr>tm_mday := wrap32 (tm_mday tm + (cmod (day_number pc - tm_wday tm + 7) 7 +
          7 * (day_ordinal pc - (if 0 < day_ordinal pc then 1 else 0)))), tm_isdst := - 1\<rparr>)
      else (start, tm))"

text \<open>The time in the zone given; \<open>None\<close> is the result -1.\<close>

definition apply_zone :: "clib \<Rightarrow> parser_control \<Rightarrow> int \<Rightarrow> int \<Rightarrow> ztm \<Rightarrow> int option" where
  "apply_zone lib pc zone start tm =
     (if zones_seen pc \<noteq> 0 then
        (case c_gmtime lib start of
           None \<Rightarrow> None
         | Some gmt \<Rightarrow>
             let delta = wrap32 (wrap32 (zone * 60) - tm_diff tm gmt) in
             if (start < start - delta) \<noteq> (delta < 0) then None else Some (start - delta))
      else Some start)"

definition add_relative :: "parser_control \<Rightarrow> int \<Rightarrow> int" where
  "add_relative pc start =
     (let t0 = start; d1 = 60 * 60 * rel_hour pc; t1 = t0 + d1; d2 = 60 * rel_minutes pc; t2 = t1 + d2;
          d3 = rel_seconds pc; t3 = t2 + d3
      in if cdiv d1 (60 * 60) \<noteq> rel_hour pc \<or> cdiv d2 60 \<noteq> rel_minutes pc \<or> (t0 + d1 < t0) \<noteq> (d1 < 0) \<or>
           (t1 + d2 < t1) \<noteq> (d2 < 0) \<or> (t2 + d3 < t2) \<noteq> (d3 < 0)
         then - 1 else t3)"

definition convert :: "clib \<Rightarrow> parser_control \<Rightarrow> ztm \<Rightarrow> int" where
  "convert lib pc tm0 =
     (let (start, tm, zone) = guarded_mktime lib pc tm0 in
      if start = - 1 then - 1
      else
        let (start, tm) = move_to_weekday lib pc start tm in
        if start = - 1 \<and> days_seen pc \<noteq> 0 \<and> dates_seen pc = 0 then - 1
        else (case apply_zone lib pc zone start tm of None \<Rightarrow> - 1 | Some start \<Rightarrow> add_relative pc start))"

text \<open>
  \<open>None\<close>: the call does not return, by \<^verbatim>\<open>abort\<close>, by an access outside some memory, or because the parser goes
  on for ever. \<open>junk\<close>, \<open>junk_val\<close> and \<open>junk_tm\<close> are what uninitialised variables hold.
\<close>

definition get_date :: "clib \<Rightarrow> parser_control \<Rightarrow> textint \<Rightarrow> ztm \<Rightarrow> int \<Rightarrow> string \<Rightarrow> int option" where
  "get_date lib junk junk_val junk_tm now p =
     (case c_localtime lib now of
        None \<Rightarrow> Some (- 1)
      | Some tmp \<Rightarrow>
          (case yyparse junk_val (start_control lib junk now tmp p) of
             Some (Inr (ret, pc)) \<Rightarrow>
               if ret \<noteq> 0 \<or> \<not> sensible pc then Some (- 1)
               else (case broken_down pc (junk_tm\<lparr>tm_isdst := tm_isdst tmp\<rparr>) of
                       None \<Rightarrow> None
                     | Some None \<Rightarrow> Some (- 1)
                     | Some (Some tm) \<Rightarrow> Some (convert lib pc tm))
           | _ \<Rightarrow> None))"

section \<open>A zone without summer time\<close>

definition zoned :: "int \<Rightarrow> string \<Rightarrow> tm \<Rightarrow> ztm" where
  "zoned off name tm = tm.extend (tm\<lparr>tm_isdst := 0\<rparr>) \<lparr>tm_zone = Some name\<rparr>"

text \<open>\<^verbatim>\<open>mktime\<close> with the month brought into the year, and the fields filled in.\<close>

definition normal_month :: "tm \<Rightarrow> tm" where
  "normal_month tm = tm\<lparr>tm_year := tm_year tm + tm_mon tm div 12, tm_mon := tm_mon tm mod 12\<rparr>"

definition fixed_zone :: "int \<Rightarrow> string \<Rightarrow> clib" where
  "fixed_zone off name =
     \<lparr>c_localtime = (\<lambda>t. Some (zoned off name (localtime off t))),
      c_gmtime = (\<lambda>t. Some (zoned 0 ''GMT'' (gmtime t))),
      c_mktime = (\<lambda>tm. let t = mktime off (normal_month (tm.truncate tm)) in (t, zoned off name (localtime off t)))\<rparr>"

end
