(* ===== verification/Getdate_Http.thy ===== *)
theory Getdate_Http
  imports Getdate
begin

text \<open>
  The dates of \<^verbatim>\<open>http_date\<close> read by \<^verbatim>\<open>get_date\<close>: the tokens of such a date, the control structure they give, and
  the way from it to the time.
\<close>

section \<open>Words, numbers and signs\<close>

definition at_end :: "(char \<Rightarrow> bool) \<Rightarrow> string \<Rightarrow> bool" where
  "at_end P r \<longleftrightarrow> (case r of [] \<Rightarrow> True | c # _ \<Rightarrow> \<not> P c)"

lemma takeWhile_at_end: "list_all P w \<Longrightarrow> at_end P r \<Longrightarrow> takeWhile P (w @ r) = w \<and> dropWhile P (w @ r) = r"
  by (cases r) (auto simp: at_end_def list_all_iff takeWhile_append dropWhile_append)

lemma alpha_class: "is_alpha c \<Longrightarrow> \<not> is_space c \<and> sign_of c = 0 \<and> \<not> is_digit c"
  by (auto simp: is_alpha_def is_lower_def is_space_def sign_of_def is_digit_def)

lemma digit_class: "is_digit c \<Longrightarrow> \<not> is_space c \<and> sign_of c = 0"
  by (auto simp: is_space_def sign_of_def is_digit_def)

lemma yylex_space: "is_space c \<Longrightarrow> yylex zones lval (c # s) = yylex zones lval s"
  unfolding yylex.simps [of zones lval "c # s"] yylex.simps [of zones lval s] by simp

lemma yylex_word:
  assumes "list_all is_alpha w" "w \<noteq> []" "length w \<le> 19" "at_end (\<lambda>c. is_alpha c \<or> c = CHR ''.'') r"
    "lookup_word zones w = Some (n, t, v)"
  shows "yylex zones lval (w @ r) = (Some r, lval\<lparr>intval := v\<rparr>, t)"
proof -
  obtain c w' where w: "w = c # w'" using assms(2) by (cases w) auto
  have word: "takeWhile (\<lambda>c. is_alpha c \<or> c = CHR ''.'') (w @ r) = w"
    "dropWhile (\<lambda>c. is_alpha c \<or> c = CHR ''.'') (w @ r) = r"
    using takeWhile_at_end [OF _ assms(4), of w] assms(1) by (auto simp: list_all_iff)
  have "lex_word zones lval (w @ r) = (Some r, lval\<lparr>intval := v\<rparr>, t)"
    unfolding lex_word_def Let_def word using assms(3,5) by simp
  then show ?thesis
    using alpha_class [of c] assms(1) w by (subst yylex.simps) simp
qed

lemma yylex_number:
  assumes "list_all is_digit ds" "ds \<noteq> []" "at_end is_digit r"
  shows "yylex zones lval (ds @ r) = (Some r, \<lparr>intval = number_value ds, digits = int (length ds)\<rparr>, tUNUMBER)"
proof -
  obtain c ds' where ds: "ds = c # ds'" using assms(2) by (cases ds) auto
  have "lex_number 0 (ds @ r) = (Some r, \<lparr>intval = number_value ds, digits = int (length ds)\<rparr>, tUNUMBER)"
    using takeWhile_at_end [OF assms(1,3)] by (simp add: lex_number_def)
  then show ?thesis using digit_class [of c] assms(1) ds by (subst yylex.simps) simp
qed

lemma yylex_sign:
  "yylex zones lval (CHR '','' # r) = (Some r, lval, COMMA)" "yylex zones lval (CHR '':'' # r) = (Some r, lval, COLON)"
proof -
  have sign: "sign_of c = 0 \<and> \<not> is_digit c \<and> \<not> is_alpha c \<and> \<not> is_space c \<and> c \<noteq> CHR ''('' \<and> schar c = int (code_of c)"
    if "c \<in> {CHR '','', CHR '':''}" for c
    using that by (auto simp: sign_of_def is_digit_def is_alpha_def is_lower_def schar_def)
  show "yylex zones lval (CHR '','' # r) = (Some r, lval, COMMA)"
    unfolding yylex.simps [of zones lval "CHR '','' # r"] using sign [of "CHR '',''"] by simp
  show "yylex zones lval (CHR '':'' # r) = (Some r, lval, COLON)"
    unfolding yylex.simps [of zones lval "CHR '':'' # r"] using sign [of "CHR '':''"] by simp
qed

lemma tokens_step:
  "yylex zones lval s = (Some r, lval', c) \<Longrightarrow> 0 < c \<Longrightarrow> tokens zones lval s = (c, lval') # tokens zones lval' r"
  by (subst tokens.simps) simp

lemma tokens_space [simp]: "tokens zones lval (SP # s) = tokens zones lval s"
  by (simp add: tokens.simps [of zones lval "SP # s"] tokens.simps [of zones lval s] yylex_space)

lemma tokens_end [simp]: "tokens zones lval [] = []"
  by (simp add: tokens.simps [of zones lval "[]"] yylex.simps [of zones lval "[]"])

lemma tokens_sign [simp]:
  "tokens zones lval (CHR '','' # r) = (COMMA, lval) # tokens zones lval r"
  "tokens zones lval (CHR '':'' # r) = (COLON, lval) # tokens zones lval r"
  by (simp_all add: tokens_step [OF yylex_sign(1)] tokens_step [OF yylex_sign(2)])

text \<open>Numbers as the printing functions write them.\<close>

lemma number_value_snoc: "number_value (ds @ [digit n]) = wrap32 (10 * number_value ds + int (n mod 10))"
  by (simp add: number_value_def)

lemma show_nat_digits: "list_all is_digit (show_nat n) \<and> show_nat n \<noteq> []"
  by (induction n rule: show_nat.induct) (simp add: show_nat.simps)

lemma number_value_show_nat: "n < 2 ^ 31 \<Longrightarrow> number_value (show_nat n) = int n"
proof (induction n rule: show_nat.induct)
  case (1 n)
  show ?case
  proof (cases "n < 10")
    case True
    then show ?thesis by (simp add: show_nat.simps [of n] number_value_def)
  next
    case False
    have "10 * int (n div 10) + int (n mod 10) = int n" using mult_div_mod_eq [of 10 n] by linarith
    then show ?thesis using 1 False by (simp add: show_nat.simps [of n] number_value_snoc)
  qed
qed

lemma number_value_zero: "number_value (CHR ''0'' # ds) = number_value ds"
  by (simp add: number_value_def digit_val_def)

lemma tokens_02d:
  assumes "0 \<le> v" "v < 100" "at_end is_digit r"
  shows "tokens zones lval (show_02d v @ r) = (tUNUMBER, \<lparr>intval = v, digits = 2\<rparr>) # tokens zones \<lparr>intval = v, digits = 2\<rparr> r"
proof -
  have "number_value (show_02d v) = v"
    using assms number_value_show_nat [of "nat v"] by (auto simp: show_02d_def show_d_def number_value_zero)
  moreover have "list_all is_digit (show_02d v)" "show_02d v \<noteq> []" "length (show_02d v) = 2"
    using assms by (simp_all add: show_02d_digits)
  ultimately show ?thesis using tokens_step [OF yylex_number [of "show_02d v" r zones lval]] assms(3) by simp
qed

lemma tokens_year:
  assumes "1000 \<le> v" "v < 10000" "at_end is_digit r"
  shows "tokens zones lval (show_d v @ r) = (tUNUMBER, \<lparr>intval = v, digits = 4\<rparr>) # tokens zones \<lparr>intval = v, digits = 4\<rparr> r"
proof -
  have "number_value (show_d v) = v" using assms number_value_show_nat [of "nat v"] by (simp add: show_d_def)
  moreover have "list_all is_digit (show_d v)" "show_d v \<noteq> []" "length (show_d v) = 4"
    using assms by (simp_all add: show_d_four)
  ultimately show ?thesis using tokens_step [OF yylex_number [of "show_d v" r zones lval]] assms(3) by simp
qed

text \<open>The names, which the tables hold in capitals and in full.\<close>

lemma lookup_month_or_day:
  "find_entry (map to_upper w) meridian_table = None \<Longrightarrow> find_month_or_day (map to_upper w) = Some e \<Longrightarrow>
     lookup_word zones w = Some e"
  by (simp add: lookup_word_def Let_def)

definition names_known :: "int \<Rightarrow> string list \<Rightarrow> int \<Rightarrow> bool" where
  "names_known t ns k \<longleftrightarrow>
     list_all (\<lambda>i. length (ns ! i) = 3 \<and> list_all is_alpha (ns ! i) \<and> find_entry (map to_upper (ns ! i)) meridian_table = None \<and>
       map_option snd (find_month_or_day (map to_upper (ns ! i))) = Some (t, int i + k)) [0..<length ns]"

lemma names_known: "names_known tDAY days 0" "names_known tMONTH months 1"
  by code_simp+

lemma tokens_name:
  assumes "names_known t ns k" "0 \<le> i" "i < int (length ns)" "at_end (\<lambda>c. is_alpha c \<or> c = CHR ''.'') r" "0 < t"
  shows "tokens zones lval (nth_name ns i @ r) = (t, lval\<lparr>intval := i + k\<rparr>) # tokens zones (lval\<lparr>intval := i + k\<rparr>) r"
proof -
  let ?w = "nth_name ns i"
  have w: "length ?w = 3" "list_all is_alpha ?w" "find_entry (map to_upper ?w) meridian_table = None"
      "map_option snd (find_month_or_day (map to_upper ?w)) = Some (t, i + k)"
    using assms(1-3) by (auto simp: names_known_def list_all_iff nth_name_def dest!: bspec [of _ _ "nat i"])
  then obtain n where "lookup_word zones ?w = Some (n, t, i + k)" using lookup_month_or_day by fastforce
  moreover have "?w \<noteq> []" using w(1) by auto
  ultimately show ?thesis using tokens_step [OF yylex_word [of ?w r zones n t "i + k" lval]] w assms(4,5) by simp
qed

lemma lookup_gmt:
  "lookup_word [(name, tLOCAL_ZONE, 0)] ''GMT'' =
     (if name = ''GMT'' then Some (name, tLOCAL_ZONE, 0) else Some (''GMT'', tZONE, 0))"
proof -
  have "map to_upper ''GMT'' = ''GMT''" "find_entry ''GMT'' meridian_table = None" "find_month_or_day ''GMT'' = None"
    "find_entry ''GMT'' time_zone_table = Some (''GMT'', tZONE, 0)"
    by code_simp+
  moreover have "find_entry ''GMT'' [(name, tLOCAL_ZONE, 0)] = (if name = ''GMT'' then Some (name, tLOCAL_ZONE, 0) else None)"
    by (simp add: find_entry_def)
  ultimately show ?thesis by (simp add: lookup_word_def Let_def lookup_zone_def)
qed

definition gmt_type :: "string \<Rightarrow> int" where
  "gmt_type name = (if name = ''GMT'' then tLOCAL_ZONE else tZONE)"

lemma tokens_gmt:
  "tokens [(name, tLOCAL_ZONE, 0)] lval ''GMT'' = [(gmt_type name, lval\<lparr>intval := 0\<rparr>)]"
proof -
  have "list_all is_alpha ''GMT''" by code_simp
  moreover obtain n where "lookup_word [(name, tLOCAL_ZONE, 0)] ''GMT'' = Some (n, gmt_type name, 0)"
    by (simp add: lookup_gmt gmt_type_def)
  ultimately have "yylex [(name, tLOCAL_ZONE, 0)] lval (''GMT'' @ []) = (Some [], lval\<lparr>intval := 0\<rparr>, gmt_type name)"
    by (intro yylex_word) (simp_all add: at_end_def)
  then show ?thesis using tokens_step [of _ lval "''GMT''" "[]"] by (simp add: gmt_type_def)
qed

section \<open>The tokens of a date\<close>

lemma at_end_simps [simp]: "at_end P []" "at_end P (c # r) \<longleftrightarrow> \<not> P c"
  by (simp_all add: at_end_def)

lemma separators [simp]:
  "\<not> is_alpha SP" "\<not> is_alpha (CHR '','')" "\<not> is_digit SP" "\<not> is_digit (CHR '':'')"
  by (simp_all add: is_alpha_def is_lower_def is_digit_def)

definition http_tokens :: "string \<Rightarrow> textint \<Rightarrow> tm \<Rightarrow> tok list" where
  "http_tokens name lval tm =
     (let num = (\<lambda>v. (tUNUMBER, \<lparr>intval = v, digits = 2\<rparr>)) in
      [(tDAY, lval\<lparr>intval := tm_wday tm\<rparr>), (COMMA, lval\<lparr>intval := tm_wday tm\<rparr>), num (tm_mday tm),
       (tMONTH, \<lparr>intval = tm_mon tm + 1, digits = 2\<rparr>), (tUNUMBER, \<lparr>intval = tm_year tm + 1900, digits = 4\<rparr>),
       num (tm_hour tm), (COLON, snd (num (tm_hour tm))), num (tm_min tm), (COLON, snd (num (tm_min tm))),
       num (tm_sec tm), (gmt_type name, \<lparr>intval = 0, digits = 2\<rparr>)])"

lemma tokens_http_date:
  assumes ok: "tm_ok tm" and y: "- 900 \<le> tm_year tm" "tm_year tm < 8100"
  shows "tokens [(name, tLOCAL_ZONE, 0)] lval (http_date_text tm (tm_hour tm) (tm_min tm)) = http_tokens name lval tm"
proof -
  have y': "1000 \<le> tm_year tm + 1900" "tm_year tm + 1900 < 10000" using y by auto
  have len: "length days = 7" "length months = 12" by (simp_all add: days_def months_def)
  show ?thesis
    using ok y' by (simp add: http_date_text_def tm_ok_def tokens_name [OF names_known(1)] tokens_name [OF names_known(2)]
        tokens_02d tokens_year tokens_gmt len http_tokens_def)
qed

definition http_control :: "string \<Rightarrow> tm \<Rightarrow> parser_control \<Rightarrow> parser_control" where
  "http_control name tm pc =
     (let pc = set_time (tm_hour tm) (tm_min tm) (tm_sec tm) MER24
        (set_date (tm_mon tm + 1) (tm_mday tm) ((set_day 1 (tm_wday tm) pc)\<lparr>year := \<lparr>intval = tm_year tm + 1900, digits = 4\<rparr>\<rparr>))
      in if name = ''GMT'' then pc\<lparr>local_isdst := 0, local_zones_seen := local_zones_seen pc + 1\<rparr> else set_zone 0 pc)"

lemma ref_spec_step: "ref_item pc (t # ts) = Some (pc', ts') \<Longrightarrow> ref_spec pc (t # ts) = ref_spec pc' ts'"
  by (simp add: ref_spec.simps [of pc "t # ts"])

lemma ref_tokens [simp]: "next_tok ((t, v) # ts) = t" "val_of ((t, v) # ts) = v" "next_tok [] = 0"
  by (simp_all add: next_tok_def val_of_def)

lemma ref_spec_http: "ref_spec pc (http_tokens name lval tm) = Some (http_control name tm pc)"
proof -
  have clock: "ref_clock h q ((tUNUMBER, m) # (COLON, c) # (tUNUMBER, s) # (gmt_type name, z) # ts) =
      Some (set_time h (intval m) (intval s) MER24 q, (gmt_type name, z) # ts)" for h q m c s z ts
    by (simp add: ref_clock_def ref_seconds_def half_day_def gmt_type_def)
  have zone: "ref_spec q [(gmt_type name, \<lparr>intval = 0, digits = 2\<rparr>)] =
      Some (if name = ''GMT'' then q\<lparr>local_isdst := 0, local_zones_seen := local_zones_seen q + 1\<rparr> else set_zone 0 q)" for q
    by (subst ref_spec.simps) (simp add: ref_item_def units_def gmt_type_def ref_spec.simps)
  show ?thesis
    unfolding http_tokens_def Let_def snd_conv
    by (simp add: ref_spec_step ref_item_def ref_number_def units_def clock zone http_control_def Let_def)
qed

section \<open>Differences of broken-down times\<close>

text \<open>The day since 1970 of a broken-down time, by its year and the day of the year.\<close>

lemma localtime_yday: "days_before_year (tm_year (localtime off t) + 1900) + tm_yday (localtime off t) = (t + off) div 86400"
proof -
  obtain y yd where y: "find_year ((t + off) div 86400) 1970 = (y, yd)" by fastforce
  then have "tm_year (localtime off t) = y - 1900 \<and> tm_yday (localtime off t) = yd"
    by (simp add: localtime_def Let_def split: prod.split)
  then show ?thesis using find_year_days [OF y] by (simp add: days_before_year_def)
qed

lemma day_seconds: "3600 * (s mod 86400 div 3600) + 60 * (s mod 86400 div 60 mod 60) + s mod 86400 mod 60 = s mod 86400" for s :: int
proof -
  have "s mod 86400 div 3600 = s mod 86400 div 60 div 60" using zdiv_zmult2_eq [of 60 "s mod 86400" 60] by auto
  then show ?thesis using mult_div_mod_eq [of 60 "s mod 86400"] mult_div_mod_eq [of 60 "s mod 86400 div 60"] by linarith
qed

lemma localtime_clock:
  "3600 * tm_hour (localtime off t) + 60 * tm_min (localtime off t) + tm_sec (localtime off t) = (t + off) mod 86400"
proof -
  have "tm_hour (localtime off t) = (t + off) mod 86400 div 3600 \<and> tm_min (localtime off t) = (t + off) mod 86400 div 60 mod 60 \<and>
      tm_sec (localtime off t) = (t + off) mod 86400 mod 60"
    by (simp add: localtime_def Let_def split: prod.split)
  then show ?thesis using day_seconds [of "t + off"] by simp
qed

lemma floor_quarters:
  "y div 4 + 1900 div 4 - (if y mod 4 = 0 then 1 else 0) = (y + 1899) div 4"
  "cdiv a 25 - (if cmod a 25 < 0 then 1 else 0) = a div 25" for y a :: int
proof -
  show "y div 4 + 1900 div 4 - (if y mod 4 = 0 then 1 else 0) = (y + 1899) div 4" by presburger
  show "cdiv a 25 - (if cmod a 25 < 0 then 1 else 0) = a div 25"
    unfolding cdiv_def cmod_def by (auto split: if_splits)
qed

lemma leap_days: "days_before_year (y + 1900) = 365 * (y - 70) + (y + 1899) div 4 - (y + 1899) div 4 div 25 + (y + 1899) div 4 div 25 div 4 - 477"
proof -
  have shift: "w div n = z div n + k" if "0 < n" "w = z + k * n" for w z k n :: int
    using that by simp
  define a b c where "a = (y + 1900 - 1969) div 4" and "b = (y + 1900 - 1901) div 100" and "c = (y + 1900 - 1601) div 400"
  have "(y + 1899) div 4 = a + 492" unfolding a_def by (rule shift) simp_all
  moreover have b: "(y + 1899) div 100 = b + 19" unfolding b_def by (rule shift) simp_all
  moreover have "(y + 1899) div 4 div 25 = (y + 1899) div 100" using zdiv_zmult2_eq [of 25 "y + 1899" 4] by simp
  moreover have "(b + 19) div 4 = c + 4"
  proof -
    have "(b + 19) div 4 = (y + 1899) div 400"
      unfolding b [symmetric] using zdiv_zmult2_eq [of 4 "y + 1899" 100] by simp
    moreover have "(y + 1899) div 400 = c + 4" unfolding c_def by (rule shift) simp_all
    ultimately show ?thesis by simp
  qed
  moreover have "days_before_year (y + 1900) = 365 * (y + 1900 - 1970) + a - b + c"
    unfolding days_before_year_def a_def b_def c_def by (rule refl)
  ultimately show ?thesis by simp
qed

text \<open>The fields that \<^verbatim>\<open>tm_diff\<close> reads determine the seconds it returns.\<close>

definition stamp :: "ztm \<Rightarrow> int" where
  "stamp tm = 86400 * (days_before_year (tm_year tm + 1900) + tm_yday tm) + 3600 * tm_hour tm + 60 * tm_min tm + tm_sec tm"

lemma tm_diff_stamp: "tm_diff a b = wrap32 (stamp a - stamp b)"
  unfolding tm_diff_def Let_def floor_quarters stamp_def leap_days by (rule arg_cong [of _ _ wrap32]) (simp add: algebra_simps)

lemma zoned_fields [simp]:
  "tm_year (zoned off n tm) = tm_year tm" "tm_yday (zoned off n tm) = tm_yday tm" "tm_hour (zoned off n tm) = tm_hour tm"
  "tm_min (zoned off n tm) = tm_min tm" "tm_sec (zoned off n tm) = tm_sec tm" "tm_mon (zoned off n tm) = tm_mon tm"
  "tm_mday (zoned off n tm) = tm_mday tm" "tm_isdst (zoned off n tm) = 0" "tm_zone (zoned off n tm) = Some n"
  by (simp_all add: zoned_def tm.extend_def)

lemma stamp_zoned: "stamp (zoned off' n (localtime off t)) = t + off"
proof -
  have "stamp (zoned off' n (localtime off t)) = 86400 * ((t + off) div 86400) +
      (3600 * tm_hour (localtime off t) + 60 * tm_min (localtime off t) + tm_sec (localtime off t))"
    by (simp add: stamp_def localtime_yday)
  then show ?thesis by (simp add: localtime_clock)
qed

section \<open>From the control structure to the time\<close>

lemma normal_month_id: "0 \<le> tm_mon tm \<Longrightarrow> tm_mon tm < 12 \<Longrightarrow> normal_month tm = tm"
  by (simp add: normal_month_def)

definition http_fields :: "tm \<Rightarrow> int \<Rightarrow> ztm \<Rightarrow> ztm" where
  "http_fields tm d junk =
     junk\<lparr>tm_year := tm_year tm, tm_mon := tm_mon tm, tm_mday := tm_mday tm, tm_isdst := d, tm_hour := tm_hour tm,
       tm_min := tm_min tm, tm_sec := tm_sec tm\<rparr>"

lemma http_fields_simps [simp]: "tm_year (http_fields tm d junk) = tm_year tm" "tm_mday (http_fields tm d junk) = tm_mday tm"
  by (simp_all add: http_fields_def)

lemma fixed_zone_simps:
  "c_localtime (fixed_zone off name) u = Some (zoned off name (localtime off u))"
  "c_gmtime (fixed_zone off name) u = Some (zoned 0 ''GMT'' (gmtime u))"
  "c_mktime (fixed_zone off name) z =
     (mktime off (normal_month (tm.truncate z)), zoned off name (localtime off (mktime off (normal_month (tm.truncate z)))))"
  by (simp_all add: fixed_zone_def Let_def)

lemma local_zones_fixed: "local_zones (fixed_zone off name) now (zoned off n tm) = [(n, tLOCAL_ZONE, 0)]"
proof -
  have "probe_zone (fixed_zone off name) now 0 qs = []" for qs
    by (induction qs) (simp_all add: fixed_zone_simps)
  then show ?thesis by (simp add: local_zones_def fixed_zone_simps)
qed

text \<open>What the parser leaves behind a date of \<^verbatim>\<open>http_date\<close>.\<close>

definition http_parsed :: "int \<Rightarrow> string \<Rightarrow> parser_control \<Rightarrow> int \<Rightarrow> string \<Rightarrow> string option \<Rightarrow> tm \<Rightarrow> parser_control" where
  "http_parsed off name junk now p i tm =
     (http_control name tm (start_control (fixed_zone off name) junk now (zoned off name (localtime off now)) p))\<lparr>input := i\<rparr>"

lemma http_parsed_fields [simp]:
  "times_seen (http_parsed off name junk now p i tm) = 1" "dates_seen (http_parsed off name junk now p i tm) = 1"
  "days_seen (http_parsed off name junk now p i tm) = 1" "rels_seen (http_parsed off name junk now p i tm) = 0"
  "local_zones_seen (http_parsed off name junk now p i tm) = (if name = ''GMT'' then 1 else 0)"
  "zones_seen (http_parsed off name junk now p i tm) = (if name = ''GMT'' then 0 else 1)"
  "name = ''GMT'' \<Longrightarrow> local_isdst (http_parsed off name junk now p i tm) = 0"
  "name \<noteq> ''GMT'' \<Longrightarrow> time_zone (http_parsed off name junk now p i tm) = 0"
  "rel_year (http_parsed off name junk now p i tm) = 0" "rel_month (http_parsed off name junk now p i tm) = 0"
  "rel_day (http_parsed off name junk now p i tm) = 0" "rel_hour (http_parsed off name junk now p i tm) = 0"
  "rel_minutes (http_parsed off name junk now p i tm) = 0" "rel_seconds (http_parsed off name junk now p i tm) = 0"
  "year (http_parsed off name junk now p i tm) = \<lparr>intval = tm_year tm + 1900, digits = 4\<rparr>"
  "month (http_parsed off name junk now p i tm) = tm_mon tm + 1" "day (http_parsed off name junk now p i tm) = tm_mday tm"
  "hour (http_parsed off name junk now p i tm) = tm_hour tm" "minutes (http_parsed off name junk now p i tm) = tm_min tm"
  "seconds (http_parsed off name junk now p i tm) = tm_sec tm" "meridian (http_parsed off name junk now p i tm) = MER24"
  by (simp_all add: http_parsed_def http_control_def set_time_def set_date_def set_day_def set_zone_def start_control_def Let_def)

lemma yyparse_http_date:
  assumes "tm_ok tm" "- 900 \<le> tm_year tm" "tm_year tm < 8100"
  defines "p \<equiv> http_date_text tm (tm_hour tm) (tm_min tm)"
  shows "\<exists>i. yyparse junk_val (start_control (fixed_zone off name) junk now (zoned off name (localtime off now)) p) =
    Some (Inr (0, http_parsed off name junk now p i tm))"
proof -
  define pc where "pc = start_control (fixed_zone off name) junk now (zoned off name (localtime off now)) p"
  have zones: "local_time_zone_table pc = [(name, tLOCAL_ZONE, 0)]" by (simp add: pc_def start_control_def local_zones_fixed)
  have "pc\<lparr>input := Some p\<rparr> = pc" by (simp add: pc_def start_control_def)
  then have "outcome (Some (http_control name tm pc)) (yyparse junk_val pc)"
    using yyparse_outcome [of pc junk_val p] ref_spec_http [of pc name junk_val tm] tokens_http_date [OF assms(1-3), of name junk_val]
    by (simp add: zones p_def)
  then obtain pc' where pc': "yyparse junk_val pc = Some (Inr (0, pc'))" "same_control pc' (http_control name tm pc)"
    by (auto simp: outcome_def)
  have "(pc'\<lparr>input := None\<rparr>)\<lparr>input := input pc'\<rparr> = (http_control name tm pc\<lparr>input := None\<rparr>)\<lparr>input := input pc'\<rparr>"
    using pc'(2) by (simp only: same_control_def)
  then have "pc' = http_parsed off name junk now p (input pc') tm" by (simp add: http_parsed_def pc_def)
  then show ?thesis using pc'(1) unfolding pc_def by metis
qed

lemma broken_down_http:
  assumes "tm_ok tm" "- 900 \<le> tm_year tm" "tm_year tm < 8100"
  shows "\<exists>d. broken_down (http_parsed off name junk now p i tm) jt = Some (Some (http_fields tm d jt))"
proof -
  have "to_hour (tm_hour tm) MER24 = Some (tm_hour tm)" "\<not> tm_hour tm < 0" using assms(1) by (auto simp: to_hour_def tm_ok_def)
  moreover have "to_year \<lparr>intval = tm_year tm + 1900, digits = 4\<rparr> = tm_year tm + 1900" using assms by (simp add: to_year_def)
  moreover have "wrap32 (tm_mon tm) = tm_mon tm" "wrap32 (tm_mday tm) = tm_mday tm" using assms(1) by (simp_all add: tm_ok_def)
  ultimately show ?thesis
    using assms(2,3) by (auto simp: broken_down_def day_fields_def set_clock_def http_fields_def)
qed

lemma mktime_http:
  assumes "tm_ok tm"
  shows "mktime off (normal_month (tm.truncate (http_fields tm d junk))) = mktime off tm"
    "mktime off (normal_month (tm.truncate (http_fields tm d junk\<lparr>tm_mday := m\<rparr>))) = mktime off tm + 86400 * (m - tm_mday tm)"
proof -
  have mk: "mktime off (normal_month (tm.truncate z)) = mktime off tm + 86400 * (tm_mday z - tm_mday tm)"
    if "tm_year z = tm_year tm" "tm_mon z = tm_mon tm" "tm_hour z = tm_hour tm" "tm_min z = tm_min tm" "tm_sec z = tm_sec tm"
    for z :: ztm
  proof -
    have "normal_month (tm.truncate z) = tm.truncate z"
      using assms that by (intro normal_month_id) (simp_all add: tm_ok_def tm.truncate_def)
    then show ?thesis using that by (simp add: mktime_def tm.truncate_def)
  qed
  show "mktime off (normal_month (tm.truncate (http_fields tm d junk))) = mktime off tm"
    by (subst mk) (simp_all add: http_fields_def)
  show "mktime off (normal_month (tm.truncate (http_fields tm d junk\<lparr>tm_mday := m\<rparr>))) = mktime off tm + 86400 * (m - tm_mday tm)"
    by (subst mk) (simp_all add: http_fields_def)
qed

lemma guarded_mktime_http:
  assumes "tm_ok tm" "mktime off tm = - 1 \<Longrightarrow> tm_year tm = 70 \<and> name \<noteq> ''GMT''"
  shows "\<exists>s z. guarded_mktime (fixed_zone off name) (http_parsed off name junk now p i tm) (http_fields tm d jt) =
     (s, zoned off name (localtime off s), z) \<and> s \<noteq> - 1 \<and> (name \<noteq> ''GMT'' \<longrightarrow> s - 60 * z = mktime off tm \<and> \<bar>z\<bar> \<le> 1440) \<and>
     (name = ''GMT'' \<longrightarrow> s = mktime off tm)"
proof (cases "mktime off tm = - 1")
  case True
  then have "tm_year tm = 70" "name \<noteq> ''GMT''" "wrap32 (tm_mday tm + 1) = tm_mday tm + 1"
    using assms by (auto simp: tm_ok_def)
  then show ?thesis using True
    by (simp add: guarded_mktime_def fixed_zone_simps mktime_http [OF assms(1)])
next
  case False
  then show ?thesis
    by (auto simp add: guarded_mktime_def fixed_zone_simps mktime_http [OF assms(1)])
qed

lemma convert_http:
  assumes "tm_ok tm" "mktime off tm = - 1 \<Longrightarrow> tm_year tm = 70 \<and> name \<noteq> ''GMT''" "\<bar>off\<bar> \<le> 86400" "name = ''GMT'' \<Longrightarrow> off = 0"
  shows "convert (fixed_zone off name) (http_parsed off name junk now p i tm) (http_fields tm d jt) = mktime off tm + off"
proof -
  obtain s z where s: "guarded_mktime (fixed_zone off name) (http_parsed off name junk now p i tm) (http_fields tm d jt) =
     (s, zoned off name (localtime off s), z)" "s \<noteq> - 1" "name \<noteq> ''GMT'' \<Longrightarrow> s - 60 * z = mktime off tm \<and> \<bar>z\<bar> \<le> 1440"
     "name = ''GMT'' \<Longrightarrow> s = mktime off tm"
    using guarded_mktime_http [OF assms(1,2)] by metis
  have diff: "tm_diff (zoned off name (localtime off s)) (zoned 0 ''GMT'' (gmtime s)) = off"
    using assms(3) by (simp add: tm_diff_stamp stamp_zoned gmtime_def)
  have "apply_zone (fixed_zone off name) (http_parsed off name junk now p i tm) z s (zoned off name (localtime off s)) =
      Some (mktime off tm + off)"
  proof (cases "name = ''GMT''")
    case True
    then show ?thesis using s(4) assms(4) by (simp add: apply_zone_def)
  next
    case False
    have "wrap32 (z * 60) = 60 * z" using s(3) [OF False] by (subst wrap32_id) auto
    then have "wrap32 (wrap32 (z * 60) - off) = 60 * z - off" using s(3) [OF False] assms(3) by (subst wrap32_id) auto
    then show ?thesis using False s(3) [OF False] by (simp add: apply_zone_def fixed_zone_simps diff)
  qed
  then show ?thesis
    using s(1,2) by (simp add: convert_def move_to_weekday_def add_relative_def cdiv_def)
qed

text \<open>
  C14. A date sent by \<^verbatim>\<open>http_date\<close> is understood by \<^verbatim>\<open>get_date\<close> in every time zone without summer time: from 1970 to 9999
  \<^verbatim>\<open>parse_date\<close> returns the very second that was printed, whatever the time is now and whatever the uninitialised
  variables hold. Where the local zone is itself called GMT the word is taken for local time, which is the same if
  that zone is at Greenwich.
\<close>

theorem parse_http_date:
  assumes "0 \<le> t" "t < 253402300800" "\<bar>off\<bar> \<le> 86400" "name = ''GMT'' \<Longrightarrow> off = 0"
  shows "\<exists>s. f_http_date t = SString s \<and>
    f_parse_date (\<lambda>d. the (get_date (fixed_zone off name) junk junk_val junk_tm now d)) s = SInt t"
proof -
  let ?tm = "gmtime t"
  define s where "s = http_date_text ?tm (tm_hour ?tm) (tm_min ?tm)"
  have date: "f_http_date t = SString s" and ok: "- 900 \<le> tm_year ?tm" "tm_year ?tm < 8100" "tm_ok ?tm"
    using f_http_date_eq [of t] assms(1,2) by (auto simp: s_def)
  have mk: "mktime off ?tm = t - off" using mktime_localtime [of off 0 t] by (simp add: gmtime_def)
  have epoch: "tm_year ?tm = 70 \<and> name \<noteq> ''GMT''" if "mktime off ?tm = - 1"
  proof -
    have "t = off - 1" "off \<noteq> 0" using that mk assms(1) by auto
    moreover have "days_before_year 1971 = 365" by (simp add: days_before_year_def)
    ultimately show ?thesis
      using localtime_year_bounds(1) [of 1970 t 0] localtime_year_bounds(2) [of t 0 1971] assms(1,3,4)
      by (auto simp: gmtime_def days_before_years)
  qed
  obtain i where parse: "yyparse junk_val (start_control (fixed_zone off name) junk now (zoned off name (localtime off now)) s) =
      Some (Inr (0, http_parsed off name junk now s i ?tm))"
    using yyparse_http_date [OF ok(3,1,2)] s_def by metis
  obtain d where down: "broken_down (http_parsed off name junk now s i ?tm)
      (junk_tm\<lparr>tm_isdst := tm_isdst (zoned off name (localtime off now))\<rparr>) =
      Some (Some (http_fields ?tm d (junk_tm\<lparr>tm_isdst := tm_isdst (zoned off name (localtime off now))\<rparr>)))"
    using broken_down_http [OF ok(3,1,2)] by blast
  have "sensible (http_parsed off name junk now s i ?tm)" by (simp add: sensible_def)
  then have "get_date (fixed_zone off name) junk junk_val junk_tm now s = Some t"
    using parse down convert_http [OF ok(3) epoch assms(3,4)] mk
    by (simp add: get_date_def fixed_zone_simps)
  moreover have "cstr s = s" using http_date_text_length(2) [OF ok(3,1,2)] by (simp add: s_def cstr_id)
  ultimately show ?thesis using date assms(1) by (simp add: f_parse_date_def)
qed

lemma parse_http_date_witness:
  "f_http_date 784111777 = SString ''Sun, 06 Nov 1994 08:49:37 GMT'' \<and>
   (\<forall>junk junk_val junk_tm now. \<exists>s. f_http_date 784111777 = SString s \<and>
      f_parse_date (\<lambda>d. the (get_date (fixed_zone (- 18000) ''EST'') junk junk_val junk_tm now d)) s = SInt 784111777)"
proof -
  have "f_http_date 784111777 = SString ''Sun, 06 Nov 1994 08:49:37 GMT''" by code_simp
  then show ?thesis by (intro conjI allI parse_http_date) simp_all
qed

end
