(* ===== verification/Getdate_Props.thy ===== *)
theory Getdate_Props
  imports Getdate_Http
begin

text \<open>
  What \<^verbatim>\<open>get_date\<close> does for every string: the values its tokens have, that the call returns, that it computes over the reference
  of \<open>Getdate_Ref\<close>, and three dates it does not read as it means to.
\<close>

section \<open>The values of tokens\<close>

text \<open>What kind of value a word of the tables or a number has.\<close>

definition word_ok :: "int \<Rightarrow> int \<Rightarrow> bool" where
  "word_ok t v \<longleftrightarrow>
     257 \<le> t \<and> t \<le> 272 \<and> (t = tMERIDIAN \<longrightarrow> v = MERam \<or> v = MERpm) \<and> (t = tMONTH \<longrightarrow> 1 \<le> v \<and> v \<le> 12) \<and>
     (t = tDAY \<longrightarrow> 0 \<le> v \<and> v \<le> 6) \<and> (t = tZONE \<or> t = tDAYZONE \<longrightarrow> \<bar>v\<bar> \<le> HOUR 12) \<and>
     (t \<noteq> tLOCAL_ZONE \<longrightarrow> - (2 ^ 31) \<le> v \<and> v < 2 ^ 31)"

definition table_ok :: "table list \<Rightarrow> bool" where
  "table_ok tbl \<longleftrightarrow> (\<forall>tp \<in> set tbl. word_ok (fst (snd tp)) (snd (snd tp)))"

lemma tables_ok:
  "table_ok meridian_table" "table_ok month_and_day_table" "table_ok time_zone_table" "table_ok [dst_table]"
  "table_ok time_units_table" "table_ok relative_time_table" "table_ok military_table"
  by code_simp+

lemma first_of_cases: "first_of xs = Some a \<Longrightarrow> Some a \<in> set xs"
  by (induction xs rule: first_of.induct) auto

lemma find_in: "find P xs = Some a \<Longrightarrow> a \<in> set xs"
  by (induction xs) (auto split: if_splits)

lemma find_entry_in: "find_entry w tbl = Some a \<Longrightarrow> a \<in> set tbl"
  by (auto simp: find_entry_def dest: find_in)

lemma lookup_zone_in: "lookup_zone zones w = Some a \<Longrightarrow> a \<in> set zones \<union> set time_zone_table"
  by (auto simp: lookup_zone_def dest: find_entry_in split: option.splits)

lemma lookup_word_ok:
  assumes "lookup_word zones w = Some (name, t, v)" "table_ok zones"
  shows "word_ok t v"
proof -
  have "(name, t, v) \<in> set meridian_table \<union> set month_and_day_table \<union> set zones \<union> set time_zone_table \<union> {dst_table} \<union>
      set time_units_table \<union> set relative_time_table \<union> set military_table"
    using first_of_cases [OF assms(1) [unfolded lookup_word_def Let_def]]
    by (auto simp: find_month_or_day_def Let_def dest!: sym [of "Some _"] dest: find_entry_in lookup_zone_in find_in split: if_splits)
  then show ?thesis using tables_ok assms(2) by (auto simp: table_ok_def dst_table_def)
qed

definition token_ok :: "tok \<Rightarrow> bool" where
  "token_ok tk \<longleftrightarrow> (0 < fst tk \<and> fst tk < 128) \<or> word_ok (fst tk) (intval (snd tk))"

lemma wrap32_range: "- (2 ^ 31) \<le> wrap32 i \<and> wrap32 i < 2 ^ 31"
  using pos_mod_bound [of "2 ^ 32" "i + 2 ^ 31"] by (simp add: wrap32_def)

lemma number_value_range: "- (2 ^ 31) \<le> number_value ds \<and> number_value ds < 2 ^ 31"
  by (cases ds rule: rev_cases) (use wrap32_range in \<open>auto simp: number_value_def\<close>)

lemma lex_number_ok: "lex_number sign s = (inp, lval, c) \<Longrightarrow> token_ok (c, lval)"
  using number_value_range [of "takeWhile is_digit s"] wrap32_range [of "- number_value (takeWhile is_digit s)"]
  by (auto simp: lex_number_def Let_def token_ok_def word_ok_def split: if_splits)

lemma yylex_token_ok: "yylex zones lval s = (inp, lval', c) \<Longrightarrow> table_ok zones \<Longrightarrow> 0 < c \<Longrightarrow> token_ok (c, lval')"
proof (induction zones lval s rule: yylex.induct)
  case (1 zones lval s)
  show ?case
  proof (cases "dropWhile is_space s")
    case Nil
    then show ?thesis using "1.prems" unfolding yylex.simps [of zones lval s] by (simp only: list.case) simp
  next
    case (Cons a t)
    show ?thesis
      using "1.prems" "1.IH" [of a t] Cons lex_number_ok [of _ _ inp lval' c] code_of_less [of a]
      unfolding yylex.simps [of zones lval s]
      by (auto simp del: code_of_less simp: lex_word_def Let_def token_ok_def schar_def dest: lookup_word_ok split: if_splits option.splits prod.splits)
  qed
qed

lemma tokens_ok: "table_ok zones \<Longrightarrow> list_all token_ok (tokens zones lval s)"
proof (induction zones lval s rule: tokens.induct)
  case (1 zones lval s)
  show ?case
  proof (cases "yylex zones lval s")
    case (fields inp lval' c)
    show ?thesis
    proof (cases inp)
      case (Some r)
      then show ?thesis using "1.IH" [OF fields [symmetric] Some refl] fields yylex_token_ok [OF fields] 1(2)
        by (subst tokens.simps) auto
    qed (subst tokens.simps, simp add: fields)
  qed
qed

section \<open>get_date returns\<close>

text \<open>The style of the time is one that \<^verbatim>\<open>to_hour\<close> knows.\<close>

definition meridian_ok :: "parser_control \<Rightarrow> bool" where
  "meridian_ok pc \<longleftrightarrow> meridian pc \<in> {MERam, MERpm, MER24}"

lemma meridian_value: "list_all token_ok ts \<Longrightarrow> next_tok ts = tMERIDIAN \<Longrightarrow> int_of ts \<in> {MERam, MERpm}"
  by (cases ts) (auto simp: next_tok_def val_of_def token_ok_def word_ok_def)

lemma list_all_tl [simp]: "list_all P xs \<Longrightarrow> list_all P (tl xs)"
  by (cases xs) auto

lemma ref_item_tokens: "ref_item pc ts = Some (pc', ts') \<Longrightarrow> list_all P ts \<Longrightarrow> list_all P ts'"
  unfolding ref_simps Let_def by (auto split: if_splits)

lemma meridian_ok_simps:
  "meridian_ok (set_time h m s mer pc) \<longleftrightarrow> mer \<in> {MERam, MERpm, MER24}" "meridian_ok (set_zone z pc) = meridian_ok pc"
  "meridian_ok (set_day k d pc) = meridian_ok pc" "meridian_ok (set_date m d pc) = meridian_ok pc"
  "meridian_ok (pc\<lparr>year := y\<rparr>) = meridian_ok pc" "meridian_ok (pc\<lparr>local_isdst := i, local_zones_seen := z\<rparr>) = meridian_ok pc"
  "meridian_ok (fst (ref_rel u n pc ts)) = meridian_ok pc"
  by (simp_all add: meridian_ok_def set_time_def set_zone_def set_day_def set_date_def ref_rel_def add_rel_def
      negate_rels_def Let_def)

lemma meridian_token: "list_all token_ok ts \<Longrightarrow> next_tok ts = tMERIDIAN \<Longrightarrow> meridian_ok (set_time h m s (int_of ts) pc)"
  using meridian_value [of ts] by (auto simp: meridian_ok_simps)

lemma meridian_half_day: "half_day h m s pc ts = (pc', ts') \<Longrightarrow> list_all token_ok ts \<Longrightarrow> meridian_ok pc'"
  using meridian_token [of ts h m s pc] by (auto simp: half_day_def meridian_ok_simps split: if_splits)

lemma meridian_seconds: "ref_seconds h m pc ts = Some (pc', ts') \<Longrightarrow> list_all token_ok ts \<Longrightarrow> meridian_ok pc'"
  by (auto simp: ref_seconds_def meridian_ok_simps dest: meridian_half_day split: if_splits)

lemma meridian_clock: "ref_clock h pc ts = Some (pc', ts') \<Longrightarrow> list_all token_ok ts \<Longrightarrow> meridian_ok pc'"
  by (auto simp: ref_clock_def meridian_ok_simps dest: meridian_half_day meridian_seconds split: if_splits)

lemma meridian_rel: "ref_rel u n pc ts = (pc', ts') \<Longrightarrow> meridian_ok pc \<Longrightarrow> meridian_ok pc'"
  using meridian_ok_simps(7) [of u n pc ts] by simp

lemma meridian_slashes: "ref_slashes u pc ts = Some (pc', ts') \<Longrightarrow> meridian_ok pc \<Longrightarrow> meridian_ok pc'"
  by (auto simp: ref_slashes_def Let_def meridian_ok_simps split: if_splits)

lemma meridian_alone: "meridian_ok pc \<Longrightarrow> meridian_ok (number_action u pc)"
  by (auto simp: number_action_def meridian_ok_def)

lemma meridian_number:
  assumes "ref_number u pc ts = Some (pc', ts')" "list_all token_ok ts" "meridian_ok pc"
  shows "meridian_ok pc'"
proof -
  let ?t = "next_tok ts"
  consider "?t \<in> units" | "?t = tMERIDIAN" | "?t = COLON" | "?t = SLASH" | "?t = tDAY" | "?t = tSNUMBER" | "?t = tMONTH"
    | "?t \<notin> units \<union> {tMERIDIAN, COLON, SLASH, tDAY, tSNUMBER, tMONTH}" by blast
  then show ?thesis
  proof cases
    case 1
    then show ?thesis using assms by (auto simp: ref_number_def units_def intro: meridian_rel)
  next
    case 2
    then show ?thesis using assms meridian_token by (auto simp: ref_number_def units_def)
  next
    case 3
    then show ?thesis using assms by (auto simp: ref_number_def units_def intro: meridian_clock)
  next
    case 4
    then show ?thesis using assms by (auto simp: ref_number_def units_def intro: meridian_slashes)
  qed (use assms in \<open>auto simp: ref_number_def units_def meridian_ok_simps meridian_alone split: if_splits\<close>)
qed

lemma ref_item_meridian:
  assumes "ref_item pc ts = Some (pc', ts')" "list_all token_ok ts" "meridian_ok pc"
  shows "meridian_ok pc'"
proof -
  let ?t = "next_tok ts"
  consider "?t = tUNUMBER" | "?t = tSNUMBER" | "?t \<in> units" | "?t \<notin> units \<union> {tUNUMBER, tSNUMBER}" by blast
  then show ?thesis
  proof cases
    case 1
    then show ?thesis using assms by (auto simp: ref_item_def Let_def units_def intro: meridian_number)
  next
    case 2
    then show ?thesis using assms by (auto simp: ref_item_def Let_def intro: meridian_rel split: if_splits)
  next
    case 3
    then show ?thesis using assms by (auto simp: ref_item_def Let_def units_def intro: meridian_rel)
  qed (use assms in \<open>auto simp: ref_item_def Let_def meridian_ok_simps split: if_splits\<close>)
qed

lemma ref_spec_meridian:
  "ref_spec pc ts = Some pc' \<Longrightarrow> list_all token_ok ts \<Longrightarrow> meridian_ok pc \<Longrightarrow> meridian_ok pc'"
proof (induction pc ts rule: ref_spec.induct)
  case (1 pc ts)
  show ?case
  proof (cases "ts = []")
    case True
    then show ?thesis using 1 by (simp add: ref_spec.simps)
  next
    case False
    then obtain q us where item: "ref_item pc ts = Some (q, us)" "ref_spec q us = Some pc'"
      using 1(2) by (auto simp: ref_spec.simps [of pc ts] split: option.splits)
    then show ?thesis using 1(1) [OF False item(1) refl item(2)] ref_item_tokens ref_item_meridian 1(3,4) by blast
  qed
qed

lemma to_hour_returns: "meridian_ok pc \<Longrightarrow> \<exists>h. to_hour (hour pc) (meridian pc) = Some h"
  by (auto simp: meridian_ok_def to_hour_def)

lemma broken_down_returns: "meridian_ok pc \<Longrightarrow> broken_down pc tm \<noteq> None"
  using to_hour_returns [of pc] by (auto simp: broken_down_def)

lemma local_zone_ok [simp]: "word_ok tLOCAL_ZONE v"
  by (simp add: word_ok_def)

lemma probe_zone_ok: "table_ok (probe_zone lib start d qs)"
  by (induction lib start d qs rule: probe_zone.induct) (auto simp: table_ok_def split: option.splits)

lemma local_zones_ok: "table_ok (local_zones lib start tm)"
proof (cases "tm_zone tm")
  case (Some name)
  then show ?thesis
  proof (cases "probe_zone lib start (tm_isdst tm) [1, 2, 3]")
    case (Cons z zs)
    then show ?thesis using probe_zone_ok [of lib start "tm_isdst tm" "[1, 2, 3]"] Some
      by (cases z) (simp add: local_zones_def table_ok_def)
  qed (simp add: local_zones_def table_ok_def)
qed (simp add: local_zones_def table_ok_def)

section \<open>get_date over the reference\<close>

lemma start_control_input: "start_control lib junk now tm p = start_control lib junk now tm q\<lparr>input := Some p\<rparr>"
  by (simp add: start_control_def)

lemma start_control_simps:
  "local_time_zone_table (start_control lib junk now tm p) = local_zones lib now tm"
  "meridian_ok (start_control lib junk now tm p)"
  by (simp_all add: start_control_def meridian_ok_def)

text \<open>No function behind the parser looks at what is left of the date.\<close>

lemma input_unused:
  "sensible (pc\<lparr>input := i\<rparr>) = sensible pc" "broken_down (pc\<lparr>input := i\<rparr>) tm = broken_down pc tm"
  "convert lib (pc\<lparr>input := i\<rparr>) tm = convert lib pc tm"
proof -
  show "sensible (pc\<lparr>input := i\<rparr>) = sensible pc" by (simp add: sensible_def)
  have fields: "times_seen (pc\<lparr>input := i\<rparr>) = times_seen pc" "rels_seen (pc\<lparr>input := i\<rparr>) = rels_seen pc"
    "dates_seen (pc\<lparr>input := i\<rparr>) = dates_seen pc" "days_seen (pc\<lparr>input := i\<rparr>) = days_seen pc"
    "hour (pc\<lparr>input := i\<rparr>) = hour pc" "meridian (pc\<lparr>input := i\<rparr>) = meridian pc"
    "minutes (pc\<lparr>input := i\<rparr>) = minutes pc" "seconds (pc\<lparr>input := i\<rparr>) = seconds pc"
    "zones_seen (pc\<lparr>input := i\<rparr>) = zones_seen pc" "time_zone (pc\<lparr>input := i\<rparr>) = time_zone pc"
    "day_number (pc\<lparr>input := i\<rparr>) = day_number pc" "day_ordinal (pc\<lparr>input := i\<rparr>) = day_ordinal pc"
    "rel_hour (pc\<lparr>input := i\<rparr>) = rel_hour pc" "rel_minutes (pc\<lparr>input := i\<rparr>) = rel_minutes pc"
    "rel_seconds (pc\<lparr>input := i\<rparr>) = rel_seconds pc"
    by simp_all
  have "day_fields (pc\<lparr>input := i\<rparr>) tm = day_fields pc tm" by (simp add: day_fields_def choose_isdst_def)
  then show "broken_down (pc\<lparr>input := i\<rparr>) tm = broken_down pc tm" by (simp only: broken_down_def fields)
  have "guarded_mktime lib (pc\<lparr>input := i\<rparr>) tm = guarded_mktime lib pc tm" "apply_zone lib (pc\<lparr>input := i\<rparr>) = apply_zone lib pc"
    "move_to_weekday lib (pc\<lparr>input := i\<rparr>) = move_to_weekday lib pc" "add_relative (pc\<lparr>input := i\<rparr>) = add_relative pc"
    by (simp_all only: guarded_mktime_def apply_zone_def move_to_weekday_def add_relative_def fields fun_eq_iff simp_thms)
  then show "convert lib (pc\<lparr>input := i\<rparr>) tm = convert lib pc tm" by (simp only: convert_def fields)
qed

lemma same_control_functions:
  assumes "same_control p q"
  shows "sensible p = sensible q" "broken_down p tm = broken_down q tm" "convert lib p tm = convert lib q tm"
  using input_unused [where pc = p and i = None] input_unused [where pc = q and i = None] assms by (metis same_control_def)+

lemma get_date_ref:
  "get_date lib junk junk_val junk_tm now p =
     (case c_localtime lib now of
        None \<Rightarrow> Some (- 1)
      | Some tmp \<Rightarrow>
          (case ref_spec (start_control lib junk now tmp []) (tokens (local_zones lib now tmp) junk_val p) of
             None \<Rightarrow> Some (- 1)
           | Some q \<Rightarrow>
               if \<not> sensible q then Some (- 1)
               else (case broken_down q (junk_tm\<lparr>tm_isdst := tm_isdst tmp\<rparr>) of
                       None \<Rightarrow> None
                     | Some None \<Rightarrow> Some (- 1)
                     | Some (Some tm) \<Rightarrow> Some (convert lib q tm))))"
proof (cases "c_localtime lib now")
  case (Some tmp)
  let ?pc = "start_control lib junk now tmp []"
  have run: "outcome (ref_spec ?pc (tokens (local_zones lib now tmp) junk_val p)) (yyparse junk_val (start_control lib junk now tmp p))"
    using yyparse_outcome [of ?pc junk_val p]
    by (simp add: start_control_simps start_control_input [of lib junk now tmp p "[]", symmetric])
  show ?thesis
  proof (cases "ref_spec ?pc (tokens (local_zones lib now tmp) junk_val p)")
    case None
    then show ?thesis using run Some by (auto simp: outcome_def get_date_def)
  next
    case (Some q)
    then obtain pc' where pc': "yyparse junk_val (start_control lib junk now tmp p) = Some (Inr (0, pc'))" "same_control pc' q"
      using run by (auto simp: outcome_def)
    show ?thesis
      unfolding get_date_def \<open>c_localtime lib now = Some tmp\<close> option.case pc'(1) Some sum.case prod.case
        same_control_functions [OF pc'(2)] by simp
  qed
qed (simp add: get_date_def)

section \<open>Properties\<close>

text \<open>
  C5. The table-driven parser means what the grammar says: on every date \<^verbatim>\<open>yyparse\<close>, with the tables bison computed, its stacks and
  its lookahead token, returns 0 exactly if the recursive descent over the tokens reads the whole date, and then it has
  stored the same values in the control structure; otherwise it returns 1.
\<close>

theorem yyparse_reference:
  "\<exists>ret pc'. yyparse junk (pc\<lparr>input := Some s\<rparr>) = Some (Inr (ret, pc')) \<and>
     (case ref_spec pc (tokens (local_time_zone_table pc) junk s) of
        None \<Rightarrow> ret = 1
      | Some q \<Rightarrow> ret = 0 \<and> pc'\<lparr>input := None\<rparr> = q\<lparr>input := None\<rparr>)"
  using yyparse_outcome [of pc junk s] by (auto simp: outcome_def same_control_def split: option.splits)

text \<open>
  C6. \<^verbatim>\<open>get_date\<close> returns for every string, whatever the C library knows of time zones and whatever the uninitialised variables
  hold: the parser comes to an end, it reads no table, stack or character out of bounds, and the style of
  the time is never one on which \<^verbatim>\<open>to_hour\<close> calls \<^verbatim>\<open>abort\<close>.
\<close>

theorem get_date_returns: "\<exists>t. get_date lib junk junk_val junk_tm now p = Some t"
proof (cases "c_localtime lib now")
  case (Some tmp)
  show ?thesis
  proof (cases "ref_spec (start_control lib junk now tmp []) (tokens (local_zones lib now tmp) junk_val p)")
    case (Some q)
    then have "meridian_ok q"
      using ref_spec_meridian [OF Some tokens_ok [OF local_zones_ok]] start_control_simps by blast
    then show ?thesis
      using broken_down_returns [of q "junk_tm\<lparr>tm_isdst := tm_isdst tmp\<rparr>"] Some \<open>c_localtime lib now = Some tmp\<close>
      by (auto simp: get_date_ref split: option.splits)
  qed (simp add: get_date_ref Some)
qed (simp add: get_date_ref)

text \<open>
  C16. Every token has a value of its kind: a month lies between 1 and 12, a day of the week between 0 and 6, am and pm are the only
  meridians, a zone is at most twelve hours away, and all numbers fit an \<^verbatim>\<open>int\<close>, however many
  digits the date gives.
\<close>

theorem tokens_typed:
  assumes "table_ok zones" "tk \<in> set (tokens zones junk s)"
  shows "token_ok tk"
  using tokens_ok [OF assms(1), of junk s] assms(2) by (simp add: list_all_iff)

lemma tokens_typed_witness:
  "(tMONTH, \<lparr>intval = 11, digits = 2\<rparr>) \<in> set (tokens [] \<lparr>intval = 0, digits = 0\<rparr> ''06 Nov'') \<and>
     token_ok (tMONTH, \<lparr>intval = 11, digits = 2\<rparr>)"
proof -
  have "tokens [] \<lparr>intval = 0, digits = 0\<rparr> ''06 Nov'' = [(tUNUMBER, \<lparr>intval = 6, digits = 2\<rparr>), (tMONTH, \<lparr>intval = 11, digits = 2\<rparr>)]"
    by code_simp
  moreover have "table_ok []" by (simp add: table_ok_def)
  ultimately show ?thesis using tokens_typed [of "[]" "(tMONTH, \<lparr>intval = 11, digits = 2\<rparr>)" "\<lparr>intval = 0, digits = 0\<rparr>" "''06 Nov''"]
    by simp
qed

section \<open>Bytes outside ASCII\<close>

lemma code_range [simp]: "code_of c < 256"
  by (rule code_of_less)

definition foreign :: "char \<Rightarrow> bool" where
  "foreign c \<longleftrightarrow> 128 \<le> code_of c"

lemma foreign_class: "foreign c \<Longrightarrow> \<not> is_space c \<and> \<not> is_digit c \<and> \<not> is_alpha c \<and> sign_of c = 0 \<and> c \<noteq> CHR ''('' \<and> c \<noteq> CHR ''.'' \<and> schar c < 0"
  by (auto simp: foreign_def is_space_def is_digit_def is_alpha_def is_lower_def sign_of_def schar_def)

lemma tokens_foreign: "foreign c \<Longrightarrow> tokens zones lval (c # r) = []"
  using foreign_class [of c] by (simp add: tokens.simps [of zones lval "c # r"] yylex.simps [of zones lval "c # r"])

lemma while_stop:
  "\<not> P c \<Longrightarrow> takeWhile P (w @ c # r) = takeWhile P w" "\<not> P c \<Longrightarrow> dropWhile P (w @ c # r) = dropWhile P w @ c # r"
  by (induction w) auto

definition behind :: "string \<Rightarrow> string option \<times> textint \<times> int \<Rightarrow> string option \<times> textint \<times> int" where
  "behind s lexed = (case lexed of (inp, lval, t) \<Rightarrow> (map_option (\<lambda>u. u @ s) inp, lval, t))"

lemma lex_foreign:
  assumes "foreign c"
  shows "lex_number sign (u @ c # r) = behind (c # r) (lex_number sign u)"
    "lex_word zones lval (u @ c # r) = behind (c # r) (lex_word zones lval u)"
  using foreign_class [OF assms]
  by (auto simp: lex_number_def lex_word_def behind_def Let_def while_stop split: option.split)

lemma yylex_foreign:
  assumes "foreign c" "CHR ''('' \<notin> set u"
  shows "yylex zones lval (u @ c # r) =
    (case yylex zones lval u of (None, lval', t) \<Rightarrow> (Some r, lval', schar c) | lexed \<Rightarrow> behind (c # r) lexed)"
  using assms(2)
proof (induction zones lval u rule: yylex.induct)
  case (1 zones lval u)
  note c = foreign_class [OF assms(1)]
  have drop: "dropWhile is_space (u @ c # r) = dropWhile is_space u @ c # r" using c by (simp add: while_stop)
  show ?case
  proof (cases "dropWhile is_space u")
    case Nil
    then have "yylex zones lval u = (None, lval, 0)" unfolding yylex.simps [of zones lval u] by (simp only: list.case)
    moreover have "yylex zones lval (u @ c # r) = (Some r, lval, schar c)" using c by (subst yylex.simps) (simp add: drop Nil)
    ultimately show ?thesis by simp
  next
    case (Cons a v)
    have "set (a # v) \<subseteq> set u" using set_dropWhileD [of _ is_space u] unfolding Cons [symmetric] by blast
    then have a: "a \<noteq> CHR ''(''" "CHR ''('' \<notin> set v" using 1(3) by auto
    note eqs = yylex.simps [of zones lval "u @ c # r", unfolded drop Cons append_Cons list.case]
      yylex.simps [of zones lval u, unfolded Cons list.case]
    note lex = lex_foreign [OF assms(1), where u = "a # v" and r = r, simplified]
    consider "sign_of a \<noteq> 0" "v \<noteq> [] \<and> is_digit (hd v)" | "sign_of a \<noteq> 0" "\<not> (v \<noteq> [] \<and> is_digit (hd v))"
      | "sign_of a = 0" "is_digit a" | "sign_of a = 0" "\<not> is_digit a" "is_alpha a"
      | "sign_of a = 0" "\<not> is_digit a" "\<not> is_alpha a" by blast
    then show ?thesis
    proof cases
      case 1
      then show ?thesis unfolding eqs
        by (simp add: lex_foreign(1) [OF assms(1)]) (simp add: lex_number_def Let_def)
    next
      case 2
      then have "\<not> is_digit (hd (v @ c # r))" using c by (cases v) auto
      then show ?thesis unfolding eqs using 2 "1.IH"(1) [OF Cons 2] a by auto
    next
      case 3
      then show ?thesis unfolding eqs by (simp add: lex) (simp add: lex_number_def Let_def)
    next
      case 4
      then show ?thesis unfolding eqs
        by (simp add: lex) (simp add: lex_word_def Let_def split: option.split prod.split)
    next
      case 5
      then show ?thesis unfolding eqs using a by (simp add: behind_def)
    qed
  qed
qed

lemma skip_comment_set: "skip_comment n s = Some r \<Longrightarrow> set r \<subseteq> set s"
  by (induction n s rule: skip_comment.induct) (auto simp: Let_def split: if_splits)

lemma yylex_set: "yylex zones lval s = (Some r, lval', t) \<Longrightarrow> set r \<subseteq> set s"
proof (induction zones lval s rule: yylex.induct)
  case (1 zones lval s)
  show ?case
  proof (cases "dropWhile is_space s")
    case Nil
    then show ?thesis using "1.prems" unfolding yylex.simps [of zones lval s] by (simp only: list.case) simp
  next
    case (Cons a v)
    have sub: "set (a # v) \<subseteq> set s" using set_dropWhileD [of _ is_space s] unfolding Cons [symmetric] by blast
    have drop: "set (dropWhile P w) \<subseteq> set w" for P and w :: string by (auto dest: set_dropWhileD)
    note eq = "1.prems" [unfolded yylex.simps [of zones lval s] Cons list.case]
    consider "sign_of a \<noteq> 0" "v \<noteq> [] \<and> is_digit (hd v)" | "sign_of a \<noteq> 0" "\<not> (v \<noteq> [] \<and> is_digit (hd v))"
      | "sign_of a = 0" "is_digit a" | "sign_of a = 0" "\<not> is_digit a" "is_alpha a"
      | "sign_of a = 0" "\<not> is_digit a" "\<not> is_alpha a" "a \<noteq> CHR ''(''"
      | "sign_of a = 0" "\<not> is_digit a" "\<not> is_alpha a" "a = CHR ''(''" by blast
    then show ?thesis
    proof cases
      case 1
      then show ?thesis using eq drop [of is_digit v] sub by (auto simp: lex_number_def Let_def)
    next
      case 2
      then have "yylex zones lval v = (Some r, lval', t)" using eq by auto
      then show ?thesis using "1.IH"(1) [OF Cons 2] sub by auto
    next
      case 3
      then show ?thesis using eq drop [of is_digit "a # v"] sub by (auto simp: lex_number_def Let_def)
    next
      case 4
      then show ?thesis using eq drop [of "\<lambda>c. is_alpha c \<or> c = CHR ''.''" "a # v"] sub
        by (auto simp: lex_word_def Let_def split: option.splits prod.splits)
    next
      case 5
      then show ?thesis using eq sub by simp
    next
      case 6
      then show ?thesis using eq Cons "1.IH"(2) [of a v] skip_comment_set [of 0 "a # v"] sub
        by (fastforce split: option.splits)
    qed
  qed
qed

lemma tokens_before_foreign:
  assumes "foreign c" "CHR ''('' \<notin> set u"
  shows "tokens zones lval (u @ c # r) = tokens zones lval u"
  using assms(2)
proof (induction zones lval u rule: tokens.induct)
  case (1 zones lval u)
  obtain inp lval' t where y: "yylex zones lval u = (inp, lval', t)" by (cases "yylex zones lval u") auto
  show ?case
  proof (cases inp)
    case None
    then show ?thesis using y yylex_foreign [OF assms(1) 1(2), of zones lval r] foreign_class [OF assms(1)]
      by (simp add: tokens.simps [of zones lval "u @ c # r"] tokens.simps [of zones lval u])
  next
    case (Some u')
    have "set u' \<subseteq> set u" using yylex_set [of zones lval u u'] y Some by simp
    then have "\<not> t \<le> 0 \<Longrightarrow> tokens zones lval' (u' @ c # r) = tokens zones lval' u'"
      using "1.IH" [OF y [symmetric] Some refl] 1(2) by blast
    then show ?thesis using y Some yylex_foreign [OF assms(1) 1(2), of zones lval r]
      by (simp add: tokens.simps [of zones lval "u @ c # r"] tokens.simps [of zones lval u] behind_def)
  qed
qed

text \<open>
  The first byte above 127 outside a comment ends the date without an error: \<^verbatim>\<open>yylex\<close> returns a plain \<^verbatim>\<open>char\<close>, which is negative
  there, and the parser takes every token up to 0 for the end. What precedes it is used as if it were the whole date.
\<close>

lemma foreign_byte_ends_date:
  assumes "128 \<le> code_of c" "CHR ''('' \<notin> set u"
  shows "get_date lib junk junk_val junk_tm now (u @ c # r) = get_date lib junk junk_val junk_tm now u"
proof -
  have "tokens zones lval (u @ c # r) = tokens zones lval u" for zones lval
    using tokens_before_foreign assms by (simp add: foreign_def)
  note same = this
  show ?thesis unfolding get_date_ref same by (rule refl)
qed

lemma foreign_byte_ends_date_witness:
  "\<forall>junk junk_val junk_tm now. get_date (fixed_zone 0 ''UTC'') junk junk_val junk_tm now (''06 Nov 1994'' @ CHR 0xE4 # '' nonsense'') =
     get_date (fixed_zone 0 ''UTC'') junk junk_val junk_tm now ''06 Nov 1994''"
  by (intro allI foreign_byte_ends_date) simp_all

section \<open>Times without a date\<close>

text \<open>
  The seconds of a time given as hour and minute are 0, but with a numeric zone behind it they are left as they were.
\<close>

definition clock_at :: "int \<Rightarrow> int \<Rightarrow> int \<Rightarrow> int \<Rightarrow> tm" where
  "clock_at now h m s = (localtime 0 now)\<lparr>tm_hour := h, tm_min := m, tm_sec := s\<rparr>"

lemma mktime_clock: "mktime 0 (clock_at now h m s) = now - now mod 86400 + 3600 * h + 60 * m + s"
proof -
  have "mktime 0 (clock_at now h m s) = mktime 0 (localtime 0 now) -
      (3600 * tm_hour (localtime 0 now) + 60 * tm_min (localtime 0 now) + tm_sec (localtime 0 now)) + 3600 * h + 60 * m + s"
    by (simp add: mktime_def clock_at_def)
  then show ?thesis by (simp add: mktime_localtime localtime_clock)
qed

lemma ref_clock_tokens:
  "ref_spec pc [(tUNUMBER, \<lparr>intval = h, digits = 2\<rparr>), (COLON, v), (tUNUMBER, \<lparr>intval = m, digits = 2\<rparr>)] = Some (set_time h m 0 MER24 pc)"
  "ref_spec pc [(tUNUMBER, \<lparr>intval = h, digits = 2\<rparr>), (COLON, v), (tUNUMBER, \<lparr>intval = m, digits = 2\<rparr>), (tSNUMBER, \<lparr>intval = 0, digits = 4\<rparr>)] =
     Some (set_zone 0 (set_time h m (seconds pc) MER24 pc))"
  by (simp_all add: ref_spec_step ref_item_def ref_number_def ref_clock_def half_day_def units_def zone_minutes_def cmod_def cdiv_def ref_spec.simps)

definition clock_control :: "bool \<Rightarrow> int \<Rightarrow> int \<Rightarrow> int \<Rightarrow> parser_control \<Rightarrow> parser_control" where
  "clock_control zone h m s pc = (if zone then set_zone 0 (set_time h m s MER24 pc) else set_time h m s MER24 pc)"

lemma clock_fields [simp]:
  "times_seen (clock_control zone h m s (start_control lib junk now tm [])) = 1"
  "dates_seen (clock_control zone h m s (start_control lib junk now tm [])) = 0"
  "days_seen (clock_control zone h m s (start_control lib junk now tm [])) = 0"
  "rels_seen (clock_control zone h m s (start_control lib junk now tm [])) = 0"
  "local_zones_seen (clock_control zone h m s (start_control lib junk now tm [])) = 0"
  "zones_seen (clock_control zone h m s (start_control lib junk now tm [])) = (if zone then 1 else 0)"
  "rel_year (clock_control zone h m s (start_control lib junk now tm [])) = 0"
  "rel_month (clock_control zone h m s (start_control lib junk now tm [])) = 0"
  "rel_day (clock_control zone h m s (start_control lib junk now tm [])) = 0"
  "rel_hour (clock_control zone h m s (start_control lib junk now tm [])) = 0"
  "rel_minutes (clock_control zone h m s (start_control lib junk now tm [])) = 0"
  "rel_seconds (clock_control zone h m s (start_control lib junk now tm [])) = 0"
  "year (clock_control zone h m s (start_control lib junk now tm [])) = \<lparr>intval = wrap32 (tm_year tm + 1900), digits = 4\<rparr>"
  "month (clock_control zone h m s (start_control lib junk now tm [])) = tm_mon tm + 1"
  "day (clock_control zone h m s (start_control lib junk now tm [])) = tm_mday tm"
  "hour (clock_control zone h m s (start_control lib junk now tm [])) = h"
  "minutes (clock_control zone h m s (start_control lib junk now tm [])) = m"
  "seconds (clock_control zone h m s (start_control lib junk now tm [])) = s"
  "meridian (clock_control zone h m s (start_control lib junk now tm [])) = MER24"
  "zone \<Longrightarrow> time_zone (clock_control zone h m s (start_control lib junk now tm [])) = 0"
  by (simp_all add: clock_control_def set_time_def set_zone_def start_control_def)

lemma get_date_clock:
  assumes hms: "0 \<le> h" "h < 24" "0 \<le> m" "m < 60" "0 \<le> s" "s < 60" and now: "0 \<le> now" "now < 253402300800"
    and parsed: "ref_spec (start_control (fixed_zone 0 ''UTC'') junk now (zoned 0 ''UTC'' (localtime 0 now)) [])
      (tokens [(''UTC'', tLOCAL_ZONE, 0)] junk_val p) =
      Some (clock_control zone h m s (start_control (fixed_zone 0 ''UTC'') junk now (zoned 0 ''UTC'' (localtime 0 now)) []))"
  shows "get_date (fixed_zone 0 ''UTC'') junk junk_val junk_tm now p = Some (now - now mod 86400 + 3600 * h + 60 * m + s)"
proof -
  let ?lib = "fixed_zone 0 ''UTC''" and ?tm = "clock_at now h m s"
  define q where "q = clock_control zone h m s (start_control ?lib junk now (zoned 0 ''UTC'' (localtime 0 now)) [])"
  define jt where "jt = junk_tm\<lparr>tm_isdst := tm_isdst (zoned 0 ''UTC'' (localtime 0 now))\<rparr>"
  have ok: "tm_ok ?tm" using localtime_ok [of 0 now] hms by (simp add: tm_ok_def clock_at_def)
  have y: "70 \<le> tm_year (localtime 0 now)" "tm_year (localtime 0 now) < 8100"
    using localtime_year_bounds(1) [of 1970 now 0] localtime_year_bounds(2) [of now 0 10000] now by (simp_all add: days_before_years)
  have "wrap32 (tm_mon (localtime 0 now)) = tm_mon (localtime 0 now)" "wrap32 (tm_mday (localtime 0 now)) = tm_mday (localtime 0 now)"
    using localtime_ok [of 0 now] by (simp_all add: tm_ok_def)
  then obtain d where down: "broken_down q jt = Some (Some (http_fields ?tm d jt))"
    using hms y by (auto simp: q_def broken_down_def to_hour_def to_year_def day_fields_def set_clock_def http_fields_def clock_at_def)
  define t where "t = now - now mod 86400 + 3600 * h + 60 * m + s"
  have "0 \<le> now - now mod 86400" using zmod_le_nonneg_dividend [OF now(1), of 86400] by simp
  then have t: "mktime 0 ?tm = t" "0 \<le> t" using hms mktime_clock [of now h m s] by (simp_all only: t_def)
  have diff: "tm_diff (zoned 0 ''UTC'' (localtime 0 t)) (zoned 0 ''GMT'' (gmtime t)) = 0"
    by (simp add: tm_diff_stamp stamp_zoned gmtime_def)
  have "guarded_mktime ?lib q (http_fields ?tm d jt) = (t, zoned 0 ''UTC'' (localtime 0 t), time_zone q)"
    using t by (simp add: guarded_mktime_def fixed_zone_simps mktime_http [OF ok])
  moreover have "apply_zone ?lib q (time_zone q) t (zoned 0 ''UTC'' (localtime 0 t)) = Some t"
    by (cases zone) (simp_all add: q_def apply_zone_def fixed_zone_simps diff)
  ultimately have "convert ?lib q (http_fields ?tm d jt) = t"
    using t by (simp add: convert_def move_to_weekday_def add_relative_def cdiv_def q_def)
  moreover have "sensible q" by (simp add: q_def sensible_def)
  ultimately show ?thesis
    using down unfolding get_date_ref fixed_zone_simps(1) option.case local_zones_fixed parsed q_def [symmetric] jt_def [symmetric] t_def [symmetric]
    by simp
qed

lemma tokens_zone: "tokens zones v '' +0000'' = [(tSNUMBER, \<lparr>intval = 0, digits = 4\<rparr>)]"
proof -
  have "lex_number 1 ''0000'' = (Some [], \<lparr>intval = 0, digits = 4\<rparr>, tSNUMBER)" "is_digit (CHR ''0'')" by code_simp+
  then have "yylex zones v ''+0000'' = (Some [], \<lparr>intval = 0, digits = 4\<rparr>, tSNUMBER)"
    unfolding yylex.simps [of zones v "''+0000''"] by (simp add: sign_of_def is_space_def)
  then show ?thesis using tokens_step [of zones v "''+0000''"] by simp
qed

text \<open>
  A time of the day is the time of the current day with no seconds; but the same time with a numeric zone, here that of Greenwich,
  keeps the seconds of the moment at which it is read: the grammar's rule 12 does not set them, unlike the other
  rules for times, so one and the same date means a different time each second.
\<close>

lemma zone_time_keeps_seconds:
  assumes "0 \<le> h" "h < 24" "0 \<le> m" "m < 60" "0 \<le> now" "now < 253402300800"
  shows "get_date (fixed_zone 0 ''UTC'') junk junk_val junk_tm now (show_02d h @ '':'' @ show_02d m) =
      Some (now - now mod 86400 + 3600 * h + 60 * m) \<and>
    get_date (fixed_zone 0 ''UTC'') junk junk_val junk_tm now (show_02d h @ '':'' @ show_02d m @ '' +0000'') =
      Some (now - now mod 86400 + 3600 * h + 60 * m + now mod 60)"
proof -
  let ?pc = "start_control (fixed_zone 0 ''UTC'') junk now (zoned 0 ''UTC'' (localtime 0 now)) []"
  have "tm_sec (localtime 0 now) = now mod 86400 mod 60" by (simp add: localtime_def Let_def split: prod.split)
  then have sec: "seconds ?pc = now mod 60" using mod_mod_cancel [of 60 86400 now] by (simp add: start_control_def)
  have tokens: "tokens zones junk_val (show_02d h @ '':'' @ show_02d m) =
      [(tUNUMBER, \<lparr>intval = h, digits = 2\<rparr>), (COLON, \<lparr>intval = h, digits = 2\<rparr>), (tUNUMBER, \<lparr>intval = m, digits = 2\<rparr>)]"
    "tokens zones junk_val (show_02d h @ '':'' @ show_02d m @ '' +0000'') =
      [(tUNUMBER, \<lparr>intval = h, digits = 2\<rparr>), (COLON, \<lparr>intval = h, digits = 2\<rparr>), (tUNUMBER, \<lparr>intval = m, digits = 2\<rparr>),
       (tSNUMBER, \<lparr>intval = 0, digits = 4\<rparr>)]" for zones
    using assms tokens_02d [of m "[]"] tokens_02d [of m "'' +0000''"] by (simp_all add: tokens_02d tokens_zone [simplified])
  have "get_date (fixed_zone 0 ''UTC'') junk junk_val junk_tm now (show_02d h @ '':'' @ show_02d m) =
      Some (now - now mod 86400 + 3600 * h + 60 * m + 0)"
    using assms by (intro get_date_clock [where zone = False]) (simp_all add: tokens [simplified] ref_clock_tokens clock_control_def)
  moreover have "get_date (fixed_zone 0 ''UTC'') junk junk_val junk_tm now (show_02d h @ '':'' @ show_02d m @ '' +0000'') =
      Some (now - now mod 86400 + 3600 * h + 60 * m + now mod 60)"
    using assms by (intro get_date_clock [where zone = True]) (simp_all add: tokens [simplified] ref_clock_tokens sec clock_control_def)
  ultimately show ?thesis by simp
qed

lemma zone_time_keeps_seconds_witness:
  "\<forall>junk junk_val junk_tm. get_date (fixed_zone 0 ''UTC'') junk junk_val junk_tm 1000000007 (show_02d 8 @ '':'' @ show_02d 49) =
      Some (1000000007 - 1000000007 mod 86400 + 3600 * 8 + 60 * 49) \<and>
    get_date (fixed_zone 0 ''UTC'') junk junk_val junk_tm 1000000007 (show_02d 8 @ '':'' @ show_02d 49 @ '' +0000'') =
      Some (1000000007 - 1000000007 mod 86400 + 3600 * 8 + 60 * 49 + 1000000007 mod 60)"
  by (intro allI zone_time_keeps_seconds) simp_all

text \<open>
  A word that stands for a number ("next", "third") stores the number but no count of digits, which the grammar asks for:
  what a date of such a word alone means depends on what the uninitialised \<^verbatim>\<open>yylval\<close> holds.
\<close>

lemma word_number_uninitialised:
  assumes "0 \<le> now" "now < 253402300800" "n \<le> 4"
  shows "get_date (fixed_zone 0 ''UTC'') junk \<lparr>intval = i, digits = n\<rparr> junk_tm now ''next'' =
    Some (now - now mod 86400 + (if n \<le> 2 then 3600 else 60))"
proof -
  let ?pc = "start_control (fixed_zone 0 ''UTC'') junk now (zoned 0 ''UTC'' (localtime 0 now)) []"
  have "find_entry ''NEXT'' meridian_table = None" "find_month_or_day ''NEXT'' = None" "find_entry ''NEXT'' time_zone_table = None"
    "find_entry ''NEXT'' [dst_table] = None" "find_entry ''NEXT'' time_units_table = None"
    "find_entry ''NEXT'' relative_time_table = Some (''NEXT'', tUNUMBER, 1)" "map to_upper ''next'' = ''NEXT''"
    "list_all is_alpha ''next''"
    by code_simp+
  moreover have "find_entry ''NEXT'' [(''UTC'', tLOCAL_ZONE, 0)] = None" by code_simp
  ultimately have "yylex [(''UTC'', tLOCAL_ZONE, 0)] v (''next'' @ []) = (Some [], v\<lparr>intval := 1\<rparr>, tUNUMBER)" for v
    by (intro yylex_word [where n = "''NEXT''"]) (simp_all add: lookup_word_def Let_def lookup_zone_def)
  then have tokens: "tokens [(''UTC'', tLOCAL_ZONE, 0)] v ''next'' = [(tUNUMBER, v\<lparr>intval := 1\<rparr>)]" for v
    using tokens_step [of _ v "''next''" "[]"] by simp
  have "ref_spec ?pc [(tUNUMBER, \<lparr>intval = 1, digits = n\<rparr>)] =
      Some (if n \<le> 2 then clock_control False 1 0 0 ?pc else clock_control False 0 1 0 ?pc)"
    using assms(3) by (simp add: ref_spec_step ref_item_def ref_number_def number_action_def units_def ref_spec.simps clock_control_def
        set_time_def cmod_def cdiv_def start_control_def)
  note parsed = this
  show ?thesis
  proof (cases "n \<le> 2")
    case True
    then have read: "ref_spec ?pc (tokens [(''UTC'', tLOCAL_ZONE, 0)] \<lparr>intval = i, digits = n\<rparr> ''next'') =
        Some (clock_control False 1 0 0 ?pc)"
      using parsed by (simp add: tokens)
    have "get_date (fixed_zone 0 ''UTC'') junk \<lparr>intval = i, digits = n\<rparr> junk_tm now ''next'' =
        Some (now - now mod 86400 + 3600 * 1 + 60 * 0 + 0)"
      using assms(1,2) by (intro get_date_clock [OF _ _ _ _ _ _ _ _ read]) simp_all
    then show ?thesis using True by simp
  next
    case False
    then have read: "ref_spec ?pc (tokens [(''UTC'', tLOCAL_ZONE, 0)] \<lparr>intval = i, digits = n\<rparr> ''next'') =
        Some (clock_control False 0 1 0 ?pc)"
      using parsed by (simp add: tokens)
    have "get_date (fixed_zone 0 ''UTC'') junk \<lparr>intval = i, digits = n\<rparr> junk_tm now ''next'' =
        Some (now - now mod 86400 + 3600 * 0 + 60 * 1 + 0)"
      using assms(1,2) by (intro get_date_clock [OF _ _ _ _ _ _ _ _ read]) simp_all
    then show ?thesis using False by simp
  qed
qed

lemma word_number_uninitialised_witness:
  "\<forall>junk junk_tm. get_date (fixed_zone 0 ''UTC'') junk \<lparr>intval = 0, digits = 2\<rparr> junk_tm 0 ''next'' = Some 3600 \<and>
     get_date (fixed_zone 0 ''UTC'') junk \<lparr>intval = 0, digits = 3\<rparr> junk_tm 0 ''next'' = Some 60"
  using word_number_uninitialised [of 0 2 _ 0] word_number_uninitialised [of 0 3 _ 0] by simp

end
