(* ===== verification/Pcre.thy ===== *)
theory Pcre
  imports Caudium_Prelude
begin

text \<open>
  Regular expression objects: \<^verbatim>\<open>src/cmods/PCRE/pcre.c\<close>. The library \<^verbatim>\<open>libpcre\<close> is not part of the program: its
  constants and functions are a record the definitions take as an argument, and \<open>pcre_ok\<close> states what its documentation
  says of \<^verbatim>\<open>pcre_exec\<close>. A method returns the object's state, which an error keeps as well, with its value.
\<close>

section \<open>The library\<close>

record ('re, 'x) pcre_lib =
  PCRE_CASELESS :: int
  PCRE_MULTILINE :: int
  PCRE_DOTALL :: int
  PCRE_EXTENDED :: int
  PCRE_UTF8 :: int
  PCRE_ANCHORED :: int
  PCRE_NOTBOL :: int
  PCRE_DOLLAR_ENDONLY :: int
  PCRE_NOTEMPTY :: int
  PCRE_NOTEOL :: int
  PCRE_UNGREEDY :: int
  PCRE_EXTRA :: int
  PCRE_ERROR_NOMATCH :: int
  PCRE_ERROR_NULL :: int
  PCRE_ERROR_BADOPTION :: int
  PCRE_ERROR_BADMAGIC :: int
  PCRE_ERROR_UNKNOWN_NODE :: int
  PCRE_ERROR_NOMEMORY :: int
  pcre_compile :: "string \<Rightarrow> int \<Rightarrow> bool \<Rightarrow> (string \<times> int) + 're"
  pcre_study :: "'re \<Rightarrow> string + 'x option"
  pcre_captures :: "'re \<Rightarrow> nat"
  pcre_exec :: "'re \<Rightarrow> 'x option \<Rightarrow> string \<Rightarrow> int \<Rightarrow> nat \<Rightarrow> int \<times> int list"

section \<open>State\<close>

text \<open>A string argument is its bytes; \<open>A_wide\<close> has the bytes in memory of a string of wider characters.\<close>

datatype pcre_arg = A_string string | A_wide string | A_int int | A_other

record ('re, 'x) PCRE_Regexp =
  regexp :: "'re option"
  extra :: "'x option"
  pattern :: "string option"

definition init_regexp :: "('re, 'x) PCRE_Regexp" where
  "init_regexp = \<lparr>regexp = None, extra = None, pattern = None\<rparr>"

definition free_regexp :: "('re, 'x) PCRE_Regexp \<Rightarrow> ('re, 'x) PCRE_Regexp" where
  "free_regexp st = init_regexp"

section \<open>Options\<close>

text \<open>The letter's bits; an unknown character ends the loop with its negated \<^verbatim>\<open>char\<close> as the result.\<close>

definition option_bits :: "('re, 'x) pcre_lib \<Rightarrow> char \<Rightarrow> int option" where
  "option_bits lib c =
     (if c = CHR ''i'' then Some (PCRE_CASELESS lib)
      else if c = CHR ''m'' then Some (PCRE_MULTILINE lib)
      else if c = CHR ''s'' then Some (PCRE_DOTALL lib)
      else if c = CHR ''x'' then Some (PCRE_EXTENDED lib)
      else if c = CHR ''8'' then Some (PCRE_UTF8 lib)
      else if c = CHR ''A'' then Some (PCRE_ANCHORED lib)
      else if c = CHR ''B'' then Some (PCRE_NOTBOL lib)
      else if c = CHR ''D'' then Some (PCRE_DOLLAR_ENDONLY lib)
      else if c = CHR ''E'' then Some (PCRE_NOTEMPTY lib)
      else if c = CHR ''L'' then Some (PCRE_NOTEOL lib)
      else if c = CHR ''U'' then Some (PCRE_UNGREEDY lib)
      else if c = CHR ''X'' then Some (PCRE_EXTRA lib)
      else if c \<in> {CHR ''S'', CHR ''N'', SP, LF} then Some 0
      else None)"

fun options_loop :: "('re, 'x) pcre_lib \<Rightarrow> string \<Rightarrow> int \<Rightarrow> bool \<Rightarrow> int \<times> bool" where
  "options_loop lib [] opts study = (opts, study)"
| "options_loop lib (c # pp) opts study =
     (case option_bits lib c of
        None \<Rightarrow> (- schar c, study)
      | Some b \<Rightarrow> options_loop lib pp (opts OR b) (if c = CHR ''S'' then True else if c = CHR ''N'' then False else study))"

definition parse_options :: "('re, 'x) pcre_lib \<Rightarrow> string \<Rightarrow> bool \<Rightarrow> int \<times> bool" where
  "parse_options lib s study = options_loop lib (cstr s) 0 study"

definition pcre_error :: "string \<Rightarrow> string \<Rightarrow> 'a res" where
  "pcre_error method s = Inl (Pike_error (''PCRE.Regexp->'' @ method @ ''(): '' @ s))"

text \<open>The optional second argument of a method: the options and whether to study.\<close>

definition option_string :: "('re, 'x) pcre_lib \<Rightarrow> string \<Rightarrow> string \<Rightarrow> (int \<times> bool) res" where
  "option_string lib method s =
     (let (opts, study) = parse_options lib s True
      in if opts < 0 then pcre_error method (''Unknown option modifier '' @ [CHR 0x27, char_of (nat (- opts)), CHR 0x27, CHR ''.''])
         else Inr (opts, study))"

definition option_arg :: "('re, 'x) pcre_lib \<Rightarrow> string \<Rightarrow> pcre_arg list \<Rightarrow> (int \<times> bool) res" where
  "option_arg lib method args =
     (case args of
        [_, A_string s] \<Rightarrow> option_string lib method s
      | [_, A_wide s] \<Rightarrow> option_string lib method s
      | [_, v] \<Rightarrow>
          if v = A_int 0 then Inr (0, True)
          else Inl (Pike_error (''Bad argument 2 to PCRE.Regexp->'' @ method @ ''() - expected string.''))
      | _ \<Rightarrow> Inr (0, True))"

text \<open>The first argument, looked at behind the second; \<open>split\<close> calls itself \<open>match\<close> in these messages.\<close>

definition subject_arg :: "string \<Rightarrow> pcre_arg list \<Rightarrow> string res" where
  "subject_arg method args =
     (if args = [] \<or> 2 < length args then pcre_error method ''Invalid number of arguments. Expected 1 or 2.''
      else (case hd args of
              A_string s \<Rightarrow> Inr s
            | _ \<Rightarrow> pcre_error method ''Invalid argument 1. Expected 8-bit string.''))"

section \<open>The methods\<close>

text \<open>\<open>locale\<close> is whether the process runs in a locale other than C, whose character tables are then built.\<close>

definition compile_pattern :: "('re, 'x) pcre_lib \<Rightarrow> bool \<Rightarrow> string \<Rightarrow> int \<Rightarrow> bool \<Rightarrow> ('re, 'x) PCRE_Regexp \<Rightarrow>
    ('re, 'x) PCRE_Regexp \<times> unit res" where
  "compile_pattern lib tables re opts do_study st =
     (case pcre_compile lib re opts tables of
        Inl (errmsg, erroffset) \<Rightarrow> (st, Inl (Pike_error (''Failed to compile regexp: '' @ errmsg)))
      | Inr c \<Rightarrow>
          (case (if do_study then pcre_study lib c else Inr None) of
             Inl errmsg \<Rightarrow> (st, Inl (Pike_error (''Error while studying pattern: '' @ errmsg)))
           | Inr x \<Rightarrow> (st\<lparr>regexp := Some c, extra := x, pattern := Some re\<rparr>, Inr ())))"

definition f_pcre_create :: "('re, 'x) pcre_lib \<Rightarrow> bool \<Rightarrow> pcre_arg list \<Rightarrow> ('re, 'x) PCRE_Regexp \<Rightarrow>
    ('re, 'x) PCRE_Regexp \<times> unit res" where
  "f_pcre_create lib tables args st =
     (let st = free_regexp st in
      if args = [] then (st, Inr ())
      else (case option_arg lib ''create'' args of
              Inl e \<Rightarrow> (st, Inl e)
            | Inr (opts, do_study) \<Rightarrow>
                (case subject_arg ''create'' args of
                   Inl e \<Rightarrow> (st, Inl e)
                 | Inr re \<Rightarrow>
                     if length (cstr re) \<noteq> length re then
                       (st, pcre_error ''create'' (''Regexp pattern contains null characters. Use '' @ [CHR 0x5C] @ ''0 instead.''))
                     else compile_pattern lib tables re opts do_study st)))"

definition exec_errors :: "('re, 'x) pcre_lib \<Rightarrow> int \<Rightarrow> string option" where
  "exec_errors lib ret =
     (if ret = PCRE_ERROR_NULL lib then Some ''Invalid argumens passed to pcre_exec.''
      else if ret = PCRE_ERROR_BADOPTION lib then Some ''Invalid options sent to pcre_exec.''
      else if ret = PCRE_ERROR_BADMAGIC lib then Some ''Invalid magic number.''
      else if ret = PCRE_ERROR_UNKNOWN_NODE lib then Some ''Unknown node encountered. PCRE bug or memory error.''
      else if ret = PCRE_ERROR_NOMEMORY lib then Some ''Out of memory during execution.''
      else None)"

text \<open>What both methods do with their arguments before \<^verbatim>\<open>pcre_exec\<close>.\<close>

definition exec_args :: "('re, 'x) pcre_lib \<Rightarrow> string \<Rightarrow> pcre_arg list \<Rightarrow> (string \<times> int) res" where
  "exec_args lib method args =
     bind_res (option_arg lib method args) (\<lambda>(opts, _). bind_res (subject_arg ''match'' args) (\<lambda>data. Inr (data, opts)))"

definition f_pcre_match :: "('re, 'x) pcre_lib \<Rightarrow> pcre_arg list \<Rightarrow> ('re, 'x) PCRE_Regexp \<Rightarrow> int res" where
  "f_pcre_match lib args st =
     (case regexp st of
        None \<Rightarrow> Inl (Pike_error ''PCRE.Regexp not initialized.'')
      | Some re \<Rightarrow>
          bind_res (exec_args lib ''match'' args) (\<lambda>(data, opts).
            let is_match = fst (pcre_exec lib re (extra st) data opts 0) in
            if is_match = PCRE_ERROR_NOMATCH lib then Inr 0
            else (case exec_errors lib is_match of Some e \<Rightarrow> Inl (Pike_error e) | None \<Rightarrow> Inr 1)))"

text \<open>\<^verbatim>\<open>get_all_args(..., "%S", &data)\<close>\<close>

definition get_data :: "pcre_arg list \<Rightarrow> unit res" where
  "get_data args =
     (case args of
        A_string s # _ \<Rightarrow> Inr ()
      | [] \<Rightarrow> Inl (Pike_error ''Too few arguments to PCRE.Regexp->split.'')
      | _ \<Rightarrow> Inl (Pike_error ''Bad argument 1 to PCRE.Regexp->split.''))"

text \<open>Subpattern \<open>i\<close>: \<open>make_shared_binary_string(data + ovector[2i], ovector[2i+1] - ovector[2i])\<close>.\<close>

definition subpattern :: "string \<Rightarrow> int list \<Rightarrow> nat \<Rightarrow> svalue res" where
  "subpattern data ovector i =
     (if length ovector \<le> 2 * i + 1 then Inl Out_of_bounds
      else
        let a = ovector ! (2 * i); n = ovector ! (2 * i + 1) - a in
        if n = 0 then Inr (SString [])
        else if a < 0 \<or> n < 0 \<or> int (length data) < a + n then Inl Out_of_bounds
        else Inr (SString (substr data (nat a) (nat n))))"

fun subpatterns :: "string \<Rightarrow> int list \<Rightarrow> nat list \<Rightarrow> svalue list res" where
  "subpatterns data ovector [] = Inr []"
| "subpatterns data ovector (i # is) =
     bind_res (subpattern data ovector i) (\<lambda>v. bind_res (subpatterns data ovector is) (\<lambda>vs. Inr (v # vs)))"

text \<open>\<open>Inl\<close> is the number 0, \<open>Inr\<close> an array; an array of a negative size is \<open>Out_of_bounds\<close>.\<close>

definition f_pcre_split :: "('re, 'x) pcre_lib \<Rightarrow> pcre_arg list \<Rightarrow> ('re, 'x) PCRE_Regexp \<Rightarrow> (int + svalue list) res" where
  "f_pcre_split lib args st =
     (case regexp st of
        None \<Rightarrow> Inl (Pike_error ''PCRE.Regexp not initialized.'')
      | Some re \<Rightarrow>
          bind_res (get_data args) (\<lambda>_. bind_res (exec_args lib ''split'' args) (\<lambda>(data, opts).
            let (ret, ovector) = pcre_exec lib re (extra st) data opts ((pcre_captures lib re + 1) * 3) in
            if ret = PCRE_ERROR_NOMATCH lib then Inr (Inl 0)
            else
              (case exec_errors lib ret of
                 Some e \<Rightarrow> Inl (Pike_error e)
               | None \<Rightarrow>
                   if ret = 1 then Inr (Inr [SInt 0])
                   else if ret - 1 < 0 then Inl Out_of_bounds
                   else bind_res (subpatterns data ovector [1 ..< nat ret]) (\<lambda>vs. Inr (Inr vs))))))"

section \<open>The library as documented\<close>

text \<open>
  A match returns one more than the highest subpattern that was set, at most the subpatterns of the expression plus one; each of them is a
  part of the subject or unset, which two numbers -1 mean. All error codes are negative.
\<close>

definition group_ok :: "string \<Rightarrow> int list \<Rightarrow> nat \<Rightarrow> bool" where
  "group_ok data ovector i \<longleftrightarrow>
     (let a = ovector ! (2 * i); b = ovector ! (2 * i + 1)
      in (a = - 1 \<and> b = - 1) \<or> (0 \<le> a \<and> a \<le> b \<and> b \<le> int (length data)))"

definition pcre_ok :: "('re, 'x) pcre_lib \<Rightarrow> bool" where
  "pcre_ok lib \<longleftrightarrow>
     (\<forall>c \<in> {PCRE_ERROR_NOMATCH lib, PCRE_ERROR_NULL lib, PCRE_ERROR_BADOPTION lib, PCRE_ERROR_BADMAGIC lib,
        PCRE_ERROR_UNKNOWN_NODE lib, PCRE_ERROR_NOMEMORY lib}. c < 0) \<and>
     (\<forall>re x data opts. let (ret, ovector) = pcre_exec lib re x data opts ((pcre_captures lib re + 1) * 3) in
        ret \<le> int (pcre_captures lib re) + 1 \<and> length ovector = (pcre_captures lib re + 1) * 3 \<and>
        (\<forall>i < nat ret. group_ok data ovector i))"

lemma pcre_okD:
  assumes "pcre_ok lib" "pcre_exec lib re x data opts ((pcre_captures lib re + 1) * 3) = (ret, ovector)"
  shows "ret \<le> int (pcre_captures lib re) + 1" "length ovector = (pcre_captures lib re + 1) * 3"
    "i < nat ret \<Longrightarrow> group_ok data ovector i"
  using assms unfolding pcre_ok_def by (auto dest!: spec [of _ re] spec [of _ x] spec [of _ data] spec [of _ opts])

lemma no_error_positive: "pcre_ok lib \<Longrightarrow> 1 \<le> ret \<Longrightarrow> ret \<noteq> PCRE_ERROR_NOMATCH lib \<and> exec_errors lib ret = None"
  by (auto simp: pcre_ok_def exec_errors_def)

text \<open>A group as a value: what \<^verbatim>\<open>split\<close> should put into its array.\<close>

definition group :: "string \<Rightarrow> int list \<Rightarrow> nat \<Rightarrow> svalue" where
  "group data ovector i =
     (let a = ovector ! (2 * i); b = ovector ! (2 * i + 1)
      in SString (if a = - 1 then [] else take (nat b - nat a) (drop (nat a) data)))"

lemma subpattern_group:
  assumes "group_ok data ovector i" "2 * i + 1 < length ovector"
  shows "subpattern data ovector i = Inr (group data ovector i)"
  using assms by (auto simp: subpattern_def group_def group_ok_def substr_def Let_def nat_diff_distrib)

lemma subpatterns_groups:
  "(\<And>i. i \<in> set is \<Longrightarrow> group_ok data ovector i \<and> 2 * i + 1 < length ovector) \<Longrightarrow>
     subpatterns data ovector is = Inr (map (group data ovector) is)"
  by (induction "is") (simp_all add: subpattern_group)

lemma options_none [simp]: "option_arg lib method [v] = Inr (0, True)"
  by (simp add: option_arg_def)

text \<open>Where \<^verbatim>\<open>create\<close> leaves the object.\<close>

lemma compile_pattern_cases:
  "compile_pattern lib tables re opts study init_regexp = (st', r) \<Longrightarrow>
     (case r of Inl e \<Rightarrow> st' = init_regexp
      | Inr _ \<Rightarrow> pattern st' = Some re \<and> (\<exists>c. pcre_compile lib re opts tables = Inr c \<and> regexp st' = Some c))"
  by (auto simp: compile_pattern_def split: sum.splits prod.splits if_splits)

lemma subject_arg_string: "subject_arg method args = Inr re \<Longrightarrow> hd args = A_string re"
  by (auto simp: subject_arg_def pcre_error_def split: if_splits pcre_arg.splits)

lemma create_cases:
  assumes "f_pcre_create lib tables args st = (st', r)"
  obtains "args = []" | e where "args \<noteq> []" "st' = init_regexp" "r = Inl e"
    | re opts study where "args \<noteq> []" "hd args = A_string re" "compile_pattern lib tables re opts study init_regexp = (st', r)"
proof (cases "args = []")
  case False
  show thesis
  proof (cases "option_arg lib ''create'' args")
    case (Inl e)
    then show thesis using assms False that(2) by (auto simp: f_pcre_create_def free_regexp_def)
  next
    case opts: (Inr p)
    show thesis
    proof (cases "subject_arg ''create'' args")
      case (Inl e)
      then show thesis using assms False opts that(2) by (cases p) (auto simp: f_pcre_create_def free_regexp_def)
    next
      case (Inr re)
      then show thesis using assms False opts that(2,3) subject_arg_string [OF Inr]
        by (cases p) (auto simp: f_pcre_create_def free_regexp_def pcre_error_def split: if_splits)
    qed
  qed
qed (rule that(1))

section \<open>Properties\<close>

text \<open>
  C38. \<^verbatim>\<open>split\<close> returns the subpatterns of the match from the first on, the unset ones as empty strings, or an array with the number
  0 when the expression has none that was set; it reads neither the vector of offsets nor the subject out of bounds.
\<close>

theorem pcre_split_groups:
  assumes "pcre_ok lib" "regexp st = Some re"
    "pcre_exec lib re (extra st) data 0 ((pcre_captures lib re + 1) * 3) = (ret, ovector)" "1 \<le> ret"
  shows "f_pcre_split lib [A_string data] st =
    Inr (Inr (if ret = 1 then [SInt 0] else map (group data ovector) [1 ..< nat ret]))"
proof -
  have "group_ok data ovector i \<and> 2 * i + 1 < length ovector" if "i \<in> set [1 ..< nat ret]" for i
    using that pcre_okD [OF assms(1,3)] by auto
  then have "subpatterns data ovector [1 ..< nat ret] = Inr (map (group data ovector) [1 ..< nat ret])"
    by (rule subpatterns_groups)
  then show ?thesis
    using assms no_error_positive [OF assms(1,4)]
    by (simp add: f_pcre_split_def get_data_def exec_args_def subject_arg_def)
qed

text \<open>
  C39. An error code that the switch does not list, such as those for a subject that is no UTF-8 or for the match limit, is taken
  for a match: \<^verbatim>\<open>match\<close> returns 1, and \<^verbatim>\<open>split\<close> makes an array of a negative size.
\<close>

theorem pcre_unlisted_error_is_match:
  assumes "regexp st = Some re" "ret < 0" "ret \<noteq> PCRE_ERROR_NOMATCH lib" "exec_errors lib ret = None"
    "\<And>n. fst (pcre_exec lib re (extra st) data 0 n) = ret"
  shows "f_pcre_match lib [A_string data] st = Inr 1 \<and> f_pcre_split lib [A_string data] st = Inl Out_of_bounds"
proof -
  have "fst (pcre_exec lib re (extra st) data 0 ((pcre_captures lib re + 1) * 3)) = ret" by (rule assms(5))
  then obtain ovector where "pcre_exec lib re (extra st) data 0 ((pcre_captures lib re + 1) * 3) = (ret, ovector)"
    by (metis prod.collapse)
  then show ?thesis
    using assms by (simp add: f_pcre_match_def f_pcre_split_def get_data_def exec_args_def subject_arg_def)
qed

text \<open>
  An option above 127 is not refused: its \<^verbatim>\<open>char\<close> is negative, \<^verbatim>\<open>parse_options\<close> returns it negated, and the pattern is
  compiled with that number for a set of options.
\<close>

lemma pcre_option_byte_accepted:
  assumes "128 \<le> code_of c" "NUL \<notin> set re"
  shows "f_pcre_create lib tables [A_string re, A_string (c # s)] st =
    compile_pattern lib tables re (256 - int (code_of c)) True init_regexp"
proof -
  have "c \<noteq> d" if "code_of d < 128" for d using assms(1) that by auto
  then have "option_bits lib c = None" "c \<noteq> NUL" by (simp_all add: option_bits_def)
  then have "parse_options lib (c # s) True = (256 - int (code_of c), True)"
    using assms(1) by (simp add: parse_options_def schar_def)
  moreover have "\<not> 256 < code_of c" using code_of_less [of c] by linarith
  ultimately have "option_string lib ''create'' (c # s) = Inr (256 - int (code_of c), True)" by (simp add: option_string_def)
  then show ?thesis
    using cstr_id [OF assms(2)] by (simp add: f_pcre_create_def free_regexp_def option_arg_def subject_arg_def)
qed

text \<open>
  After \<^verbatim>\<open>create\<close> the object is either empty or holds the pattern of this very call, compiled: an expression it held before is
  gone even if the call fails, and then \<^verbatim>\<open>match\<close> and \<^verbatim>\<open>split\<close> say so.
\<close>

lemma pcre_create_state:
  assumes "f_pcre_create lib tables args st = (st', r)"
  shows "(r = Inr () \<and> args \<noteq> [] \<and>
      (\<exists>re opts c. hd args = A_string re \<and> pattern st' = Some re \<and> pcre_compile lib re opts tables = Inr c \<and> regexp st' = Some c)) \<or>
    (st' = init_regexp \<and> (r = Inr () \<longleftrightarrow> args = []) \<and> (\<forall>args'. f_pcre_match lib args' st' =
      Inl (Pike_error ''PCRE.Regexp not initialized.'') \<and> f_pcre_split lib args' st' = Inl (Pike_error ''PCRE.Regexp not initialized.'')))"
proof -
  have empty: "f_pcre_match lib args' init_regexp = Inl (Pike_error ''PCRE.Regexp not initialized.'') \<and>
      f_pcre_split lib args' init_regexp = Inl (Pike_error ''PCRE.Regexp not initialized.'')" for args'
    by (simp add: f_pcre_match_def f_pcre_split_def init_regexp_def)
  from assms show ?thesis
  proof (cases rule: create_cases)
    case 1
    then show ?thesis using assms empty by (simp add: f_pcre_create_def free_regexp_def)
  next
    case 2
    then show ?thesis using empty by simp
  next
    case 3
    then show ?thesis using compile_pattern_cases [OF 3(3)] empty by (cases r) auto
  qed
qed

section \<open>Witnesses\<close>

text \<open>A library whose only expression is found where the subject begins with it, with one subpattern that is set if more follows.\<close>

definition example_pcre :: "(string, unit) pcre_lib" where
  "example_pcre =
     \<lparr>PCRE_CASELESS = 1, PCRE_MULTILINE = 2, PCRE_DOTALL = 4, PCRE_EXTENDED = 8, PCRE_UTF8 = 2048, PCRE_ANCHORED = 16,
      PCRE_NOTBOL = 128, PCRE_DOLLAR_ENDONLY = 32, PCRE_NOTEMPTY = 1024, PCRE_NOTEOL = 256, PCRE_UNGREEDY = 512, PCRE_EXTRA = 64,
      PCRE_ERROR_NOMATCH = - 1, PCRE_ERROR_NULL = - 2, PCRE_ERROR_BADOPTION = - 3, PCRE_ERROR_BADMAGIC = - 4,
      PCRE_ERROR_UNKNOWN_NODE = - 5, PCRE_ERROR_NOMEMORY = - 6, pcre_compile = (\<lambda>re opts tables. Inr re),
      pcre_study = (\<lambda>re. Inr None), pcre_captures = (\<lambda>re. 1),
      pcre_exec = (\<lambda>re x data opts n.
        if data = [CHR 0xFF] then (- 10, [0, 0, 0, 0, 0, 0])
        else if take (length re) data \<noteq> re then (- 1, [0, 0, 0, 0, 0, 0])
        else if length data = length re then (1, [0, int (length data), - 1, - 1, 0, 0])
        else (2, [0, int (length data), int (length re), int (length data), 0, 0]))\<rparr>"

lemma example_pcre_ok: "pcre_ok example_pcre"
proof -
  have two: "i < 2 \<Longrightarrow> i = 0 \<or> i = 1" for i :: nat by auto
  have "length re \<le> length data" if "take (length re) data = re" for re data :: string
    using that by (metis length_take min.cobounded1)
  then show ?thesis
    by (auto simp: pcre_ok_def example_pcre_def group_ok_def dest!: two)
qed

definition example_regexp :: "(string, unit) PCRE_Regexp" where
  "example_regexp = \<lparr>regexp = Some ''ab'', extra = None, pattern = Some ''ab''\<rparr>"

lemma pcre_split_groups_witness:
  "f_pcre_split example_pcre [A_string ''abcd''] example_regexp = Inr (Inr [SString ''cd''])"
proof -
  have "pcre_exec example_pcre ''ab'' None ''abcd'' 0 6 = (2, [0, 4, 2, 4, 0, 0])" by (simp add: example_pcre_def)
  moreover have "pcre_captures example_pcre ''ab'' = 1" by (simp add: example_pcre_def)
  ultimately show ?thesis
    using pcre_split_groups [OF example_pcre_ok, of example_regexp "''ab''" "''abcd''" 2 "[0, 4, 2, 4, 0, 0]"]
    by (simp add: example_regexp_def group_def upt_rec)
qed

lemma pcre_unlisted_error_is_match_witness:
  "f_pcre_match example_pcre [A_string [CHR 0xFF]] example_regexp = Inr 1 \<and>
   f_pcre_split example_pcre [A_string [CHR 0xFF]] example_regexp = Inl Out_of_bounds"
  by (rule pcre_unlisted_error_is_match [of _ "''ab''" "- 10"]) (simp_all add: example_regexp_def example_pcre_def exec_errors_def)

lemma pcre_option_byte_accepted_witness:
  "f_pcre_create example_pcre False [A_string ''ab'', A_string [CHR 0xFF]] example_regexp =
     compile_pattern example_pcre False ''ab'' (256 - int (code_of (CHR 0xFF))) True init_regexp"
  by (rule pcre_option_byte_accepted) simp_all

lemma pcre_create_state_witness:
  "\<exists>st' r. f_pcre_create example_pcre False [A_string ''ab'', A_string ''q''] example_regexp = (st', r) \<and> st' = init_regexp \<and> r \<noteq> Inr ()"
proof -
  obtain st' r where c: "f_pcre_create example_pcre False [A_string ''ab'', A_string ''q''] example_regexp = (st', r)" by fastforce
  have "fst (f_pcre_create example_pcre False [A_string ''ab'', A_string ''q''] example_regexp) = init_regexp" by code_simp
  then show ?thesis using pcre_create_state [OF c] c by (auto simp: init_regexp_def)
qed

end
