(* ===== verification/Pixsl.thy ===== *)
theory Pixsl
  imports Caudium_Prelude
begin

text \<open>
  The XSLT parser object: \<^verbatim>\<open>src/cmods/PiXSL/sablot.c\<close> and \<^verbatim>\<open>pixsl.h\<close>. The library Sablotron is not part of the program: in a run
  of the processor it makes requests of the object's handlers, which are an arbitrary list here, and a handler that calls up to Pike
  gets the next of a list of answers. The state of the world is the object, Pike's stack with its top in front, and the
  blocks that \<^verbatim>\<open>calloc\<close> gave. Reference counts, running out of memory and the numbers in error messages are left out; the pointers the library
  passes are not null.
\<close>

section \<open>Values and state\<close>

datatype pvalue = P_int int | P_string string | P_function nat | P_array "pvalue list" | P_other nat

definition SX_FILE :: int where "SX_FILE = 0"
definition SX_DATA :: int where "SX_DATA = 1"

record xslt_storage =
  xml :: "string option"
  xsl :: "string option"
  base_uri :: "string option"
  xml_type :: int
  xsl_type :: int
  variables :: "(pvalue, pvalue) pmap option"
  err :: "(string, string) pmap option"
  content_type :: "string option"
  charset :: "string option"
  handlers_set :: bool
  do_callbacks :: bool
  getAllBuffer :: "nat option"
  cb_getAll :: pvalue
  cb_freeMemory :: pvalue
  cb_open :: pvalue
  cb_get :: pvalue
  cb_put :: pvalue
  cb_close :: pvalue
  cb_extra_args :: pvalue

definition init_xslt_storage :: xslt_storage where
  "init_xslt_storage =
     \<lparr>xml = None, xsl = None, base_uri = None, xml_type = 0, xsl_type = 0, variables = None, err = None, content_type = None,
      charset = None, handlers_set = False, do_callbacks = False, getAllBuffer = None, cb_getAll = P_int 0,
      cb_freeMemory = P_int 0, cb_open = P_int 0, cb_get = P_int 0, cb_put = P_int 0, cb_close = P_int 0, cb_extra_args = P_int 0\<rparr>"

text \<open>The block of \<open>getAllBuffer\<close>, the error mapping and the callbacks are not freed.\<close>

definition free_xslt_storage :: "xslt_storage \<Rightarrow> xslt_storage" where
  "free_xslt_storage this = init_xslt_storage"

record world =
  storage :: xslt_storage
  stack :: "pvalue list"
  heap :: "nat \<Rightarrow> string option"
  brk :: nat
  answers :: "pvalue list"
  calls :: "(nat \<times> pvalue list) list"

section \<open>Setting the object up\<close>

definition f_set_xml_data :: "string \<Rightarrow> xslt_storage \<Rightarrow> xslt_storage" where
  "f_set_xml_data str this = this\<lparr>xml := Some str, xml_type := SX_DATA\<rparr>"

definition f_set_xml_file :: "string \<Rightarrow> xslt_storage \<Rightarrow> xslt_storage" where
  "f_set_xml_file str this = this\<lparr>xml := Some str, xml_type := SX_FILE\<rparr>"

definition f_set_xsl_data :: "string \<Rightarrow> xslt_storage \<Rightarrow> xslt_storage" where
  "f_set_xsl_data str this = this\<lparr>xsl := Some str, xsl_type := SX_DATA\<rparr>"

definition f_set_xsl_file :: "string \<Rightarrow> xslt_storage \<Rightarrow> xslt_storage" where
  "f_set_xsl_file str this = this\<lparr>xsl := Some str, xsl_type := SX_FILE\<rparr>"

definition f_set_base_uri :: "string \<Rightarrow> xslt_storage \<Rightarrow> xslt_storage" where
  "f_set_base_uri str this = this\<lparr>base_uri := Some str\<rparr>"

definition f_set_variables :: "(pvalue, pvalue) pmap \<Rightarrow> xslt_storage \<Rightarrow> xslt_storage" where
  "f_set_variables vars this = this\<lparr>variables := Some vars\<rparr>"

definition f_error :: "xslt_storage \<Rightarrow> (int + (string, string) pmap)" where
  "f_error this = (case err this of None \<Rightarrow> Inl 0 | Some m \<Rightarrow> Inr m)"

definition f_content_type :: "xslt_storage \<Rightarrow> pvalue" where
  "f_content_type this = (case content_type this of None \<Rightarrow> P_int 0 | Some s \<Rightarrow> P_string s)"

definition f_charset :: "xslt_storage \<Rightarrow> pvalue" where
  "f_charset this = (case charset this of None \<Rightarrow> P_int 0 | Some s \<Rightarrow> P_string s)"

text \<open>A callback that the mapping lacks stays as it was.\<close>

definition callback :: "string \<Rightarrow> (string, pvalue) pmap \<Rightarrow> pvalue \<Rightarrow> pvalue" where
  "callback key cbmap old = (case mapping_lookup cbmap key of None \<Rightarrow> old | Some sv \<Rightarrow> sv)"

definition f_set_scheme_callbacks :: "(string, pvalue) pmap \<Rightarrow> pvalue \<Rightarrow> xslt_storage \<Rightarrow> xslt_storage" where
  "f_set_scheme_callbacks cbmap extra this =
     (let some = list_ex (\<lambda>k. mapping_lookup cbmap k \<noteq> None) [''getAll'', ''freeMemory'', ''get'', ''open'', ''put'', ''close'']
      in this\<lparr>handlers_set := handlers_set this \<or> some, do_callbacks := some,
           cb_getAll := callback ''getAll'' cbmap (cb_getAll this), cb_freeMemory := callback ''freeMemory'' cbmap (cb_freeMemory this),
           cb_open := callback ''open'' cbmap (cb_open this), cb_get := callback ''get'' cbmap (cb_get this),
           cb_put := callback ''put'' cbmap (cb_put this), cb_close := callback ''close'' cbmap (cb_close this),
           cb_extra_args := extra\<rparr>)"

section \<open>Message handler\<close>

definition level_name :: "int \<Rightarrow> string" where
  "level_name level =
     (if level = 0 then ''DEBUG'' else if level = 1 then ''INFO'' else if level = 2 then ''WARNING''
      else if level = 3 then ''ERROR'' else if level = 4 then ''FATAL'' else ''UNKNOWN'')"

text \<open>A field is split at its first colon; one without a colon is passed over.\<close>

definition field_pair :: "string \<Rightarrow> (string \<times> string) option" where
  "field_pair f =
     (if CHR '':'' \<in> set f then Some (takeWhile (\<lambda>c. c \<noteq> CHR '':'') f, tl (dropWhile (\<lambda>c. c \<noteq> CHR '':'') f)) else None)"

fun error_fields :: "string list \<Rightarrow> (string, string) pmap \<Rightarrow> (string, string) pmap" where
  "error_fields [] m = m"
| "error_fields (f # fs) m =
     error_fields fs (case field_pair f of None \<Rightarrow> m | Some (key, val) \<Rightarrow> mapping_insert m key val)"

definition low_mh_error :: "int \<Rightarrow> string list \<Rightarrow> xslt_storage \<Rightarrow> xslt_storage" where
  "low_mh_error level fs this =
     (let m = (case err this of None \<Rightarrow> [] | Some m \<Rightarrow> m)
      in this\<lparr>err := Some (error_fields fs (mapping_insert m ''level'' (level_name level)))\<rparr>)"

definition misc_documentinfo :: "string \<Rightarrow> string \<Rightarrow> xslt_storage \<Rightarrow> xslt_storage" where
  "misc_documentinfo ctype cset this = this\<lparr>content_type := Some ctype, charset := Some cset\<rparr>"

section \<open>Calling up to Pike\<close>

definition pop_stack :: "world \<Rightarrow> world res" where
  "pop_stack w = (case stack w of [] \<Rightarrow> Inl Out_of_bounds | _ # s \<Rightarrow> Inr (w\<lparr>stack := s\<rparr>))"

text \<open>The arguments are pushed, the call takes them away and pushes its result.\<close>

definition apply_svalue :: "pvalue \<Rightarrow> pvalue list \<Rightarrow> world \<Rightarrow> world" where
  "apply_svalue f args w =
     (let result = (case answers w of [] \<Rightarrow> P_int 0 | a # _ \<Rightarrow> a)
      in w\<lparr>stack := result # stack w, answers := tl (answers w),
           calls := calls w @ [(case f of P_function n \<Rightarrow> n | _ \<Rightarrow> 0, args)]\<rparr>)"

definition is_function :: "pvalue \<Rightarrow> bool" where
  "is_function v = (case v of P_function _ \<Rightarrow> True | _ \<Rightarrow> False)"

definition is_int :: "pvalue \<Rightarrow> bool" where
  "is_int v = (case v of P_int _ \<Rightarrow> True | _ \<Rightarrow> False)"

definition is_string :: "pvalue \<Rightarrow> bool" where
  "is_string v = (case v of P_string _ \<Rightarrow> True | _ \<Rightarrow> False)"

text \<open>
  The two values of the array on top of the stack: \<open>None\<close> is the return value 1. The second element is read
  whatever \<open>type2\<close> asks of it.
\<close>

definition getRespValues :: "world \<Rightarrow> (pvalue \<Rightarrow> bool) \<Rightarrow> (int \<times> pvalue) option res" where
  "getRespValues w type2 =
     (case stack w of
        P_array a # _ \<Rightarrow>
          if a = [] then Inl Out_of_bounds
          else
            (case a ! 0 of
               P_int retcode \<Rightarrow>
                 if length a < 2 then Inl Out_of_bounds
                 else if type2 (a ! 1) then Inr (Some (retcode, a ! 1)) else Inr None
             | _ \<Rightarrow> Inr None)
      | _ \<Rightarrow> Inr None)"

text \<open>The stylesheets returned for an error.\<close>

definition bad_sheet :: "string \<Rightarrow> string" where
  "bad_sheet msg =
     ''<?xml version='' @ [CHR 0x22] @ ''1.0'' @ [CHR 0x22] @ '' encoding='' @ [CHR 0x22] @ ''ISO-8859-1'' @ [CHR 0x22] @ '' ?>'' @
     ''<xsl:stylesheet version='' @ [CHR 0x22] @ ''1.0'' @ [CHR 0x22] @ '' xmlns:xsl='' @ [CHR 0x22] @
     ''http://www.w3.org/1999/XSL/Transform'' @ [CHR 0x22] @ ''>'' @ ''<!-- '' @ msg @ '' -->'' @ ''</xsl:stylesheet>''"

definition bad_scheme :: string where "bad_scheme = bad_sheet ''unsupported scheme''"
definition bad_retval :: string where "bad_retval = bad_sheet ''bad return value from the Pike handler''"

section \<open>Scheme handlers\<close>

text \<open>Each with its return value and what it stores through its pointers.\<close>

definition free_buffer :: "world \<Rightarrow> world res" where
  "free_buffer w =
     (case getAllBuffer (storage w) of
        None \<Rightarrow> Inr w
      | Some a \<Rightarrow>
          if heap w a = None then Inl Out_of_bounds
          else Inr (w\<lparr>heap := (heap w)(a := None), storage := (storage w)\<lparr>getAllBuffer := None\<rparr>\<rparr>))"

definition calloc_copy :: "string \<Rightarrow> world \<Rightarrow> world \<times> nat" where
  "calloc_copy s w =
     (w\<lparr>heap := (heap w)(brk w := Some (s @ [NUL])), brk := brk w + 1,
        storage := (storage w)\<lparr>getAllBuffer := Some (brk w)\<rparr>\<rparr>, brk w)"

definition sh_getAll :: "string \<Rightarrow> string \<Rightarrow> world \<Rightarrow> (world \<times> int \<times> (nat \<times> int) option) res" where
  "sh_getAll scheme rest w =
     (if \<not> is_function (cb_getAll (storage w)) then Inr (w, 1, None)
      else
        let w = apply_svalue (cb_getAll (storage w)) [P_string scheme, P_string rest, cb_extra_args (storage w)] w in
        bind_res (getRespValues w is_string) (\<lambda>resp.
          bind_res (if resp = None then pop_stack w else Inr w) (\<lambda>w.
            let retstring = (case resp of
                None \<Rightarrow> bad_retval
              | Some (retcode, retval) \<Rightarrow>
                  if retcode \<noteq> 0 then bad_scheme else (case retval of P_string s \<Rightarrow> s | _ \<Rightarrow> [])) in
            bind_res (free_buffer w) (\<lambda>w.
              let (w, a) = calloc_copy retstring w in
              bind_res (pop_stack w) (\<lambda>w. Inr (w, 0, Some (a, wrap32 (int (length retstring)))))))))"

text \<open>\<open>junk\<close> is what the uninitialised \<open>retcode\<close> holds; without the callback it is the result.\<close>

definition sh_freeMemory :: "int \<Rightarrow> world \<Rightarrow> (world \<times> int) res" where
  "sh_freeMemory junk w =
     bind_res
       (if is_function (cb_freeMemory (storage w)) then
          let w = apply_svalue (cb_freeMemory (storage w)) [cb_extra_args (storage w)] w in
          bind_res (getRespValues w (\<lambda>_. True)) (\<lambda>resp.
            bind_res (pop_stack w) (\<lambda>w. Inr (w, case resp of None \<Rightarrow> 1 | Some (retcode, _) \<Rightarrow> retcode)))
        else Inr (w, junk))
       (\<lambda>(w, retcode). bind_res (free_buffer w) (\<lambda>w. Inr (w, wrap32 retcode)))"

text \<open>What \<^verbatim>\<open>open\<close>, \<^verbatim>\<open>put\<close> and \<^verbatim>\<open>get\<close> do with the answer: the return value, and the value if it is 0.\<close>

definition answered :: "pvalue \<Rightarrow> pvalue list \<Rightarrow> (pvalue \<Rightarrow> bool) \<Rightarrow> world \<Rightarrow> (world \<times> int \<times> pvalue option) res" where
  "answered cb args type2 w =
     (if \<not> is_function cb then Inr (w, 1, None)
      else
        let w = apply_svalue cb args w in
        bind_res (getRespValues w type2) (\<lambda>resp.
          bind_res (pop_stack w) (\<lambda>w.
            case resp of
              None \<Rightarrow> Inr (w, 1, None)
            | Some (retcode, retval) \<Rightarrow> if retcode \<noteq> 0 then Inr (w, wrap32 retcode, None) else Inr (w, 0, Some retval))))"

definition int_value :: "pvalue \<Rightarrow> int" where
  "int_value v = (case v of P_int i \<Rightarrow> wrap32 i | _ \<Rightarrow> 0)"

definition sh_open :: "string \<Rightarrow> string \<Rightarrow> world \<Rightarrow> (world \<times> int \<times> int option) res" where
  "sh_open scheme rest w =
     bind_res (answered (cb_open (storage w)) [P_string scheme, P_string rest, cb_extra_args (storage w)] is_int w)
       (\<lambda>(w, ret, val). Inr (w, ret, map_option int_value val))"

text \<open>\<open>mem\<close> is the memory from \<open>buffer\<close> on: the string ends at its first zero byte, whatever the count of bytes says.\<close>

definition sh_put :: "int \<Rightarrow> string \<Rightarrow> world \<Rightarrow> (world \<times> int \<times> int option) res" where
  "sh_put handle mem w =
     (if \<not> is_function (cb_put (storage w)) then Inr (w, 1, None)
      else if NUL \<notin> set mem then Inl Out_of_bounds
      else
        bind_res (answered (cb_put (storage w)) [P_int handle, P_string (cstr mem), cb_extra_args (storage w)] is_int w)
          (\<lambda>(w, ret, val). Inr (w, ret, map_option int_value val)))"

text \<open>The bytes written to the buffer and their count; \<open>n\<close> is \<^verbatim>\<open>*byteCount\<close>.\<close>

definition sh_get :: "int \<Rightarrow> int \<Rightarrow> world \<Rightarrow> (world \<times> int \<times> (string \<times> int) option) res" where
  "sh_get handle n w =
     bind_res (answered (cb_get (storage w)) [P_int n, cb_extra_args (storage w)] is_string w) (\<lambda>(w, ret, val).
       case val of
         Some (P_string s) \<Rightarrow>
           let k = (if int (length s) < n then int (length s) else n)
           in if k < 0 then Inl Out_of_bounds else Inr (w, ret, Some (take (nat k) s, k))
       | _ \<Rightarrow> Inr (w, ret, None))"

text \<open>After a success the array stays on the stack.\<close>

definition sh_close :: "int \<Rightarrow> world \<Rightarrow> (world \<times> int) res" where
  "sh_close handle w =
     (if \<not> is_function (cb_close (storage w)) then Inr (w, 1)
      else
        let w = apply_svalue (cb_close (storage w)) [P_int handle, cb_extra_args (storage w)] w in
        bind_res (getRespValues w (\<lambda>_. True)) (\<lambda>resp.
          case resp of
            None \<Rightarrow> bind_res (pop_stack w) (\<lambda>w. Inr (w, 1))
          | Some (retcode, _) \<Rightarrow>
              if retcode \<noteq> 0 then bind_res (pop_stack w) (\<lambda>w. Inr (w, wrap32 retcode)) else Inr (w, 0)))"

section \<open>A run of the processor\<close>

datatype request =
    Message int "string list"
  | Document string string
  | Get_all string string
  | Free_memory int
  | Open string string
  | Put int string
  | Get int int
  | Close int

definition is_scheme_request :: "request \<Rightarrow> bool" where
  "is_scheme_request r = (case r of Message _ _ \<Rightarrow> False | Document _ _ \<Rightarrow> False | _ \<Rightarrow> True)"

text \<open>The handler a request goes to; the scheme handlers are registered if there were callbacks.\<close>

definition handle :: "request \<Rightarrow> world \<Rightarrow> world res" where
  "handle r w =
     (if is_scheme_request r \<and> \<not> do_callbacks (storage w) then Inr w
      else
        (case r of
           Message level fs \<Rightarrow> Inr (w\<lparr>storage := low_mh_error level fs (storage w)\<rparr>)
         | Document ctype cset \<Rightarrow> Inr (w\<lparr>storage := misc_documentinfo ctype cset (storage w)\<rparr>)
         | Get_all scheme rest \<Rightarrow> bind_res (sh_getAll scheme rest w) (\<lambda>(w, _). Inr w)
         | Free_memory junk \<Rightarrow> bind_res (sh_freeMemory junk w) (\<lambda>(w, _). Inr w)
         | Open scheme rest \<Rightarrow> bind_res (sh_open scheme rest w) (\<lambda>(w, _). Inr w)
         | Put h mem \<Rightarrow> bind_res (sh_put h mem w) (\<lambda>(w, _). Inr w)
         | Get h n \<Rightarrow> bind_res (sh_get h n w) (\<lambda>(w, _). Inr w)
         | Close h \<Rightarrow> bind_res (sh_close h w) (\<lambda>(w, _). Inr w)))"

text \<open>
  The base URI is prefixed in a block of \<^verbatim>\<open>len + 7\<close> bytes, unless \<^verbatim>\<open>file:/\<close> occurs anywhere in it.
\<close>

fun has_substring :: "string \<Rightarrow> string \<Rightarrow> bool" where
  "has_substring p [] \<longleftrightarrow> p = []"
| "has_substring p (c # s) \<longleftrightarrow> take (length p) (c # s) = p \<or> has_substring p s"

definition base_text :: "string \<Rightarrow> string res" where
  "base_text uri =
     (if \<not> has_substring ''file:/'' (cstr uri) then
        (let tmp = (if 1 < length uri \<and> byte_at uri 0 = CHR ''/'' then ''file:'' @ cstr uri else ''file:/'' @ cstr uri)
         in if length uri + 7 < length tmp + 1 then Inl Out_of_bounds else Inr tmp)
      else Inr (cstr uri))"

text \<open>What the library is told before the run, and its answers where the code looks at them.\<close>

datatype lib_call =
    Set_base string
  | Add_arg_buffer string "string option"
  | Add_param string string
  | Reg_handlers bool
  | Run_processor string string string

record xslt_lib =
  situation_error :: int
  processor_error :: int
  arg_error :: "string \<Rightarrow> int"
  requests :: "request list"
  parsed :: "string option"

definition string_param :: "pvalue \<times> pvalue \<Rightarrow> lib_call option" where
  "string_param kv = (case kv of (P_string k, P_string v) \<Rightarrow> Some (Add_param (cstr k) (cstr v)) | _ \<Rightarrow> None)"

definition buffers :: "string \<Rightarrow> string \<Rightarrow> (string \<times> string option) list" where
  "buffers xslt doc = [(''/_output'', None), (''/_xsl'', Some (cstr xslt)), (''/_xml'', Some (cstr doc))]"

fun add_buffers :: "xslt_lib \<Rightarrow> (string \<times> string option) list \<Rightarrow> lib_call list \<Rightarrow> lib_call list res" where
  "add_buffers lib [] log = Inr log"
| "add_buffers lib ((arg, buf) # bs) log =
     (if arg_error lib arg \<noteq> 0 then
        Inl (Pike_error (''Error adding arguments to the Situation (arg='' @ [CHR 0x27] @ arg @ [CHR 0x27, CHR '')'']))
      else add_buffers lib bs (log @ [Add_arg_buffer arg buf]))"

definition source_name :: "int \<Rightarrow> string \<Rightarrow> string \<Rightarrow> string" where
  "source_name type arg s = (if type = SX_DATA then arg else cstr s)"

definition prepare :: "xslt_lib \<Rightarrow> xslt_storage \<Rightarrow> lib_call list res" where
  "prepare lib this =
     (case (xml this, xsl this) of
        (Some doc, Some xslt) \<Rightarrow>
          if situation_error lib \<noteq> 0 then Inl (Pike_error ''Error creating the Sablotron Situation object'')
          else if processor_error lib \<noteq> 0 then Inl (Pike_error ''Error creating the Sablotron Processor object'')
          else
            bind_res (case base_uri this of None \<Rightarrow> Inr [] | Some uri \<Rightarrow> bind_res (base_text uri) (\<lambda>t. Inr [Set_base t])) (\<lambda>log.
              bind_res (add_buffers lib (buffers xslt doc) log) (\<lambda>log.
                let params = (case variables this of None \<Rightarrow> [] | Some m \<Rightarrow> List.map_filter string_param m) in
                Inr (log @ params @
                  [Reg_handlers (do_callbacks this),
                   Run_processor (source_name (xsl_type this) ''arg:/_xsl'' xslt) (source_name (xml_type this) ''arg:/_xml'' doc)
                     ''arg:/_output''])))
      | _ \<Rightarrow> Inl (Pike_error ''XML or XSL input not set correctly.''))"

text \<open>\<open>nargs\<close> arguments are on the stack; the result takes their place.\<close>

definition f_run :: "xslt_lib \<Rightarrow> nat \<Rightarrow> world \<Rightarrow> (world \<times> lib_call list) res" where
  "f_run lib nargs w =
     bind_res (prepare lib (storage w)) (\<lambda>log.
       bind_res (fold_res handle (requests lib) w) (\<lambda>w.
         case parsed lib of
           None \<Rightarrow> Inl (Pike_error ''Parsing failed.'')
         | Some out \<Rightarrow>
             if length (stack w) < nargs then Inl Out_of_bounds
             else Inr (w\<lparr>stack := P_string (cstr out) # drop nargs (stack w)\<rparr>, log)))"

section \<open>Handlers and the stack\<close>

lemma apply_svalue_simps [simp]:
  "stack (apply_svalue f args w) = (case answers w of [] \<Rightarrow> P_int 0 | a # _ \<Rightarrow> a) # stack w"
  "storage (apply_svalue f args w) = storage w" "heap (apply_svalue f args w) = heap w" "brk (apply_svalue f args w) = brk w"
  "answers (apply_svalue f args w) = tl (answers w)"
  by (simp_all add: apply_svalue_def)

lemma pop_stack_Cons [simp]: "stack w = v # s \<Longrightarrow> pop_stack w = Inr (w\<lparr>stack := s\<rparr>)"
  by (simp add: pop_stack_def)

text \<open>The answer to the next call, as \<^verbatim>\<open>getRespValues\<close> sees it.\<close>

definition next_answer :: "world \<Rightarrow> pvalue" where
  "next_answer w = (case answers w of [] \<Rightarrow> P_int 0 | a # _ \<Rightarrow> a)"

definition response :: "(pvalue \<Rightarrow> bool) \<Rightarrow> pvalue \<Rightarrow> (int \<times> pvalue) option res" where
  "response type2 a =
     (case a of
        P_array [] \<Rightarrow> Inl Out_of_bounds
      | P_array [P_int retcode] \<Rightarrow> Inl Out_of_bounds
      | P_array (P_int retcode # v # _) \<Rightarrow> Inr (if type2 v then Some (retcode, v) else None)
      | _ \<Rightarrow> Inr None)"

lemma getRespValues_response: "getRespValues (apply_svalue f args w) type2 = response type2 (next_answer w)"
  unfolding getRespValues_def response_def next_answer_def
  by (auto split: pvalue.splits list.splits)

text \<open>What each request does to the stack.\<close>

definition stack_after :: "request \<Rightarrow> world \<Rightarrow> pvalue list" where
  "stack_after r w =
     (if \<not> do_callbacks (storage w) then stack w
      else
        (case r of
           Get_all _ _ \<Rightarrow>
             if is_function (cb_getAll (storage w)) \<and> response is_string (next_answer w) = Inr None then tl (stack w) else stack w
         | Close _ \<Rightarrow>
             if is_function (cb_close (storage w)) \<and> (\<exists>v. response (\<lambda>_. True) (next_answer w) = Inr (Some (0, v)))
             then next_answer w # stack w else stack w
         | _ \<Rightarrow> stack w))"

definition answer_ok :: "pvalue \<Rightarrow> bool" where
  "answer_ok a \<longleftrightarrow> (case a of P_array xs \<Rightarrow> 2 \<le> length xs | _ \<Rightarrow> True)"

lemma response_ok: "answer_ok a \<Longrightarrow> \<exists>resp. response type2 a = Inr resp"
  by (auto simp: answer_ok_def response_def split: pvalue.splits list.splits)

text \<open>The object owns exactly the block it points to.\<close>

definition owns :: "world \<Rightarrow> bool" where
  "owns w \<longleftrightarrow>
     (case getAllBuffer (storage w) of
        None \<Rightarrow> heap w = Map.empty
      | Some a \<Rightarrow> a < brk w \<and> (\<exists>s. heap w = [a \<mapsto> s]))"

lemma free_buffer_owned: "owns w \<Longrightarrow> \<exists>w'. free_buffer w = Inr w' \<and> heap w' = Map.empty \<and> getAllBuffer (storage w') = None \<and>
    stack w' = stack w \<and> answers w' = answers w \<and> do_callbacks (storage w') = do_callbacks (storage w)"
  by (auto simp: free_buffer_def owns_def split: option.splits)

lemma free_buffer_keeps: "free_buffer w = Inr w' \<Longrightarrow> stack w' = stack w \<and> answers w' = answers w \<and> brk w' = brk w"
  by (auto simp: free_buffer_def split: option.splits if_splits)

lemma answered_cases:
  "answered cb args type2 w =
     (if \<not> is_function cb then Inr (w, 1, None)
      else bind_res (response type2 (next_answer w)) (\<lambda>resp.
        let w = (apply_svalue cb args w)\<lparr>stack := stack w\<rparr> in
        case resp of
          None \<Rightarrow> Inr (w, 1, None)
        | Some (retcode, retval) \<Rightarrow> if retcode \<noteq> 0 then Inr (w, wrap32 retcode, None) else Inr (w, 0, Some retval)))"
  by (simp add: answered_def getRespValues_response Let_def pop_stack_Cons [of "apply_svalue cb args w"])

lemma set_tl: "set (tl xs) \<subseteq> set xs"
  by (cases xs) auto

lemma answered_keeps:
  assumes "answered cb args type2 w = Inr (w', ret, val)"
  shows "stack w' = stack w \<and> storage w' = storage w \<and> heap w' = heap w \<and> brk w' = brk w \<and> set (answers w') \<subseteq> set (answers w)"
proof (cases "is_function cb")
  case True
  then obtain resp where resp: "response type2 (next_answer w) = Inr resp"
    using assms by (auto simp: answered_cases bind_res_Inr)
  have "w' = (apply_svalue cb args w)\<lparr>stack := stack w\<rparr>"
  proof (cases resp)
    case (Some p)
    then show ?thesis using assms True resp by (cases p; cases "fst p = 0") (simp_all add: answered_cases)
  qed (use assms True resp in \<open>simp add: answered_cases\<close>)
  then show ?thesis by (simp add: set_tl)
qed (use assms in \<open>simp add: answered_cases\<close>)

lemma answered_returns: "answer_ok (next_answer w) \<Longrightarrow> \<exists>w' ret val. answered cb args type2 w = Inr (w', ret, val)"
  using response_ok [of "next_answer w" type2] by (auto simp: answered_cases Let_def split: option.splits)

section \<open>Each handler\<close>

lemma getAll_cases:
  assumes "is_function (cb_getAll (storage w))"
  shows "sh_getAll scheme rest w =
    bind_res (response is_string (next_answer w)) (\<lambda>resp.
      let w' = apply_svalue (cb_getAll (storage w)) [P_string scheme, P_string rest, cb_extra_args (storage w)] w;
          s = (case resp of None \<Rightarrow> bad_retval
               | Some (retcode, retval) \<Rightarrow> if retcode \<noteq> 0 then bad_scheme else (case retval of P_string s \<Rightarrow> s | _ \<Rightarrow> []))
      in bind_res (free_buffer (if resp = None then w'\<lparr>stack := stack w\<rparr> else w')) (\<lambda>w''.
        let (w'', a) = calloc_copy s w'' in
        bind_res (pop_stack w'') (\<lambda>w''. Inr (w'', 0, Some (a, wrap32 (int (length s)))))))"
proof -
  have "pop_stack (apply_svalue f args w) = Inr ((apply_svalue f args w)\<lparr>stack := stack w\<rparr>)" for f args
    by (rule pop_stack_Cons) simp
  then show ?thesis using assms
    by (auto simp: sh_getAll_def getRespValues_response Let_def intro!: arg_cong [of _ _ "bind_res (response is_string (next_answer w))"])
qed

lemma getAll_returns:
  assumes "owns w" "answer_ok (next_answer w)" "stack w \<noteq> []" "is_function (cb_getAll (storage w))"
  shows "\<exists>w' n. sh_getAll scheme rest w = Inr (w', 0, Some (brk w, n)) \<and> owns w' \<and> set (answers w') \<subseteq> set (answers w) \<and>
    stack w' = (if response is_string (next_answer w) = Inr None then tl (stack w) else stack w) \<and> brk w' = brk w + 1 \<and>
    getAllBuffer (storage w') = Some (brk w)"
proof -
  obtain resp where resp: "response is_string (next_answer w) = Inr resp" using response_ok [OF assms(2)] by blast
  define v where "v = (let u = apply_svalue (cb_getAll (storage w)) [P_string scheme, P_string rest, cb_extra_args (storage w)] w
    in if resp = None then u\<lparr>stack := stack w\<rparr> else u)"
  have v: "owns v" "stack v \<noteq> []" "tl (stack v) = (if resp = None then tl (stack w) else stack w)" "brk v = brk w"
    "set (answers v) \<subseteq> set (answers w)"
    using assms(1,3) by (auto simp: v_def owns_def set_tl Let_def split: option.splits)
  then obtain u where u: "free_buffer v = Inr u" "heap u = Map.empty" "stack u = stack v" "answers u = answers v" "brk u = brk w"
    using free_buffer_owned [of v] free_buffer_keeps [of v] by auto
  then have "pop_stack (fst (calloc_copy s u)) = Inr ((fst (calloc_copy s u))\<lparr>stack := tl (stack v)\<rparr>)" for s
    using v(2) by (cases "stack v") (simp_all add: calloc_copy_def)
  then show ?thesis
    using v u unfolding getAll_cases [OF assms(4)] resp bind_res_simps v_def [symmetric, unfolded Let_def] Let_def
    by (auto simp: calloc_copy_def owns_def)
qed

lemma getAll_keeps_callbacks:
  "sh_getAll scheme rest w = Inr (w', ret, out) \<Longrightarrow> cb_getAll (storage w') = cb_getAll (storage w)"
proof -
  have free: "free_buffer u = Inr v \<Longrightarrow> cb_getAll (storage v) = cb_getAll (storage u)" for u v
    by (auto simp: free_buffer_def split: option.splits if_splits)
  have pop: "pop_stack u = Inr v \<Longrightarrow> cb_getAll (storage v) = cb_getAll (storage u)" for u v
    by (auto simp: pop_stack_def split: list.splits)
  assume "sh_getAll scheme rest w = Inr (w', ret, out)"
  then show ?thesis
    by (cases "is_function (cb_getAll (storage w))")
      (auto simp: sh_getAll_def [of scheme rest w] Let_def bind_res_Inr calloc_copy_def dest!: free pop split: if_splits)
qed

lemma freeMemory_returns:
  assumes "owns w" "answer_ok (next_answer w)"
  shows "\<exists>w' ret. sh_freeMemory junk w = Inr (w', ret) \<and> owns w' \<and> set (answers w') \<subseteq> set (answers w) \<and> stack w' = stack w"
proof (cases "is_function (cb_freeMemory (storage w))")
  case True
  define v where "v = (apply_svalue (cb_freeMemory (storage w)) [cb_extra_args (storage w)] w)\<lparr>stack := stack w\<rparr>"
  have pop: "pop_stack (apply_svalue (cb_freeMemory (storage w)) [cb_extra_args (storage w)] w) = Inr v"
    unfolding v_def by (rule pop_stack_Cons) simp
  obtain resp where resp: "response (\<lambda>_. True) (next_answer w) = Inr resp" using response_ok [OF assms(2)] by blast
  have "owns v" "stack v = stack w" "set (answers v) \<subseteq> set (answers w)" using assms(1) by (auto simp: v_def owns_def set_tl split: option.splits)
  then obtain u where u: "free_buffer v = Inr u" "owns u" "stack u = stack w" "set (answers u) \<subseteq> set (answers w)"
    using free_buffer_owned [of v] by (auto simp: owns_def)
  then show ?thesis using True by (simp add: sh_freeMemory_def getRespValues_response Let_def resp pop)
next
  case False
  then show ?thesis using free_buffer_owned [OF assms(1)] by (auto simp: sh_freeMemory_def owns_def)
qed

lemma close_returns:
  assumes "answer_ok (next_answer w)"
  shows "\<exists>w' ret. sh_close h w = Inr (w', ret) \<and> storage w' = storage w \<and> heap w' = heap w \<and> brk w' = brk w \<and>
    set (answers w') \<subseteq> set (answers w) \<and>
    stack w' = (if is_function (cb_close (storage w)) \<and> (\<exists>v. response (\<lambda>_. True) (next_answer w) = Inr (Some (0, v)))
      then next_answer w # stack w else stack w)"
proof (cases "is_function (cb_close (storage w))")
  case True
  obtain resp where resp: "response (\<lambda>_. True) (next_answer w) = Inr resp" using response_ok [OF assms] by blast
  have pop: "pop_stack (apply_svalue f args w) = Inr ((apply_svalue f args w)\<lparr>stack := stack w\<rparr>)" for f args
    by (rule pop_stack_Cons) simp
  show ?thesis
  proof (cases resp)
    case (Some p)
    then show ?thesis using True resp
      by (cases p; cases "fst p = 0") (simp_all add: sh_close_def getRespValues_response Let_def pop set_tl next_answer_def)
  qed (use True resp in \<open>simp add: sh_close_def getRespValues_response Let_def pop set_tl\<close>)
qed (simp add: sh_close_def)

definition request_ok :: "request \<Rightarrow> bool" where
  "request_ok r \<longleftrightarrow> (case r of Put _ mem \<Rightarrow> NUL \<in> set mem | Get _ n \<Rightarrow> 0 \<le> n | _ \<Rightarrow> True)"

lemma owns_same: "getAllBuffer (storage w') = getAllBuffer (storage w) \<Longrightarrow> heap w' = heap w \<Longrightarrow> brk w' = brk w \<Longrightarrow> owns w' = owns w"
  by (cases "getAllBuffer (storage w)") (simp_all add: owns_def)

lemma answered_step:
  assumes "answer_ok (next_answer w)" "owns w"
  shows "\<exists>w' ret val. answered cb args type2 w = Inr (w', ret, val) \<and> owns w' \<and> stack w' = stack w \<and> set (answers w') \<subseteq> set (answers w)"
proof -
  obtain w' ret val where w': "answered cb args type2 w = Inr (w', ret, val)"
    using answered_returns [OF assms(1)] by blast
  then show ?thesis using answered_keeps [OF w'] owns_same [of w' w] assms(2) by auto
qed

lemma handle_step:
  assumes "owns w" "answer_ok (next_answer w)" "stack w \<noteq> []" "request_ok r"
  shows "\<exists>w'. handle r w = Inr w' \<and> owns w' \<and> set (answers w') \<subseteq> set (answers w) \<and> stack w' = stack_after r w"
proof (cases "is_scheme_request r \<and> \<not> do_callbacks (storage w)")
  case True
  then show ?thesis using assms(1) by (simp add: handle_def stack_after_def)
next
  case False
  note step = answered_step [OF assms(2,1)]
  show ?thesis
  proof (cases r)
    case (Get_all scheme rest)
    show ?thesis
    proof (cases "is_function (cb_getAll (storage w))")
      case True
      then show ?thesis using getAll_returns [OF assms(1-3) True, of scheme rest] False Get_all
        by (auto simp: handle_def stack_after_def is_scheme_request_def)
    qed (use False Get_all assms(1) in \<open>simp add: handle_def stack_after_def is_scheme_request_def sh_getAll_def\<close>)
  next
    case (Free_memory junk)
    then show ?thesis using freeMemory_returns [OF assms(1,2), of junk] False
      by (auto simp: handle_def stack_after_def is_scheme_request_def)
  next
    case (Open scheme rest)
    then show ?thesis using step [of "cb_open (storage w)" "[P_string scheme, P_string rest, cb_extra_args (storage w)]" is_int] False
      by (auto simp: handle_def stack_after_def is_scheme_request_def sh_open_def)
  next
    case (Put h mem)
    then show ?thesis using step [of "cb_put (storage w)" "[P_int h, P_string (cstr mem), cb_extra_args (storage w)]" is_int] False assms(1,4)
      by (auto simp: handle_def stack_after_def is_scheme_request_def sh_put_def request_ok_def)
  next
    case (Get h n)
    then show ?thesis using step [of "cb_get (storage w)" "[P_int n, cb_extra_args (storage w)]" is_string] False assms(4)
      by (auto simp: handle_def stack_after_def is_scheme_request_def sh_get_def request_ok_def Let_def split: option.splits pvalue.splits)
  next
    case (Close h)
    obtain w' ret where c: "sh_close h w = Inr (w', ret)" "storage w' = storage w" "heap w' = heap w" "brk w' = brk w"
      "set (answers w') \<subseteq> set (answers w)" "stack w' = (if is_function (cb_close (storage w)) \<and>
        (\<exists>v. response (\<lambda>_. True) (next_answer w) = Inr (Some (0, v))) then next_answer w # stack w else stack w)"
      using close_returns [OF assms(2), of h] by metis
    then show ?thesis using Close False owns_same [of w' w] c(2-4) assms(1)
      by (simp add: handle_def stack_after_def is_scheme_request_def)
  next
    case (Message level fs)
    have "owns (w\<lparr>storage := low_mh_error level fs (storage w)\<rparr>)"
      using assms(1) by (subst owns_same [of _ w]) (simp_all add: low_mh_error_def Let_def)
    then show ?thesis using Message False by (simp add: handle_def stack_after_def is_scheme_request_def)
  next
    case (Document ctype cset)
    have "owns (w\<lparr>storage := misc_documentinfo ctype cset (storage w)\<rparr>)"
      using assms(1) by (subst owns_same [of _ w]) (simp_all add: misc_documentinfo_def)
    then show ?thesis using Document False by (simp add: handle_def stack_after_def is_scheme_request_def)
  qed
qed

text \<open>A request takes at most one value from the stack and none of the answers but the next.\<close>

lemma handle_takes_one:
  "handle r w = Inr w' \<Longrightarrow> stack w' = stack_after r w \<Longrightarrow> length (stack w) \<le> Suc (length (stack w'))"
  by (cases r) (auto simp: stack_after_def)

lemma next_answer_ok: "\<forall>a \<in> set (answers w). answer_ok a \<Longrightarrow> answer_ok (next_answer w)"
  by (cases "answers w") (simp_all add: next_answer_def answer_ok_def)

section \<open>The error mapping\<close>

text \<open>The last field with the key, before the level and what the mapping held.\<close>

definition last_field :: "string \<Rightarrow> string list \<Rightarrow> string option" where
  "last_field k fs = map_of (rev (List.map_filter field_pair fs)) k"

lemma error_fields_lookup:
  "mapping_lookup (error_fields fs m) k = (case last_field k fs of None \<Rightarrow> mapping_lookup m k | Some v \<Rightarrow> Some v)"
proof (induction fs m rule: error_fields.induct)
  case (2 f fs m)
  then show ?case
    by (cases "field_pair f") (auto simp: last_field_def map_filter_simps map_add_Some_iff map_add_def split: option.splits)
qed (simp add: last_field_def map_filter_simps)

section \<open>The base URI\<close>

lemma length_has_substring: "has_substring p s \<Longrightarrow> length p \<le> length s"
  by (induction s) (auto dest: arg_cong [of _ _ length])

section \<open>Properties\<close>

text \<open>
  C20. Through every run of the processor the object owns exactly the block it points to: no block is freed twice or lost, and the
  handlers come back, if the arrays the callbacks return have two elements at least, what is put ends in a zero byte, and
  Pike's stack is as high as there are requests.
\<close>

theorem pixsl_run_safe:
  assumes "owns w" "\<forall>a \<in> set (answers w). answer_ok a" "\<forall>r \<in> set rs. request_ok r" "length rs \<le> length (stack w)"
  shows "\<exists>w'. fold_res handle rs w = Inr w' \<and> owns w'"
  using assms
proof (induction rs arbitrary: w)
  case (Cons r rs)
  have "answer_ok (next_answer w)" "stack w \<noteq> []" using next_answer_ok Cons.prems by auto
  then obtain w' where w': "handle r w = Inr w'" "owns w'" "set (answers w') \<subseteq> set (answers w)" "stack w' = stack_after r w"
    using handle_step [of w r] Cons.prems by auto
  have "\<exists>w''. fold_res handle rs w' = Inr w'' \<and> owns w''"
    using w' handle_takes_one [OF w'(1,4)] Cons.prems by (intro Cons.IH) auto
  then show ?case using w'(1) by simp
qed simp

text \<open>
  C36. Every handler leaves Pike's stack as it found it, but two: \<^verbatim>\<open>getAll\<close> pops twice when the callback's value is not an array of
  a number and a string, and takes a value of its caller away; \<^verbatim>\<open>close\<close> never pops the array of a success.
\<close>

theorem pixsl_stack_effect:
  assumes "owns w" "answer_ok (next_answer w)" "stack w \<noteq> []" "request_ok r" "do_callbacks (storage w)"
  shows "\<exists>w'. handle r w = Inr w' \<and> stack w' =
    (case r of
       Get_all _ _ \<Rightarrow>
         if is_function (cb_getAll (storage w)) \<and> response is_string (next_answer w) = Inr None then tl (stack w) else stack w
     | Close _ \<Rightarrow>
         if is_function (cb_close (storage w)) \<and> (\<exists>v. response (\<lambda>_. True) (next_answer w) = Inr (Some (0, v)))
         then next_answer w # stack w else stack w
     | _ \<Rightarrow> stack w)"
  using handle_step [OF assms(1-4)] by (auto simp only: stack_after_def assms(5) not_True_eq_False if_False)

text \<open>
  C37. A stylesheet that includes another is read while its own buffer is still in use, and \<^verbatim>\<open>getAll\<close> for the second frees
  the buffer it returned for the first, before the library gives it back.
\<close>

theorem getall_frees_previous:
  assumes "owns w" "is_function (cb_getAll (storage w))" "\<forall>a \<in> set (answers w). answer_ok a" "2 \<le> length (stack w)"
    and first: "sh_getAll s1 r1 w = Inr (w1, ret1, Some (a1, n1))"
  shows "\<exists>w2 a2 n2. heap w1 a1 \<noteq> None \<and> sh_getAll s2 r2 w1 = Inr (w2, 0, Some (a2, n2)) \<and> heap w2 a1 = None \<and> heap w2 a2 \<noteq> None"
proof -
  have ok: "answer_ok (next_answer w)" "stack w \<noteq> []" using next_answer_ok assms(3,4) by auto
  have w1: "owns w1" "set (answers w1) \<subseteq> set (answers w)" "stack w1 \<noteq> []" "brk w1 = brk w + 1" "a1 = brk w"
      "getAllBuffer (storage w1) = Some (brk w)"
    using getAll_returns [OF assms(1) ok assms(2), of s1 r1] first assms(4) by (auto simp: Suc_le_length_iff numeral_2_eq_2)
  have cb: "is_function (cb_getAll (storage w1))" using getAll_keeps_callbacks [OF first] assms(2) by simp
  have "answer_ok (next_answer w1)" using next_answer_ok [of w1] assms(3) w1(2) by blast
  then obtain w2 n2 where w2: "sh_getAll s2 r2 w1 = Inr (w2, 0, Some (brk w1, n2))" "owns w2" "getAllBuffer (storage w2) = Some (brk w1)"
    using getAll_returns [OF w1(1) _ w1(3) cb, of s2 r2] by blast
  then show ?thesis using w1 by (auto simp: owns_def)
qed

text \<open>
  The block of seven bytes more than the base URI is long holds the prefixed URI with its zero byte in every case, and what is
  set as the base begins with \<^verbatim>\<open>file:/\<close> or contains it.
\<close>

lemma base_uri_fits: "\<exists>tmp. base_text uri = Inr tmp \<and> has_substring ''file:/'' tmp"
proof (cases "has_substring ''file:/'' (cstr uri)")
  case False
  have len: "length (cstr uri) \<le> length uri" by (rule length_cstr_le)
  show ?thesis
  proof (cases "1 < length uri \<and> byte_at uri 0 = CHR ''/''")
    case True
    then obtain s where "cstr uri = CHR ''/'' # s" by (cases uri) (auto simp: byte_at_def)
    then show ?thesis using False True len by (simp add: base_text_def)
  next
    case False
    then show ?thesis using \<open>\<not> has_substring ''file:/'' (cstr uri)\<close> len by (auto simp: base_text_def)
  qed
qed (simp add: base_text_def)

text \<open>
  The error mapping holds for each name the text behind the first colon of the last field with that name, else the level of
  the last message under "level", else what earlier messages left, those of earlier runs included.
\<close>

lemma error_mapping:
  "\<exists>m. err (low_mh_error level fs this) = Some m \<and>
     mapping_lookup m k =
       (case last_field k fs of
          Some v \<Rightarrow> Some v
        | None \<Rightarrow>
            if k = ''level'' then Some (level_name level)
            else (case err this of None \<Rightarrow> None | Some old \<Rightarrow> mapping_lookup old k))"
  by (auto simp: low_mh_error_def Let_def error_fields_lookup split: option.splits)

text \<open>
  A run on data without callbacks gives the library the stylesheet and the document, each up to its first zero byte, names
  them as the sources, and puts the text it produces in the place of the arguments, whatever messages were handled meanwhile.
\<close>

lemma pixsl_run_plain:
  assumes "storage w = f_set_xsl_data xslt (f_set_xml_data doc init_xslt_storage)"
    "situation_error lib = 0" "processor_error lib = 0" "\<And>a. arg_error lib a = 0" "parsed lib = Some out" "nargs \<le> length (stack w)"
  shows "\<exists>w'. f_run lib nargs w = Inr (w',
      [Add_arg_buffer ''/_output'' None, Add_arg_buffer ''/_xsl'' (Some (cstr xslt)), Add_arg_buffer ''/_xml'' (Some (cstr doc)),
       Reg_handlers False, Run_processor ''arg:/_xsl'' ''arg:/_xml'' ''arg:/_output'']) \<and>
    stack w' = P_string (cstr out) # drop nargs (stack w)"
proof -
  have step: "\<exists>v. handle r u = Inr v \<and> \<not> do_callbacks (storage v) \<and> stack v = stack w"
    if "\<not> do_callbacks (storage u) \<and> stack u = stack w" for r u
    using that by (cases r) (auto simp: handle_def is_scheme_request_def low_mh_error_def misc_documentinfo_def Let_def)
  have "\<not> do_callbacks (storage w)" using assms(1) by (simp add: f_set_xsl_data_def f_set_xml_data_def init_xslt_storage_def)
  then obtain v where v: "fold_res handle (requests lib) w = Inr v" "stack v = stack w"
    using fold_res_returns [of "requests lib" "\<lambda>u. \<not> do_callbacks (storage u) \<and> stack u = stack w" handle w] step by auto
  have "prepare lib (storage w) = Inr
      [Add_arg_buffer ''/_output'' None, Add_arg_buffer ''/_xsl'' (Some (cstr xslt)), Add_arg_buffer ''/_xml'' (Some (cstr doc)),
       Reg_handlers False, Run_processor ''arg:/_xsl'' ''arg:/_xml'' ''arg:/_output'']"
    using assms by (simp add: prepare_def f_set_xsl_data_def f_set_xml_data_def init_xslt_storage_def buffers_def source_name_def SX_DATA_def)
  then show ?thesis using v assms by (simp add: f_run_def)
qed

section \<open>Witnesses\<close>

definition example_world :: "pvalue list \<Rightarrow> world" where
  "example_world as =
     \<lparr>storage = f_set_scheme_callbacks [(''getAll'', P_function 1), (''close'', P_function 2)] (P_int 0) init_xslt_storage,
      stack = [P_int 7, P_int 8, P_int 9], heap = Map.empty, brk = 0, answers = as, calls = []\<rparr>"

lemma example_world_simps:
  "owns (example_world as)" "do_callbacks (storage (example_world as))" "cb_getAll (storage (example_world as)) = P_function 1"
  "cb_close (storage (example_world as)) = P_function 2" "stack (example_world as) = [P_int 7, P_int 8, P_int 9]"
  "answers (example_world as) = as"
  by (simp_all add: example_world_def owns_def f_set_scheme_callbacks_def init_xslt_storage_def callback_def mapping_lookup_def)

lemma pixsl_run_safe_witness:
  "\<exists>w'. fold_res handle [Get_all ''http'' ''//a/b.xsl'', Message 3 [''code:5''], Close 1]
     (example_world [P_array [P_int 0, P_string ''<a/>''], P_array [P_int 0, P_int 0]]) = Inr w' \<and> owns w'"
  by (rule pixsl_run_safe) (simp_all add: example_world_simps answer_ok_def request_ok_def)

lemma pixsl_stack_effect_witness:
  "(\<exists>w'. handle (Get_all ''http'' ''//a/b.xsl'') (example_world [P_int 1]) = Inr w' \<and> stack w' = [P_int 8, P_int 9]) \<and>
   (\<exists>w'. handle (Close 1) (example_world [P_array [P_int 0, P_int 0]]) = Inr w' \<and>
      stack w' = [P_array [P_int 0, P_int 0], P_int 7, P_int 8, P_int 9])"
  using pixsl_stack_effect [of "example_world [P_int 1]" "Get_all ''http'' ''//a/b.xsl''"]
    pixsl_stack_effect [of "example_world [P_array [P_int 0, P_int 0]]" "Close 1"]
  by (simp add: example_world_simps next_answer_def answer_ok_def request_ok_def is_function_def response_def)

lemma getall_frees_previous_witness:
  "\<exists>w1 a1 n1 w2 a2 n2.
     sh_getAll ''http'' ''//a/b.xsl'' (example_world [P_array [P_int 0, P_string ''<a/>''], P_array [P_int 0, P_string ''<b/>'']]) =
       Inr (w1, 0, Some (a1, n1)) \<and>
     heap w1 a1 \<noteq> None \<and> sh_getAll ''http'' ''//a/c.xsl'' w1 = Inr (w2, 0, Some (a2, n2)) \<and> heap w2 a1 = None \<and> heap w2 a2 \<noteq> None"
proof -
  let ?w = "example_world [P_array [P_int 0, P_string ''<a/>''], P_array [P_int 0, P_string ''<b/>'']]"
  have ok: "owns ?w" "answer_ok (next_answer ?w)" "stack ?w \<noteq> []" "is_function (cb_getAll (storage ?w))"
    by (simp_all add: example_world_simps next_answer_def answer_ok_def is_function_def)
  obtain w1 n1 where w1: "sh_getAll ''http'' ''//a/b.xsl'' ?w = Inr (w1, 0, Some (brk ?w, n1))"
    using getAll_returns [OF ok] by blast
  show ?thesis
    using getall_frees_previous [OF ok(1,4) _ _ w1, of "''http''" "''//a/c.xsl''"] w1
    by (auto simp: example_world_simps answer_ok_def)
qed

definition example_lib :: xslt_lib where
  "example_lib = \<lparr>situation_error = 0, processor_error = 0, arg_error = (\<lambda>_. 0), requests = [Message 2 [''msg:x'']], parsed = Some ''<p/>''\<rparr>"

lemma pixsl_run_plain_witness:
  "\<exists>w'. f_run example_lib 1
      \<lparr>storage = f_set_xsl_data ''<s/>'' (f_set_xml_data ''<d/>'' init_xslt_storage), stack = [P_int 7, P_int 8], heap = Map.empty,
       brk = 0, answers = [], calls = []\<rparr> = Inr (w',
      [Add_arg_buffer ''/_output'' None, Add_arg_buffer ''/_xsl'' (Some (cstr ''<s/>'')), Add_arg_buffer ''/_xml'' (Some (cstr ''<d/>'')),
       Reg_handlers False, Run_processor ''arg:/_xsl'' ''arg:/_xml'' ''arg:/_output'']) \<and>
    stack w' = P_string (cstr ''<p/>'') # drop 1 [P_int 7, P_int 8]"
  using pixsl_run_plain [of "\<lparr>storage = f_set_xsl_data ''<s/>'' (f_set_xml_data ''<d/>'' init_xslt_storage),
      stack = [P_int 7, P_int 8], heap = Map.empty, brk = 0, answers = [], calls = []\<rparr>" "''<s/>''" "''<d/>''" example_lib "''<p/>''" 1]
  by (simp add: example_lib_def)

end
