(* ===== verification/Smartlink.thy ===== *)
theory Smartlink
  imports Caudium_Prelude "HOL-Library.Sublist"
begin

text \<open>
  The linker wrapper: \<^verbatim>\<open>tools/smartlink.c\<close>. It collects the library paths of its arguments, turns them into the option by
  which the linker of the platform takes a run-time path, and executes the linker. The platform is one of the values of
  \<open>rpath_method\<close>, which the preprocessor chooses; \<open>Out_of_bounds\<close> is an access outside one of the blocks that
  \<^verbatim>\<open>main\<close> allocates. Running out of memory is left out.
\<close>

section \<open>Paths\<close>

lemma behind_shorter: "c \<in> set s \<Longrightarrow> length (dropWhile (\<lambda>x. x \<noteq> c) s) - Suc 0 < length s"
  by (induction s) auto

text \<open>Whether \<open>path\<close> with a colon behind it begins one of the components, as the loop of \<^verbatim>\<open>add_path\<close> looks for it.\<close>

function in_path :: "string \<Rightarrow> string \<Rightarrow> bool" where
  "in_path path p \<longleftrightarrow>
     take (length path + 1) p = path @ '':'' \<or>
     (if CHR '':'' \<in> set p then in_path path (tl (dropWhile (\<lambda>c. c \<noteq> CHR '':'') p)) else False)"
  by pat_completeness auto
termination by (relation "measure (\<lambda>(path, p). length p)") (auto intro: behind_shorter)

declare in_path.simps [simp del]

text \<open>A buffer of \<open>cap\<close> bytes holds the string and its zero byte.\<close>

definition add_path :: "nat \<Rightarrow> string \<Rightarrow> string \<Rightarrow> (string \<times> bool) res" where
  "add_path cap buffer path =
     (if path = [] then Inr (buffer, False)
      else if in_path path buffer then Inr (buffer, False)
      else if cap < length buffer + length path + 2 then Inl Out_of_bounds
      else Inr (buffer @ path @ '':'', True))"

section \<open>The arguments\<close>

datatype rpath_method = RPATH | PLUS_b | YP | XLINKER_YP | Wl | R | Wl_R | LD_LIBRARY_PATH

text \<open>The option in front of the paths; the other platforms pass them as an argument of their own.\<close>

definition rpath_prefix :: "rpath_method \<Rightarrow> string" where
  "rpath_prefix meth =
     (case meth of
        Wl \<Rightarrow> ''-Wl,-rpath,''
      | Wl_R \<Rightarrow> ''-Wl,-R''
      | R \<Rightarrow> ''-R''
      | LD_LIBRARY_PATH \<Rightarrow> ''LD_LIBRARY_PATH=''
      | _ \<Rightarrow> '''')"

record link_state =
  lpath :: string
  rpath :: string
  rpath_in_use :: bool
  new_argv :: "string list"
  n32 :: bool
  linking :: bool

text \<open>The size of the two buffers.\<close>

definition buffer_size :: "string list \<Rightarrow> string option \<Rightarrow> nat" where
  "buffer_size argv ld =
     (case ld of None \<Rightarrow> 0 | Some s \<Rightarrow> length s) + sum_list (map length argv) + 2 * length argv + 20"

definition add_lpath :: "nat \<Rightarrow> string \<Rightarrow> string list \<Rightarrow> link_state \<Rightarrow> link_state res" where
  "add_lpath cap path args st =
     bind_res (add_path cap (lpath st) path) (\<lambda>(b, added).
       Inr (if added then st\<lparr>lpath := b, new_argv := new_argv st @ args\<rparr> else st\<lparr>lpath := b\<rparr>))"

definition add_rpath :: "nat \<Rightarrow> bool \<Rightarrow> string \<Rightarrow> link_state \<Rightarrow> link_state res" where
  "add_rpath cap skip path st =
     (if skip then Inr st
      else bind_res (add_path cap (rpath st) path) (\<lambda>(b, added).
        Inr (st\<lparr>rpath := b, rpath_in_use := rpath_in_use st \<or> added\<rparr>)))"

text \<open>An argument that stays; \<open>-c\<close> and \<open>-E\<close> mean that nothing is linked.\<close>

definition keep_arg :: "string \<Rightarrow> link_state \<Rightarrow> link_state" where
  "keep_arg a st =
     (let st = (if a = ''-c'' \<or> a = ''-E'' then st\<lparr>linking := False\<rparr> else st) in st\<lparr>new_argv := new_argv st @ [a]\<rparr>)"

text \<open>The loop over the arguments behind the first; \<open>lcap\<close> and \<open>rcap\<close> are the sizes of the buffers.\<close>

fun scan_args :: "nat \<Rightarrow> nat \<Rightarrow> bool \<Rightarrow> string list \<Rightarrow> link_state \<Rightarrow> link_state res" where
  "scan_args lcap rcap skip [] st = Inr st"
| "scan_args lcap rcap skip (a # as) st =
     (if take 2 a = ''-R'' \<or> take 2 a = ''-L'' then
        (if drop 2 a = [] then
           (case as of
              [] \<Rightarrow> Inr st
            | b # bs \<Rightarrow>
                bind_res (if take 2 a = ''-L'' then add_lpath lcap b [a, b] st else Inr st) (\<lambda>st.
                  bind_res (add_rpath rcap skip b st) (scan_args lcap rcap skip bs)))
         else
           bind_res (if take 2 a = ''-L'' then add_lpath lcap (drop 2 a) [a] st else Inr st) (\<lambda>st.
             bind_res (add_rpath rcap skip (drop 2 a) st) (scan_args lcap rcap skip as)))
      else if a = ''-n32'' then scan_args lcap rcap skip as (st\<lparr>n32 := True\<rparr>)
      else scan_args lcap rcap skip as (keep_arg a st))"

section \<open>Options for the compiler\<close>

text \<open>The array \<^verbatim>\<open>new_argv\<close>: cells that were never written hold \<open>Junk\<close>.\<close>

datatype cell = Junk | Null | Arg string

definition is_ld :: "string \<Rightarrow> bool" where
  "is_ld prog =
     (let w = takeWhile (\<lambda>c. c \<noteq> SP) prog in 1 < length w \<and> w ! (length w - 2) = CHR ''l'' \<and> w ! (length w - 1) = CHR ''d'')"

text \<open>\<^verbatim>\<open>for(e=argc;e>=i;e--) new_argv[e+1]=new_argv[e];\<close>\<close>

definition shift_cells :: "nat \<Rightarrow> nat \<Rightarrow> cell list \<Rightarrow> cell list" where
  "shift_cells argc i arr = (if i \<le> argc then take (i + 1) arr @ take (argc + 1 - i) (drop i arr) @ drop (argc + 2) arr else arr)"

text \<open>What is behind each comma of the argument in cell \<open>i\<close> goes to a cell of its own.\<close>

function split_commas :: "nat \<Rightarrow> nat \<Rightarrow> string \<Rightarrow> cell list \<Rightarrow> (cell list \<times> nat) res" where
  "split_commas argc i s arr =
     (if CHR '','' \<notin> set s then Inr (arr, i)
      else if length arr \<le> i + 1 then Inl Out_of_bounds
      else
        let rest = tl (dropWhile (\<lambda>c. c \<noteq> CHR '','') s);
            arr = shift_cells argc i (arr[i := Arg (takeWhile (\<lambda>c. c \<noteq> CHR '','') s)])
        in split_commas argc (i + 1) rest (arr[i + 1 := Arg rest]))"
  by pat_completeness auto
termination by (relation "measure (\<lambda>(argc, i, s, arr). length s)") (auto intro: behind_shorter)

declare split_commas.simps [simp del]

lemma split_commas_forward: "split_commas argc i s arr = Inr (arr', j) \<Longrightarrow> i \<le> j"
proof (induction argc i s arr rule: split_commas.induct)
  case (1 argc i s arr)
  show ?case using 1(2) 1(1) [OF _ _ refl refl]
    by (subst (asm) split_commas.simps) (auto simp: Let_def split: if_splits)
qed

function strip_Wl :: "nat \<Rightarrow> nat \<Rightarrow> nat \<Rightarrow> cell list \<Rightarrow> cell list res" where
  "strip_Wl argc new_argc i arr =
     (if new_argc \<le> i then Inr arr
      else if length arr \<le> i then Inl Out_of_bounds
      else
        (case arr ! i of
           Arg a \<Rightarrow>
             if take 4 a = ''-Wl,'' then
               (case split_commas argc i (drop 4 a) (arr[i := Arg (drop 4 a)]) of
                  Inl e \<Rightarrow> Inl e
                | Inr (arr, j) \<Rightarrow> strip_Wl argc new_argc (j + 1) arr)
             else strip_Wl argc new_argc (i + 1) arr
         | _ \<Rightarrow> Inl Out_of_bounds))"
  by pat_completeness auto
termination
  by (relation "measure (\<lambda>(argc, new_argc, i, arr). new_argc - i)") (auto dest: split_commas_forward)

declare strip_Wl.simps [simp del]

section \<open>The program\<close>

function split_colons :: "string \<Rightarrow> string list" where
  "split_colons s =
     takeWhile (\<lambda>c. c \<noteq> CHR '':'') s #
     (if CHR '':'' \<in> set s then split_colons (tl (dropWhile (\<lambda>c. c \<noteq> CHR '':'') s)) else [])"
  by pat_completeness auto
termination by (relation "measure length") (auto intro: behind_shorter)

declare split_colons.simps [simp del]

text \<open>Both strings handed to \<^verbatim>\<open>putenv\<close> lie in one buffer, which is written to in between.\<close>

definition run_path_env :: "string \<Rightarrow> string list res" where
  "run_path_env full =
     (if length full < 15 then Inl Out_of_bounds
      else (let full = take 4 full @ ''LD_RUN_PATH'' @ drop 15 full in Inr [full, drop 4 full]))"

text \<open>What is added to the arguments and to the environment when run-time paths were found.\<close>

definition rpath_args :: "rpath_method \<Rightarrow> bool \<Rightarrow> string \<Rightarrow> string list" where
  "rpath_args meth link path =
     (let full = rpath_prefix meth @ path in
      case meth of
        RPATH \<Rightarrow> [''-rpath'', path]
      | PLUS_b \<Rightarrow> if link then [''+b'', path] else []
      | YP \<Rightarrow> if link then [''-YP,'', path] else []
      | XLINKER_YP \<Rightarrow> if link then [''-Xlinker'', ''-YP,'', ''-Xlinker'', path] else []
      | Wl \<Rightarrow> if link then [full] else []
      | LD_LIBRARY_PATH \<Rightarrow> []
      | _ \<Rightarrow> [full])"

definition insert_n32 :: "nat \<Rightarrow> cell list \<Rightarrow> cell list" where
  "insert_n32 new_argc arr =
     take 1 arr @ Arg ''-n32'' # take (new_argc - 1) (drop 1 arr) @ drop (new_argc + 1) arr"

text \<open>\<^verbatim>\<open>new_argv[new_argc++] = ...\<close> for each of them and for the null pointer behind them.\<close>

fun append_cells :: "nat \<Rightarrow> cell list \<Rightarrow> cell list \<Rightarrow> cell list res" where
  "append_cells n [] arr = Inr arr"
| "append_cells n (c # cs) arr = (if length arr \<le> n then Inl Out_of_bounds else append_cells (n + 1) cs (arr[n := c]))"

text \<open>The arguments \<^verbatim>\<open>execv\<close> sees: up to the null pointer.\<close>

fun passed_args :: "cell list \<Rightarrow> string list res" where
  "passed_args [] = Inl Out_of_bounds"
| "passed_args (c # cs) =
     (case c of Junk \<Rightarrow> Inl Out_of_bounds | Null \<Rightarrow> Inr [] | Arg a \<Rightarrow> bind_res (passed_args cs) (\<lambda>as. Inr (a # as)))"

text \<open>The search in \<^verbatim>\<open>PATH\<close>, in a buffer of \<open>cap\<close> bytes.\<close>

fun search_path :: "nat \<Rightarrow> (string \<Rightarrow> bool) \<Rightarrow> string \<Rightarrow> string list \<Rightarrow> string res" where
  "search_path cap found prog [] = Inr prog"
| "search_path cap found prog (d # ds) =
     (if cap < length d + 1 + length prog + 1 then Inl Out_of_bounds
      else if found (d @ ''/'' @ prog) then Inr (d @ ''/'' @ prog) else search_path cap found prog ds)"

text \<open>The program's name if the options for the compiler were taken out of it.\<close>

definition name_after :: "bool \<Rightarrow> string \<Rightarrow> string" where
  "name_after strip prog =
     (if strip \<and> take 4 prog = ''-Wl,'' then take 4 prog @ takeWhile (\<lambda>c. c \<noteq> CHR '','') (drop 4 prog) else prog)"

datatype link_outcome = Fatal string | Usage | Exec string "string list" "string list"

definition strips :: "rpath_method \<Rightarrow> string \<Rightarrow> link_state \<Rightarrow> bool" where
  "strips meth prog st \<longleftrightarrow> meth \<noteq> Wl \<and> linking st \<and> is_ld prog"

text \<open>\<open>Inr\<close> with the array's cells; \<open>n\<close> of them are in use.\<close>

definition build_args :: "rpath_method \<Rightarrow> bool \<Rightarrow> nat \<Rightarrow> string \<Rightarrow> link_state \<Rightarrow> string list res" where
  "build_args meth skip argc prog st =
     (let n = length (new_argv st); arr = map Arg (new_argv st) @ replicate (argc + 150 - n) Junk in
      bind_res (if strips meth prog st then strip_Wl argc n 0 arr else Inr arr) (\<lambda>arr.
        let (n, arr) = (if n32 st then (n + 1, insert_n32 n arr) else (n, arr));
            added = (if \<not> skip \<and> rpath_in_use st then rpath_args meth (linking st) (butlast (rpath st)) else []) in
        bind_res (append_cells n (map Arg added @ [Null]) arr) passed_args))"

definition main :: "rpath_method \<Rightarrow> (string \<Rightarrow> string option) \<Rightarrow> (string \<Rightarrow> bool) \<Rightarrow> string list \<Rightarrow> link_outcome res" where
  "main meth getenv found argv =
     (if length argv < 2 then Inr (Fatal ''Too few arguments'')
      else if argv ! 1 = ''-v'' then Inr Usage
      else
        let prog = argv ! 1;
            skip = (getenv ''DEB_BUILD_ARCH'' \<noteq> None \<or> getenv ''NO_RPATH_PLEASE'' \<noteq> None);
            ld = getenv ''LD_LIBRARY_PATH''; cap = buffer_size argv ld;
            prefix = (if skip then [] else rpath_prefix meth);
            st = \<lparr>lpath = [], rpath = [], rpath_in_use = False, new_argv = [prog], n32 = False, linking = (prog \<noteq> ''cpp'')\<rparr> in
        if cap < length prefix + 1 then Inl Out_of_bounds
        else
          bind_res (scan_args cap (cap - length prefix) skip (drop 2 argv) st) (\<lambda>st.
            bind_res (case ld of None \<Rightarrow> Inr st | Some s \<Rightarrow> fold_res (add_rpath (cap - length prefix) skip) (split_colons s) st) (\<lambda>st.
              bind_res (build_args meth skip (length argv) prog st) (\<lambda>args.
                bind_res (if \<not> skip \<and> rpath_in_use st \<and> meth = LD_LIBRARY_PATH then run_path_env (prefix @ butlast (rpath st))
                          else Inr []) (\<lambda>env.
                  let prog' = name_after (strips meth prog st) prog in
                  bind_res
                    (case getenv ''PATH'' of
                       Some path \<Rightarrow>
                         if take 1 prog' \<noteq> ''/'' then search_path (length path + length prog + 4) found prog' (split_colons path)
                         else Inr prog'
                     | None \<Rightarrow> Inr prog')
                    (\<lambda>prog'. Inr (Exec prog' args
                      (''LD_PXDB=/dev/null'' # (if getenv ''SGI_ABI'' = None then [''SGI_ABI=-n32''] else []) @ env))))))))"

section \<open>The sizes of the buffers\<close>

text \<open>What the arguments can add to a buffer.\<close>

definition weight :: "string list \<Rightarrow> nat" where
  "weight as = (\<Sum>a \<leftarrow> as. length a + 1)"

lemma weight_simps [simp]: "weight [] = 0" "weight (a # as) = length a + 1 + weight as"
  by (simp_all add: weight_def)

lemma weight_lengths: "weight as = sum_list (map length as) + length as"
  by (induction as) simp_all

text \<open>The arguments that name a path, and what a buffer is after a path.\<close>

fun requested :: "string list \<Rightarrow> string list" where
  "requested [] = []"
| "requested (a # as) =
     (if take 2 a = ''-R'' \<or> take 2 a = ''-L'' then
        (if drop 2 a = [] then (case as of [] \<Rightarrow> [] | b # bs \<Rightarrow> b # requested bs) else drop 2 a # requested as)
      else requested as)"

definition push :: "string \<Rightarrow> string \<Rightarrow> string" where
  "push path buffer = (if path = [] \<or> in_path path buffer then buffer else buffer @ path @ '':'')"

lemma length_push: "length (push path buffer) \<le> length buffer + length path + 1"
  by (simp add: push_def)

lemma add_path_fits:
  "length buffer + length path + 2 \<le> cap \<Longrightarrow> add_path cap buffer path = Inr (push path buffer, push path buffer \<noteq> buffer)"
  by (simp add: add_path_def push_def)

definition fits :: "nat \<Rightarrow> nat \<Rightarrow> nat \<Rightarrow> link_state \<Rightarrow> bool" where
  "fits lcap rcap room st \<longleftrightarrow> length (lpath st) + room + 1 \<le> lcap \<and> length (rpath st) + room + 1 \<le> rcap"

lemma fits_mono: "fits lcap rcap room' st \<Longrightarrow> room \<le> room' \<Longrightarrow> fits lcap rcap room st"
  by (simp add: fits_def)

text \<open>What the arguments \<open>as\<close>, which name the paths \<open>ps\<close>, may have changed.\<close>

definition scanned :: "bool \<Rightarrow> string list \<Rightarrow> string list \<Rightarrow> link_state \<Rightarrow> link_state \<Rightarrow> bool" where
  "scanned skip as ps st st' \<longleftrightarrow>
     (\<exists>xs. new_argv st' = new_argv st @ xs \<and> subseq xs as) \<and>
     rpath st' = (if skip then rpath st else fold push ps (rpath st)) \<and>
     ((rpath_in_use st \<longleftrightarrow> rpath st \<noteq> []) \<longrightarrow> (rpath_in_use st' \<longleftrightarrow> rpath st' \<noteq> [])) \<and>
     (''-c'' \<notin> set as \<and> ''-E'' \<notin> set as \<longrightarrow> linking st' = linking st)"

lemma scanned_trans:
  assumes "scanned skip as ps st u" "scanned skip bs qs u v"
  shows "scanned skip (as @ bs) (ps @ qs) st v"
proof -
  obtain xs ys where "new_argv u = new_argv st @ xs" "subseq xs as" "new_argv v = new_argv u @ ys" "subseq ys bs"
    using assms unfolding scanned_def by blast
  then have "\<exists>zs. new_argv v = new_argv st @ zs \<and> subseq zs (as @ bs)"
    by (intro exI [of _ "xs @ ys"]) (simp add: list_emb_append_mono)
  moreover have "rpath v = (if skip then rpath st else fold push (ps @ qs) (rpath st))"
    using assms by (cases skip) (simp_all add: scanned_def)
  moreover have "(rpath_in_use st \<longleftrightarrow> rpath st \<noteq> []) \<longrightarrow> (rpath_in_use v \<longleftrightarrow> rpath v \<noteq> [])"
    using assms unfolding scanned_def by blast
  moreover have "''-c'' \<notin> set (as @ bs) \<and> ''-E'' \<notin> set (as @ bs) \<longrightarrow> linking v = linking st" using assms by (simp add: scanned_def)
  ultimately show ?thesis unfolding scanned_def by (intro conjI)
qed

lemma add_lpath_fits:
  assumes "length (lpath st) + length path + 2 \<le> lcap"
  shows "\<exists>st'. add_lpath lcap path args st = Inr st' \<and> scanned skip args [] st st' \<and> length (lpath st') \<le> length (lpath st) + length path + 1"
  using length_push [of path "lpath st"] by (simp add: add_lpath_def add_path_fits [OF assms] scanned_def)

lemma add_rpath_fits:
  assumes "length (rpath st) + length path + 2 \<le> rcap"
  shows "\<exists>st'. add_rpath rcap skip path st = Inr st' \<and> scanned skip [] [path] st st' \<and>
    lpath st' = lpath st \<and> linking st' = linking st \<and> length (rpath st') \<le> length (rpath st) + length path + 1"
  using length_push [of path "rpath st"]
  by (cases "path = [] \<or> in_path path (rpath st)") (auto simp: add_rpath_def add_path_fits [OF assms] scanned_def push_def)

lemma add_rpath_keeps: "add_rpath cap skip p st = Inr st' \<Longrightarrow> new_argv st' = new_argv st \<and> n32 st' = n32 st"
  by (auto simp: add_rpath_def bind_res_Inr split: if_splits)

lemma path_step:
  assumes "fits lcap rcap (length path + 1 + room) st"
  shows "\<exists>st'. bind_res (if l then add_lpath lcap path args st else Inr st) (add_rpath rcap skip path) = Inr st' \<and>
    fits lcap rcap room st' \<and> scanned skip args [path] st st'"
proof -
  have "length (lpath st) + length path + 2 \<le> lcap" using assms by (simp add: fits_def)
  then obtain u where u: "(if l then add_lpath lcap path args st else Inr st) = Inr u" "scanned skip args [] st u"
    "length (lpath u) \<le> length (lpath st) + length path + 1"
    using add_lpath_fits [of st path lcap args skip] by (cases l) (auto simp: scanned_def)
  then have r: "rpath u = rpath st" by (simp add: scanned_def)
  then have "length (rpath u) + length path + 2 \<le> rcap" using assms by (simp add: fits_def)
  then obtain v where v: "add_rpath rcap skip path u = Inr v" "scanned skip [] [path] u v" "lpath v = lpath u"
    "length (rpath v) \<le> length (rpath u) + length path + 1"
    using add_rpath_fits by blast
  then show ?thesis using u(1,3) r assms scanned_trans [OF u(2) v(2)] by (simp add: fits_def)
qed

lemma bind_res_assoc: "bind_res (bind_res r f) g = bind_res r (\<lambda>x. bind_res (f x) g)"
  by (cases r) simp_all

lemma scan_fits:
  "fits lcap rcap (weight as + room) st \<Longrightarrow>
     \<exists>st'. scan_args lcap rcap skip as st = Inr st' \<and> fits lcap rcap room st' \<and> scanned skip as (requested as) st st'"
proof (induction as arbitrary: st rule: induct_list012)
  case 1
  then show ?case by (simp add: scanned_def)
next
  case (2 a)
  show ?case
  proof (cases "take 2 a = ''-R'' \<or> take 2 a = ''-L''")
    case opt: True
    show ?thesis
    proof (cases "drop 2 a = []")
      case True
      then show ?thesis using 2 opt by (simp add: fits_def scanned_def)
    next
      case False
      have "fits lcap rcap (length (drop 2 a) + 1 + room) st" by (rule fits_mono [OF 2]) simp
      then show ?thesis using path_step [of lcap rcap "drop 2 a" room st "take 2 a = ''-L''" "[a]" skip] opt False
        by (auto simp: bind_res_assoc [symmetric])
    qed
  next
    case False
    then show ?thesis using 2 by (auto simp: fits_def keep_arg_def Let_def scanned_def)
  qed
next
  case (3 a b as)
  show ?case
  proof (cases "take 2 a = ''-R'' \<or> take 2 a = ''-L''")
    case opt: True
    show ?thesis
    proof (cases "drop 2 a = []")
      case True
      have "fits lcap rcap (length b + 1 + (weight as + room)) st" by (rule fits_mono [OF 3(3)]) simp
      then obtain u where u: "bind_res (if take 2 a = ''-L'' then add_lpath lcap b [a, b] st else Inr st) (add_rpath rcap skip b) = Inr u"
          "fits lcap rcap (weight as + room) u" "scanned skip [a, b] [b] st u"
        using path_step [of lcap rcap b "weight as + room" st "take 2 a = ''-L''" "[a, b]" skip] by blast
      then have "scan_args lcap rcap skip (a # b # as) st = scan_args lcap rcap skip as u"
        using opt True by (simp add: bind_res_assoc [symmetric])
      moreover have "requested (a # b # as) = [b] @ requested as" using opt True by simp
      ultimately show ?thesis using 3(1) [OF u(2)] scanned_trans [OF u(3)] by fastforce
    next
      case False
      have "fits lcap rcap (length (drop 2 a) + 1 + (weight (b # as) + room)) st" by (rule fits_mono [OF 3(3)]) simp
      then obtain u where u: "bind_res (if take 2 a = ''-L'' then add_lpath lcap (drop 2 a) [a] st else Inr st) (add_rpath rcap skip (drop 2 a)) = Inr u"
          "fits lcap rcap (weight (b # as) + room) u" "scanned skip [a] [drop 2 a] st u"
        using path_step [of lcap rcap "drop 2 a" "weight (b # as) + room" st "take 2 a = ''-L''" "[a]" skip] by blast
      then have "scan_args lcap rcap skip (a # b # as) st = scan_args lcap rcap skip (b # as) u"
        unfolding scan_args.simps(2) [of lcap rcap skip a "b # as"] if_P [OF opt] if_not_P [OF False] bind_res_assoc [symmetric] by simp
      moreover have "requested (a # b # as) = [drop 2 a] @ requested (b # as)"
        unfolding requested.simps(2) [of a "b # as"] if_P [OF opt] if_not_P [OF False] by simp
      moreover obtain v where "scan_args lcap rcap skip (b # as) u = Inr v" "fits lcap rcap room v" "scanned skip (b # as) (requested (b # as)) u v"
        using 3(2) [OF u(2)] by blast
      moreover have "scanned skip (a # b # as) ([drop 2 a] @ requested (b # as)) st v"
        using scanned_trans [OF u(3) calculation(5)] by simp
      ultimately show ?thesis by metis
    qed
  next
    case False
    define u where "u = (if a = ''-n32'' then st\<lparr>n32 := True\<rparr> else keep_arg a st)"
    have "fits lcap rcap (weight (b # as) + room) u"
      using 3(3) by (simp add: u_def fits_def keep_arg_def Let_def)
    then obtain v where v: "scan_args lcap rcap skip (b # as) u = Inr v" "fits lcap rcap room v" "scanned skip (b # as) (requested (b # as)) u v"
      using 3(2) by blast
    have "scanned skip [a] [] st u" by (simp add: u_def scanned_def keep_arg_def Let_def)
    from scanned_trans [OF this v(3)] have "scanned skip (a # b # as) (requested (b # as)) st v" by simp
    moreover have "scan_args lcap rcap skip (a # b # as) st = scan_args lcap rcap skip (b # as) u"
      using False unfolding scan_args.simps(2) [of lcap rcap skip a "b # as"] by (simp only: u_def if_False split: if_split) simp
    moreover have "requested (a # b # as) = requested (b # as)"
      unfolding requested.simps(2) [of a "b # as"] if_not_P [OF False] by simp
    ultimately show ?thesis using v by simp
  qed
qed

lemma split_colons_weight: "weight (split_colons s) = length s + 1"
proof (induction s rule: split_colons.induct)
  case (1 s)
  have l: "length s = length (takeWhile (\<lambda>c. c \<noteq> CHR '':'') s) + length (dropWhile (\<lambda>c. c \<noteq> CHR '':'') s)"
    by (metis length_append takeWhile_dropWhile_id)
  show ?case
  proof (cases "CHR '':'' \<in> set s")
    case True
    then have "dropWhile (\<lambda>c. c \<noteq> CHR '':'') s \<noteq> []" by (auto simp: dropWhile_eq_Nil_conv)
    then show ?thesis using 1 [OF True] l True by (subst split_colons.simps) (cases "dropWhile (\<lambda>c. c \<noteq> CHR '':'') s"; simp)
  next
    case False
    then have "dropWhile (\<lambda>c. c \<noteq> CHR '':'') s = []" by (auto simp: dropWhile_eq_Nil_conv)
    then show ?thesis using l False by (subst split_colons.simps) simp
  qed
qed

lemma length_weight: "d \<in> set ds \<Longrightarrow> length d + 1 \<le> weight ds"
  by (induction ds) auto

lemma split_colons_length: "d \<in> set (split_colons s) \<Longrightarrow> length d \<le> length s"
  using length_weight [of d "split_colons s"] by (simp add: split_colons_weight)

lemma fold_rpath_fits:
  "length (rpath st) + weight ps + 1 \<le> rcap \<Longrightarrow>
     \<exists>st'. fold_res (add_rpath rcap skip) ps st = Inr st' \<and> scanned skip [] ps st st'"
proof (induction ps arbitrary: st)
  case (Cons p ps)
  have "length (rpath st) + length p + 2 \<le> rcap" using Cons(2) by simp
  then obtain u where u: "add_rpath rcap skip p st = Inr u" "scanned skip [] [p] st u"
    "length (rpath u) \<le> length (rpath st) + length p + 1"
    using add_rpath_fits by blast
  then obtain v where "fold_res (add_rpath rcap skip) ps u = Inr v" "scanned skip [] ps u v"
    using Cons(1) [of u] Cons(2) by auto
  then show ?case using u(1) scanned_trans [OF u(2)] by fastforce
qed (simp add: scanned_def)

text \<open>The file that is executed: the first one found in \<open>PATH\<close>, or the name as it was given.\<close>

definition found_program :: "string option \<Rightarrow> (string \<Rightarrow> bool) \<Rightarrow> string \<Rightarrow> string" where
  "found_program path found prog =
     (case path of
        None \<Rightarrow> prog
      | Some path \<Rightarrow>
          if take 1 prog = ''/'' then prog
          else (case find found (map (\<lambda>d. d @ ''/'' @ prog) (split_colons path)) of None \<Rightarrow> prog | Some q \<Rightarrow> q))"

lemma search_path_fits:
  "(\<And>d. d \<in> set ds \<Longrightarrow> length d + length prog + 2 \<le> cap) \<Longrightarrow>
     search_path cap found prog ds = Inr (case find found (map (\<lambda>d. d @ ''/'' @ prog) ds) of None \<Rightarrow> prog | Some q \<Rightarrow> q)"
proof (induction ds)
  case (Cons d ds)
  have "\<not> cap < length d + 1 + length prog + 1" using Cons(2) [of d] by simp
  then show ?case using Cons by simp
qed simp

lemma append_cells_result:
  "n + length cs \<le> length arr \<Longrightarrow> append_cells n cs arr = Inr (take n arr @ cs @ drop (n + length cs) arr)"
proof (induction cs arbitrary: n arr)
  case (Cons c cs)
  then have "take (Suc n) (arr[n := c]) = take n arr @ [c]" by (simp add: take_Suc_conv_app_nth)
  then show ?case using Cons by simp
qed simp

lemma passed_args_result: "passed_args (map Arg as @ Null # cs) = Inr as"
  by (induction as) simp_all

text \<open>What is executed when no option is taken apart.\<close>

lemma build_args_result:
  assumes "\<not> strips meth prog st" "new_argv st = a # as" "length as + 8 < argc + 150"
  shows "build_args meth skip argc prog st =
    Inr (a # (if n32 st then [''-n32''] else []) @ as @
      (if \<not> skip \<and> rpath_in_use st then rpath_args meth (linking st) (butlast (rpath st)) else []))"
proof -
  define added where "added = (if \<not> skip \<and> rpath_in_use st then rpath_args meth (linking st) (butlast (rpath st)) else [])"
  define args where "args = a # (if n32 st then [''-n32''] else []) @ as"
  define k where "k = argc + 150 - length (new_argv st)"
  have four: "length added \<le> 4" by (simp add: added_def rpath_args_def Let_def split: rpath_method.split)
  have ins: "insert_n32 (Suc (length as)) (map Arg (a # as) @ replicate k Junk) =
      map Arg (a # ''-n32'' # as) @ replicate (k - 1) Junk"
    by (simp add: insert_n32_def)
  obtain j where arr: "(if n32 st then (length (new_argv st) + 1, insert_n32 (length (new_argv st)) (map Arg (new_argv st) @ replicate k Junk))
      else (length (new_argv st), map Arg (new_argv st) @ replicate k Junk)) = (length args, map Arg args @ replicate j Junk)" "6 \<le> j"
    using ins assms(2,3) by (cases "n32 st") (simp_all add: args_def k_def)
  have "append_cells (length args) (map Arg added @ [Null]) (map Arg args @ replicate j Junk) =
      Inr (map Arg (args @ added) @ Null # drop (length added + 1) (replicate j Junk))"
    using four arr(2) by (simp add: append_cells_result)
  then have "build_args meth skip argc prog st = passed_args (map Arg (args @ added) @ Null # drop (length added + 1) (replicate j Junk))"
    unfolding build_args_def Let_def if_not_P [OF assms(1)] bind_res_simps k_def [symmetric] added_def [symmetric] arr(1) by simp
  then show ?thesis by (simp only: passed_args_result) (simp add: args_def added_def)
qed

text \<open>A buffer that holds paths without a colon.\<close>

definition colons :: "string list \<Rightarrow> string" where
  "colons ps = concat (map (\<lambda>p. p @ '':'') ps)"

definition add_new :: "string \<Rightarrow> string list \<Rightarrow> string list" where
  "add_new p ps = (if p = [] \<or> p \<in> set ps then ps else ps @ [p])"

lemma take_colon:
  "CHR '':'' \<notin> set p \<Longrightarrow> CHR '':'' \<notin> set q \<Longrightarrow> take (length p + 1) (q @ CHR '':'' # r) = p @ '':'' \<longleftrightarrow> p = q"
proof (induction p arbitrary: q)
  case Nil
  then show ?case by (cases q) auto
next
  case (Cons c p)
  then show ?case by (cases q) auto
qed

lemma in_path_colons:
  "CHR '':'' \<notin> set p \<Longrightarrow> \<forall>q \<in> set ps. CHR '':'' \<notin> set q \<Longrightarrow> in_path p (colons ps) \<longleftrightarrow> p \<in> set ps"
proof (induction ps)
  case Nil
  then show ?case by (subst in_path.simps) (simp add: colons_def)
next
  case (Cons q ps)
  have q: "\<forall>c \<in> set q. c \<noteq> CHR '':''" using Cons(3) by auto
  have c: "colons (q # ps) = q @ CHR '':'' # colons ps" by (simp add: colons_def)
  have "dropWhile (\<lambda>c. c \<noteq> CHR '':'') (q @ CHR '':'' # colons ps) = CHR '':'' # colons ps"
    using q by (simp add: dropWhile_append2)
  then have "in_path p (colons (q # ps)) \<longleftrightarrow> p = q \<or> in_path p (colons ps)"
    unfolding c using take_colon [of p q] Cons(2,3) by (subst in_path.simps) simp
  then show ?case using Cons by simp
qed

lemma push_colons:
  "\<forall>p \<in> set ps \<union> set qs. CHR '':'' \<notin> set p \<Longrightarrow> fold push ps (colons qs) = colons (fold add_new ps qs)"
proof (induction ps arbitrary: qs)
  case (Cons p ps)
  have "push p (colons qs) = colons (add_new p qs)"
    using in_path_colons [of p qs] Cons(2) by (auto simp: push_def add_new_def colons_def)
  then show ?case using Cons(1) [of "add_new p qs"] Cons(2) by (simp add: add_new_def)
qed simp

lemma split_colons_clean: "d \<in> set (split_colons s) \<Longrightarrow> CHR '':'' \<notin> set d"
proof (induction s rule: split_colons.induct)
  case (1 s)
  then show ?case by (subst (asm) (2) split_colons.simps) (auto split: if_splits dest: set_takeWhileD)
qed

lemma fold_push_nonempty: "buffer \<noteq> [] \<or> (\<exists>p \<in> set ps. p \<noteq> []) \<Longrightarrow> fold push ps buffer \<noteq> []"
proof (induction ps arbitrary: buffer)
  case (Cons p ps)
  have "push p buffer \<noteq> []" if "buffer \<noteq> [] \<or> p \<noteq> []"
    using that by (cases buffer) (auto simp: push_def in_path.simps [of p "[]"])
  then show ?case using Cons by auto
qed simp

text \<open>
  What is left of the arguments: everything but the options that name paths and \<open>-n32\<close>, and of the
  former each \<open>-L\<close> with a path that no \<open>-L\<close> before it has named.
\<close>

fun others :: "string list \<Rightarrow> string list" where
  "others [] = []"
| "others (a # as) =
     (if take 2 a = ''-R'' \<or> take 2 a = ''-L'' then (if drop 2 a = [] then (case as of [] \<Rightarrow> [] | b # bs \<Rightarrow> others bs) else others as)
      else a # others as)"

fun kept_args :: "string list \<Rightarrow> string list \<Rightarrow> string list" where
  "kept_args seen [] = []"
| "kept_args seen (a # as) =
     (if take 2 a = ''-R'' \<or> take 2 a = ''-L'' then
        (if drop 2 a = [] then
           (case as of
              [] \<Rightarrow> []
            | b # bs \<Rightarrow>
                if take 2 a = ''-L'' \<and> b \<noteq> [] \<and> b \<notin> set seen then a # b # kept_args (seen @ [b]) bs else kept_args seen bs)
         else if take 2 a = ''-L'' \<and> drop 2 a \<notin> set seen then a # kept_args (seen @ [drop 2 a]) as
         else kept_args seen as)
      else if a = ''-n32'' then kept_args seen as
      else a # kept_args seen as)"

lemma add_lpath_colons:
  assumes "add_lpath cap p args st = Inr st'" "lpath st = colons seen" "\<forall>q \<in> set (p # seen). CHR '':'' \<notin> set q"
  shows "n32 st' = n32 st \<and>
    (if p \<noteq> [] \<and> p \<notin> set seen then lpath st' = colons (seen @ [p]) \<and> new_argv st' = new_argv st @ args
     else lpath st' = colons seen \<and> new_argv st' = new_argv st)"
  using assms in_path_colons [of p seen]
  by (auto simp: add_lpath_def add_path_def colons_def split: if_splits)

lemma add_rpath_keeps_lpath: "add_rpath cap skip p st = Inr st' \<Longrightarrow> lpath st' = lpath st"
  by (auto simp: add_rpath_def bind_res_Inr split: if_splits)

lemma scan_keeps:
  "scan_args lcap rcap skip as st = Inr st' \<Longrightarrow> lpath st = colons seen \<Longrightarrow>
   \<forall>q \<in> set (requested as @ seen). CHR '':'' \<notin> set q \<Longrightarrow>
     new_argv st' = new_argv st @ kept_args seen as \<and> (n32 st' \<longleftrightarrow> n32 st \<or> ''-n32'' \<in> set (others as))"
proof (induction seen as arbitrary: st rule: kept_args.induct)
  case (1 seen)
  then show ?case by simp
next
  case (2 seen a as)
  show ?case
  proof (cases "take 2 a = ''-R'' \<or> take 2 a = ''-L''")
    case opt: True
    show ?thesis
    proof (cases "drop 2 a = []")
      case empty: True
      show ?thesis
      proof (cases as)
        case Nil
        then show ?thesis using 2(7) opt empty by simp
      next
        case (Cons b bs)
        then obtain t u where t: "(if take 2 a = ''-L'' then add_lpath lcap b [a, b] st else Inr st) = Inr t"
          and u: "add_rpath rcap skip b t = Inr u" and st': "scan_args lcap rcap skip bs u = Inr st'"
          using 2(7) opt empty by (auto simp: bind_res_Inr)
        have c: "\<forall>q \<in> set (b # seen). CHR '':'' \<notin> set q" "\<forall>q \<in> set (requested bs @ seen @ [b]). CHR '':'' \<notin> set q"
          using 2(9) Cons opt empty by auto
        show ?thesis
        proof (cases "take 2 a = ''-L'' \<and> b \<noteq> [] \<and> b \<notin> set seen")
          case new: True
          then have "lpath u = colons (seen @ [b])" "new_argv u = new_argv st @ [a, b]" "n32 u = n32 st"
            using add_lpath_colons [OF _ 2(8) c(1), of lcap "[a, b]" t] t add_rpath_keeps [OF u] add_rpath_keeps_lpath [OF u] by simp_all
          then show ?thesis using 2(1) [OF opt empty Cons new st'] c(2) Cons opt empty new by simp
        next
          case old: False
          then have "lpath u = colons seen" "new_argv u = new_argv st" "n32 u = n32 st"
            using add_lpath_colons [OF _ 2(8) c(1), of lcap "[a, b]" t] t 2(8) add_rpath_keeps [OF u] add_rpath_keeps_lpath [OF u]
            by (auto split: if_splits)
          then show ?thesis using 2(2) [OF opt empty Cons old st'] c(2) Cons opt empty old by auto
        qed
      qed
    next
      case full: False
      then obtain t u where t: "(if take 2 a = ''-L'' then add_lpath lcap (drop 2 a) [a] st else Inr st) = Inr t"
        and u: "add_rpath rcap skip (drop 2 a) t = Inr u" and st': "scan_args lcap rcap skip as u = Inr st'"
        using 2(7) opt by (auto simp: bind_res_Inr)
      have c: "\<forall>q \<in> set (drop 2 a # seen). CHR '':'' \<notin> set q" "\<forall>q \<in> set (requested as @ seen @ [drop 2 a]). CHR '':'' \<notin> set q"
        using 2(9) opt full by auto
      show ?thesis
      proof (cases "take 2 a = ''-L'' \<and> drop 2 a \<notin> set seen")
        case new: True
        then have "lpath u = colons (seen @ [drop 2 a])" "new_argv u = new_argv st @ [a]" "n32 u = n32 st"
          using add_lpath_colons [OF _ 2(8) c(1), of lcap "[a]" t] t full add_rpath_keeps [OF u] add_rpath_keeps_lpath [OF u] by simp_all
        then show ?thesis using 2(3) [OF opt full new st'] c(2) opt full new by simp
      next
        case old: False
        then have "lpath u = colons seen" "new_argv u = new_argv st" "n32 u = n32 st"
          using add_lpath_colons [OF _ 2(8) c(1), of lcap "[a]" t] t 2(8) add_rpath_keeps [OF u] add_rpath_keeps_lpath [OF u]
          by (auto split: if_splits)
        then show ?thesis using 2(4) [OF opt full old st'] c(2) opt full old by auto
      qed
    qed
  next
    case False
    define u where "u = (if a = ''-n32'' then st\<lparr>n32 := True\<rparr> else keep_arg a st)"
    have s: "scan_args lcap rcap skip as u = Inr st'" using 2(7) False by (cases "a = ''-n32''") (simp_all add: u_def)
    have c: "\<forall>q \<in> set (requested as @ seen). CHR '':'' \<notin> set q" using 2(9) False by simp
    have l: "lpath u = colons seen" using 2(8) by (simp add: u_def keep_arg_def Let_def)
    show ?thesis
    proof (cases "a = ''-n32''")
      case True
      then show ?thesis using 2(5) [OF False True _ l] s c False by (simp add: u_def)
    next
      case other: False
      then show ?thesis using 2(6) [OF False other s l c] False by (simp add: u_def keep_arg_def Let_def)
    qed
  qed
qed

section \<open>What the program executes\<close>

definition skips :: "(string \<Rightarrow> string option) \<Rightarrow> bool" where
  "skips getenv \<longleftrightarrow> getenv ''DEB_BUILD_ARCH'' \<noteq> None \<or> getenv ''NO_RPATH_PLEASE'' \<noteq> None"

text \<open>The paths of the arguments and of the environment.\<close>

definition library_paths :: "string list \<Rightarrow> string option \<Rightarrow> string list" where
  "library_paths args ld = requested args @ (case ld of None \<Rightarrow> [] | Some s \<Rightarrow> split_colons s)"

lemma rpath_prefix_length: "length (rpath_prefix meth) \<le> 16"
  by (cases meth) (simp_all add: rpath_prefix_def)

lemma buffer_room:
  "weight args + (case ld of None \<Rightarrow> 0 | Some s \<Rightarrow> length s + 1) + 1 + 16 \<le> buffer_size (me # prog # args) ld"
  by (cases ld) (simp_all add: buffer_size_def weight_lengths)

lemma main_result:
  assumes "prog \<noteq> ''-v''" "meth = Wl \<or> \<not> is_ld prog"
  obtains st xs e u cap rcap where
    "scanned (skips getenv) args (library_paths args (getenv ''LD_LIBRARY_PATH''))
       \<lparr>lpath = [], rpath = [], rpath_in_use = False, new_argv = [prog], n32 = False, linking = (prog \<noteq> ''cpp'')\<rparr> st"
    "main meth getenv found (me # prog # args) = Inr (Exec (found_program (getenv ''PATH'') found prog)
       (prog # (if n32 st then [''-n32''] else []) @ xs @
         (if \<not> skips getenv \<and> rpath_in_use st then rpath_args meth (linking st) (butlast (rpath st)) else []))
       (''LD_PXDB=/dev/null'' # (if getenv ''SGI_ABI'' = None then [''SGI_ABI=-n32''] else []) @ e))"
    "subseq xs args"
    "if \<not> skips getenv \<and> rpath_in_use st \<and> meth = LD_LIBRARY_PATH
     then run_path_env (rpath_prefix meth @ butlast (rpath st)) = Inr e else e = []"
    "scan_args cap rcap (skips getenv) args
       \<lparr>lpath = [], rpath = [], rpath_in_use = False, new_argv = [prog], n32 = False, linking = (prog \<noteq> ''cpp'')\<rparr> = Inr u"
    "new_argv u = prog # xs" "n32 u = n32 st"
proof -
  define argv where "argv = me # prog # args"
  define ld where "ld = getenv ''LD_LIBRARY_PATH''"
  define skip where "skip = skips getenv"
  define prefix where "prefix = (if skip then [] else rpath_prefix meth)"
  define cap where "cap = buffer_size argv ld"
  define st where "st = \<lparr>lpath = [], rpath = [], rpath_in_use = False, new_argv = [prog], n32 = False, linking = (prog \<noteq> ''cpp'')\<rparr>"
  define room where "room = (case ld of None \<Rightarrow> 0 | Some s \<Rightarrow> length s + 1)"
  have prefix: "length prefix \<le> 16" by (simp add: prefix_def rpath_prefix_length)
  have room: "weight args + room + 1 + 16 \<le> cap" using buffer_room by (simp add: room_def cap_def argv_def)
  then have "fits cap (cap - length prefix) (weight args + room) st" using prefix by (simp add: fits_def st_def)
  then obtain u where u: "scan_args cap (cap - length prefix) skip args st = Inr u" "fits cap (cap - length prefix) room u"
    "scanned skip args (requested args) st u"
    using scan_fits by blast
  define env_paths where "env_paths = (case ld of None \<Rightarrow> [] | Some s \<Rightarrow> split_colons s)"
  have "length (rpath u) + weight env_paths + 1 \<le> cap - length prefix"
    using u(2) by (cases ld) (simp_all add: fits_def room_def env_paths_def split_colons_weight)
  then obtain v where v: "fold_res (add_rpath (cap - length prefix) skip) env_paths u = Inr v" "scanned skip [] env_paths u v"
    using fold_rpath_fits by blast
  have sv: "scanned skip args (library_paths args ld) st v"
    using scanned_trans [OF u(3) v(2)] by (simp add: library_paths_def env_paths_def)
  then obtain xs where xs: "new_argv v = prog # xs" "subseq xs args" by (auto simp: scanned_def st_def)
  have ns: "\<not> strips meth prog v" using assms(2) by (auto simp: strips_def)
  have "length xs + 8 < length argv + 150" using list_emb_length [OF xs(2)] by (simp add: argv_def)
  note b = build_args_result [OF ns xs(1) this, of skip]
  have "\<exists>env. (if \<not> skip \<and> rpath_in_use v \<and> meth = LD_LIBRARY_PATH then run_path_env (prefix @ butlast (rpath v)) else Inr []) = Inr env"
    by (simp add: run_path_env_def prefix_def rpath_prefix_def Let_def)
  then obtain env where env:
    "(if \<not> skip \<and> rpath_in_use v \<and> meth = LD_LIBRARY_PATH then run_path_env (prefix @ butlast (rpath v)) else Inr []) = Inr env" by blast
  define p where "p = found_program (getenv ''PATH'') found prog"
  have p: "(case getenv ''PATH'' of
      Some path \<Rightarrow> if take 1 prog \<noteq> ''/'' then search_path (length path + length prog + 4) found prog (split_colons path) else Inr prog
    | None \<Rightarrow> Inr prog) = Inr p"
  proof (cases "getenv ''PATH''")
    case (Some path)
    have "search_path (length path + length prog + 4) found prog (split_colons path) =
        Inr (case find found (map (\<lambda>d. d @ ''/'' @ prog) (split_colons path)) of None \<Rightarrow> prog | Some q \<Rightarrow> q)"
      by (rule search_path_fits) (auto dest: split_colons_length)
    then show ?thesis using Some by (simp add: p_def found_program_def)
  qed (simp add: p_def found_program_def)
  have fold: "(case ld of None \<Rightarrow> Inr u | Some s \<Rightarrow> fold_res (add_rpath (cap - length prefix) skip) (split_colons s) u) = Inr v"
    using v(1) by (cases ld) (simp_all add: env_paths_def)
  have two: "\<not> length argv < 2" "argv ! 1 = prog" "drop 2 argv = args" by (simp_all add: argv_def)
  have cap: "\<not> cap < length prefix + 1" using prefix room by simp
  have name: "name_after (strips meth prog v) prog = prog" using ns by (simp add: name_after_def)
  have "main meth getenv found argv = Inr (Exec p
       (prog # (if n32 v then [''-n32''] else []) @ xs @
         (if \<not> skip \<and> rpath_in_use v then rpath_args meth (linking v) (butlast (rpath v)) else []))
       (''LD_PXDB=/dev/null'' # (if getenv ''SGI_ABI'' = None then [''SGI_ABI=-n32''] else []) @ env))"
    unfolding main_def Let_def two if_not_P [OF two(1)] if_not_P [OF assms(1)] skips_def [symmetric] skip_def [symmetric]
      ld_def [symmetric] prefix_def [symmetric] cap_def [symmetric] if_not_P [OF cap] st_def [symmetric] u(1) bind_res_simps fold b env name p ..
  note m = this
  have e: "if \<not> skip \<and> rpath_in_use v \<and> meth = LD_LIBRARY_PATH
     then run_path_env (rpath_prefix meth @ butlast (rpath v)) = Inr env else env = []"
    using env by (cases "\<not> skip \<and> rpath_in_use v \<and> meth = LD_LIBRARY_PATH") (auto simp: prefix_def)
  have "new_argv v = new_argv u \<and> n32 v = n32 u"
    by (rule fold_res_keeps [where I = "\<lambda>t. new_argv t = new_argv u \<and> n32 t = n32 u", OF _ _ v(1)]) (auto dest: add_rpath_keeps)
  then have k: "new_argv u = prog # xs" "n32 u = n32 v" using xs(1) by simp_all
  show ?thesis
    using that [OF sv [unfolded ld_def skip_def st_def] m [unfolded argv_def p_def skip_def] xs(2) e [unfolded skip_def]
        u(1) [unfolded skip_def st_def] k] .
qed

section \<open>Properties\<close>

text \<open>An option for the compiler with one comma, in front of one more argument.\<close>

lemma strip_drops:
  assumes "CHR '','' \<notin> set x" "CHR '','' \<notin> set y"
  shows "strip_Wl 4 (Suc (Suc (Suc 0))) 0 (Arg ''ld'' # Arg (''-Wl,'' @ x @ '','' @ y) # Arg f # Junk # Junk # Junk # cs) =
    Inr (Arg ''ld'' # Arg x # Arg y # Arg f # Junk # Junk # cs)"
proof -
  have x: "\<forall>c \<in> set x. c \<noteq> CHR '',''" using assms(1) by auto
  have "shift_cells 4 1 (Arg ''ld'' # Arg x # Arg f # Junk # Junk # Junk # cs) =
      Arg ''ld'' # Arg x # Arg x # Arg f # Junk # Junk # cs"
    by (simp add: shift_cells_def)
  then have "split_commas 4 1 (x @ '','' @ y) (Arg ''ld'' # Arg (x @ '','' @ y) # Arg f # Junk # Junk # Junk # cs) =
      split_commas 4 2 y (Arg ''ld'' # Arg x # Arg y # Arg f # Junk # Junk # cs)"
    using x by (subst split_commas.simps) (simp add: takeWhile_append2 dropWhile_append2 Let_def numeral_2_eq_2)
  also have "\<dots> = Inr (Arg ''ld'' # Arg x # Arg y # Arg f # Junk # Junk # cs, 2)"
    using assms(2) by (subst split_commas.simps) simp
  finally have c: "split_commas 4 1 (x @ '','' @ y) (Arg ''ld'' # Arg (x @ '','' @ y) # Arg f # Junk # Junk # Junk # cs) =
    Inr (Arg ''ld'' # Arg x # Arg y # Arg f # Junk # Junk # cs, 2)" .
  have "strip_Wl 4 (Suc (Suc (Suc 0))) 0 (Arg ''ld'' # Arg (''-Wl,'' @ x @ '','' @ y) # Arg f # Junk # Junk # Junk # cs) =
      strip_Wl 4 (Suc (Suc (Suc 0))) 1 (Arg ''ld'' # Arg (''-Wl,'' @ x @ '','' @ y) # Arg f # Junk # Junk # Junk # cs)"
    by (subst strip_Wl.simps) simp
  also have "\<dots> = strip_Wl 4 (Suc (Suc (Suc 0))) 3 (Arg ''ld'' # Arg x # Arg y # Arg f # Junk # Junk # cs)"
    using c by (subst strip_Wl.simps) simp
  also have "\<dots> = Inr (Arg ''ld'' # Arg x # Arg y # Arg f # Junk # Junk # cs)"
    by (subst strip_Wl.simps) simp
  finally show ?thesis .
qed

text \<open>
  C31. No block is left when options for the compiler are not taken apart: whatever the arguments, the environment and
  the files found, the program ends with a message or executes something.
\<close>

theorem smartlink_stays_in_bounds:
  "meth = Wl \<or> \<not> is_ld (argv ! 1) \<Longrightarrow> \<exists>out. main meth getenv found argv = Inr out"
proof -
  assume a: "meth = Wl \<or> \<not> is_ld (argv ! 1)"
  consider "length argv < 2" | "\<not> length argv < 2" "argv ! 1 = ''-v''" | me prog args where "argv = me # prog # args" "prog \<noteq> ''-v''"
    by (cases argv rule: remdups_adj.cases) auto
  then show ?thesis
  proof cases
    case 3
    then show ?thesis using a main_result [of prog meth getenv args found me] by (metis One_nat_def nth_Cons_0 nth_Cons_Suc)
  qed (simp_all add: main_def)
qed

theorem smartlink_stays_in_bounds_witness:
  "\<not> is_ld ''gcc'' \<and>
   (\<exists>out. main RPATH (\<lambda>_. None) (\<lambda>_. False) [''smartlink'', ''gcc'', ''-L/usr/lib'', ''main.o'', ''-R''] = Inr out)"
proof -
  have "\<not> is_ld ''gcc''" by code_simp
  then show ?thesis
    using smartlink_stays_in_bounds [of RPATH "[''smartlink'', ''gcc'', ''-L/usr/lib'', ''main.o'', ''-R'']" "\<lambda>_. None" "\<lambda>_. False"] by simp
qed

text \<open>
  C32. Where the compiler takes the run-time path as one option, a command that links is executed as follows, if neither \<open>DEB_BUILD_ARCH\<close>
  nor \<open>NO_RPATH_PLEASE\<close> is set, no path of \<open>-L\<close> or \<open>-R\<close> has a colon, at least one path is named, and the command is neither \<open>cpp\<close> nor \<open>-v\<close> and
  has no \<open>-c\<close> or \<open>-E\<close>. The program is the first file found in \<open>PATH\<close>. It gets \<open>-n32\<close> first if that was given, then exactly
  the other arguments in their order, without \<open>-R\<close> and its paths and without an \<open>-L\<close> whose path an \<open>-L\<close> before has named, and last the
  option: it holds every path named by \<open>-L\<close>, \<open>-R\<close> or \<open>LD_LIBRARY_PATH\<close>, once each and in the order of their first
  appearance, with colons between them.
\<close>

theorem smartlink_links_paths:
  assumes "prog \<noteq> ''-v''" "prog \<noteq> ''cpp''" "''-c'' \<notin> set args" "''-E'' \<notin> set args"
    and "getenv ''DEB_BUILD_ARCH'' = None" "getenv ''NO_RPATH_PLEASE'' = None"
    and "paths = library_paths args (getenv ''LD_LIBRARY_PATH'')"
    and "\<forall>p \<in> set (requested args). CHR '':'' \<notin> set p" "\<exists>p \<in> set paths. p \<noteq> []"
  shows "main Wl getenv found (me # prog # args) =
    Inr (Exec (found_program (getenv ''PATH'') found prog)
      (prog # (if ''-n32'' \<in> set (others args) then [''-n32''] else []) @ kept_args [] args @
        [''-Wl,-rpath,'' @ butlast (colons (fold add_new paths []))])
      (''LD_PXDB=/dev/null'' # (if getenv ''SGI_ABI'' = None then [''SGI_ABI=-n32''] else [])))"
proof -
  have sk: "\<not> skips getenv" using assms(5,6) by (simp add: skips_def)
  obtain st xs e u cap rcap where st:
    "scanned (skips getenv) args (library_paths args (getenv ''LD_LIBRARY_PATH''))
       \<lparr>lpath = [], rpath = [], rpath_in_use = False, new_argv = [prog], n32 = False, linking = (prog \<noteq> ''cpp'')\<rparr> st"
    "main Wl getenv found (me # prog # args) = Inr (Exec (found_program (getenv ''PATH'') found prog)
       (prog # (if n32 st then [''-n32''] else []) @ xs @
         (if \<not> skips getenv \<and> rpath_in_use st then rpath_args Wl (linking st) (butlast (rpath st)) else []))
       (''LD_PXDB=/dev/null'' # (if getenv ''SGI_ABI'' = None then [''SGI_ABI=-n32''] else []) @ e))"
    "if \<not> skips getenv \<and> rpath_in_use st \<and> Wl = LD_LIBRARY_PATH
     then run_path_env (rpath_prefix Wl @ butlast (rpath st)) = Inr e else e = []"
    and u: "scan_args cap rcap (skips getenv) args
       \<lparr>lpath = [], rpath = [], rpath_in_use = False, new_argv = [prog], n32 = False, linking = (prog \<noteq> ''cpp'')\<rparr> = Inr u"
      "new_argv u = prog # xs" "n32 u = n32 st"
    by (rule main_result [OF assms(1), of Wl getenv args found me]) (simp, rule that)
  have k: "xs = kept_args [] args" "n32 st \<longleftrightarrow> ''-n32'' \<in> set (others args)"
    using scan_keeps [OF u(1), of "[]"] u(2,3) assms(8) by (auto simp: colons_def)
  have "\<forall>p \<in> set paths. CHR '':'' \<notin> set p"
    using assms(7,8) by (auto simp: library_paths_def dest: split_colons_clean split: option.splits)
  then have "fold push paths [] = colons (fold add_new paths [])" using push_colons [of paths "[]"] by (simp add: colons_def)
  then have r: "rpath st = colons (fold add_new paths [])" using st(1) sk assms(7) by (simp add: scanned_def)
  have "linking st" "rpath_in_use st \<longleftrightarrow> rpath st \<noteq> []" using st(1) assms(2-4) by (simp_all add: scanned_def)
  moreover have "fold push paths [] \<noteq> []" using assms(9) by (intro fold_push_nonempty) blast
  then have "rpath st \<noteq> []" using sk assms(7) st(1) by (simp add: scanned_def)
  ultimately have "rpath_args Wl (linking st) (butlast (rpath st)) = [''-Wl,-rpath,'' @ butlast (colons (fold add_new paths []))]" "rpath_in_use st"
    by (simp_all add: rpath_args_def rpath_prefix_def r)
  moreover have "e = []" using st(3) by simp
  ultimately show ?thesis using st(2) sk k by (simp only: simp_thms if_True append_Nil2)
qed

theorem smartlink_links_paths_witness:
  "main Wl [''LD_LIBRARY_PATH'' \<mapsto> ''/usr/local/lib:/opt/lib'', ''PATH'' \<mapsto> ''/bin:/usr/bin''] (\<lambda>f. f = ''/usr/bin/gcc'')
      [''smartlink'', ''gcc'', ''main.o'', ''-L/opt/lib'', ''-n32'', ''-lz'', ''-L'', ''/opt/lib'', ''-R'', ''/opt/lib''] =
    Inr (Exec ''/usr/bin/gcc'' [''gcc'', ''-n32'', ''main.o'', ''-L/opt/lib'', ''-lz'', ''-Wl,-rpath,/opt/lib:/usr/local/lib'']
      [''LD_PXDB=/dev/null'', ''SGI_ABI=-n32''])"
proof -
  let ?args = "[''main.o'', ''-L/opt/lib'', ''-n32'', ''-lz'', ''-L'', ''/opt/lib'', ''-R'', ''/opt/lib'']"
  let ?paths = "[''/opt/lib'', ''/opt/lib'', ''/opt/lib'', ''/usr/local/lib'', ''/opt/lib'']"
  have "library_paths ?args (Some ''/usr/local/lib:/opt/lib'') = ?paths"
    "butlast (colons (fold add_new ?paths [])) = ''/opt/lib:/usr/local/lib''"
    "requested ?args = [''/opt/lib'', ''/opt/lib'', ''/opt/lib'']"
    "kept_args [] ?args = [''main.o'', ''-L/opt/lib'', ''-lz'']" "''-n32'' \<in> set (others ?args)"
    "found_program (Some ''/bin:/usr/bin'') (\<lambda>f. f = ''/usr/bin/gcc'') ''gcc'' = ''/usr/bin/gcc''"
    by code_simp+
  then show ?thesis
    using smartlink_links_paths [of "''gcc''" ?args "[''LD_LIBRARY_PATH'' \<mapsto> ''/usr/local/lib:/opt/lib'', ''PATH'' \<mapsto> ''/bin:/usr/bin'']" ?paths
        "\<lambda>f. f = ''/usr/bin/gcc''" "''smartlink''"]
    by (simp del: others.simps kept_args.simps requested.simps)
qed

text \<open>
  C34. Taking an option for the compiler apart gives the linker more arguments, but the program goes on with the old
  number of them: the null pointer falls on the last one, and a file behind the option is not linked.
\<close>

theorem smartlink_drops_argument:
  assumes "CHR '','' \<notin> set x" "CHR '','' \<notin> set y" "f \<noteq> []" "hd f \<noteq> CHR ''-''" "meth \<noteq> Wl"
  shows "main meth (\<lambda>_. None) found [me, ''ld'', ''-Wl,'' @ x @ '','' @ y, f] =
    Inr (Exec ''ld'' [''ld'', x, y] [''LD_PXDB=/dev/null'', ''SGI_ABI=-n32''])"
proof -
  have f: "take 2 f \<noteq> ''-R''" "take 2 f \<noteq> ''-L''" "f \<noteq> ''-n32''" "f \<noteq> ''-c''" "f \<noteq> ''-E''"
    using assms(3,4) by (cases f; auto)+
  define o' where "o' = ''-Wl,'' @ x @ '','' @ y"
  define st where "st = \<lparr>lpath = [], rpath = [], rpath_in_use = False, new_argv = [''ld'', o', f], n32 = False, linking = True\<rparr>"
  have scan: "scan_args lcap rcap False [o', f] \<lparr>lpath = [], rpath = [], rpath_in_use = False, new_argv = [''ld''], n32 = False, linking = True\<rparr> = Inr st"
    for lcap rcap using f by (simp add: o'_def keep_arg_def st_def)
  have j: "replicate 151 Junk = Junk # Junk # Junk # replicate 148 Junk" by (simp add: numeral_eq_Suc)
  have s: "strips meth ''ld'' st" using assms(5) by (simp add: strips_def st_def is_ld_def Let_def)
  have "build_args meth False 4 ''ld'' st = Inr [''ld'', x, y]"
    unfolding build_args_def Let_def if_P [OF s]
    using strip_drops [OF assms(1,2), of f "replicate 148 Junk"]
    by (simp add: st_def j o'_def)
  then have "build_args meth False (Suc (Suc (Suc (Suc 0)))) ''ld'' st = Inr [''ld'', x, y]" by (simp add: eval_nat_numeral)
  moreover have "\<not> rpath_in_use st" by (simp add: st_def)
  ultimately show ?thesis using rpath_prefix_length [of meth]
    unfolding o'_def [symmetric]
    by (simp add: main_def Let_def scan buffer_size_def name_after_def del: scan_args.simps)
qed

theorem smartlink_drops_argument_witness:
  "main R (\<lambda>_. None) (\<lambda>_. False) [''smartlink'', ''ld'', ''-Wl,-a,-b'', ''main.o''] =
    Inr (Exec ''ld'' [''ld'', ''-a'', ''-b''] [''LD_PXDB=/dev/null'', ''SGI_ABI=-n32''])"
  using smartlink_drops_argument [of "''-a''" "''-b''" "''main.o''" R "\<lambda>_. False" "''smartlink''"] by simp

text \<open>
  On a platform that takes run-time paths from the environment, \<open>LD_LIBRARY_PATH\<close> is not set after all: the second
  variable is written into the string of the first, which the environment still refers to.
\<close>

lemma smartlink_env_overwritten:
  assumes "prog \<noteq> ''-v''" "\<not> is_ld prog" "\<not> skips getenv"
    and "\<exists>p \<in> set (library_paths args (getenv ''LD_LIBRARY_PATH'')). p \<noteq> []"
  shows "\<exists>p as env. main LD_LIBRARY_PATH getenv found (me # prog # args) = Inr (Exec p as env) \<and>
    (\<exists>paths. ''LD_LLD_RUN_PATH='' @ paths \<in> set env) \<and> (\<forall>e \<in> set env. take 16 e \<noteq> ''LD_LIBRARY_PATH='')"
proof -
  obtain st xs e u cap rcap where st:
    "scanned (skips getenv) args (library_paths args (getenv ''LD_LIBRARY_PATH''))
       \<lparr>lpath = [], rpath = [], rpath_in_use = False, new_argv = [prog], n32 = False, linking = (prog \<noteq> ''cpp'')\<rparr> st"
    "main LD_LIBRARY_PATH getenv found (me # prog # args) = Inr (Exec (found_program (getenv ''PATH'') found prog)
       (prog # (if n32 st then [''-n32''] else []) @ xs @
         (if \<not> skips getenv \<and> rpath_in_use st then rpath_args LD_LIBRARY_PATH (linking st) (butlast (rpath st)) else []))
       (''LD_PXDB=/dev/null'' # (if getenv ''SGI_ABI'' = None then [''SGI_ABI=-n32''] else []) @ e))"
    "subseq xs args"
    "if \<not> skips getenv \<and> rpath_in_use st \<and> LD_LIBRARY_PATH = LD_LIBRARY_PATH
     then run_path_env (rpath_prefix LD_LIBRARY_PATH @ butlast (rpath st)) = Inr e else e = []"
    "scan_args cap rcap (skips getenv) args
       \<lparr>lpath = [], rpath = [], rpath_in_use = False, new_argv = [prog], n32 = False, linking = (prog \<noteq> ''cpp'')\<rparr> = Inr u"
    "new_argv u = prog # xs" "n32 u = n32 st"
    by (rule main_result [OF assms(1), of LD_LIBRARY_PATH getenv args found me])
      (simp add: assms(2), rule that)
  have "fold push (library_paths args (getenv ''LD_LIBRARY_PATH'')) [] \<noteq> []" using assms(4) by (intro fold_push_nonempty) blast
  then have "rpath st \<noteq> []" using assms(3) st(1) by (simp add: scanned_def)
  then have "rpath_in_use st" using st(1) by (simp add: scanned_def)
  then have "e = [''LD_LLD_RUN_PATH='' @ butlast (rpath st), ''LD_RUN_PATH='' @ butlast (rpath st)]"
    using st(4) assms(3) by (simp add: run_path_env_def rpath_prefix_def)
  then have "''LD_LLD_RUN_PATH='' @ butlast (rpath st) \<in> set (''LD_PXDB=/dev/null'' # (if getenv ''SGI_ABI'' = None then [''SGI_ABI=-n32''] else []) @ e)"
    "\<forall>s \<in> set (''LD_PXDB=/dev/null'' # (if getenv ''SGI_ABI'' = None then [''SGI_ABI=-n32''] else []) @ e). take 16 s \<noteq> ''LD_LIBRARY_PATH=''"
    by auto
  then show ?thesis using st(2) by blast
qed

lemma smartlink_env_overwritten_witness:
  "\<not> is_ld ''gcc'' \<and>
   (\<exists>p as env. main LD_LIBRARY_PATH (\<lambda>_. None) (\<lambda>_. False) [''smartlink'', ''gcc'', ''-R/opt/lib''] = Inr (Exec p as env) \<and>
    (\<exists>paths. ''LD_LLD_RUN_PATH='' @ paths \<in> set env) \<and> (\<forall>e \<in> set env. take 16 e \<noteq> ''LD_LIBRARY_PATH=''))"
proof -
  have "\<not> is_ld ''gcc''" by code_simp
  then show ?thesis
    using smartlink_env_overwritten [of "''gcc''" "\<lambda>_. None" "[''-R/opt/lib'']" "\<lambda>_. False" "''smartlink''"]
    by (simp add: library_paths_def skips_def)
qed

end
