(* ===== verification/Htpasswd.thy ===== *)
theory Htpasswd
  imports Caudium_Prelude
begin

text \<open>
  The password tool: \<^verbatim>\<open>src/tools/htpasswd.c\<close>. Files are a map from their names to their bytes. The program's own \<^verbatim>\<open>getline\<close>
  is commented out; what it calls, with that function's arguments (a buffer and a number), is the C library's, which takes the
  addresses of a pointer and of a size. What such a call does is an argument, and an access outside memory is one of its results.
  The C library's \<^verbatim>\<open>crypt\<close>, \<^verbatim>\<open>getpass\<close>, \<^verbatim>\<open>rand\<close> and \<^verbatim>\<open>tmpnam\<close> and the shell are arguments too.
\<close>

section \<open>Words, lines and the salt\<close>

definition MAX_STRING_LEN :: nat where "MAX_STRING_LEN = 256"

text \<open>The word in front of \<open>stop\<close>, and what \<open>line\<close> becomes.\<close>

definition getword :: "string \<Rightarrow> char \<Rightarrow> string \<times> string" where
  "getword line stop =
     (let line = cstr line in (takeWhile (\<lambda>c. c \<noteq> stop) line, drop 1 (dropWhile (\<lambda>c. c \<noteq> stop) line)))"

definition putline :: "string \<Rightarrow> string \<Rightarrow> string" where
  "putline f l = f @ cstr l @ [LF]"

definition itoa64 :: string where
  "itoa64 = ''./0123456789ABCDEFGHIJKLMNOPQRSTUVWXYZabcdefghijklmnopqrstuvwxyz''"

primrec to64 :: "int \<Rightarrow> nat \<Rightarrow> string" where
  "to64 v 0 = []"
| "to64 v (Suc n) = itoa64 ! nat (v AND 63) # to64 (drop_bit 6 v) n"

section \<open>The program\<close>

type_synonym filesystem = "string \<Rightarrow> string option"

text \<open>\<open>salt_rest\<close> is what happens to be behind the two bytes of the salt, which no zero byte ends.\<close>

record surroundings =
  first_password :: string
  second_password :: string
  random_number :: int
  salt_rest :: string
  crypt :: "string \<Rightarrow> string \<Rightarrow> string"
  tmpnam :: string
  can_write :: "string \<Rightarrow> bool"
  shell :: "string \<Rightarrow> filesystem \<Rightarrow> filesystem"
  getline :: "nat \<Rightarrow> string \<Rightarrow> (string \<times> bool \<times> string) res"

text \<open>The new contents of \<open>f\<close>, or \<open>None\<close> when the two passwords differ.\<close>

definition add_password :: "surroundings \<Rightarrow> string \<Rightarrow> string \<Rightarrow> string option" where
  "add_password s user f =
     (if first_password s \<noteq> second_password s then None
      else Some (f @ user @ '':'' @ crypt s (first_password s) (to64 (random_number s) 2 @ salt_rest s) @ [LF]))"

text \<open>
  The loop over the lines of \<open>f\<close>; it writes to \<open>tfp\<close>. \<^verbatim>\<open>getline\<close> gives what the buffer holds, whether it returned something else than 0, and
  what is left of the file. The result is \<open>None\<close> for ever, \<open>Some (Inr None)\<close> when the passwords differ.
\<close>

partial_function (option) update_loop ::
  "surroundings \<Rightarrow> string \<Rightarrow> bool \<Rightarrow> string \<Rightarrow> string \<Rightarrow> (bool \<times> string) option res option" where
  "update_loop s user found f tfp =
     (case getline s MAX_STRING_LEN f of
        Inl e \<Rightarrow> Some (Inl e)
      | Inr (line, ended, f) \<Rightarrow>
          if ended then Some (Inr (Some (found, tfp)))
          else if MAX_STRING_LEN \<le> length (cstr line) then Some (Inl Out_of_bounds)
          else
            let line = cstr line in
            if found \<or> line = [] \<or> hd line = CHR ''#'' then update_loop s user found f (putline tfp line)
            else if user \<noteq> fst (getword line CHR '':'') then update_loop s user found f (putline tfp line)
            else (case add_password s user tfp of None \<Rightarrow> Some (Inr None) | Some tfp \<Rightarrow> update_loop s user True f tfp))"

definition finish_update :: "surroundings \<Rightarrow> string \<Rightarrow> filesystem \<Rightarrow> string \<Rightarrow> (int \<times> filesystem) res" where
  "finish_update s passwd fs tfp =
     (let command = ''cp '' @ tmpnam s @ '' '' @ passwd in
      if MAX_STRING_LEN \<le> length command then Inl Out_of_bounds
      else Inr (0, (shell s command (fs(tmpnam s \<mapsto> tfp)))(tmpnam s := None)))"

definition update_file :: "surroundings \<Rightarrow> string \<Rightarrow> string \<Rightarrow> filesystem \<Rightarrow> (int \<times> filesystem) res option" where
  "update_file s passwd user fs =
     (if \<not> can_write s (tmpnam s) then Some (Inr (1, fs))
      else let fs = fs(tmpnam s \<mapsto> []) in
        case fs passwd of
          None \<Rightarrow> Some (Inr (1, fs))
        | Some contents \<Rightarrow>
            if MAX_STRING_LEN \<le> length user then Some (Inl Out_of_bounds)
            else
              map_option
                (\<lambda>r. bind_res r (\<lambda>r.
                  case (case r of
                        None \<Rightarrow> None
                      | Some (found, tfp) \<Rightarrow> if found then Some tfp else add_password s user tfp) of
                    None \<Rightarrow> Inr (1, fs(tmpnam s := None))
                  | Some tfp \<Rightarrow> finish_update s passwd fs tfp))
                (update_loop s user False contents []))"

text \<open>The exit code and the files; \<open>tn\<close> is the temporary file, once there is one.\<close>

definition interrupted :: "string option \<Rightarrow> filesystem \<Rightarrow> int \<times> filesystem" where
  "interrupted tn fs = (1, case tn of None \<Rightarrow> fs | Some t \<Rightarrow> fs(t := None))"

definition htpasswd_main :: "surroundings \<Rightarrow> string list \<Rightarrow> filesystem \<Rightarrow> (int \<times> filesystem) res option" where
  "htpasswd_main s argv fs =
     (if length argv = 4 then
        (if argv ! 1 \<noteq> ''-c'' then Some (Inr (1, fs))
         else if \<not> can_write s (argv ! 2) then Some (Inr (1, fs))
         else case add_password s (argv ! 3) [] of
             None \<Rightarrow> Some (Inr (1, fs(argv ! 2 \<mapsto> [])))
           | Some tfp \<Rightarrow> Some (Inr (0, fs(argv ! 2 \<mapsto> tfp))))
      else if length argv \<noteq> 3 then Some (Inr (1, fs))
      else update_file s (argv ! 1) (argv ! 2) fs)"

section \<open>Properties\<close>

text \<open>The digits of the salt are those of the number in base 64.\<close>

fun from64 :: "string \<Rightarrow> int" where
  "from64 [] = 0"
| "from64 (c # s) = int (length (takeWhile (\<lambda>d. d \<noteq> c) itoa64)) + 64 * from64 s"

lemma itoa64_position: "list_all (\<lambda>i. length (takeWhile (\<lambda>d. d \<noteq> itoa64 ! i) itoa64) = i) [0..<64]"
  by code_simp

lemma and_mask_64: "v AND 63 = v mod (64 :: int)"
  using take_bit_eq_mask [of 6 v] by (simp add: take_bit_eq_mod mask_eq_exp_minus_1)

lemma to64_digits: "from64 (to64 v n) = take_bit (6 * n) v"
proof (induction n arbitrary: v)
  case (Suc n)
  have m: "v AND 63 = v mod 64" by (rule and_mask_64)
  have "from64 [itoa64 ! nat (v mod 64)] = v mod 64"
    using itoa64_position by (simp add: list_all_iff)
  then have "from64 (to64 v (Suc n)) = v mod 64 + 64 * take_bit (6 * n) (v div 64)"
    using Suc [of "v div 64"] by (simp add: m drop_bit_eq_div)
  also have "\<dots> = v mod (64 * 2 ^ (6 * n))" by (simp add: take_bit_eq_mod zmod_zmult2_eq)
  finally show ?case by (simp add: take_bit_eq_mod power_add)
qed simp

text \<open>
  With \<open>-c\<close> the file holds the user with the new password and nothing else, whatever was in it; the salt begins with the two
  digits in base 64 of the random number.
\<close>

lemma htpasswd_create_writes:
  assumes "first_password s = second_password s" "can_write s passwd"
  shows "\<exists>salt. length salt = 2 \<and> from64 salt = take_bit 12 (random_number s) \<and>
    htpasswd_main s [me, ''-c'', passwd, user] fs =
      Some (Inr (0, fs(passwd \<mapsto> user @ '':'' @ crypt s (first_password s) (salt @ salt_rest s) @ [LF])))"
proof (intro exI [of _ "to64 (random_number s) 2"] conjI)
  show "length (to64 (random_number s) 2) = 2" by (simp add: numeral_2_eq_2)
  show "from64 (to64 (random_number s) 2) = take_bit 12 (random_number s)" using to64_digits [of "random_number s" 2] by simp
qed (use assms in \<open>simp add: htpasswd_main_def add_password_def\<close>)

definition example_surroundings :: surroundings where
  "example_surroundings =
     \<lparr>first_password = ''pw'', second_password = ''pw'', random_number = 4 * 64 + 3, salt_rest = [], crypt = (\<lambda>pw salt. salt @ rev pw),
      tmpnam = ''/tmp/t'', can_write = (\<lambda>_. True), shell = (\<lambda>command files. files), getline = (\<lambda>_ _. Inl Out_of_bounds)\<rparr>"

lemma htpasswd_create_writes_witness:
  "\<exists>salt. length salt = 2 \<and> from64 salt = 259 \<and>
     htpasswd_main example_surroundings [''htpasswd'', ''-c'', ''p'', ''b''] Map.empty = Some (Inr (0, [''p'' \<mapsto> ''b:'' @ (salt @ ''wp'') @ [LF]]))"
  using htpasswd_create_writes [of example_surroundings "''p''" "''htpasswd''" "''b''" Map.empty]
  by (simp add: example_surroundings_def)

text \<open>
  A mistake in the second password leaves the password file empty when it was to be made anew, whatever was in it.
\<close>

lemma htpasswd_create_loses_file:
  assumes "first_password s \<noteq> second_password s" "can_write s passwd"
  shows "htpasswd_main s [me, ''-c'', passwd, user] fs = Some (Inr (1, fs(passwd \<mapsto> [])))"
  using assms by (simp add: htpasswd_main_def add_password_def)

lemma htpasswd_create_loses_file_witness:
  "htpasswd_main (example_surroundings\<lparr>second_password := ''pv''\<rparr>) [''htpasswd'', ''-c'', ''p'', ''b''] [''p'' \<mapsto> ''a:y''] =
    Some (Inr (1, [''p'' \<mapsto> []]))"
  using htpasswd_create_loses_file [of "example_surroundings\<lparr>second_password := ''pv''\<rparr>" "''p''" "''htpasswd''" "''b''" "[''p'' \<mapsto> ''a:y'']"]
  by (simp add: example_surroundings_def)

text \<open>
  Where the call of \<^verbatim>\<open>getline\<close> is an access outside memory, a password is never changed and no user added: without \<open>-c\<close> the program
  stops there, or before, because a file cannot be opened.
\<close>

lemma htpasswd_never_updates:
  assumes "\<And>f. getline s MAX_STRING_LEN f = Inl Out_of_bounds"
  shows "\<exists>r. htpasswd_main s [me, passwd, user] fs = Some r \<and>
    (r = Inl Out_of_bounds \<or> r = Inr (1, fs) \<or> r = Inr (1, fs(tmpnam s \<mapsto> [])))"
proof -
  have "update_loop s user found f tfp = Some (Inl Out_of_bounds)" for found f tfp
    by (subst update_loop.simps) (simp add: assms)
  then show ?thesis by (auto simp: htpasswd_main_def update_file_def Let_def split: option.split)
qed

lemma htpasswd_never_updates_witness:
  "htpasswd_main example_surroundings [''htpasswd'', ''p'', ''b''] [''p'' \<mapsto> ''b:y''] \<noteq> Some (Inr (0, fs))"
  using htpasswd_never_updates [of example_surroundings "''htpasswd''" "''p''" "''b''" "[''p'' \<mapsto> ''b:y'']"]
  by (auto simp: example_surroundings_def)

end
