(* ===== verification/Process_Info.thy ===== *)
theory Process_Info
  imports Scratchpad
begin

text \<open>
  What \<^verbatim>\<open>_Caudium/caudium.c\<close> has for the process and its host: the title shown by \<^verbatim>\<open>ps\<close>, the memory of the
  programs' objects and the addresses of the host. The strings of \<^verbatim>\<open>argv\<close> lie one behind the other, and the
  environment behind them, as the kernel puts them there.
\<close>

section \<open>The title of the process\<close>

record title_state =
  maxargvlen :: int
  argv0 :: bool
  progname :: string

definition title_start :: title_state where
  "title_start = \<lparr>maxargvlen = - 1, argv0 = False, progname = []\<rparr>"

definition setproctitle_init :: "(nat \<Rightarrow> bool) \<Rightarrow> string list \<Rightarrow> title_state \<Rightarrow> title_state res" where
  "setproctitle_init malloc_ok argv st =
     (case argv of
        [] \<Rightarrow> Inl Out_of_bounds
      | a # _ \<Rightarrow>
          let name = takeWhile (\<lambda>c. c \<noteq> SP) a in
          Inr \<lparr>maxargvlen = (if maxargvlen st < 0 then (\<Sum>a \<leftarrow> argv. int (length a) + 1) + 1 else maxargvlen st),
               argv0 = True, progname = (if malloc_ok (length name + 1) then name else [])\<rparr>)"

text \<open>Bytes put at a place of a block of memory.\<close>

definition poke :: "nat \<Rightarrow> string \<Rightarrow> string \<Rightarrow> string res" where
  "poke i s mem = (if length mem < i + length s then Inl Out_of_bounds else Inr (take i mem @ s @ drop (i + length s) mem))"

definition snprintf_at :: "nat \<Rightarrow> nat \<Rightarrow> string \<Rightarrow> string \<Rightarrow> string res" where
  "snprintf_at i room s mem = (if room = 0 then Inr mem else poke i (take (room - 1) s @ [NUL]) mem)"

text \<open>\<open>format\<close> is what the arguments make of a format; a negative length is a huge one for \<^verbatim>\<open>scratchpad_get\<close>.\<close>

definition setproctitle ::
  "(nat \<Rightarrow> bool) \<Rightarrow> title_state \<Rightarrow> (string \<Rightarrow> string) \<Rightarrow> string option \<Rightarrow> spad_state \<times> string \<Rightarrow> (spad_state \<times> string res) option" where
  "setproctitle malloc_ok st format fmt w =
     map_option
       (\<lambda>(sp, got).
          (sp,
           bind_res got (\<lambda>cap.
             case fmt of
               None \<Rightarrow> Inr (snd w)
             | Some f \<Rightarrow>
                 let room = nat (maxargvlen st) in
                 if \<not> argv0 st \<or> maxargvlen st = 0 \<or> f = [] then Inr (snd w)
                 else if cap < room then Inl Out_of_bounds
                 else
                   bind_res
                     (let buf = replicate room NUL in
                      if hd f = CHR ''-'' then snprintf_at 0 (room - 1) (format (tl f)) buf
                      else
                        bind_res (snprintf_at 0 (room - 1) (progname st @ [SP]) buf)
                          (snprintf_at (length (progname st)) (room - length (progname st) - 1) (format f)))
                     (\<lambda>buf.
                        bind_res (poke 0 (replicate room NUL) (snd w))
                          (poke 0 (take (room - 1) (cstr buf @ replicate room NUL)))))))
       (scratchpad_get malloc_ok (fst w) (nat (maxargvlen st mod 2 ^ 64)))"

section \<open>The memory of objects\<close>

text \<open>Each object of the interpreter, with the storage its program needs; a destructed one has no program.\<close>

definition f_program_object_memory_usage :: "('o \<times> int option) list \<Rightarrow> ('o, int) pmap" where
  "f_program_object_memory_usage objects =
     foldl
       (\<lambda>m (ob, prog).
          case prog of
            None \<Rightarrow> m
          | Some storage \<Rightarrow>
              if storage = 0 then m
              else (case mapping_lookup m ob of
                      Some v \<Rightarrow> mapping_insert m ob (wrap32 (v + storage))
                    | None \<Rightarrow> mapping_insert m ob storage))
       [] objects"

section \<open>The addresses of the host\<close>

text \<open>An interface of \<^verbatim>\<open>getifaddrs\<close>: its name and, if it has an address, whether that is one of IPv4 and how it is written.\<close>

type_synonym interface = "string \<times> (bool \<times> string) option"

fun getip_loop :: "interface list \<Rightarrow> (string, string) pmap \<Rightarrow> (string, string) pmap res" where
  "getip_loop [] m = Inl Out_of_bounds"
| "getip_loop [i] m = Inr m"
| "getip_loop (i # j # js) m =
     (case snd i of
        None \<Rightarrow> Inl Out_of_bounds
      | Some (inet, host) \<Rightarrow> getip_loop (j # js) (if inet then mapping_insert m (fst i) host else m))"

definition f_getip :: "interface list option \<Rightarrow> (string, string) pmap res" where
  "f_getip interfaces =
     (case interfaces of
        None \<Rightarrow> Inl (Pike_error ''_Caudium.getip(): error in getifaddrs()'')
      | Some js \<Rightarrow> getip_loop js [])"

section \<open>What they show\<close>

lemma poke_front: "length s \<le> length mem \<Longrightarrow> poke 0 s mem = Inr (s @ drop (length s) mem)"
  by (simp add: poke_def)

lemma cstr_pad: "NUL \<notin> set s \<Longrightarrow> cstr (s @ replicate n NUL) = s"
  by (cases n) (simp_all add: cstr_until_NUL cstr_id)

lemma arguments_length: "(\<Sum>a \<leftarrow> argv. int (length a) + 1) = int (length (concat (map (\<lambda>a. a @ [NUL]) argv)))"
  by (induction argv) simp_all

text \<open>The two calls of \<^verbatim>\<open>snprintf\<close>: the second begins where the space is.\<close>

lemma title_text:
  assumes "length name + 2 \<le> room"
  shows "bind_res (snprintf_at 0 (room - 1) (name @ [SP]) (replicate room NUL)) (snprintf_at (length name) (room - length name - 1) text) =
    Inr (name @ take (room - length name - 2) text @ replicate (room - length name - length (take (room - length name - 2) text)) NUL)"
proof -
  obtain k where k: "room = length name + 2 + k" using assms le_Suc_ex by blast
  define m where "m = length (take k text)"
  define out where "out = (name @ (if k = 0 then [] else [SP])) @ [NUL] @ replicate (if k = 0 then 1 else k) NUL"
  have "take (length name + k) (name @ [SP]) = name @ (if k = 0 then [] else [SP])" by (cases k) simp_all
  then have "snprintf_at 0 (room - 1) (name @ [SP]) (replicate room NUL) = Inr out"
    by (simp add: k snprintf_at_def poke_front out_def del: replicate.simps)
  moreover have "drop (length name + (m + 1)) out = replicate (k + 1 - m) NUL"
  proof (cases k)
    case 0
    then show ?thesis by (simp add: out_def m_def)
  next
    case (Suc j)
    then have "out = (name @ [SP]) @ replicate (k + 1) NUL" by (simp add: out_def)
    then show ?thesis by (simp del: replicate.simps)
  qed
  then have "snprintf_at (length name) (k + 1) text out = Inr (name @ take k text @ [NUL] @ replicate (k + 1 - m) NUL)"
    by (simp add: snprintf_at_def poke_def out_def [symmetric] m_def [symmetric]) (simp add: out_def m_def)
  moreover have "[NUL] @ replicate (k + 1 - m) NUL = replicate (k + 2 - m) NUL" by (simp add: m_def Suc_diff_le)
  ultimately show ?thesis by (simp add: k m_def)
qed

lemma init_fields:
  assumes "setproctitle_init malloc_ok argv title_start = Inr st"
  shows "maxargvlen st = int (length (concat (map (\<lambda>a. a @ [NUL]) argv))) + 1" "argv0 st"
    "length (progname st) < length (concat (map (\<lambda>a. a @ [NUL]) argv))"
proof -
  obtain a as where a: "argv = a # as" using assms by (cases argv) (simp_all add: setproctitle_init_def)
  have "length (takeWhile (\<lambda>c. c \<noteq> SP) a) \<le> length a" by (rule length_takeWhile_le)
  then show "maxargvlen st = int (length (concat (map (\<lambda>a. a @ [NUL]) argv))) + 1" "argv0 st"
    "length (progname st) < length (concat (map (\<lambda>a. a @ [NUL]) argv))"
    using assms arguments_length [of argv] by (auto simp: setproctitle_init_def title_start_def Let_def a)
qed

text \<open>
  The space between the name of the program and the title is overwritten, and the zero bytes reach one byte further than the
  arguments: the first variable of the environment becomes an empty string.
\<close>

lemma setproctitle_overruns:
  assumes "setproctitle_init malloc_ok argv title_start = Inr st"
    and "args = concat (map (\<lambda>a. a @ [NUL]) argv)" "mem = args @ env" "env \<noteq> []" "length args < 2 ^ 31"
    and "scratchpad_get malloc_ok sp (length args + 1) = Some (sp', Inr cap)" "length args < cap"
    and "f \<noteq> []" "hd f \<noteq> CHR ''-''" "NUL \<notin> set (progname st)" "NUL \<notin> set (format f)"
    and "title = progname st @ take (length args - length (progname st) - 1) (format f)"
  shows "setproctitle malloc_ok st format (Some f) (sp, mem) =
    Some (sp', Inr (title @ replicate (length args + 1 - length title) NUL @ tl env))"
proof -
  note init = init_fields [OF assms(1), folded assms(2)]
  define room where "room = length args + 1"
  have room: "nat (maxargvlen st) = room" "nat (maxargvlen st mod 2 ^ 64) = room" "maxargvlen st \<noteq> 0"
    using init(1) assms(5) by (simp_all add: room_def mod_pos_pos_trivial)
  have name: "length (progname st) + 2 \<le> room" using init(3) by (simp add: room_def)
  have title: "title = progname st @ take (room - length (progname st) - 2) (format f)" by (simp add: assms(12) room_def)
  then have short: "length title + 2 \<le> room" using name by (auto simp: min_def)
  have clean: "NUL \<notin> set title" using assms(10,11) by (auto simp: title dest: in_set_takeD)
  have buf: "bind_res (snprintf_at 0 (room - 1) (progname st @ [SP]) (replicate room NUL))
      (snprintf_at (length (progname st)) (room - length (progname st) - 1) (format f)) = Inr (title @ replicate (room - length title) NUL)"
    using title_text [OF name, of "format f"] by (simp add: title)
  have "drop room mem = tl env" using assms(4) by (cases env) (simp_all add: assms(3) room_def)
  then have first: "poke 0 (replicate room NUL) mem = Inr (replicate room NUL @ tl env)"
    using assms(4) by (cases env) (simp_all add: poke_def assms(3) room_def del: replicate.simps)
  have "take (room - 1) (title @ replicate room NUL) = title @ replicate (room - 1 - length title) NUL"
    using short by (simp add: min_def)
  moreover have "drop (room - 1) (replicate room NUL @ tl env) = NUL # tl env" using short by simp
  moreover have "room - length title = Suc (room - 1 - length title)" using short by simp
  then have "replicate (room - 1 - length title) NUL @ [NUL] = replicate (room - length title) NUL"
    by (simp only: replicate_Suc replicate_append_same)
  ultimately have second: "poke 0 (take (room - 1) (title @ replicate room NUL)) (replicate room NUL @ tl env) =
      Inr (title @ replicate (room - length title) NUL @ tl env)"
    using short by (simp add: poke_def)
  have get: "scratchpad_get malloc_ok sp room = Some (sp', Inr cap)" "\<not> cap < room" using assms(6,7) by (simp_all add: room_def)
  show ?thesis
    unfolding room_def [symmetric]
    by (simp only: setproctitle_def fst_conv snd_conv room get option.map prod.case bind_res_simps option.case Let_def init(2) assms(8,9)
      if_False if_True simp_thms buf first second cstr_pad [OF clean])
qed

lemma setproctitle_overruns_witness:
  "setproctitle_init (\<lambda>_. True) [''caudium'', ''-x''] title_start = Inr \<lparr>maxargvlen = 12, argv0 = True, progname = ''caudium''\<rparr> \<and>
   (\<exists>sp. setproctitle (\<lambda>_. True) \<lparr>maxargvlen = 12, argv0 = True, progname = ''caudium''\<rparr> id (Some ''idle'')
      (spad_start, ''caudium'' @ NUL # ''-x'' @ NUL # ''PATH=/bin'' @ [NUL]) =
    Some (sp, Inr (''caudiumidl'' @ [NUL, NUL] @ ''ATH=/bin'' @ [NUL])))"
proof -
  have init: "setproctitle_init (\<lambda>_. True) [''caudium'', ''-x''] title_start = Inr \<lparr>maxargvlen = 12, argv0 = True, progname = ''caudium''\<rparr>"
    by (simp add: setproctitle_init_def title_start_def)
  define args where "args = ''caudium'' @ NUL # ''-x'' @ [NUL]"
  have args: "args = concat (map (\<lambda>a. a @ [NUL]) [''caudium'', ''-x''])" "length args + 1 = 12" "length args < 2 ^ 31"
    by (simp_all add: args_def)
  obtain sp cap where sp: "scratchpad_get (\<lambda>_. True) spad_start (length args + 1) = Some (sp, Inr cap)" "length args < cap"
    unfolding args(2)
    by (simp add: args_def scratchpad_get_def spad_start_def scratchpad_init_def scratchpad_allocate_def SPAD_INIT_SIZE_def SPAD_MAX_SIZE_def)
  have title: "''caudiumidl'' = ''caudium'' @ take (length args - length ''caudium'' - 1) (id ''idle'')" by (simp add: args_def numeral_eq_Suc)
  have "setproctitle (\<lambda>_. True) \<lparr>maxargvlen = 12, argv0 = True, progname = ''caudium''\<rparr> id (Some ''idle'')
      (spad_start, args @ ''PATH=/bin'' @ [NUL]) =
    Some (sp, Inr (''caudiumidl'' @ replicate (length args + 1 - length ''caudiumidl'') NUL @ tl (''PATH=/bin'' @ [NUL])))"
    by (rule setproctitle_overruns [OF init args(1) refl _ args(3) sp]) (simp_all add: title)
  then show ?thesis using init by (simp add: args_def numeral_2_eq_2)
qed

text \<open>What is reported of an interface.\<close>

definition shown_host :: "(bool \<times> string) option \<Rightarrow> string option" where
  "shown_host address = (case address of Some (inet, host) \<Rightarrow> if inet then Some host else None | None \<Rightarrow> None)"

lemma getip_loop_lookup:
  "list_all (\<lambda>i. snd i \<noteq> None) js \<Longrightarrow> distinct (map fst js) \<Longrightarrow> \<forall>j \<in> set js. mapping_lookup m (fst j) = None \<Longrightarrow>
     \<exists>r. getip_loop (js @ [i]) m = Inr r \<and>
       (\<forall>k. mapping_lookup r k = (case map_of js k of Some p \<Rightarrow> shown_host p | None \<Rightarrow> mapping_lookup m k))"
proof (induction js arbitrary: m)
  case (Cons j js)
  obtain name inet host where j: "j = (name, Some (inet, host))" using Cons(2) by (cases j) auto
  define m' where "m' = (if inet then mapping_insert m name host else m)"
  have step: "getip_loop ((j # js) @ [i]) m = getip_loop (js @ [i]) m'" by (cases js) (simp_all add: j m'_def)
  have "list_all (\<lambda>i. snd i \<noteq> None) js" "distinct (map fst js)" "\<forall>j \<in> set js. mapping_lookup m' (fst j) = None"
    using Cons(2-4) by (auto simp: j m'_def)
  from Cons(1) [OF this] obtain r where r: "getip_loop (js @ [i]) m' = Inr r"
    "\<forall>k. mapping_lookup r k = (case map_of js k of Some p \<Rightarrow> shown_host p | None \<Rightarrow> mapping_lookup m' k)" by blast
  have "map_of js name = None" using Cons(3) j by (simp add: map_of_eq_None_iff)
  then have "mapping_lookup r k = (case map_of (j # js) k of Some p \<Rightarrow> shown_host p | None \<Rightarrow> mapping_lookup m k)" for k
    using r(2) Cons(4) by (cases "k = name") (auto simp: j m'_def shown_host_def split: option.splits)
  then show ?case using step r(1) by simp
qed simp

text \<open>The loop looks for a next interface before it takes one: the last is never reported.\<close>

lemma getip_skips_last:
  assumes "list_all (\<lambda>i. snd i \<noteq> None) js" "distinct (map fst (js @ [i]))"
  shows "\<exists>m. f_getip (Some (js @ [i])) = Inr m \<and> mapping_lookup m (fst i) = None \<and>
    (\<forall>j \<in> set js. mapping_lookup m (fst j) = shown_host (snd j))"
proof -
  have "distinct (map fst js)" "\<forall>j \<in> set js. mapping_lookup [] (fst j) = (None :: string option)" using assms(2) by simp_all
  from getip_loop_lookup [OF assms(1) this] obtain r where r: "getip_loop (js @ [i]) [] = Inr r"
    "\<forall>k. mapping_lookup r k = (case map_of js k of Some p \<Rightarrow> shown_host p | None \<Rightarrow> mapping_lookup [] k)" by blast
  have "map_of js (fst i) = None" using assms(2) by (simp add: map_of_eq_None_iff)
  moreover have "map_of js (fst j) = Some (snd j)" if "j \<in> set js" for j using assms(2) that by simp
  ultimately show ?thesis using r by (simp add: f_getip_def)
qed

lemma getip_skips_last_witness:
  "\<exists>m. f_getip (Some ([(''lo'', Some (True, ''127.0.0.1''))] @ [(''eth0'', Some (True, ''10.0.0.1''))])) = Inr m \<and>
    mapping_lookup m ''eth0'' = None \<and> mapping_lookup m ''lo'' = Some ''127.0.0.1''"
proof -
  have some: "list_all (\<lambda>i. snd i \<noteq> None) [(''lo'', Some (True, ''127.0.0.1''))]" by (simp del: not_None_eq)
  have "distinct (map fst ([(''lo'', Some (True, ''127.0.0.1''))] @ [(''eth0'', Some (True, ''10.0.0.1''))]))" by simp
  from getip_skips_last [OF some this] show ?thesis by (simp add: shown_host_def)
qed

text \<open>Every live object that needs storage is listed with it.\<close>

lemma memory_usage_lookup:
  fixes objects :: "('o \<times> int option) list"
  assumes "distinct (map fst objects)"
  shows "mapping_lookup (f_program_object_memory_usage objects) ob =
    (case map_of objects ob of Some (Some n) \<Rightarrow> if n = 0 then None else Some n | _ \<Rightarrow> None)"
proof -
  define step where "step = (\<lambda>(m :: ('o, int) pmap) (ob, prog).
          case prog of
            None \<Rightarrow> m
          | Some storage \<Rightarrow>
              if storage = 0 then m
              else (case mapping_lookup m ob of
                      Some v \<Rightarrow> mapping_insert m ob (wrap32 (v + storage))
                    | None \<Rightarrow> mapping_insert m ob storage))"
  have "(\<forall>k \<in> set (map fst objects). mapping_lookup (m :: ('o, int) pmap) k = None) \<Longrightarrow> distinct (map fst objects) \<Longrightarrow>
      mapping_lookup (foldl step m objects) ob =
      (case map_of objects ob of Some (Some n) \<Rightarrow> if n = 0 then None else Some n | _ \<Rightarrow> mapping_lookup m ob)" for m
  proof (induction objects arbitrary: m)
    case (Cons x objects)
    obtain k p where x: "x = (k, p)" by fastforce
    have new: "mapping_lookup (step m (k, p)) k' = (if k' = k then (case p of Some n \<Rightarrow> if n = 0 then None else Some n | None \<Rightarrow> None) else mapping_lookup m k')" for k'
      using Cons(2) by (cases p) (simp_all add: step_def x)
    have "map_of objects k = None" using Cons(3) by (simp add: x map_of_eq_None_iff)
    moreover have "mapping_lookup (step m (k, p)) k' = None" if "k' \<in> set (map fst objects)" for k'
      using Cons(2,3) that by (cases "k' = k") (auto simp: new x)
    moreover have "distinct (map fst objects)" using Cons(3) by simp
    ultimately have "mapping_lookup (foldl step (step m (k, p)) objects) ob =
      (case map_of objects ob of Some (Some n) \<Rightarrow> if n = 0 then None else Some n | _ \<Rightarrow> mapping_lookup (step m (k, p)) ob)"
      using Cons(1) by blast
    with \<open>map_of objects k = None\<close> show ?case using Cons(2) by (cases "ob = k") (simp_all add: new x split: option.split)
  qed simp
  then show ?thesis using assms by (simp add: f_program_object_memory_usage_def step_def split: option.split)
qed

end
