(* ===== verification/Fonts.thy ===== *)
theory Fonts
  imports Caudium_Prelude
begin

text \<open>
  The font tools: \<^verbatim>\<open>tools/xdumpfont/xdumpfont.c\<close> draws the characters of a font of the X server, scales them down and
  writes them to a file; \<^verbatim>\<open>readfont.c\<close> maps such a file, and \<^verbatim>\<open>banner.c\<close> and \<^verbatim>\<open>fontdemo.c\<close> print from it. What the X server
  says of the font is a record of functions; a file is a list of bytes. \<open>Out_of_bounds\<close> is an access outside a block or the
  mapped file.
\<close>

section \<open>Numbers in memory\<close>

text \<open>
  An \<^verbatim>\<open>ulong\<close> holds a number in network order after \<^verbatim>\<open>htonl\<close>: four bytes, with the zero bytes of a wider \<^verbatim>\<open>ulong\<close> in front of
  them or behind them.
\<close>

record abi =
  pad_front :: nat
  pad_back :: nat

definition word_size :: "abi \<Rightarrow> nat" where
  "word_size a = pad_front a + 4 + pad_back a"

definition be32 :: "nat \<Rightarrow> string" where
  "be32 v = map (\<lambda>k. char_of (v div 256 ^ k mod 256)) [3, 2, 1, 0]"

definition read32 :: "string \<Rightarrow> nat" where
  "read32 s = foldl (\<lambda>v c. v * 256 + code_of c) 0 s"

definition put_word :: "abi \<Rightarrow> nat \<Rightarrow> string" where
  "put_word a v = replicate (pad_front a) NUL @ be32 (v mod 2 ^ 32) @ replicate (pad_back a) NUL"

definition get_word :: "abi \<Rightarrow> string \<Rightarrow> nat \<Rightarrow> nat res" where
  "get_word a mem i =
     (if length mem < i + word_size a then Inl Out_of_bounds else Inr (read32 (take 4 (drop (i + pad_front a) mem))))"

text \<open>The size of \<^verbatim>\<open>struct char_t\<close>: two numbers and a byte.\<close>

definition char_size :: "abi \<Rightarrow> nat" where
  "char_size a = 3 * word_size a"

text \<open>What an \<^verbatim>\<open>int\<close> is as an \<^verbatim>\<open>ulong\<close>.\<close>

definition to_ulong :: "abi \<Rightarrow> int \<Rightarrow> nat" where
  "to_ulong a i = nat (i mod 2 ^ (8 * word_size a))"

section \<open>Drawing and writing\<close>

definition SCALE :: nat where "SCALE = 8"

text \<open>
  \<open>rbearing\<close> stands for \<^verbatim>\<open>font->per_char\<close>, which is null for a font whose characters all have the same metrics.
\<close>

record x_font =
  ascent :: nat
  descent :: nat
  first_char :: nat
  last_char :: nat
  rbearing :: "(nat \<Rightarrow> int) option"
  text_width :: "nat \<Rightarrow> int"
  drawn :: "nat \<Rightarrow> (nat \<Rightarrow> nat \<Rightarrow> bool) option"

definition font_height :: "x_font \<Rightarrow> nat" where "font_height x = ascent x + descent x"
definition font_baseline :: "x_font \<Rightarrow> nat" where "font_baseline x = ascent x div SCALE"

text \<open>A character; \<open>g_data\<close> are the bytes allocated from \<^verbatim>\<open>data\<close> on.\<close>

record glyph =
  g_width :: nat
  g_spacing :: nat
  g_data :: string

definition pixel :: "(nat \<Rightarrow> nat \<Rightarrow> bool) \<Rightarrow> nat \<Rightarrow> nat \<Rightarrow> char" where
  "pixel img x y =
     (let c = length (filter (\<lambda>(xp, yp). img (x + xp) (y + yp)) (List.product [0..<SCALE] [0..<SCALE]))
      in char_of (255 - c * 255 div (SCALE * SCALE)))"

definition pixels :: "(nat \<Rightarrow> nat \<Rightarrow> bool) \<Rightarrow> nat \<Rightarrow> nat \<Rightarrow> string" where
  "pixels img width height =
     concat (map (\<lambda>y. map (\<lambda>x. pixel img (x * SCALE) (y * SCALE)) [0..<width div SCALE]) [0..<height div SCALE])"

definition low_dump_char :: "x_font \<Rightarrow> nat \<Rightarrow> glyph \<Rightarrow> glyph res" where
  "low_dump_char x c cid =
     (let width = wrap32 (int (g_width cid)) in
      if width \<le> 0 \<or> g_spacing cid = 0 then Inr (cid\<lparr>g_width := 0\<rparr>)
      else case drawn x c of
          None \<Rightarrow> Inr (cid\<lparr>g_width := 0\<rparr>)
        | Some img \<Rightarrow>
            let ps = pixels img (nat width) (font_height x) in
            if length (g_data cid) < length ps then Inl Out_of_bounds
            else Inr \<lparr>g_width = nat width div SCALE, g_spacing = g_spacing cid div SCALE,
                      g_data = ps @ drop (length ps) (g_data cid)\<rparr>)"

text \<open>
  The bytes allocated for a character, or \<open>None\<close> when the size is negative and the allocation fails;
  \<^verbatim>\<open>(int)((float)rw*1.1)\<close> is \<open>rw + cdiv rw 10\<close>.
\<close>

definition new_char :: "abi \<Rightarrow> char \<Rightarrow> x_font \<Rightarrow> nat \<Rightarrow> glyph res option" where
  "new_char a junk x c =
     (if first_char x \<le> c \<and> c \<le> last_char x then
        (case rbearing x of
          None \<Rightarrow> Some (Inl Out_of_bounds)
        | Some per_char \<Rightarrow>
            let rw = per_char (c - first_char x);
                total = int (char_size a) + (cdiv (rw + cdiv rw 10) (int SCALE) + 1) * int (font_height x div SCALE + 1) in
            if total < 0 then None
            else if total < int (2 * word_size a) then Some (Inl Out_of_bounds)
            else Some (Inr \<lparr>g_width = to_ulong a (rw + cdiv rw 10), g_spacing = to_ulong a (text_width x c),
                            g_data = replicate (nat total - 2 * word_size a) junk\<rparr>))
      else Some (Inr \<lparr>g_width = 0, g_spacing = to_ulong a (text_width x c), g_data = replicate (word_size a + 4) junk\<rparr>))"

text \<open>The state is \<^verbatim>\<open>font_size\<close> and the characters so far; \<open>None\<close> is the exit of the program.\<close>

definition dump_char :: "abi \<Rightarrow> char \<Rightarrow> x_font \<Rightarrow> nat \<Rightarrow> nat \<times> glyph list \<Rightarrow> (nat \<times> glyph list) res option" where
  "dump_char a junk x c st =
     map_option
       (\<lambda>r. bind_res r (\<lambda>g. bind_res (low_dump_char x c g) (\<lambda>g.
          Inr (fst st + ((char_size a + g_width g * (font_height x div SCALE) - 1) div 4 + 1) * 4, snd st @ [g]))))
       (new_char a junk x c)"

text \<open>The bytes of the file that a character takes.\<close>

definition char_length :: "abi \<Rightarrow> nat \<Rightarrow> glyph \<Rightarrow> nat" where
  "char_length a height g =
     (if g_width g \<noteq> 0 then ((char_size a + g_width g * height div SCALE - 1) div 4 + 1) * 4 else char_size a)"

definition char_bytes :: "abi \<Rightarrow> glyph \<Rightarrow> string" where
  "char_bytes a g = put_word a (g_width g) @ put_word a (g_spacing g) @ g_data g"

text \<open>The loop over the characters from the place \<open>pos\<close> of the buffer of \<open>room\<close> bytes on: the offsets and the bytes.\<close>

fun write_chars :: "abi \<Rightarrow> nat \<Rightarrow> nat \<Rightarrow> nat \<Rightarrow> glyph list \<Rightarrow> (string \<times> string) res" where
  "write_chars a height room pos [] = Inr ([], [])"
| "write_chars a height room pos (g # gs) =
     (let n = char_length a height g in
      if length (char_bytes a g) < n \<or> room < pos + n then Inl Out_of_bounds
      else bind_res (write_chars a height room (pos + n) gs) (\<lambda>(offsets, data).
        Inr (put_word a pos @ offsets, take n (char_bytes a g) @ data)))"

definition COOKIE :: nat where "COOKIE = 0x464f4e54"
definition FONT_FILE_VERSION :: nat where "FONT_FILE_VERSION = 1"

text \<open>
  \<^verbatim>\<open>open\<close> and \<^verbatim>\<open>write\<close>, whose results the program does not look at. \<open>room\<close> is \<open>None\<close> if the file cannot be opened, or how many bytes the
  system takes at most. A file that does not exist is created; one that does is not cut to the new length.
\<close>

definition write_file :: "nat option \<Rightarrow> string \<Rightarrow> string option \<Rightarrow> string option" where
  "write_file room new file =
     (case room of
        None \<Rightarrow> file
      | Some k \<Rightarrow> Some (take k new @ drop (length (take k new)) (case file of None \<Rightarrow> [] | Some old \<Rightarrow> old)))"

definition concatenate_and_write_font ::
  "abi \<Rightarrow> x_font \<Rightarrow> nat option \<Rightarrow> nat \<Rightarrow> glyph list \<Rightarrow> string option \<Rightarrow> string option res" where
  "concatenate_and_write_font a x room font_size chars file =
     (let head = (5 + length chars) * word_size a in
      bind_res (write_chars a (font_height x) (font_size * 2 + head) head chars) (\<lambda>(offsets, data).
        let new = put_word a COOKIE @ put_word a FONT_FILE_VERSION @ put_word a (length chars) @
                  put_word a (font_height x div SCALE) @ put_word a (font_baseline x) @ offsets @ data
        in Inr (write_file room new file)))"

fun dump_chars :: "abi \<Rightarrow> char \<Rightarrow> x_font \<Rightarrow> nat list \<Rightarrow> nat \<times> glyph list \<Rightarrow> (nat \<times> glyph list) res option" where
  "dump_chars a junk x [] st = Some (Inr st)"
| "dump_chars a junk x (c # cs) st =
     (case dump_char a junk x c st of
        None \<Rightarrow> None
      | Some (Inl e) \<Rightarrow> Some (Inl e)
      | Some (Inr st) \<Rightarrow> dump_chars a junk x cs st)"

definition xdumpfont :: "abi \<Rightarrow> char \<Rightarrow> x_font \<Rightarrow> nat option \<Rightarrow> string option \<Rightarrow> string option res option" where
  "xdumpfont a junk x room file =
     map_option (\<lambda>r. bind_res r (\<lambda>(font_size, chars). concatenate_and_write_font a x room font_size chars file))
       (dump_chars a junk x [0..<256] (0, []))"

section \<open>Reading\<close>

text \<open>A character of an open font: its width, its spacing and where its bytes begin in the mapped file.\<close>

record font_char =
  c_width :: int
  c_spacing :: int
  c_data :: nat

record font =
  f_height :: nat
  f_baseline :: nat
  f_chars :: "font_char list"
  f_handle :: string

fun read_chars :: "abi \<Rightarrow> string \<Rightarrow> nat list \<Rightarrow> font_char list res" where
  "read_chars a mem [] = Inr []"
| "read_chars a mem (c # cs) =
     bind_res (get_word a mem ((5 + c) * word_size a)) (\<lambda>ch.
     bind_res (get_word a mem ch) (\<lambda>width.
     bind_res (get_word a mem (ch + word_size a)) (\<lambda>spacing.
     bind_res (read_chars a mem cs) (\<lambda>fs.
       Inr (\<lparr>c_width = wrap32 (int width), c_spacing = wrap32 (int spacing), c_data = ch + 2 * word_size a\<rparr> # fs)))))"

text \<open>\<open>None\<close> is a file that cannot be opened: \<^verbatim>\<open>handle\<close> is not set then, but used.\<close>

definition OpenFont :: "abi \<Rightarrow> string option \<Rightarrow> font option res" where
  "OpenFont a file =
     (case file of
        None \<Rightarrow> Inl Out_of_bounds
      | Some mem \<Rightarrow>
          bind_res (get_word a mem 0) (\<lambda>cookie.
          if cookie \<noteq> COOKIE then Inr None
          else bind_res (get_word a mem (word_size a)) (\<lambda>version.
          if FONT_FILE_VERSION < version then Inr None
          else bind_res (get_word a mem (2 * word_size a)) (\<lambda>numchars.
               bind_res (get_word a mem (3 * word_size a)) (\<lambda>height.
               bind_res (get_word a mem (4 * word_size a)) (\<lambda>baseline.
               bind_res (read_chars a mem [0..<numchars]) (\<lambda>chars.
                 Inr (Some \<lparr>f_height = height, f_baseline = baseline, f_chars = chars, f_handle = mem\<rparr>))))))))"

section \<open>Printing\<close>

definition byte_of :: "font \<Rightarrow> nat \<Rightarrow> char res" where
  "byte_of mf i = (if i < length (f_handle mf) then Inr (f_handle mf ! i) else Inl Out_of_bounds)"

fun collect :: "string res list \<Rightarrow> string res" where
  "collect [] = Inr []"
| "collect (r # rs) = bind_res r (\<lambda>s. bind_res (collect rs) (\<lambda>t. Inr (s @ t)))"

definition shade :: "nat \<Rightarrow> string" where
  "shade col =
     (if col < 16 then [CHR 0xD8, CHR 0xDF]
      else if col < 64 then ''#*''
      else if col < 96 then ''*x''
      else if col < 128 then ''x+''
      else if col < 196 then [CHR ''+'', CHR 0xD7]
      else if col < 230 then [CHR 0xD7, CHR 0xB7]
      else if col < 255 then [CHR 0xB7, CHR 0xB7]
      else ''  '')"

definition print_char :: "font \<Rightarrow> nat \<Rightarrow> string res" where
  "print_char mf c =
     (if length (f_chars mf) \<le> c then Inl Out_of_bounds
      else let ch = f_chars mf ! c; w = nat (c_width ch) in
        if c = 32 then Inr [LF, LF]
        else collect (map (\<lambda>x.
          bind_res (collect (map (\<lambda>y. bind_res (byte_of mf (c_data ch + y * w + x)) (\<lambda>col. Inr (shade (code_of col)))) (rev [0..<nat (wrap32 (int (f_height mf)))])))
            (\<lambda>s. Inr (s @ [LF]))) [0..<w]))"

text \<open>\<^verbatim>\<open>main\<close> of \<^verbatim>\<open>banner.c\<close>: what is printed.\<close>

definition banner :: "abi \<Rightarrow> string option \<Rightarrow> string list \<Rightarrow> string res" where
  "banner a file args =
     bind_res (OpenFont a file) (\<lambda>mf.
       case mf of
         None \<Rightarrow> Inl Out_of_bounds
       | Some mf \<Rightarrow> collect (concat (map (\<lambda>arg. map (\<lambda>c. print_char mf (code_of c)) (arg @ '' '')) args)))"

definition demo_shade :: "bool \<Rightarrow> nat \<Rightarrow> string" where
  "demo_shade base col =
     (if col < 32 then ''##''
      else if col < 64 then ''**''
      else if col < 96 then (if base then [CHR 0xB1, CHR 0xB1] else ''++'')
      else if col < 255 then (if base then ''__'' else [CHR 0xB7, CHR 0xB7])
      else if base then ''__'' else ''  '')"

text \<open>\<^verbatim>\<open>main\<close> of \<^verbatim>\<open>fontdemo.c\<close>.\<close>

definition fontdemo :: "abi \<Rightarrow> string option \<Rightarrow> string res" where
  "fontdemo a file =
     bind_res (OpenFont a file) (\<lambda>mf.
       case mf of
         None \<Rightarrow> Inl Out_of_bounds
       | Some mf \<Rightarrow>
           collect (map (\<lambda>c.
             if length (f_chars mf) \<le> c then Inl Out_of_bounds
             else let ch = f_chars mf ! c; w = nat (c_width ch) in
               collect (map (\<lambda>y.
                 bind_res (collect (map (\<lambda>x.
                     bind_res (byte_of mf (c_data ch + y * w + x)) (\<lambda>col. Inr (demo_shade (y = f_baseline mf) (code_of col)))) [0..<w]))
                   (\<lambda>s. Inr (s @ [LF]))) [0..<f_height mf])) [0..<256]))"

section \<open>What is written is read\<close>

lemma word_size_pos [simp]: "0 < word_size a"
  by (simp add: word_size_def)

lemma length_be32 [simp]: "length (be32 v) = 4"
  by (simp add: be32_def)

lemma length_put_word [simp]: "length (put_word a v) = word_size a"
  by (simp add: put_word_def word_size_def)

lemma read32_be32: "v < 2 ^ 32 \<Longrightarrow> read32 (be32 v) = v"
proof -
  assume v: "v < 2 ^ 32"
  define a b c where "a = v div 256" and "b = a div 256" and "c = b div 256"
  have d: "v div 256 ^ 2 = b" "v div 256 ^ 3 = c" by (simp_all add: a_def b_def c_def div_mult2_eq power2_eq_square power3_eq_cube)
  have "c < 256" using v by (simp add: a_def b_def c_def div_less_iff_less_mult)
  then have "read32 (be32 v) = ((c * 256 + b mod 256) * 256 + a mod 256) * 256 + v mod 256"
    using d by (simp add: read32_def be32_def a_def)
  also have "\<dots> = v" by (simp add: c_def b_def a_def)
  finally show ?thesis .
qed

lemma get_word_at: "drop i mem = put_word a v @ r \<Longrightarrow> get_word a mem i = Inr (v mod 2 ^ 32)"
proof -
  assume d: "drop i mem = put_word a v @ r"
  have "length mem - i = word_size a + length r" using arg_cong [OF d, of length] by simp
  then have "i + word_size a \<le> length mem" using word_size_pos [of a] by linarith
  moreover have "drop (i + pad_front a) mem = be32 (v mod 2 ^ 32) @ replicate (pad_back a) NUL @ r"
    using arg_cong [OF d, of "drop (pad_front a)"] by (simp add: put_word_def add.commute)
  ultimately show ?thesis by (simp add: get_word_def read32_be32)
qed

text \<open>An open font has the characters it was made of.\<close>

definition same_char :: "nat \<Rightarrow> string \<Rightarrow> glyph \<Rightarrow> font_char \<Rightarrow> bool" where
  "same_char height mem g f \<longleftrightarrow>
     c_width f = int (g_width g) \<and> c_spacing f = int (g_spacing g) \<and>
     take (g_width g * height) (drop (c_data f) mem) = take (g_width g * height) (g_data g)"

lemma char_length_room: "2 * word_size a + g_width g * (height div SCALE) \<le> char_length a height g"
proof -
  have "g_width g * (height div SCALE) \<le> g_width g * height div SCALE"
    by (simp add: SCALE_def less_eq_div_iff_mult_less_eq)
  moreover have "m \<le> ((m - 1) div 4 + 1) * (4 :: nat)" for m by presburger
  ultimately show ?thesis using order_trans [OF _ \<open>\<And>m. m \<le> ((m - 1) div 4 + 1) * (4 :: nat)\<close>]
    by (cases "g_width g = 0") (auto simp: char_length_def char_size_def intro: order_trans)
qed

lemma read_written:
  "write_chars a height room pos gs = Inr (offsets, data) \<Longrightarrow> drop pos mem = data @ rest \<Longrightarrow>
     drop ((5 + k) * word_size a) mem = offsets @ rest' \<Longrightarrow> pos + length data < 2 ^ 32 \<Longrightarrow>
     \<forall>g \<in> set gs. g_width g < 2 ^ 31 \<and> g_spacing g < 2 ^ 31 \<Longrightarrow>
     \<exists>fs. read_chars a mem [k..<k + length gs] = Inr fs \<and> list_all2 (same_char (height div SCALE) mem) gs fs"
proof (induction gs arbitrary: pos offsets data k)
  case Nil
  then show ?case by simp
next
  case (Cons g gs)
  define n where "n = char_length a height g"
  define W where "W = word_size a"
  obtain offsets' data' where w: "write_chars a height room (pos + n) gs = Inr (offsets', data')" "n \<le> length (char_bytes a g)"
    "offsets = put_word a pos @ offsets'" "data = take n (char_bytes a g) @ data'"
    using Cons(2) by (auto simp: Let_def n_def [symmetric] bind_res_Inr split: if_splits)
  have n: "2 * W + g_width g * (height div SCALE) \<le> n" using char_length_room by (simp add: W_def n_def)
  then have bytes: "take n (char_bytes a g) = put_word a (g_width g) @ put_word a (g_spacing g) @ take (n - 2 * W) (g_data g)"
    by (simp add: char_bytes_def W_def mult_2)
  have small: "g_width g < 2 ^ 31" "g_spacing g < 2 ^ 31" "pos < 2 ^ 32" using Cons(5,6) by simp_all
  have at: "drop pos mem = put_word a (g_width g) @ put_word a (g_spacing g) @ take (n - 2 * W) (g_data g) @ data' @ rest"
    using Cons(3) by (simp add: w(4) bytes)
  have "drop (pos + W) mem = put_word a (g_spacing g) @ take (n - 2 * W) (g_data g) @ data' @ rest"
    using arg_cong [OF at, of "drop W"] by (simp add: W_def add.commute)
  then have spacing: "get_word a mem (pos + W) = Inr (g_spacing g)" using get_word_at small(2) by fastforce
  have width: "get_word a mem pos = Inr (g_width g)" using get_word_at [OF at] small(1) by simp
  have offset: "get_word a mem ((5 + k) * W) = Inr pos" using get_word_at [of "(5 + k) * W" mem a pos] Cons(4) small(3) by (simp add: w(3) W_def)
  have "drop (pos + 2 * W) mem = take (n - 2 * W) (g_data g) @ data' @ rest"
    using arg_cong [OF at, of "drop (2 * W)"] by (simp add: W_def add.commute)
  moreover have "g_width g * (height div SCALE) \<le> length (take (n - 2 * W) (g_data g))" "g_width g * (height div SCALE) \<le> n - 2 * W"
    using n w(2) by (simp_all add: char_bytes_def W_def)
  ultimately have same: "same_char (height div SCALE) mem g \<lparr>c_width = wrap32 (int (g_width g)), c_spacing = wrap32 (int (g_spacing g)), c_data = pos + 2 * W\<rparr>"
    using small by (simp add: same_char_def min.absorb1)
  have "drop (pos + n) mem = data' @ rest"
    using arg_cong [OF Cons(3), of "drop n"] w(2) by (simp add: w(4) add.commute)
  moreover have "drop ((5 + Suc k) * word_size a) mem = offsets' @ rest'"
    using arg_cong [OF Cons(4), of "drop W"] by (simp add: w(3) W_def algebra_simps)
  moreover have "pos + n + length data' < 2 ^ 32" using Cons(5) w(2) by (simp add: w(4))
  ultimately obtain fs where fs: "read_chars a mem [Suc k..<Suc k + length gs] = Inr fs" "list_all2 (same_char (height div SCALE) mem) gs fs"
    using Cons(1) [OF w(1)] Cons(6) by (metis list.set_intros(2))
  have "[k..<k + length (g # gs)] = k # [Suc k..<Suc k + length gs]" by (subst upt_rec) simp
  then show ?case using offset width spacing fs same by (simp add: W_def)
qed


lemma offsets_length: "write_chars a height room pos gs = Inr (offsets, data) \<Longrightarrow> length offsets = length gs * word_size a"
  by (induction gs arbitrary: pos offsets data) (auto simp: Let_def bind_res_Inr split: if_splits)

lemma data_length: "write_chars a height room pos gs = Inr (offsets, data) \<Longrightarrow> length data = (\<Sum>g \<leftarrow> gs. char_length a height g)"
  by (induction gs arbitrary: pos offsets data) (auto simp: Let_def bind_res_Inr split: if_splits)

text \<open>The bytes of the whole font.\<close>

definition font_bytes :: "abi \<Rightarrow> x_font \<Rightarrow> nat \<Rightarrow> glyph list \<Rightarrow> string res" where
  "font_bytes a x font_size chars =
     (let head = (5 + length chars) * word_size a in
      bind_res (write_chars a (font_height x) (font_size * 2 + head) head chars) (\<lambda>(offsets, data).
        Inr (put_word a COOKIE @ put_word a FONT_FILE_VERSION @ put_word a (length chars) @
          put_word a (font_height x div SCALE) @ put_word a (font_baseline x) @ offsets @ data)))"

lemma concatenate_font_bytes:
  "concatenate_and_write_font a x room font_size gs old = bind_res (font_bytes a x font_size gs) (\<lambda>new. Inr (write_file room new old))"
  by (cases "write_chars a (font_height x) (font_size * 2 + (5 + length gs) * word_size a) ((5 + length gs) * word_size a) gs")
    (auto simp: concatenate_and_write_font_def font_bytes_def Let_def)

lemma font_roundtrip:
  assumes "font_bytes a x font_size gs = Inr new" "file = new @ rest" "(5 + length gs) * word_size a + (\<Sum>g \<leftarrow> gs. char_length a (font_height x) g) < 2 ^ 32"
    and "\<forall>g \<in> set gs. g_width g < 2 ^ 31 \<and> g_spacing g < 2 ^ 31" "font_height x < 2 ^ 32"
  shows "\<exists>mf. OpenFont a (Some file) = Inr (Some mf) \<and> f_height mf = font_height x div SCALE \<and> f_baseline mf = font_baseline x \<and>
    f_handle mf = file \<and> list_all2 (same_char (font_height x div SCALE) file) gs (f_chars mf)"
proof -
  define W where "W = word_size a"
  define head where "head = (5 + length gs) * W"
  obtain offsets data where w: "write_chars a (font_height x) (font_size * 2 + head) head gs = Inr (offsets, data)"
    "file = put_word a COOKIE @ put_word a FONT_FILE_VERSION @ put_word a (length gs) @
       put_word a (font_height x div SCALE) @ put_word a (font_baseline x) @ offsets @ data @ rest"
    using assms(1,2) by (auto simp: font_bytes_def Let_def bind_res_Inr head_def W_def)
  have offsets: "length offsets = length gs * W" using offsets_length [OF w(1)] by (simp add: W_def)
  have total: "head + length data < 2 ^ 32" using assms(3) data_length [OF w(1)] by (simp add: head_def W_def)
  have "length gs * 1 \<le> length gs * W" by (rule mult_le_mono2) (simp add: W_def Suc_leI)
  moreover have "length gs * W \<le> head" by (simp add: head_def add_mult_distrib)
  ultimately have "length gs \<le> head" by linarith
  then have small: "length gs < 2 ^ 32" "font_height x div SCALE < 2 ^ 32" "font_baseline x < 2 ^ 32"
    using total assms(5) by (simp_all add: SCALE_def font_baseline_def font_height_def)
  have words: "get_word a file 0 = Inr COOKIE" "get_word a file W = Inr FONT_FILE_VERSION" "get_word a file (2 * W) = Inr (length gs)"
    "get_word a file (3 * W) = Inr (font_height x div SCALE)" "get_word a file (4 * W) = Inr (font_baseline x)"
    using get_word_at [of "0" "file" a COOKIE] get_word_at [of W "file" a FONT_FILE_VERSION] get_word_at [of "2 * W" "file" a "length gs"]
      get_word_at [of "3 * W" "file" a "font_height x div SCALE"] get_word_at [of "4 * W" "file" a "font_baseline x"] small
    by (simp_all add: w(2) W_def COOKIE_def FONT_FILE_VERSION_def)
  have "drop head file = data @ rest" using offsets by (simp add: w(2) head_def W_def algebra_simps)
  moreover have "drop ((5 + 0) * word_size a) file = offsets @ data @ rest" by (simp add: w(2))
  ultimately obtain fs where "read_chars a file [0..<length gs] = Inr fs" "list_all2 (same_char (font_height x div SCALE) file) gs fs"
    using read_written [OF w(1) _ _ total assms(4)] by (metis add_0)
  then show ?thesis using words by (simp add: OpenFont_def W_def)
qed


section \<open>Every plain font can be written\<close>

text \<open>Sizes for which the drawing area is large enough.\<close>

definition plain_font :: "x_font \<Rightarrow> bool" where
  "plain_font x \<longleftrightarrow> 16 \<le> font_height x \<and> font_height x < 1024 \<and>
     (\<exists>per_char. rbearing x = Some per_char \<and> (\<forall>i. 0 \<le> per_char i \<and> per_char i < 1024)) \<and> (\<forall>c. 0 \<le> text_width x c \<and> text_width x c < 1024)"

definition counted_size :: "abi \<Rightarrow> x_font \<Rightarrow> glyph \<Rightarrow> nat" where
  "counted_size a x g = ((char_size a + g_width g * (font_height x div SCALE) - 1) div 4 + 1) * 4"

definition glyph_ok :: "abi \<Rightarrow> x_font \<Rightarrow> glyph \<Rightarrow> bool" where
  "glyph_ok a x g \<longleftrightarrow> g_width g < 256 \<and> g_spacing g < 2 ^ 31 \<and>
     word_size a + (if g_width g = 0 then 0 else (g_width g + 1) * (font_height x div SCALE + 1)) \<le> length (g_data g)"

lemma roundup: "m \<le> ((m - 1) div 4 + 1) * (4 :: nat)" "0 < m \<Longrightarrow> ((m - 1) div 4 + 1) * 4 \<le> m + 3"
  by presburger+

lemma char_length_bounds:
  assumes "glyph_ok a x g" "plain_font x"
  shows "char_length a (font_height x) g \<le> length (char_bytes a g)" "char_length a (font_height x) g \<le> 2 * counted_size a x g"
    "char_length a (font_height x) g \<le> char_size a + 2 ^ 16"
proof -
  define W where "W = word_size a"
  define q where "q = font_height x div 8"
  define w where "w = g_width g"
  have W: "4 \<le> W" by (simp add: W_def word_size_def)
  have q: "2 \<le> q" "q < 128" using assms(2) by (auto simp: plain_font_def q_def)
  have h: "font_height x \<le> 8 * (q + 1)" by (simp add: q_def)
  have "w * font_height x \<le> (w * (q + 1)) * 8" using mult_le_mono2 [OF h, of w] by (simp add: algebra_simps)
  then have up: "w * font_height x div 8 \<le> w * (q + 1)" using div_le_mono [of _ _ 8] by fastforce
  have m: "0 < 3 * W + w * font_height x div 8" using W by simp
  have c: "char_length a (font_height x) g \<le> 3 * W + w * (q + 1) + 3" if "w \<noteq> 0"
    using roundup(2) [OF m] up that by (simp add: char_length_def char_size_def W_def [symmetric] w_def [symmetric] SCALE_def)
  have z: "char_length a (font_height x) g = 3 * W" if "w = 0" using that by (simp add: char_length_def char_size_def W_def w_def)
  have f: "3 * W + w * q \<le> counted_size a x g"
    using roundup(1) [of "3 * W + w * q"] by (simp add: counted_size_def char_size_def W_def w_def q_def SCALE_def)
  have d: "W + (if w = 0 then 0 else (w + 1) * (q + 1)) \<le> length (g_data g)" "w < 256"
    using assms(1) by (auto simp: glyph_ok_def W_def w_def q_def SCALE_def)
  have b: "length (char_bytes a g) = 2 * W + length (g_data g)" by (simp add: char_bytes_def W_def)
  show "char_length a (font_height x) g \<le> length (char_bytes a g)"
  proof (cases "w = 0")
    case False
    then have "w * (q + 1) + 3 \<le> (w + 1) * (q + 1)" using q by (simp add: algebra_simps)
    then show ?thesis using c [OF False] d(1) b False by simp
  qed (use z d b in simp)
  show "char_length a (font_height x) g \<le> 2 * counted_size a x g"
  proof (cases "w = 0")
    case False
    have "w * 1 \<le> w * q" using q(1) by (intro mult_le_mono2) simp
    then have "w * (q + 1) \<le> 2 * (w * q)" by (simp add: algebra_simps)
    then show ?thesis using c [OF False] f W by linarith
  qed (use z f in simp)
  have "w * (q + 1) \<le> 256 * 128" using d(2) q(2) by (intro mult_le_mono) simp_all
  then show "char_length a (font_height x) g \<le> char_size a + 2 ^ 16"
    using c z by (cases "w = 0") (simp_all add: char_size_def W_def)
qed

lemma write_chars_fit:
  "\<forall>g \<in> set gs. char_length a h g \<le> length (char_bytes a g) \<Longrightarrow> pos + (\<Sum>g \<leftarrow> gs. char_length a h g) \<le> room \<Longrightarrow>
     \<exists>offsets data. write_chars a h room pos gs = Inr (offsets, data) \<and> length data = (\<Sum>g \<leftarrow> gs. char_length a h g)"
proof (induction gs arbitrary: pos)
  case (Cons g gs)
  have "\<forall>g \<in> set gs. char_length a h g \<le> length (char_bytes a g)" "pos + char_length a h g + (\<Sum>g \<leftarrow> gs. char_length a h g) \<le> room"
    using Cons(2,3) by simp_all
  then obtain offsets data where "write_chars a h room (pos + char_length a h g) gs = Inr (offsets, data)"
    "length data = (\<Sum>g \<leftarrow> gs. char_length a h g)"
    using Cons(1) by blast
  then show ?case using Cons(2,3) by (simp add: Let_def)
qed simp

lemma length_pixels [simp]: "length (pixels img w h) = (h div SCALE) * (w div SCALE)"
  by (simp add: pixels_def length_concat sum_list_triv comp_def)

lemma to_ulong_small: "0 \<le> i \<Longrightarrow> i < 2 ^ 31 \<Longrightarrow> to_ulong a i = nat i"
proof -
  assume i: "0 \<le> i" "i < 2 ^ 31"
  have "(2 :: int) ^ 31 \<le> 2 ^ (8 * word_size a)" by (intro power_increasing) (simp_all add: word_size_def)
  then show ?thesis using i by (simp add: to_ulong_def)
qed

lemma dump_char_plain:
  assumes "plain_font x"
  shows "\<exists>g. dump_char a junk x c st = Some (Inr (fst st + counted_size a x g, snd st @ [g])) \<and> glyph_ok a x g"
proof -
  define q where "q = font_height x div 8"
  have "0 \<le> text_width x c" "text_width x c < 1024" using assms by (simp_all add: plain_font_def)
  then have sp: "to_ulong a (text_width x c) < 1024" using to_ulong_small [of "text_width x c" a] by simp
  have "\<exists>g. new_char a junk x c = Some (Inr g) \<and> g_spacing g < 1024 \<and> g_width g < 2048 \<and>
      word_size a + (if g_width g = 0 then 0 else (g_width g div 8 + 1) * (q + 1)) \<le> length (g_data g)"
  proof (cases "first_char x \<le> c \<and> c \<le> last_char x")
    case True
    obtain per_char where pc: "rbearing x = Some per_char" "\<forall>i. 0 \<le> per_char i \<and> per_char i < 1024"
      using assms by (auto simp: plain_font_def)
    define rw where "rw = per_char (c - first_char x)"
    have rw: "0 \<le> rw" "rw < 1024" using pc(2) by (simp_all add: rw_def)
    define v where "v = rw + rw div 10"
    have v: "0 \<le> v" "v < 2048" "cdiv rw 10 = rw div 10" "cdiv v 8 = v div 8" using rw by (simp_all add: v_def cdiv_def)
    define room where "room = (nat v div 8 + 1) * (q + 1)"
    have total: "(v div 8 + 1) * (1 + int q) = int room"
    proof -
      have "v div 8 = int (nat v div 8)" using v(1) by (simp add: zdiv_int)
      then show ?thesis by (simp add: room_def algebra_simps)
    qed
    have "new_char a junk x c = Some (Inr \<lparr>g_width = nat v, g_spacing = to_ulong a (text_width x c),
        g_data = replicate (nat (int (char_size a + room)) - 2 * word_size a) junk\<rparr>)"
      using True v total to_ulong_small [of v a] unfolding new_char_def Let_def
      by (simp add: pc(1) rw_def [symmetric] v_def [symmetric] SCALE_def q_def [symmetric] char_size_def)
    moreover have "nat (int (char_size a + room)) - 2 * word_size a = word_size a + room" by (simp only: nat_int) (simp add: char_size_def)
    ultimately show ?thesis using v(1,2) sp by (simp add: room_def nat_less_iff)
  next
    case False
    then have "new_char a junk x c = Some (Inr \<lparr>g_width = 0, g_spacing = to_ulong a (text_width x c), g_data = replicate (word_size a + 4) junk\<rparr>)"
      unfolding new_char_def by (rule if_not_P)
    then show ?thesis using sp by simp
  qed
  then obtain g where g: "new_char a junk x c = Some (Inr g)" "g_spacing g < 1024" "g_width g < 2048"
    "word_size a + (if g_width g = 0 then 0 else (g_width g div 8 + 1) * (q + 1)) \<le> length (g_data g)" by blast
  have width: "wrap32 (int (g_width g)) = int (g_width g)" using g(3) by simp
  have none: "glyph_ok a x (g\<lparr>g_width := 0\<rparr>)" using g(2,4) by (simp add: glyph_ok_def)
  have "\<exists>g'. low_dump_char x c g = Inr g' \<and> glyph_ok a x g'"
  proof (cases "g_width g = 0 \<or> g_spacing g = 0 \<or> drawn x c = None")
    case True
    then show ?thesis using none by (auto simp: low_dump_char_def width Let_def split: option.split)
  next
    case False
    then obtain img where img: "drawn x c = Some img" "g_width g \<noteq> 0" "g_spacing g \<noteq> 0" by auto
    have d: "word_size a + (g_width g div 8 + 1) * (q + 1) \<le> length (g_data g)" using g(4) img(2) by simp
    then have "length (pixels img (g_width g) (font_height x)) \<le> length (g_data g)"
      by (simp add: SCALE_def q_def [symmetric] algebra_simps)
    moreover have "g_width g div 8 < 256" "g_spacing g div 8 < 2147483648" using g(2,3) by presburger+
    ultimately show ?thesis using d img by (simp add: low_dump_char_def width Let_def glyph_ok_def SCALE_def q_def)
  qed
  then show ?thesis using g(1) by (auto simp: dump_char_def counted_size_def)
qed


lemma dump_chars_plain:
  assumes "plain_font x"
  shows "\<exists>gs. dump_chars a junk x cs st = Some (Inr (fst st + (\<Sum>g \<leftarrow> gs. counted_size a x g), snd st @ gs)) \<and>
    length gs = length cs \<and> (\<forall>g \<in> set gs. glyph_ok a x g)"
proof (induction cs arbitrary: st)
  case Nil
  then show ?case by simp
next
  case (Cons c cs)
  obtain g where g: "dump_char a junk x c st = Some (Inr (fst st + counted_size a x g, snd st @ [g]))" "glyph_ok a x g"
    using dump_char_plain [OF assms] by blast
  obtain gs where "dump_chars a junk x cs (fst st + counted_size a x g, snd st @ [g]) =
      Some (Inr (fst st + counted_size a x g + (\<Sum>g \<leftarrow> gs. counted_size a x g), (snd st @ [g]) @ gs))"
    "length gs = length cs" "\<forall>g \<in> set gs. glyph_ok a x g"
    using Cons [of "(fst st + counted_size a x g, snd st @ [g])"] by auto
  then show ?case using g by (intro exI [of _ "g # gs"]) (simp add: add.assoc)
qed

lemma sum_list_bound: "(\<And>g. g \<in> set gs \<Longrightarrow> f g \<le> (b :: nat)) \<Longrightarrow> (\<Sum>g \<leftarrow> gs. f g) \<le> length gs * b"
  by (induction gs) (auto simp: add_mono)

lemma plain_font_bytes:
  assumes "plain_font x" "word_size a \<le> 8"
  shows "\<exists>size gs new. dump_chars a junk x [0..<256] (0, []) = Some (Inr (size, gs)) \<and> length gs = 256 \<and>
    (\<forall>g \<in> set gs. glyph_ok a x g) \<and> font_bytes a x size gs = Inr new \<and>
    (5 + length gs) * word_size a + (\<Sum>g \<leftarrow> gs. char_length a (font_height x) g) < 2 ^ 32"
proof -
  obtain gs where gs: "dump_chars a junk x [0..<256] (0, []) = Some (Inr ((\<Sum>g \<leftarrow> gs. counted_size a x g), gs))"
    "length gs = 256" "\<forall>g \<in> set gs. glyph_ok a x g"
    using dump_chars_plain [OF assms(1), of a junk "[0..<256]" "(0, [])"] by auto
  define total where "total = (\<Sum>g \<leftarrow> gs. counted_size a x g)"
  define head where "head = (5 + length gs) * word_size a"
  have "(\<Sum>g \<leftarrow> gs. char_length a (font_height x) g) \<le> (\<Sum>g \<leftarrow> gs. 2 * counted_size a x g)"
    using gs(3) char_length_bounds(2) assms(1) by (intro sum_list_mono) blast
  then have fit: "head + (\<Sum>g \<leftarrow> gs. char_length a (font_height x) g) \<le> total * 2 + head"
    by (simp add: total_def sum_list_const_mult)
  have "\<forall>g \<in> set gs. char_length a (font_height x) g \<le> length (char_bytes a g)" using gs(3) char_length_bounds(1) assms(1) by blast
  from write_chars_fit [OF this fit] obtain offsets data where
    w: "write_chars a (font_height x) (total * 2 + head) head gs = Inr (offsets, data)" by blast
  then obtain new where new: "font_bytes a x total gs = Inr new"
    by (simp add: font_bytes_def Let_def head_def)
  have "(\<Sum>g \<leftarrow> gs. char_length a (font_height x) g) \<le> length gs * (char_size a + 2 ^ 16)"
    using gs(3) char_length_bounds(3) assms(1) by (intro sum_list_bound) blast
  moreover have "char_size a \<le> 24" "head \<le> 261 * 8" using assms(2) by (simp_all add: char_size_def head_def gs(2))
  ultimately have "(5 + length gs) * word_size a + (\<Sum>g \<leftarrow> gs. char_length a (font_height x) g) < 2 ^ 32"
    by (simp add: head_def gs(2))
  then show ?thesis using gs new by (simp add: total_def)
qed

text \<open>
  C33. A font with metrics of its own for each character (\<^verbatim>\<open>per_char\<close> is not null) that fit the drawing area, 16 to 1023 dots high,
  is dumped without leaving a block. If the file can be opened and the system takes all the bytes, the file, whatever was in
  it before, opens as a font of the same height and baseline with all 256 characters: their widths, their spacings and
  the shades of their pixels. If it cannot be opened, nothing is said and it stays as it was.
\<close>

theorem font_read_back:
  assumes "plain_font x" "word_size a \<le> 8"
  shows "\<exists>size gs new. dump_chars a junk x [0..<256] (0, []) = Some (Inr (size, gs)) \<and> length gs = 256 \<and>
    (\<forall>k old. length new \<le> k \<longrightarrow>
      (\<exists>file mf. xdumpfont a junk x (Some k) old = Some (Inr (Some file)) \<and> take (length new) file = new \<and>
        OpenFont a (Some file) = Inr (Some mf) \<and>
        f_height mf = font_height x div SCALE \<and> f_baseline mf = font_baseline x \<and> f_handle mf = file \<and>
        list_all2 (same_char (font_height x div SCALE) file) gs (f_chars mf))) \<and>
    (\<forall>old. xdumpfont a junk x None old = Some (Inr old))"
proof -
  obtain size gs new where g: "dump_chars a junk x [0..<256] (0, []) = Some (Inr (size, gs))" "length gs = 256"
    "\<forall>g \<in> set gs. glyph_ok a x g" "font_bytes a x size gs = Inr new"
    "(5 + length gs) * word_size a + (\<Sum>g \<leftarrow> gs. char_length a (font_height x) g) < 2 ^ 32"
    using plain_font_bytes [OF assms] by blast
  have words: "\<forall>g \<in> set gs. g_width g < 2 ^ 31 \<and> g_spacing g < 2 ^ 31" using g(3) by (auto simp: glyph_ok_def)
  have h: "font_height x < 2 ^ 32" using assms(1) by (simp add: plain_font_def)
  have x: "xdumpfont a junk x room old = Some (Inr (write_file room new old))" for room old
    by (simp add: xdumpfont_def g(1,4) concatenate_font_bytes)
  have "\<exists>file mf. xdumpfont a junk x (Some k) old = Some (Inr (Some file)) \<and> take (length new) file = new \<and>
        OpenFont a (Some file) = Inr (Some mf) \<and>
        f_height mf = font_height x div SCALE \<and> f_baseline mf = font_baseline x \<and> f_handle mf = file \<and>
        list_all2 (same_char (font_height x div SCALE) file) gs (f_chars mf)" if "length new \<le> k" for k old
    using x [of "Some k" old] that font_roundtrip [OF g(4) refl g(5) words h, of "drop (length new) (case old of None \<Rightarrow> [] | Some s \<Rightarrow> s)"]
    by (auto simp: write_file_def)
  moreover have "xdumpfont a junk x None old = Some (Inr old)" for old using x [of None old] by (simp add: write_file_def)
  ultimately show ?thesis using g(1,2) by blast
qed

definition example_font :: x_font where
  "example_font = \<lparr>ascent = 16, descent = 8, first_char = 32, last_char = 126, rbearing = Some (\<lambda>i. if even i then 16 else 17), text_width = (\<lambda>c. 24),
     drawn = (\<lambda>c. Some (\<lambda>x y. (x + y + c) mod 2 = 0))\<rparr>"

theorem font_read_back_witness:
  "\<exists>k file mf. xdumpfont \<lparr>pad_front = 0, pad_back = 4\<rparr> NUL example_font (Some k) (Some ''old'') = Some (Inr (Some file)) \<and>
    OpenFont \<lparr>pad_front = 0, pad_back = 4\<rparr> (Some file) = Inr (Some mf) \<and>
    f_height mf = 3 \<and> f_baseline mf = 2 \<and> length (f_chars mf) = 256"
proof -
  let ?a = "\<lparr>pad_front = 0, pad_back = 4\<rparr>"
  have f: "plain_font example_font" by (simp add: plain_font_def example_font_def font_height_def)
  have h: "font_height example_font div SCALE = 3" "font_baseline example_font = 2"
    by (simp_all add: example_font_def font_height_def font_baseline_def SCALE_def)
  have w: "word_size ?a \<le> 8" by (simp add: word_size_def)
  obtain gs new where "length gs = (256 :: nat)" "\<forall>k old. length new \<le> k \<longrightarrow>
      (\<exists>file mf. xdumpfont ?a NUL example_font (Some k) old = Some (Inr (Some file)) \<and> take (length new) file = new \<and>
        OpenFont ?a (Some file) = Inr (Some mf) \<and>
        f_height mf = font_height example_font div SCALE \<and> f_baseline mf = font_baseline example_font \<and> f_handle mf = file \<and>
        list_all2 (same_char (font_height example_font div SCALE) file) gs (f_chars mf))"
    using font_read_back [OF f w, of NUL] by blast
  then show ?thesis using h by (metis list_all2_lengthD order_refl)
qed

text \<open>A font whose characters all have the same metrics makes the program read through a null pointer.\<close>

lemma constant_metrics_crash:
  "rbearing x = None \<Longrightarrow> first_char x = 0 \<Longrightarrow> xdumpfont a junk x room old = Some (Inl Out_of_bounds)"
  by (simp add: xdumpfont_def upt_rec [of 0 256] dump_char_def new_char_def)

lemma constant_metrics_crash_witness:
  "xdumpfont a junk (example_font\<lparr>rbearing := None, first_char := 0\<rparr>) (Some 9) None = Some (Inl Out_of_bounds)"
  by (rule constant_metrics_crash) simp_all

end
