(* ===== verification/Spec2Isabelle.thy ===== *)
theory Spec2Isabelle
  imports Caudium_Prelude Scratchpad Url_Codec Request_Buffer Header_Table Query_String Url_Parts Entity_Parser Tag_Attributes Dates Log_Tables Log_Format Log_Parser Nbio Nbio_Inv Nbio_Send Mhash Getdate_Lex Getdate_Parse Getdate_Ref Getdate_Acts Getdate_Run Getdate_Items Getdate Getdate_Http Getdate_Props Pcre Pixsl Smartlink Htpasswd Process_Info Fonts
begin

text \<open>
  Caudium is a web server written in Pike; the work that must be fast is done by modules in C, which this
  development models and verifies, with the tools in C beside them. Paths below are relative to \<^verbatim>\<open>src/cmods/\<close>.

  \<^bold>\<open>The parts and how they interact.\<close> A request arrives as chunks at \<^verbatim>\<open>ParseHTTP\<close>
  (\<^verbatim>\<open>_Caudium/caudium.c\<close>), which collects the head, splits it and fills the mapping of the request object; the rest of the head
  goes through the header, query-string, prestate and address parsers of the same file, whose
  percent codec, in both directions, works in the scratch pad of the thread (\<^verbatim>\<open>_Caudium/scratchpad.c\<close>). \<^verbatim>\<open>is_modified\<close>
  and the date formats (\<^verbatim>\<open>_Caudium/datetime.c\<close>) decide whether an answer is sent at all. Pages are
  expanded by the entity parser (\<^verbatim>\<open>_Caudium/entparse.c\<close>) and the tag builders. The answer is piped
  to the client by \<^verbatim>\<open>nbio\<close> (\<^verbatim>\<open>_Caudium/nb_send.c\<close>), driven by the backend's callbacks. \<^verbatim>\<open>Mhash\<close> hashes
  passwords and pages, \<^verbatim>\<open>PCRE\<close> matches regular expressions and \<^verbatim>\<open>PiXSL\<close> runs stylesheets, calling back into Pike
  for what they load. Dates given by people go through the parser of \<^verbatim>\<open>_Caudium/getdate.c\<close>. Off line \<^verbatim>\<open>UltraLog\<close> reads the access log by a compiled format
  (\<^verbatim>\<open>UltraLog/ultraparse.c\<close>) and summarises it in tables (\<^verbatim>\<open>UltraLog/ultrautil.c\<close>).

  \<^bold>\<open>Theories and sources.\<close> A function of the code is a definition of the same name; its static state
  is an argument and a result; a loop is a recursive function, one step of a loop
  that is long is a definition of its own.
  \<^item> \<^verbatim>\<open>Caudium_Prelude\<close>: bytes, C strings, C division and 32-bit wrap-around, errors (\<^verbatim>\<open>Out_of_bounds\<close> is an access
    outside a block of memory), Pike mappings as association lists in the order of insertion (where the order
    of the hash table shows in the result, as in \<^verbatim>\<open>make_tag_attributes\<close>, the order is an argument), and
    the locale \<^verbatim>\<open>draining\<close>, which proves that a machine with a falling measure finishes.
  \<^item> \<^verbatim>\<open>Scratchpad\<close>: the record of \<^verbatim>\<open>scratchpad.h\<close> and its six functions; \<^verbatim>\<open>Url_Codec\<close>: the decoders and
    encoders of \<^verbatim>\<open>caudium.c\<close> and \<^verbatim>\<open>ultrautil.c\<close> against one reference; \<^verbatim>\<open>Request_Buffer\<close>: the class
    \<^verbatim>\<open>ParseHTTP\<close>; \<^verbatim>\<open>Header_Table\<close>, \<^verbatim>\<open>Query_String\<close>, \<^verbatim>\<open>Url_Parts\<close>, \<^verbatim>\<open>Tag_Attributes\<close>: the stand-alone
    functions of \<^verbatim>\<open>caudium.c\<close>; \<^verbatim>\<open>Entity_Parser\<close>: \<^verbatim>\<open>entparse.c\<close> and its callback; \<^verbatim>\<open>Dates\<close>: the date
    functions of \<^verbatim>\<open>caudium.c\<close> and \<^verbatim>\<open>datetime.c\<close> over a model of the C library's calendar, with summer time in \<^verbatim>\<open>mktime\<close>.
  \<^item> \<^verbatim>\<open>Getdate_Lex\<close>, \<^verbatim>\<open>Getdate_Parse\<close>, \<^verbatim>\<open>Getdate\<close>: the lexer, the LALR automaton with the tables bison made, and
    \<^verbatim>\<open>get_date\<close> of \<^verbatim>\<open>getdate.c\<close>, on which \<^verbatim>\<open>parse_date\<close> rests. \<^verbatim>\<open>Getdate_Ref\<close> is the grammar as a recursive descent;
    \<^verbatim>\<open>Getdate_Acts\<close>, \<^verbatim>\<open>Getdate_Run\<close> and \<^verbatim>\<open>Getdate_Items\<close> evaluate the tables, relate the automaton to a machine on lists of
    tokens, and run that machine through every kind of item; \<^verbatim>\<open>Getdate_Http\<close> and \<^verbatim>\<open>Getdate_Props\<close> hold the properties.
  \<^item> \<^verbatim>\<open>Log_Tables\<close>: \<^verbatim>\<open>ultrautil.c\<close>; \<^verbatim>\<open>Log_Format\<close>: the format compiler; \<^verbatim>\<open>Log_Parser\<close>: the
    state machine over the bytes of the log, with its tables as the state.
  \<^item> \<^verbatim>\<open>Nbio\<close>: the state and every operation of \<^verbatim>\<open>nb_send.c\<close>; \<^verbatim>\<open>Nbio_Inv\<close>: what holds between two callbacks,
    by induction on the reachable states (a counter that the code does not have, \<open>failovers\<close>, accounts for the objects
    that replace failed mappings); \<^verbatim>\<open>Nbio_Send\<close>: what is sent, and that it is sent to the end.
  \<^item> \<^verbatim>\<open>Mhash\<close>: the modules \<^verbatim>\<open>Mhash/mhash.c\<close>, \<^verbatim>\<open>hmac.c\<close>, \<^verbatim>\<open>global.c\<close>; the library below them is a record of functions.
  \<^item> \<^verbatim>\<open>Pcre\<close>: the class \<^verbatim>\<open>Regexp\<close> of \<^verbatim>\<open>PCRE/pcre.c\<close>; \<^verbatim>\<open>Pixsl\<close>: \<^verbatim>\<open>PiXSL/sablot.c\<close> and \<^verbatim>\<open>pixsl.h\<close>, a run being a
    sequence of calls that the library makes to the handlers; the libraries below are records of functions again.
  \<^item> \<^verbatim>\<open>Process_Info\<close>: the title of the process, the memory of objects and the addresses of the host in \<^verbatim>\<open>caudium.c\<close>.
  \<^item> \<^verbatim>\<open>Smartlink\<close>: the linker wrapper \<^verbatim>\<open>tools/smartlink.c\<close> of the repository; \<^verbatim>\<open>Htpasswd\<close>: \<^verbatim>\<open>src/tools/htpasswd.c\<close>;
    \<^verbatim>\<open>Fonts\<close>: the font writer, the reader and the two printers of \<^verbatim>\<open>tools/xdumpfont\<close>, the X server being a record of functions;
    a font without metrics per character, an output that cannot be opened and a short write are cases of it.

  \<^bold>\<open>What the lemmas show.\<close> Each theory has the safety of its buffers (every index written out, \<^verbatim>\<open>Out_of_bounds\<close>
  excluded or exhibited), the functional meaning of its operations against a
  reference, and round trips where there is an inverse. Properties are numbered \<^verbatim>\<open>C1\<close>, \<^verbatim>\<open>C2\<close> and so on,
  in the order of their importance, each in the theory of its component, followed by a
  witness: the property applied to concrete values. Among them are defects the model
  exhibits: reads and writes outside a buffer, a limit that is ignored, a freed input that is used.

  \<^bold>\<open>Bounds and fuel.\<close> No definition has fuel: loops recurse on the text left or have a measure. Loops that the code leaves open are partial
  functions, whose value \<open>None\<close> is excluded where they are used: the automaton of \<^verbatim>\<open>yyparse\<close> for every date, the growth of
  the scratch pad for its fixed factor, the loop of \<^verbatim>\<open>htpasswd\<close> for a call of \<^verbatim>\<open>getline\<close> that does not return a line. The answers of
  the operating system to \<^verbatim>\<open>nbio\<close> (how many bytes a write took, what a read gave, whether a mapping succeeded) are
  lists in the state, consumed one by one; an exhausted list answers "would block" to a write, end of
  file to a read, and success to a mapping, so every run of the code is the run of some lists.
  Machine integers wrap where the code can reach the limit: the sums of the log tables and the sizes of the scratch pad.

  \<^bold>\<open>Not modelled, and why.\<close> Reference counts, thread locks and, but for the scratch pad, the entity parser and the tools, running out of memory; the registration of functions with
  the Pike interpreter; the Pike part of the server and the headers written in Pike, which are not C; the set-up of
  the X connection and the release of a font in \<^verbatim>\<open>tools/xdumpfont\<close>.
  libmhash, libpcre, Sablotron, the C library's services to the tools (\<^verbatim>\<open>getline\<close>, \<^verbatim>\<open>crypt\<close>, the shell) and the Pike interpreter's own
  functions are not under \<^verbatim>\<open>src\<close>: they are parameters with named assumptions, or the standard behaviour of Pike's mappings
  and strings. \<^verbatim>\<open>htpasswd.c\<close> calls \<^verbatim>\<open>getline\<close> with the arguments of a function it has commented out: what that call
  does is a parameter, which may be an access outside memory, and nothing is claimed of a file that exists.
\<close>

end
